(* ===== verification/Fsys_Prelude.thy ===== *)
theory Fsys_Prelude
  imports Main "HOL-Library.Word"
begin

text \<open>
  Shared vocabulary of the development: the machine-integer types of the sources, the slice
  operations of the Rust standard library on byte lists (\<open>copy_from_slice\<close>, ranges, \<open>fill(0)\<close>),
  the checked and saturating arithmetic on \<open>usize\<close>/\<open>u64\<close> values, the byte-order conversions of
  \<open>u32\<close>, and the generic lemmas about them that every component uses.

  Offsets and lengths are natural numbers; the places where the sources use a checked or a
  saturating operation write the \<^emph>\<open>64\<close>-bit bound out with the functions below.
\<close>

unbundle bit_operations_syntax

named_theorems slice_simps \<open>length and content of slices and of buffers after a copy\<close>
named_theorems result_simps \<open>case analysis of fallible calls\<close>

type_synonym u8 = "8 word"
type_synonym u32 = "32 word"
type_synonym u64 = "64 word"
type_synonym bytes = "8 word list"

section \<open>Checked and saturating arithmetic\<close>

definition u64_max :: nat where
  "u64_max = 2 ^ 64 - 1"

definition checked_add :: "nat \<Rightarrow> nat \<Rightarrow> nat option" where
  "checked_add a b = (if a + b \<le> u64_max then Some (a + b) else None)"

definition saturating_add :: "nat \<Rightarrow> nat \<Rightarrow> nat" where
  "saturating_add a b = min (a + b) u64_max"

lemma checked_add_Some_iff [simp]:
  "checked_add a b = Some c \<longleftrightarrow> c = a + b \<and> a + b \<le> u64_max"
  by (auto simp: checked_add_def)

lemma checked_add_None_iff [simp]: "checked_add a b = None \<longleftrightarrow> u64_max < a + b"
  by (auto simp: checked_add_def)

section \<open>Slices\<close>

text \<open>\<open>xs[a..b]\<close> for a range that is in bounds.\<close>

definition slice :: "nat \<Rightarrow> nat \<Rightarrow> 'a list \<Rightarrow> 'a list" where
  "slice a b xs = take (b - a) (drop a xs)"

text \<open>\<open>buf[off..off + src.len()].copy_from_slice(src)\<close> for a range that is in bounds.\<close>

definition copy_at :: "nat \<Rightarrow> 'a list \<Rightarrow> 'a list \<Rightarrow> 'a list" where
  "copy_at off src buf = take off buf @ src @ drop (off + length src) buf"

abbreviation zeros :: "nat \<Rightarrow> bytes" where
  "zeros n \<equiv> replicate n 0"

lemma length_slice [simp, slice_simps]:
  "b \<le> length xs \<Longrightarrow> length (slice a b xs) = b - a"
  by (simp add: slice_def)

lemma slice_append_left [slice_simps]:
  "b \<le> length xs \<Longrightarrow> slice a b (xs @ ys) = slice a b xs"
  by (simp add: slice_def)

lemma slice_full [simp, slice_simps]: "slice 0 (length xs) xs = xs"
  by (simp add: slice_def)

lemma slice_0_take: "slice 0 n xs = take n xs"
  by (simp add: slice_def)

lemma slice_middle [slice_simps]:
  "length pre = a \<Longrightarrow> b = a + length mid \<Longrightarrow> slice a b (pre @ mid @ post) = mid"
  by (simp add: slice_def)

lemma length_copy_at [simp, slice_simps]:
  "off + length src \<le> length buf \<Longrightarrow> length (copy_at off src buf) = length buf"
  by (simp add: copy_at_def)

lemma take_copy_at [slice_simps]:
  "off \<le> length buf \<Longrightarrow> take (off + length src) (copy_at off src buf) = take off buf @ src"
  by (simp add: copy_at_def)

lemma take_copy_at_before [slice_simps]:
  "n \<le> off \<Longrightarrow> off \<le> length buf \<Longrightarrow> take n (copy_at off src buf) = take n buf"
  by (simp add: copy_at_def min_absorb1)

lemma drop_copy_at [slice_simps]:
  "off \<le> length buf \<Longrightarrow> off + length src \<le> n \<Longrightarrow> drop n (copy_at off src buf) = drop n buf"
  by (simp add: copy_at_def)

lemma copy_at_Nil [simp]: "copy_at off [] buf = buf"
  by (simp add: copy_at_def)

lemma copy_at_0 [slice_simps]: "copy_at 0 src buf = src @ drop (length src) buf"
  by (simp add: copy_at_def)

lemma copy_at_after:
  "length pre = off \<Longrightarrow> copy_at off src (pre @ post) = pre @ copy_at 0 src post"
  by (simp add: copy_at_def)

lemma copy_at_exact [simp]: "length buf = length src \<Longrightarrow> copy_at 0 src buf = src"
  by (simp add: copy_at_def)

text \<open>Copying two adjacent chunks one after the other is copying their concatenation.\<close>

lemma copy_at_copy_at:
  assumes "off + length xs + length ys \<le> length buf"
  shows "copy_at (off + length xs) ys (copy_at off xs buf) = copy_at off (xs @ ys) buf"
  using assms by (simp add: copy_at_def ac_simps)

lemma zeros_append: "zeros (m + n) = zeros m @ zeros n"
  by (simp add: replicate_add)

lemma takeWhile_all_zero: "takeWhile (\<lambda>b. b = 0) xs = xs \<Longrightarrow> xs = zeros (length xs)"
  by (metis (mono_tags, lifting) replicate_length_same set_takeWhileD)

section \<open>Byte order\<close>

definition to_le_bytes :: "u32 \<Rightarrow> bytes" where
  "to_le_bytes w = [ucast w, ucast (drop_bit 8 w), ucast (drop_bit 16 w), ucast (drop_bit 24 w)]"

definition to_be_bytes :: "u32 \<Rightarrow> bytes" where
  "to_be_bytes w = rev (to_le_bytes w)"

definition from_le_bytes :: "u8 \<Rightarrow> u8 \<Rightarrow> u8 \<Rightarrow> u8 \<Rightarrow> u32" where
  "from_le_bytes a b c d =
     ucast a OR push_bit 8 (ucast b) OR push_bit 16 (ucast c) OR push_bit 24 (ucast d)"

definition from_be_bytes :: "u8 \<Rightarrow> u8 \<Rightarrow> u8 \<Rightarrow> u8 \<Rightarrow> u32" where
  "from_be_bytes a b c d = from_le_bytes d c b a"

text \<open>Reading four bytes of a buffer at an offset that is in bounds.\<close>

definition le_u32_at :: "bytes \<Rightarrow> nat \<Rightarrow> u32" where
  "le_u32_at bs i = from_le_bytes (bs ! i) (bs ! (i + 1)) (bs ! (i + 2)) (bs ! (i + 3))"

definition be_u32_at :: "bytes \<Rightarrow> nat \<Rightarrow> u32" where
  "be_u32_at bs i = from_be_bytes (bs ! i) (bs ! (i + 1)) (bs ! (i + 2)) (bs ! (i + 3))"

lemma length_to_le_bytes [simp]: "length (to_le_bytes w) = 4"
  by (simp add: to_le_bytes_def)

lemma length_to_be_bytes [simp]: "length (to_be_bytes w) = 4"
  by (simp add: to_be_bytes_def)

lemma from_le_bytes_to_le_bytes:
  "from_le_bytes (ucast w) (ucast (drop_bit 8 w)) (ucast (drop_bit 16 w)) (ucast (drop_bit 24 w)) = w"
  unfolding from_le_bytes_def
proof (rule bit_word_eqI)
  fix n
  assume "n < LENGTH(32)"
  then consider "n < 8" | "8 \<le> n" "n < 16" | "16 \<le> n" "n < 24" | "24 \<le> n" "n < 32"
    by fastforce
  then show "bit (ucast (ucast w :: u8) OR push_bit 8 (ucast (ucast (drop_bit 8 w) :: u8))
      OR push_bit 16 (ucast (ucast (drop_bit 16 w) :: u8))
      OR push_bit 24 (ucast (ucast (drop_bit 24 w) :: u8)) :: u32) n = bit w n"
    by cases (auto simp: bit_simps)
qed

lemma u8_no_high_bit: "8 \<le> n \<Longrightarrow> \<not> bit (w :: u8) n"
  using bit_imp_le_length [of w n] by auto

lemma to_le_bytes_from_le_bytes: "to_le_bytes (from_le_bytes a b c d) = [a, b, c, d]"
  unfolding to_le_bytes_def from_le_bytes_def
  by (auto intro!: bit_word_eqI simp: bit_simps u8_no_high_bit)

lemma le_u32_at_to_le_bytes:
  "length pre = i \<Longrightarrow> le_u32_at (pre @ to_le_bytes w @ post) i = w"
  by (simp add: le_u32_at_def to_le_bytes_def nth_append from_le_bytes_to_le_bytes)

lemma be_u32_at_to_be_bytes:
  "length pre = i \<Longrightarrow> be_u32_at (pre @ to_be_bytes w @ post) i = w"
  by (simp add: be_u32_at_def from_be_bytes_def to_be_bytes_def to_le_bytes_def nth_append
      from_le_bytes_to_le_bytes)

lemma slice4: "i + 4 \<le> length bs \<Longrightarrow> slice i (i + 4) bs = [bs ! i, bs ! (i + 1), bs ! (i + 2), bs ! (i + 3)]"
  by (rule nth_equalityI) (auto simp: slice_def less_Suc_eq numeral_eq_Suc)

lemma to_le_bytes_le_u32_at: "i + 4 \<le> length bs \<Longrightarrow> to_le_bytes (le_u32_at bs i) = slice i (i + 4) bs"
  by (simp add: le_u32_at_def to_le_bytes_from_le_bytes slice4)

lemma to_be_bytes_be_u32_at: "i + 4 \<le> length bs \<Longrightarrow> to_be_bytes (be_u32_at bs i) = slice i (i + 4) bs"
  by (simp add: be_u32_at_def from_be_bytes_def to_be_bytes_def to_le_bytes_from_le_bytes slice4)

lemma le_u32_at_append [simp]: "i + 4 \<le> length bs \<Longrightarrow> le_u32_at (bs @ cs) i = le_u32_at bs i"
  by (simp add: le_u32_at_def nth_append)

lemma be_u32_at_append [simp]: "i + 4 \<le> length bs \<Longrightarrow> be_u32_at (bs @ cs) i = be_u32_at bs i"
  by (simp add: be_u32_at_def nth_append)

lemma to_le_bytes_inject: "to_le_bytes v = to_le_bytes w \<longleftrightarrow> v = w"
proof
  assume "to_le_bytes v = to_le_bytes w"
  then have "le_u32_at ([] @ to_le_bytes v @ []) 0 = le_u32_at ([] @ to_le_bytes w @ []) 0"
    by simp
  then show "v = w"
    by (simp only: le_u32_at_to_le_bytes list.size)
qed simp

section \<open>Results\<close>

text \<open>\<open>?\<close> on a \<open>Result\<close>: continue on \<open>Ok\<close>, return the error unchanged.\<close>

definition bind_ok :: "'e + 'a \<Rightarrow> ('a \<Rightarrow> 'e + 'b) \<Rightarrow> 'e + 'b" where
  "bind_ok r f = (case r of Inl e \<Rightarrow> Inl e | Inr a \<Rightarrow> f a)"

lemma bind_ok_simps [simp, result_simps]:
  "bind_ok (Inl e) f = Inl e" "bind_ok (Inr a) f = f a"
  by (simp_all add: bind_ok_def)

lemma bind_ok_Inr_iff [result_simps]:
  "bind_ok r f = Inr b \<longleftrightarrow> (\<exists>a. r = Inr a \<and> f a = Inr b)"
  by (cases r) auto

end
