(* ===== verification/Fsys_Error.thy ===== *)
theory Fsys_Error
  imports Fsys_Prelude
begin

text \<open>
  The crate-wide error type (\<open>src/error.rs\<close>): the \<open>Error\<close> enum with its stable \<open>FS-NNNNN\<close>
  codes, its \<open>Display\<close> text and the \<open>source\<close> chain, and \<open>BatchError\<close>; the SPDK skip reasons
  that one variant carries (\<open>src/capability/types.rs\<close>); and the \<open>Result\<close> type every fallible
  definition of the development returns (\<open>Inl\<close> is \<open>Err\<close>, \<open>Inr\<close> is \<open>Ok\<close>).

  A \<open>std::io::Error\<close> is its kind together with the text its \<open>Display\<close> prints.
\<close>

section \<open>Decimal numbers and quoted strings, as the formatting machinery prints them\<close>

definition digit_char :: "nat \<Rightarrow> char" where
  "digit_char d = char_of (48 + d)"

fun show_nat :: "nat \<Rightarrow> string" where
  "show_nat n = (if n < 10 then [digit_char n] else show_nat (n div 10) @ [digit_char (n mod 10)])"

declare show_nat.simps [simp del]

definition show_int :: "int \<Rightarrow> string" where
  "show_int i = (if i < 0 then CHR ''-'' # show_nat (nat (- i)) else show_nat (nat i))"

text \<open>The escapes that \<open>{:?}\<close> puts into a quoted string of printable ASCII text.\<close>

definition debug_char :: "char \<Rightarrow> string" where
  "debug_char c =
     (if c = CHR 0x22 then [CHR 0x5C, CHR 0x22]
      else if c = CHR 0x5C then [CHR 0x5C, CHR 0x5C]
      else if c = CHR 0x0A then [CHR 0x5C, CHR ''n'']
      else if c = CHR 0x0D then [CHR 0x5C, CHR ''r'']
      else if c = CHR 0x09 then [CHR 0x5C, CHR ''t'']
      else [c])"

definition debug_str :: "string \<Rightarrow> string" where
  "debug_str s = CHR 0x22 # concat (map debug_char s) @ [CHR 0x22]"

section \<open>IO errors\<close>

datatype io_kind =
    NotFound | PermissionDenied | AlreadyExists | InvalidInput | InvalidData | UnexpectedEof
  | WriteZero | Interrupted | OutOfMemory | StorageFull | Unsupported | OtherKind

datatype io_error = IoError (io_kind: io_kind) (io_text: string)

section \<open>SPDK skip reasons\<close>

record pci_address =
  domain :: "16 word"
  bus :: u8
  device :: u8
  pci_function :: u8

datatype spdk_skip_reason =
    NotLinux
  | HugepagesNotConfigured nat nat
  | InsufficientPrivileges
  | NoNvmeDevices
  | AllDevicesInUse "pci_address list"
  | IommuNotConfigured
  | InsufficientCores nat nat
  | SpdkLibraryNotFound

fun spdk_skip_reason_display :: "spdk_skip_reason \<Rightarrow> string" where
  "spdk_skip_reason_display NotLinux =
     ''SPDK requires Linux; the current platform is unsupported''"
| "spdk_skip_reason_display (HugepagesNotConfigured current_mb recommended_mb) =
     ''hugepages not configured ('' @ show_nat current_mb @ '' MB allocated, ''
       @ show_nat recommended_mb @ '' MB recommended)''"
| "spdk_skip_reason_display InsufficientPrivileges =
     ''insufficient privileges (uid 0 or CAP_SYS_ADMIN required)''"
| "spdk_skip_reason_display NoNvmeDevices = ''no NVMe devices detected on the PCI bus''"
| "spdk_skip_reason_display (AllDevicesInUse devices) =
     ''all '' @ show_nat (length devices)
       @ '' NVMe device(s) are currently bound to the kernel 'nvme' driver''"
| "spdk_skip_reason_display IommuNotConfigured =
     ''IOMMU not configured (/sys/kernel/iommu_groups missing or empty)''"
| "spdk_skip_reason_display (InsufficientCores available recommended) =
     ''insufficient cores ('' @ show_nat available @ '' available, ''
       @ show_nat recommended @ '' recommended)''"
| "spdk_skip_reason_display SpdkLibraryNotFound =
     ''SPDK runtime library not found on the dynamic loader search path''"

section \<open>The error enum\<close>

datatype error =
    Io io_error
  | InvalidPath string string
  | HardwareProbeFailed string
  | UnsupportedPlatform string
  | UnsupportedMethod string
  | AlignmentRequired string
  | AtomicReplaceFailed string io_error
  | PartialDirectoryOp string "string list"
  | ShutdownInProgress
  | QueueFull
  | IoUringSetupFailed io_error
  | MmapFailed string
  | BufferPoolExhausted
  | PlpDetectionUnavailable string
  | NvmePassthroughUnsupported string
  | NvmePassthroughDenied string
  | AsyncRuntimeRequired
  | GlobPatternInvalid string
  | HandlePoisoned string
  | IoUringSubmitFailed int
  | CompletionDriverDead
  | FeatureNotEnabled string
  | SpdkUnavailable spdk_skip_reason

type_synonym 'a result = "error + 'a"

fun code :: "error \<Rightarrow> string" where
  "code (Io _) = ''FS-00001''"
| "code (InvalidPath _ _) = ''FS-00002''"
| "code (HardwareProbeFailed _) = ''FS-00003''"
| "code (UnsupportedPlatform _) = ''FS-00004''"
| "code (UnsupportedMethod _) = ''FS-00005''"
| "code (AlignmentRequired _) = ''FS-00006''"
| "code (AtomicReplaceFailed _ _) = ''FS-00007''"
| "code (PartialDirectoryOp _ _) = ''FS-00008''"
| "code ShutdownInProgress = ''FS-00009''"
| "code QueueFull = ''FS-00010''"
| "code (IoUringSetupFailed _) = ''FS-00011''"
| "code (MmapFailed _) = ''FS-00012''"
| "code BufferPoolExhausted = ''FS-00013''"
| "code (PlpDetectionUnavailable _) = ''FS-00014''"
| "code (NvmePassthroughUnsupported _) = ''FS-00015''"
| "code (NvmePassthroughDenied _) = ''FS-00016''"
| "code AsyncRuntimeRequired = ''FS-00017''"
| "code (GlobPatternInvalid _) = ''FS-00018''"
| "code (HandlePoisoned _) = ''FS-00019''"
| "code (IoUringSubmitFailed _) = ''FS-00020''"
| "code CompletionDriverDead = ''FS-00021''"
| "code (FeatureNotEnabled _) = ''FS-00022''"
| "code (SpdkUnavailable _) = ''FS-00023''"

definition tagged :: "error \<Rightarrow> string \<Rightarrow> string" where
  "tagged e text = ''['' @ code e @ ''] '' @ text"

fun error_display :: "error \<Rightarrow> string" where
  "error_display (Io e) = tagged (Io e) (''io error: '' @ io_text e)"
| "error_display (InvalidPath path reason) =
     tagged (InvalidPath path reason) (''invalid path '' @ debug_str path @ '': '' @ reason)"
| "error_display (HardwareProbeFailed detail) =
     tagged (HardwareProbeFailed detail) (''hardware probe failed: '' @ detail)"
| "error_display (UnsupportedPlatform detail) =
     tagged (UnsupportedPlatform detail) (''unsupported platform: '' @ detail)"
| "error_display (UnsupportedMethod method) =
     tagged (UnsupportedMethod method)
       (''method '' @ [CHR 0x27] @ method @ [CHR 0x27] @ '' is not implemented in this release'')"
| "error_display (AlignmentRequired detail) =
     tagged (AlignmentRequired detail) (''alignment requirement failed: '' @ detail)"
| "error_display (AtomicReplaceFailed step e) =
     tagged (AtomicReplaceFailed step e)
       (''atomic write-replace failed at step '' @ [CHR 0x27] @ step @ [CHR 0x27] @ '': '' @ io_text e)"
| "error_display (PartialDirectoryOp failed_step completed_steps) =
     tagged (PartialDirectoryOp failed_step completed_steps)
       (''directory op failed at '' @ [CHR 0x27] @ failed_step @ [CHR 0x27] @ '' after ''
         @ show_nat (length completed_steps) @ '' completed step(s)'')"
| "error_display ShutdownInProgress =
     tagged ShutdownInProgress ''handle is shutting down; batch submission rejected''"
| "error_display QueueFull =
     tagged QueueFull ''group-lane queue is full (reserved variant; never emitted in 0.4.0)''"
| "error_display (IoUringSetupFailed e) =
     tagged (IoUringSetupFailed e) (''io_uring_setup failed: '' @ io_text e)"
| "error_display (MmapFailed reason) =
     tagged (MmapFailed reason) (''mmap operation failed: '' @ reason)"
| "error_display BufferPoolExhausted =
     tagged BufferPoolExhausted
       ''aligned buffer pool exhausted (reserved variant; never emitted in 0.5.0)''"
| "error_display (PlpDetectionUnavailable detail) =
     tagged (PlpDetectionUnavailable detail) (''PLP detection unavailable: '' @ detail)"
| "error_display (NvmePassthroughUnsupported detail) =
     tagged (NvmePassthroughUnsupported detail) (''NVMe passthrough unsupported: '' @ detail)"
| "error_display (NvmePassthroughDenied detail) =
     tagged (NvmePassthroughDenied detail) (''NVMe passthrough denied: '' @ detail)"
| "error_display AsyncRuntimeRequired =
     tagged AsyncRuntimeRequired ''async method called outside an active tokio runtime''"
| "error_display (GlobPatternInvalid reason) =
     tagged (GlobPatternInvalid reason) (''invalid glob pattern: '' @ reason)"
| "error_display (HandlePoisoned reason) =
     tagged (HandlePoisoned reason) (''async substrate poisoned: '' @ reason)"
| "error_display (IoUringSubmitFailed errno) =
     tagged (IoUringSubmitFailed errno)
       (''io_uring submit failed (errno '' @ show_int errno @ '')'')"
| "error_display CompletionDriverDead =
     tagged CompletionDriverDead ''io_uring completion driver task is no longer running''"
| "error_display (FeatureNotEnabled feature) =
     tagged (FeatureNotEnabled feature)
       (''required Cargo feature '' @ [CHR 0x27] @ feature @ [CHR 0x27]
         @ '' is not enabled in this build'')"
| "error_display (SpdkUnavailable reason) =
     tagged (SpdkUnavailable reason) (''SPDK backend unavailable: '' @ spdk_skip_reason_display reason)"

fun error_source :: "error \<Rightarrow> io_error option" where
  "error_source (Io e) = Some e"
| "error_source (AtomicReplaceFailed _ e) = Some e"
| "error_source (IoUringSetupFailed e) = Some e"
| "error_source _ = None"

record batch_error =
  failed_at :: nat
  completed :: nat
  batch_source :: error

definition batch_error_display :: "batch_error \<Rightarrow> string" where
  "batch_error_display e =
     ''batch failed at op '' @ show_nat (failed_at e) @ '' after '' @ show_nat (completed e)
       @ '' successful op(s): '' @ error_display (batch_source e)"

text \<open>The constructor of a value, without its fields: what a code has to identify.\<close>

definition same_variant :: "error \<Rightarrow> error \<Rightarrow> bool" where
  "same_variant a b \<longleftrightarrow>
     (case (a, b) of
        (Io _, Io _) \<Rightarrow> True
      | (InvalidPath _ _, InvalidPath _ _) \<Rightarrow> True
      | (HardwareProbeFailed _, HardwareProbeFailed _) \<Rightarrow> True
      | (UnsupportedPlatform _, UnsupportedPlatform _) \<Rightarrow> True
      | (UnsupportedMethod _, UnsupportedMethod _) \<Rightarrow> True
      | (AlignmentRequired _, AlignmentRequired _) \<Rightarrow> True
      | (AtomicReplaceFailed _ _, AtomicReplaceFailed _ _) \<Rightarrow> True
      | (PartialDirectoryOp _ _, PartialDirectoryOp _ _) \<Rightarrow> True
      | (IoUringSetupFailed _, IoUringSetupFailed _) \<Rightarrow> True
      | (MmapFailed _, MmapFailed _) \<Rightarrow> True
      | (PlpDetectionUnavailable _, PlpDetectionUnavailable _) \<Rightarrow> True
      | (NvmePassthroughUnsupported _, NvmePassthroughUnsupported _) \<Rightarrow> True
      | (NvmePassthroughDenied _, NvmePassthroughDenied _) \<Rightarrow> True
      | (GlobPatternInvalid _, GlobPatternInvalid _) \<Rightarrow> True
      | (HandlePoisoned _, HandlePoisoned _) \<Rightarrow> True
      | (IoUringSubmitFailed _, IoUringSubmitFailed _) \<Rightarrow> True
      | (FeatureNotEnabled _, FeatureNotEnabled _) \<Rightarrow> True
      | (SpdkUnavailable _, SpdkUnavailable _) \<Rightarrow> True
      | (x, y) \<Rightarrow> x = y)"

section \<open>Codes are stable identifiers\<close>

lemma length_code [simp]: "length (code e) = 8"
  by (cases e) simp_all

lemma error_display_tagged: "\<exists>text. error_display e = tagged e text"
  by (cases e) (auto simp: error_display.simps)

lemma code_eq_same_variant: "code a = code b \<longleftrightarrow> same_variant a b"
  by (cases a; cases b) (simp_all add: same_variant_def)

lemma error_display_determines_code:
  "error_display a = error_display b \<Longrightarrow> code a = code b"
  using error_display_tagged [of a] error_display_tagged [of b]
  by (auto simp: tagged_def)

section \<open>Properties\<close>

text \<open>
  The codes identify the variants one to one, and the printed text of an error starts with its
  code in brackets, so that two errors that print alike have the same variant.
\<close>

lemma error_codes_identify_variants:
  "(code a = code b \<longleftrightarrow> same_variant a b) \<and>
   take 11 (error_display a) = ''['' @ code a @ ''] ''"
proof -
  obtain t where "error_display a = tagged a t" using error_display_tagged by blast
  then show ?thesis by (simp add: code_eq_same_variant tagged_def)
qed

end
