(* ===== verification/Fsys_Platform.thy ===== *)
theory Fsys_Platform
  imports Fsys_Error
begin

text \<open>
  The platform layer that the journal writes through (\<open>src/platform/mod.rs\<close>,
  \<open>src/platform/linux.rs\<close>, the chunking helper of \<open>src/platform/linux_iouring.rs\<close>): sector
  rounding, aligned buffers and the positioned-write loops.

  The kernel is the environment. A \<open>disk\<close> holds the bytes of one file, the results the next
  system calls will report (an error or a byte count; an exhausted script means that every
  later call transfers everything it was asked for) and whether aligned allocations fail.
  \<open>put_at\<close> is the POSIX effect of writing bytes at an offset: the file grows when needed and a
  gap reads as zeros.
\<close>

section \<open>The environment\<close>

datatype sys_result = SysErr io_error | SysN nat

record disk =
  contents :: bytes
  script :: "sys_result list"
  oom :: bool

definition put_at :: "nat \<Rightarrow> bytes \<Rightarrow> bytes \<Rightarrow> bytes" where
  "put_at off bs F =
     (if bs = [] then F
      else take off F @ zeros (off - length F) @ bs @ drop (off + length bs) F)"

text \<open>
  \<open>pwrite(2)\<close>: a negative offset is refused; otherwise the script decides, and at most the
  bytes given are transferred.
\<close>

definition sys_pwrite :: "disk \<Rightarrow> int \<Rightarrow> bytes \<Rightarrow> disk \<times> sys_result" where
  "sys_pwrite d off data =
     (if off < 0 then (d, SysErr (IoError InvalidInput ''Invalid argument (os error 22)''))
      else case script d of
          [] \<Rightarrow> (d\<lparr>contents := put_at (nat off) data (contents d)\<rparr>, SysN (length data))
        | SysErr e # s \<Rightarrow> (d\<lparr>script := s\<rparr>, SysErr e)
        | SysN n # s \<Rightarrow>
            (let k = min n (length data)
             in (d\<lparr>contents := put_at (nat off) (take k data) (contents d), script := s\<rparr>, SysN k)))"

section \<open>Definitions\<close>

subsection \<open>Sector rounding and aligned buffers\<close>

definition is_power_of_two :: "nat \<Rightarrow> bool" where
  "is_power_of_two a \<longleftrightarrow> (\<exists>k\<le>63. a = 2 ^ k)"

definition round_up :: "nat \<Rightarrow> nat \<Rightarrow> nat" where
  "round_up n align = unat ((word_of_nat n + word_of_nat align - 1 :: u64) AND NOT (word_of_nat align - 1))"

definition aligned_buf_new :: "disk \<Rightarrow> nat \<Rightarrow> nat \<Rightarrow> bytes result" where
  "aligned_buf_new d sz align =
     (if sz = 0 then Inl (AlignmentRequired
        ''AlignedBuf::new called with size=0; callers must short-circuit empty Direct IO before reaching the buffer allocator'')
      else if \<not> is_power_of_two align \<or> 2 ^ 63 - align < sz then
        Inl (AlignmentRequired ''invalid size/align combination for Direct IO buffer'')
      else if oom d then
        Inl (Io (IoError OutOfMemory ''Direct IO aligned buffer allocation failed''))
      else Inr (zeros sz))"

subsection \<open>Positioned writes\<close>

text \<open>\<open>offset as i64\<close>.\<close>

definition as_i64 :: "nat \<Rightarrow> int" where
  "as_i64 o1 = (if o1 < 2 ^ 63 then int o1 else int (o1 mod 2 ^ 64) - 2 ^ 64)"

lemma as_i64_negative: "\<not> o1 < 2 ^ 63 \<Longrightarrow> as_i64 o1 < 0"
proof -
  assume "\<not> o1 < 2 ^ 63"
  moreover have "o1 mod 2 ^ 64 < 2 ^ 64" by simp
  then have "int (o1 mod 2 ^ 64) < 2 ^ 64" by (simp only: of_nat_less_numeral_power_cancel_iff)
  ultimately show ?thesis by (simp add: as_i64_def)
qed

function write_at_loop :: "disk \<Rightarrow> nat \<Rightarrow> bytes \<Rightarrow> nat \<Rightarrow> disk \<times> unit result" where
  "write_at_loop d offset data written =
     (if length data \<le> written then (d, Inr ())
      else if 2 ^ 63 \<le> as_i64 offset + int written then
        (d, Inl (Io (IoError InvalidInput ''write_at: offset overflow'')))
      else case sys_pwrite d (as_i64 offset + int written) (drop written data) of
          (d', SysErr e) \<Rightarrow>
            if io_kind e = Interrupted then write_at_loop d' offset data written
            else (d', Inl (Io e))
        | (d', SysN n) \<Rightarrow>
            if n = 0 then
              (d', Inl (Io (IoError WriteZero ''pwrite returned 0 in write_at (no progress)'')))
            else write_at_loop d' offset data (written + n))"
  by pat_completeness auto
termination
  by (relation "measure (\<lambda>(d, off, data, written). length (script d) + (length data - written))")
    (auto simp: sys_pwrite_def Let_def split: if_splits list.splits sys_result.splits)

declare write_at_loop.simps [simp del]

definition write_at :: "disk \<Rightarrow> nat \<Rightarrow> bytes \<Rightarrow> disk \<times> unit result" where
  "write_at d offset data = write_at_loop d offset data 0"

definition write_at_direct :: "disk \<Rightarrow> nat \<Rightarrow> bytes \<Rightarrow> disk \<times> unit result" where
  "write_at_direct d offset data = write_at d offset data"

subsection \<open>Chunked transfers over io\_uring\<close>

definition MAX_SQE_LEN :: nat where
  "MAX_SQE_LEN = 0x7fff0000"

definition advance :: "nat \<Rightarrow> nat \<Rightarrow> nat result" where
  "advance offset done1 =
     (case checked_add offset done1 of
        Some p \<Rightarrow> Inr p
      | None \<Rightarrow> Inl (Io (IoError InvalidInput ''io_uring transfer offset overflows u64'')))"

text \<open>
  \<open>transfer\<close> with the step of \<open>write_at_fixed\<close>: one fixed-buffer write of the chunk
  \<open>buf[start..start + len]\<close> through the ring, whose completion is the next entry of the script.
\<close>

definition write_fixed_step :: "disk \<Rightarrow> bytes \<Rightarrow> nat \<Rightarrow> nat \<Rightarrow> nat \<Rightarrow> disk \<times> nat result" where
  "write_fixed_step d buf start len off =
     (case script d of
        SysErr e # s \<Rightarrow> (d\<lparr>script := s\<rparr>, Inl (Io e))
      | SysN n # s \<Rightarrow>
          (let k = min n len
           in (d\<lparr>contents := put_at off (slice start (start + k) buf) (contents d), script := s\<rparr>, Inr k))
      | [] \<Rightarrow> (d\<lparr>contents := put_at off (slice start (start + len) buf) (contents d)\<rparr>, Inr len))"

function transfer_write :: "disk \<Rightarrow> bytes \<Rightarrow> nat \<Rightarrow> nat \<Rightarrow> disk \<times> nat result" where
  "transfer_write d buf offset done1 =
     (if length buf \<le> done1 then (d, Inr done1)
      else let len = min (length buf - done1) MAX_SQE_LEN
       in case advance offset done1 of
            Inl e \<Rightarrow> (d, Inl e)
          | Inr off \<Rightarrow>
              (case write_fixed_step d buf done1 len off of
                 (d', Inl e) \<Rightarrow> (d', Inl e)
               | (d', Inr n) \<Rightarrow>
                   if n = 0 then (d', Inr done1)
                   else transfer_write d' buf offset (done1 + min n len)))"
  by pat_completeness auto
termination
  by (relation "measure (\<lambda>(d, buf, off, done1). length buf - done1)") (auto simp: MAX_SQE_LEN_def)

declare transfer_write.simps [simp del]

definition write_at_fixed :: "disk \<Rightarrow> bytes \<Rightarrow> nat \<Rightarrow> disk \<times> nat result" where
  "write_at_fixed d buf offset = transfer_write d buf offset 0"

section \<open>What a positioned write leaves in the file\<close>

lemma put_at_Nil [simp]: "put_at off [] F = F"
  by (simp add: put_at_def)

lemma length_put_at:
  "bs \<noteq> [] \<Longrightarrow> length (put_at off bs F) = max (length F) (off + length bs)"
  by (simp add: put_at_def)

lemma take_put_at_before: "n \<le> off \<Longrightarrow> off \<le> length F \<Longrightarrow> take n (put_at off bs F) = take n F"
  by (simp add: put_at_def min_absorb1)

lemma take_put_at_end:
  "off \<le> length F \<Longrightarrow> take (off + length bs) (put_at off bs F) = take off F @ bs"
  by (auto simp: put_at_def)

lemma drop_put_at: "off + length bs \<le> n \<Longrightarrow> off \<le> length F \<Longrightarrow> drop n (put_at off bs F) = drop n F"
  by (auto simp: put_at_def)

lemma nth_put_at:
  assumes "i < length F \<or> (off \<le> i \<and> i < off + length bs)"
  shows "put_at off bs F ! i = (if off \<le> i \<and> i < off + length bs then bs ! (i - off) else F ! i)"
proof (cases "bs = []")
  case False
  obtain pre where p: "put_at off bs F = pre @ bs @ drop (off + length bs) F" and l: "length pre = off"
    and pre: "\<forall>i<off. i < length F \<longrightarrow> pre ! i = F ! i"
  proof
    show "put_at off bs F = (take off F @ zeros (off - length F)) @ bs @ drop (off + length bs) F"
      using False by (simp add: put_at_def)
  qed (simp_all add: nth_append)
  consider "i < off" | "off \<le> i" "i < off + length bs" | "off + length bs \<le> i" by linarith
  then show ?thesis
  proof cases
    case 3
    then have "\<not> i - off < length bs" "\<not> i < off" "off + length bs + (i - off - length bs) = i" by auto
    with 3 assms show ?thesis unfolding p by (simp add: nth_append l)
  qed (use assms pre in \<open>auto simp: p nth_append l\<close>)
qed auto

lemma length_put_at_le: "length F \<le> length (put_at off bs F)"
  by (cases "bs = []") (simp_all add: length_put_at)

lemma put_at_put_at:
  "put_at (off + length xs) ys (put_at off xs F) = put_at off (xs @ ys) F"
proof (cases "xs = [] \<or> ys = []")
  case False
  then show ?thesis
    by (cases "length F \<le> off + length xs")
      (auto simp: put_at_def ac_simps)
qed auto

lemma sys_pwrite_SysN:
  "sys_pwrite d off data = (d', SysN n) \<Longrightarrow>
     0 \<le> off \<and> n \<le> length data \<and> contents d' = put_at (nat off) (take n data) (contents d)"
  by (auto simp: sys_pwrite_def Let_def split: if_splits list.splits sys_result.splits)

lemma sys_pwrite_SysErr: "sys_pwrite d off data = (d', SysErr e) \<Longrightarrow> contents d' = contents d"
  by (auto simp: sys_pwrite_def Let_def split: if_splits list.splits sys_result.splits)

lemma sys_pwrite_oom: "sys_pwrite d off data = (d', r) \<Longrightarrow> oom d' = oom d"
  by (auto simp: sys_pwrite_def Let_def split: if_splits list.splits sys_result.splits)

text \<open>
  The loop invariant: from \<open>written\<close> on, the call puts some prefix of the remaining bytes
  right behind what is already there, and all of them when it reports success.
\<close>

lemma write_at_loop_effect:
  assumes "write_at_loop d off data w = (d', r)" and "off < 2 ^ 63" and "w \<le> length data"
  shows "\<exists>n\<le>length data - w.
           contents d' = put_at (off + w) (take n (drop w data)) (contents d) \<and>
           (r = Inr () \<longrightarrow> n = length data - w)"
  using assms
proof (induction d off data w arbitrary: d' r rule: write_at_loop.induct)
  case (1 d off data w)
  show ?case
  proof (cases "length data \<le> w \<or> 2 ^ 63 \<le> as_i64 off + int w")
    case True
    with "1.prems" show ?thesis
      by (subst (asm) write_at_loop.simps) (auto split: if_splits)
  next
    case False
    obtain d1 sr where call: "sys_pwrite d (as_i64 off + int w) (drop w data) = (d1, sr)"
      by fastforce
    have off: "nat (as_i64 off + int w) = off + w"
      using "1.prems"(2) by (simp add: as_i64_def nat_add_distrib)
    show ?thesis
    proof (cases sr)
      case (SysErr e)
      with call have same: "contents d1 = contents d"
        by (simp add: sys_pwrite_SysErr)
      show ?thesis
      proof (cases "io_kind e = Interrupted")
        case True
        with "1.prems"(1) False call SysErr have "write_at_loop d1 off data w = (d', r)"
          by (subst (asm) write_at_loop.simps) simp
        with "1.IH"(1) [OF _ _ call [symmetric] SysErr True] False "1.prems"(2,3) same
        show ?thesis by auto
      next
        case no: False
        with "1.prems"(1) False call SysErr have "d' = d1 \<and> r = Inl (Io e)"
          by (subst (asm) write_at_loop.simps) simp
        with same show ?thesis by (intro exI [of _ 0]) auto
      qed
    next
      case (SysN k)
      from sys_pwrite_SysN [OF call [unfolded SysN]] have k: "k \<le> length data - w"
        and d1: "contents d1 = put_at (off + w) (take k (drop w data)) (contents d)"
        by (auto simp: off)
      show ?thesis
      proof (cases "k = 0")
        case True
        with "1.prems"(1) False call SysN
        have "d' = d1 \<and> r \<noteq> Inr ()"
          by (subst (asm) write_at_loop.simps) auto
        with d1 True show ?thesis by (intro exI [of _ 0]) auto
      next
        case pos: False
        with "1.prems"(1) False call SysN have "write_at_loop d1 off data (w + k) = (d', r)"
          by (subst (asm) write_at_loop.simps) simp
        moreover from k False have "w + k \<le> length data" by arith
        ultimately obtain n where n: "n \<le> length data - (w + k)"
          and d': "contents d' = put_at (off + (w + k)) (take n (drop (w + k) data)) (contents d1)"
          and full: "r = Inr () \<longrightarrow> n = length data - (w + k)"
          using "1.IH"(2) [OF _ _ call [symmetric] SysN pos] False "1.prems"(2) by auto
        have "contents d' = put_at (off + w) (take (k + n) (drop w data)) (contents d)"
          using put_at_put_at [of "off + w" "take k (drop w data)" "take n (drop (w + k) data)"
              "contents d"] d1 d' k
          by (simp add: take_add ac_simps)
        with n k full show ?thesis by (intro exI [of _ "k + n"]) auto
      qed
    qed
  qed
qed

text \<open>The contract of \<open>write_at\<close>, as the journal uses it.\<close>

lemma write_at_huge_offset:
  assumes "\<not> off < 2 ^ 63"
  shows "write_at d off data =
    (d, if data = [] then Inr () else Inl (Io (IoError InvalidInput ''Invalid argument (os error 22)'')))"
  using as_i64_negative [OF assms]
  by (simp add: write_at_def write_at_loop.simps [of d] sys_pwrite_def)

lemma write_at_effect:
  "write_at d off data = (d', r) \<Longrightarrow>
     \<exists>n\<le>length data. contents d' = put_at off (take n data) (contents d) \<and>
       (r = Inr () \<longrightarrow> n = length data)"
proof (cases "off < 2 ^ 63")
  case True
  assume "write_at d off data = (d', r)"
  from write_at_loop_effect [OF this [unfolded write_at_def] True] show ?thesis by auto
next
  case False
  assume "write_at d off data = (d', r)"
  then show ?thesis
    by (auto simp: write_at_huge_offset [OF False] intro!: exI [of _ 0] split: if_splits)
qed

lemma write_at_ok:
  "write_at d off data = (d', Inr ()) \<Longrightarrow> contents d' = put_at off data (contents d)"
  by (drule write_at_effect) auto

lemma advance_ok: "\<not> u64_max < off + w \<Longrightarrow> advance off w = Inr (off + w)"
  by (simp add: advance_def checked_add_def)

lemma advance_overflow:
  "u64_max < off + w \<Longrightarrow>
     advance off w = Inl (Io (IoError InvalidInput ''io_uring transfer offset overflows u64''))"
  by (simp add: advance_def checked_add_def)

lemma write_fixed_step_effect:
  assumes "write_fixed_step d buf start len off = (d', r)" and "start + len \<le> length buf"
  shows "(\<exists>e. r = Inl e \<and> contents d' = contents d) \<or>
         (\<exists>k\<le>len. r = Inr k \<and> contents d' = put_at off (take k (drop start buf)) (contents d))"
  using assms
  by (auto simp: write_fixed_step_def slice_def Let_def split: list.splits sys_result.splits)

lemma transfer_write_effect:
  assumes "transfer_write d buf off w = (d', r)" and "w \<le> length buf"
  shows "\<exists>n\<le>length buf - w.
           contents d' = put_at (off + w) (take n (drop w buf)) (contents d) \<and>
           (\<forall>m. r = Inr m \<longrightarrow> m = w + n)"
  using assms
proof (induction d buf off w arbitrary: d' r rule: transfer_write.induct)
  case (1 d buf off w)
  let ?len = "min (length buf - w) MAX_SQE_LEN"
  consider (stop) "length buf \<le> w \<or> u64_max < off + w"
    | (step) d1 sr where "\<not> length buf \<le> w" "advance off w = Inr (off + w)"
      "write_fixed_step d buf w ?len (off + w) = (d1, sr)"
    using advance_ok [of off w] by (metis surj_pair)
  then show ?case
  proof cases
    case stop
    then have "d' = d" "\<forall>m. r = Inr m \<longrightarrow> m = w"
      using "1.prems" by (auto simp: transfer_write.simps [of d buf off w] advance_overflow Let_def
          split: if_splits)
    then show ?thesis by (intro exI [of _ 0]) simp
  next
    case step
    have bound: "w + ?len \<le> length buf" using step(1) by auto
    from write_fixed_step_effect [OF step(3) bound]
    consider (err) e where "sr = Inl e" "contents d1 = contents d"
      | (ok) k where "sr = Inr k" "k \<le> ?len"
          "contents d1 = put_at (off + w) (take k (drop w buf)) (contents d)"
      by blast
    then show ?thesis
    proof cases
      case err
      with "1.prems"(1) step have "d' = d1" "r = Inl e"
        by (simp_all add: transfer_write.simps [of d buf off w] Let_def)
      with err show ?thesis by (intro exI [of _ 0]) simp
    next
      case ok
      show ?thesis
      proof (cases "k = 0")
        case True
        with "1.prems"(1) step ok have "d' = d1" "r = Inr w"
          by (simp_all add: transfer_write.simps [of d buf off w] Let_def)
        with ok True show ?thesis by (intro exI [of _ 0]) simp
      next
        case False
        with "1.prems"(1) step ok have rec: "transfer_write d1 buf off (w + k) = (d', r)"
          by (simp add: transfer_write.simps [of d buf off w] Let_def min_absorb1)
        have wk: "w + k \<le> length buf" using ok(2) bound by linarith
        have mk: "min k ?len = k" using ok(2) by simp
        from "1.IH" [OF step(1) refl step(2) step(3) [unfolded ok(1), symmetric] refl False,
            unfolded mk, OF rec wk]
        obtain n where n: "n \<le> length buf - (w + k)"
          and d': "contents d' = put_at (off + (w + k)) (take n (drop (w + k) buf)) (contents d1)"
          and r: "\<forall>m. r = Inr m \<longrightarrow> m = w + k + n"
          by auto
        have "contents d' = put_at (off + w) (take (k + n) (drop w buf)) (contents d)"
          using put_at_put_at [of "off + w" "take k (drop w buf)" "take n (drop (w + k) buf)"
              "contents d"] ok(3) d' wk
          by (simp add: take_add ac_simps)
        moreover have "k + n \<le> length buf - w" using n wk by linarith
        moreover have "\<forall>m. r = Inr m \<longrightarrow> m = w + (k + n)" using r by (simp only: add.assoc)
        ultimately show ?thesis by blast
      qed
    qed
  qed
qed

section \<open>Rounding to a sector\<close>

lemma and_not_mask_unat:
  fixes x :: u64
  shows "unat (x AND NOT (mask k)) = unat x - unat x mod 2 ^ k"
proof -
  have "x AND NOT (mask k) = x - take_bit k x"
  proof -
    have "NOT x AND take_bit k x = 0"
      by (rule bit_word_eqI) (simp add: bit_simps)
    then have "x - take_bit k x = x AND NOT (take_bit k x)"
      by (rule disjunctive_diff_eq_and_not)
    also have "\<dots> = x AND NOT (mask k)"
      by (rule bit_word_eqI) (auto simp: bit_simps)
    finally show ?thesis by simp
  qed
  moreover have "unat (take_bit k x) = unat x mod 2 ^ k"
    by (subst unsigned_take_bit_eq) (simp only: take_bit_eq_mod)
  moreover have "take_bit k x \<le> x"
    by (simp add: word_le_nat_alt \<open>unat (take_bit k x) = unat x mod 2 ^ k\<close>)
  ultimately show ?thesis
    by (simp add: unat_sub)
qed

lemma round_up_eq:
  assumes "is_power_of_two a" and "n + a \<le> 2 ^ 64"
  shows "round_up n a = (n + a - 1) div a * a"
proof -
  from assms(1) obtain k where k: "k \<le> 63" "a = 2 ^ k"
    by (auto simp: is_power_of_two_def)
  have a: "1 \<le> a" using k by simp
  have m: "(word_of_nat a :: u64) - 1 = mask k"
    using k by (simp add: mask_eq_exp_minus_1)
  have "(word_of_nat n + word_of_nat a - 1 :: u64) = word_of_nat (n + a - 1)"
    using a by (simp add: of_nat_diff)
  moreover have "unat (word_of_nat (n + a - 1) :: u64) = n + a - 1"
    using assms(2) a by (subst unat_of_nat) simp
  ultimately have "round_up n a = (n + a - 1) - (n + a - 1) mod a"
    unfolding round_up_def m and_not_mask_unat using k by simp
  then show ?thesis
    by (simp add: minus_mod_eq_div_mult)
qed

section \<open>The interface of a positioned writer\<close>

text \<open>
  What a client may assume of a positioned write: the bytes that reach the file are a prefix of
  the ones given, at the offset given, and all of them when the call reports success. Nothing is
  promised about how much of a failed write is in the file.
\<close>

locale positioned_writer =
  fixes pw :: "disk \<Rightarrow> nat \<Rightarrow> bytes \<Rightarrow> disk \<times> unit result"
  assumes pw_effect:
    "pw d off data = (d', r) \<Longrightarrow>
       \<exists>n\<le>length data. contents d' = put_at off (take n data) (contents d) \<and>
         (r = Inr () \<longrightarrow> n = length data)"
begin

lemma pw_ok: "pw d off data = (d', Inr ()) \<Longrightarrow> contents d' = put_at off data (contents d)"
  by (drule pw_effect) auto

lemma pw_below:
  assumes "pw d off data = (d', r)" and "n \<le> off" and "off \<le> length (contents d)"
  shows "take n (contents d') = take n (contents d)"
  using pw_effect [OF assms(1)] assms(2,3) by (auto simp: take_put_at_before)

lemma pw_through:
  assumes "pw d off data = (d', Inr ())" and "off \<le> length (contents d)"
  shows "take (off + length data) (contents d') = take off (contents d) @ data"
  using pw_ok [OF assms(1)] assms(2) by (simp add: take_put_at_end)

lemma pw_length:
  assumes "pw d off data = (d', r)" and "off \<le> length (contents d)"
  shows "length (contents d) \<le> length (contents d')"
proof -
  from pw_effect [OF assms(1)] obtain n
    where "contents d' = put_at off (take n data) (contents d)" by blast
  then show ?thesis
    by (cases "take n data = []") (auto simp: length_put_at simp del: take_eq_Nil)
qed

lemma pw_length_ok:
  assumes "pw d off data = (d', Inr ())" and "data \<noteq> []"
  shows "length (contents d') = max (length (contents d)) (off + length data)"
  using pw_ok [OF assms(1)] assms(2) by (simp add: length_put_at)

end

interpretation linux: positioned_writer write_at
  by unfold_locales (rule write_at_effect)

interpretation linux_direct: positioned_writer write_at_direct
  by unfold_locales (simp add: write_at_direct_def write_at_effect)

section \<open>Properties\<close>

text \<open>
  A positioned write that succeeds leaves exactly the given bytes at the offset, and one that
  fails leaves a prefix of them, whatever the kernel interrupts or splits; nothing below the
  offset changes.
\<close>

lemma write_at_correct:
  "\<exists>n\<le>length data. contents (fst (write_at d off data)) = put_at off (take n data) (contents d) \<and>
     (snd (write_at d off data) = Inr () \<longrightarrow> n = length data)"
  by (rule write_at_effect [of d off data "fst (write_at d off data)" "snd (write_at d off data)"]) simp

text \<open>
  Rounding up to a power-of-two sector size: the result is a multiple of the sector size, not
  below the argument and less than one sector above it, as long as the sum does not wrap.
\<close>

lemma round_up_correct:
  assumes "is_power_of_two a" and "n + a \<le> 2 ^ 64"
  shows "a dvd round_up n a \<and> n \<le> round_up n a \<and> round_up n a < n + a"
proof -
  have a: "0 < a" using assms(1) by (auto simp: is_power_of_two_def)
  have eq: "round_up n a + (n + a - 1) mod a = n + a - 1"
    unfolding round_up_eq [OF assms] by (rule div_mult_mod_eq)
  have "(n + a - 1) mod a < a" using a by simp
  with eq a have "n \<le> round_up n a" "round_up n a < n + a" by linarith+
  then show ?thesis by (simp add: round_up_eq [OF assms])
qed

text \<open>
  A chunked transfer through the ring reports how many bytes it moved and has put exactly that
  prefix of the buffer at the offset, however the completions are split.
\<close>

lemma write_at_fixed_correct:
  "\<exists>n\<le>length buf. contents (fst (write_at_fixed d buf off)) = put_at off (take n buf) (contents d) \<and>
     (\<forall>m. snd (write_at_fixed d buf off) = Inr m \<longrightarrow> m = n)"
  using transfer_write_effect [of d buf off 0 "fst (write_at_fixed d buf off)" "snd (write_at_fixed d buf off)"]
  by (simp add: write_at_fixed_def)

end
