(* ===== verification/Fsys_Format.thy ===== *)
theory Fsys_Format
  imports Fsys_Error
begin

text \<open>
  The journal's record framing (\<open>src/journal/format.rs\<close>): magic, length, payload and CRC-32C
  trailer; the four encoders; the decoder with its five outcomes.

  The CRC itself is computed by the \<open>crc32c\<close> crate, which is not part of the repository. It is
  the parameter \<open>C\<close> of the definitions: the crate's \<open>crc32c\<close> and \<open>crc32c_append\<close>. The locale
  \<open>crc_streaming\<close> states the documented relation between the two, and \<open>crc_injective\<close> the
  CRC property that single-byte damage is detected by; both are interpreted on the bit-serial
  CRC-32C of RFC 3720, the algorithm the crate implements.
\<close>

section \<open>The CRC-32C crate\<close>

record crc_crate =
  crate_crc32c :: "bytes \<Rightarrow> u32"
  crate_crc32c_append :: "u32 \<Rightarrow> bytes \<Rightarrow> u32"

definition crc_streaming_ok :: "crc_crate \<Rightarrow> bool" where
  "crc_streaming_ok C \<longleftrightarrow>
     (\<forall>xs. crate_crc32c C xs = crate_crc32c_append C 0 xs) \<and>
     (\<forall>s. crate_crc32c_append C s [] = s) \<and>
     (\<forall>s xs ys. crate_crc32c_append C (crate_crc32c_append C s xs) ys =
        crate_crc32c_append C s (xs @ ys))"

definition crc_injective_ok :: "crc_crate \<Rightarrow> bool" where
  "crc_injective_ok C \<longleftrightarrow>
     (\<forall>s t xs. crate_crc32c_append C s xs = crate_crc32c_append C t xs \<longrightarrow> s = t) \<and>
     (\<forall>s a b. crate_crc32c_append C s [a] = crate_crc32c_append C s [b] \<longrightarrow> a = b)"

section \<open>Constants and the CRC wrappers\<close>

definition FRAME_MAGIC_V1 :: u32 where
  "FRAME_MAGIC_V1 = 0x46535901"

definition FRAME_OVERHEAD :: nat where
  "FRAME_OVERHEAD = 12"

definition FRAME_MAX_PAYLOAD :: nat where
  "FRAME_MAX_PAYLOAD = 2 ^ 28 - 1"

definition crc32c :: "crc_crate \<Rightarrow> bytes \<Rightarrow> u32" where
  "crc32c C bs = crate_crc32c C bs"

record crc32c_builder =
  builder_crc :: u32

definition crc32c_builder_new :: crc32c_builder where
  "crc32c_builder_new = \<lparr>builder_crc = 0\<rparr>"

definition crc32c_builder_update :: "crc_crate \<Rightarrow> crc32c_builder \<Rightarrow> bytes \<Rightarrow> crc32c_builder" where
  "crc32c_builder_update C b bs = b\<lparr>builder_crc := crate_crc32c_append C (builder_crc b) bs\<rparr>"

definition crc32c_builder_finalize :: "crc32c_builder \<Rightarrow> u32" where
  "crc32c_builder_finalize b = builder_crc b"

section \<open>Encoding\<close>

abbreviation payload_too_large :: error where
  "payload_too_large \<equiv>
     Io (IoError InvalidInput ''journal record exceeds FRAME_MAX_PAYLOAD (256 MiB)'')"

text \<open>
  \<open>encode_frame_into\<close>: the buffer after the call and the byte count. The four
  \<open>copy_from_slice\<close> calls and the checksum over the bytes already in the buffer are written out
  in the order of the source.
\<close>

definition encode_frame_into :: "crc_crate \<Rightarrow> bytes \<Rightarrow> bytes \<Rightarrow> (bytes \<times> nat) result" where
  "encode_frame_into C payload buf =
     (let total = saturating_add (length payload) FRAME_OVERHEAD
      in if length buf < total then
           Inl (Io (IoError InvalidInput ''encode_frame_into: buffer too small''))
         else if FRAME_MAX_PAYLOAD < length payload then Inl payload_too_large
         else
           let len = word_of_nat (length payload) :: u32;
               buf1 = copy_at 0 (to_be_bytes FRAME_MAGIC_V1) buf;
               buf2 = copy_at 4 (to_le_bytes len) buf1;
               buf3 = copy_at 8 payload buf2;
               crc = crc32c C (slice 0 (8 + length payload) buf3);
               buf4 = copy_at (8 + length payload) (to_le_bytes crc) buf3
           in Inr (buf4, total))"

definition frame_len :: "nat \<Rightarrow> nat result" where
  "frame_len payload_len =
     (if FRAME_MAX_PAYLOAD < payload_len then Inl payload_too_large
      else Inr (payload_len + FRAME_OVERHEAD))"

definition encode_frame_owned :: "crc_crate \<Rightarrow> bytes \<Rightarrow> bytes result" where
  "encode_frame_owned C payload =
     bind_ok (frame_len (length payload)) (\<lambda>total.
       bind_ok (encode_frame_into C payload (zeros total)) (\<lambda>(buf, _). Inr buf))"

definition frame_header :: "u32 \<Rightarrow> bytes" where
  "frame_header len = copy_at 4 (to_le_bytes len) (copy_at 0 (to_be_bytes FRAME_MAGIC_V1) (zeros 8))"

definition frame_crc :: "crc_crate \<Rightarrow> bytes \<Rightarrow> bytes \<Rightarrow> bytes" where
  "frame_crc C header payload =
     (let crc = crc32c_builder_new;
          crc = crc32c_builder_update C crc header;
          crc = crc32c_builder_update C crc payload
      in to_le_bytes (crc32c_builder_finalize crc))"

text \<open>
  \<open>encode_frame_into_uninit\<close>: the bytes of \<open>out\<close> may be uninitialized, modelled as \<open>None\<close>. The
  result is the buffer after the writes; the returned slice is its first \<open>total\<close> bytes.
\<close>

definition encode_frame_into_uninit ::
    "crc_crate \<Rightarrow> bytes \<Rightarrow> u8 option list \<Rightarrow> (u8 option list \<times> u8 option list) result" where
  "encode_frame_into_uninit C payload out =
     bind_ok (frame_len (length payload)) (\<lambda>total.
       if length out < total then
         Inl (Io (IoError InvalidInput ''encode_frame_into_uninit: buffer too small''))
       else
         let header = frame_header (word_of_nat (length payload));
             crc = frame_crc C header payload;
             src = header @ payload @ crc;
             dst = take total out;
             written = map2 (\<lambda>_ s. Some s) dst src @ drop (length src) dst
         in Inr (written @ drop total out, written))"

definition encode_frame_extend :: "crc_crate \<Rightarrow> bytes \<Rightarrow> bytes \<Rightarrow> (bytes \<times> nat) result" where
  "encode_frame_extend C payload out =
     bind_ok (frame_len (length payload)) (\<lambda>total.
       let header = frame_header (word_of_nat (length payload));
           crc = frame_crc C header payload
       in Inr (((out @ header) @ payload) @ crc, total))"

section \<open>Decoding\<close>

datatype frame_decode =
    FrameOk (consumed: nat) (payload_start: nat) (payload_end: nat)
  | FrameTruncated
  | FrameBadMagic
  | FrameLengthOverflow
  | FrameChecksumMismatch

definition decode_frame :: "crc_crate \<Rightarrow> bytes \<Rightarrow> frame_decode" where
  "decode_frame C bs =
     (if length bs < 8 then FrameTruncated
      else if be_u32_at bs 0 \<noteq> FRAME_MAGIC_V1 then FrameBadMagic
      else
        let len32 = le_u32_at bs 4
        in if word_of_nat FRAME_MAX_PAYLOAD < len32 then FrameLengthOverflow
           else
             let len = unat len32;
                 total = 8 + len + 4
             in if length bs < total then FrameTruncated
                else
                  let computed = crc32c C (slice 0 (8 + len) bs);
                      stored_crc = le_u32_at bs (8 + len)
                  in if computed \<noteq> stored_crc then FrameChecksumMismatch
                     else FrameOk total 8 (8 + len))"

section \<open>The bytes of a frame\<close>

text \<open>The abstract frame: what is on disk for one record.\<close>

definition frame_prefix :: "bytes \<Rightarrow> bytes" where
  "frame_prefix payload =
     to_be_bytes FRAME_MAGIC_V1 @ to_le_bytes (word_of_nat (length payload)) @ payload"

definition frame :: "crc_crate \<Rightarrow> bytes \<Rightarrow> bytes" where
  "frame C payload = frame_prefix payload @ to_le_bytes (crc32c C (frame_prefix payload))"

definition record_ok :: "bytes \<Rightarrow> bool" where
  "record_ok payload \<longleftrightarrow> length payload \<le> FRAME_MAX_PAYLOAD"

definition frames :: "crc_crate \<Rightarrow> bytes list \<Rightarrow> bytes" where
  "frames C rs = concat (map (frame C) rs)"

lemma length_frame_prefix [simp]: "length (frame_prefix p) = 8 + length p"
  by (simp add: frame_prefix_def)

lemma length_frame [simp]: "length (frame C p) = length p + FRAME_OVERHEAD"
  by (simp add: frame_def FRAME_OVERHEAD_def)

lemma frame_ne_Nil [simp]: "frame C p \<noteq> []"
  by (metis FRAME_OVERHEAD_def add_is_0 length_0_conv length_frame zero_neq_numeral)

lemma frames_simps [simp]:
  "frames C [] = []" "frames C (r # rs) = frame C r @ frames C rs"
  "frames C (rs @ ss) = frames C rs @ frames C ss"
  by (simp_all add: frames_def)

lemma record_ok_bounds:
  assumes "record_ok p"
  shows "length p < 2 ^ 28" "unat (word_of_nat (length p) :: u32) = length p"
    "\<not> (word_of_nat FRAME_MAX_PAYLOAD :: u32) < word_of_nat (length p)"
proof -
  show "length p < 2 ^ 28"
    using assms by (simp add: record_ok_def FRAME_MAX_PAYLOAD_def)
  then show u: "unat (word_of_nat (length p) :: u32) = length p"
    by (subst unat_of_nat) simp
  show "\<not> (word_of_nat FRAME_MAX_PAYLOAD :: u32) < word_of_nat (length p)"
    using assms u by (simp add: record_ok_def FRAME_MAX_PAYLOAD_def word_less_nat_alt)
qed

lemma frame_len_eq:
  "frame_len (length p) = (if record_ok p then Inr (length (frame C p)) else Inl payload_too_large)"
  by (simp add: frame_len_def record_ok_def)

section \<open>The encoders write the frame\<close>

lemma encode_frame_into_eq:
  assumes "length p + FRAME_OVERHEAD \<le> u64_max"
  shows "encode_frame_into C p buf =
    (if length buf < length (frame C p) then
       Inl (Io (IoError InvalidInput ''encode_frame_into: buffer too small''))
     else if \<not> record_ok p then Inl payload_too_large
     else Inr (copy_at 0 (frame C p) buf, length (frame C p)))"
proof -
  have total: "saturating_add (length p) FRAME_OVERHEAD = length (frame C p)"
    using assms by (simp add: saturating_add_def min_absorb1)
  show ?thesis
  proof (cases "length buf < length (frame C p)")
    case True
    then show ?thesis by (simp add: encode_frame_into_def total)
  next
    case False
    let ?magic = "to_be_bytes FRAME_MAGIC_V1"
    let ?len = "to_le_bytes (word_of_nat (length p))"
    let ?crc = "to_le_bytes (crc32c C (frame_prefix p))"
    from False have room: "8 + length p + 4 \<le> length buf"
      by (simp add: FRAME_OVERHEAD_def)
    have "copy_at 4 ?len (copy_at 0 ?magic buf) = copy_at 0 (?magic @ ?len) buf"
      using copy_at_copy_at [of 0 ?magic ?len buf] room by simp
    then have body: "copy_at 8 p (copy_at 4 ?len (copy_at 0 ?magic buf)) = copy_at 0 (frame_prefix p) buf"
      using copy_at_copy_at [of 0 "?magic @ ?len" p buf] room by (simp add: frame_prefix_def)
    have crc: "slice 0 (8 + length p) (copy_at 0 (frame_prefix p) buf) = frame_prefix p"
      by (simp add: slice_def copy_at_def)
    have "copy_at (8 + length p) ?crc (copy_at 0 (frame_prefix p) buf) = copy_at 0 (frame C p) buf"
      using copy_at_copy_at [of 0 "frame_prefix p" ?crc buf] room by (simp add: frame_def)
    with False show ?thesis
      by (simp add: encode_frame_into_def total body crc record_ok_def Let_def)
  qed
qed

lemma encode_frame_into_ok:
  assumes "record_ok p" and "length buf = length (frame C p)"
  shows "encode_frame_into C p buf = Inr (frame C p, length (frame C p))"
proof -
  have "length p + FRAME_OVERHEAD \<le> u64_max"
    using record_ok_bounds(1) [OF assms(1)] by (simp add: FRAME_OVERHEAD_def u64_max_def)
  from encode_frame_into_eq [OF this, of C buf] assms show ?thesis by simp
qed

lemma encode_frame_into_refused:
  assumes "\<not> record_ok p" and "length p + FRAME_OVERHEAD \<le> length buf"
  shows "encode_frame_into C p buf = Inl payload_too_large"
  using assms by (auto simp: encode_frame_into_def saturating_add_def record_ok_def Let_def)

lemma encode_frame_owned_eq:
  "encode_frame_owned C p = (if record_ok p then Inr (frame C p) else Inl payload_too_large)"
proof (cases "record_ok p")
  case True
  with encode_frame_into_ok [OF True, of "zeros (length (frame C p))" C] show ?thesis
    by (simp add: encode_frame_owned_def frame_len_eq [of p C] del: length_frame)
next
  case False
  then show ?thesis by (simp add: encode_frame_owned_def frame_len_eq [of p C])
qed

lemma header_payload: "frame_header (word_of_nat (length p)) @ p = frame_prefix p"
  by (simp add: frame_header_def frame_prefix_def copy_at_def)

locale crc_streaming =
  fixes C :: crc_crate
  assumes streaming: "crc_streaming_ok C"
begin

lemma append_append:
  "crate_crc32c_append C (crate_crc32c_append C s xs) ys = crate_crc32c_append C s (xs @ ys)"
  using streaming by (simp add: crc_streaming_ok_def)

lemma append_Nil: "crate_crc32c_append C s [] = s"
  using streaming by (simp add: crc_streaming_ok_def)

lemma crc32c_append_0: "crate_crc32c_append C 0 xs = crc32c C xs"
  using streaming by (simp add: crc_streaming_ok_def crc32c_def)

text \<open>Feeding a builder chunk by chunk gives the checksum of the concatenation.\<close>

lemma builder_chunks:
  "crc32c_builder_finalize (foldl (crc32c_builder_update C) crc32c_builder_new chunks) =
     crc32c C (concat chunks)"
proof -
  have "builder_crc (foldl (crc32c_builder_update C) b chunks) =
      crate_crc32c_append C (builder_crc b) (concat chunks)" for b
    by (induction chunks arbitrary: b)
      (simp_all add: crc32c_builder_update_def append_append append_Nil)
  then show ?thesis
    by (simp add: crc32c_builder_finalize_def crc32c_builder_new_def crc32c_append_0)
qed

lemma frame_crc_eq:
  "frame_crc C (frame_header (word_of_nat (length p))) p = to_le_bytes (crc32c C (frame_prefix p))"
  by (simp add: frame_crc_def crc32c_builder_new_def crc32c_builder_update_def Let_def
      crc32c_builder_finalize_def append_append crc32c_append_0 header_payload)

lemma encode_frame_extend_eq:
  "encode_frame_extend C p out =
     (if record_ok p then Inr (out @ frame C p, length (frame C p)) else Inl payload_too_large)"
  by (simp add: encode_frame_extend_def frame_len_eq [of p C] frame_crc_eq Let_def frame_def
      header_payload [symmetric])

lemma encode_frame_into_uninit_eq:
  assumes "length (frame C p) \<le> length out"
  shows "encode_frame_into_uninit C p out =
    (if record_ok p then
       Inr (map Some (frame C p) @ drop (length (frame C p)) out, map Some (frame C p))
     else Inl payload_too_large)"
proof -
  have src: "frame_header (word_of_nat (length p)) @ p @
      frame_crc C (frame_header (word_of_nat (length p))) p = frame C p"
    by (simp add: frame_crc_eq frame_def header_payload [symmetric])
  have len: "length (frame_header (word_of_nat (length p))) + (length p +
      length (frame_crc C (frame_header (word_of_nat (length p))) p)) = length (frame C p)"
    using arg_cong [OF src, of length] by (simp only: length_append)
  have "map2 (\<lambda>_ s. Some s) (take (length (frame C p)) out) (frame C p) = map Some (frame C p)"
    using assms by (intro nth_equalityI) simp_all
  with assms show ?thesis
    by (simp add: encode_frame_into_uninit_def frame_len_eq [of p C] src Let_def len del: length_frame)
qed

end

section \<open>The decoder inverts the encoders\<close>

lemma be_u32_at_frame: "be_u32_at (frame_prefix p @ xs) 0 = FRAME_MAGIC_V1"
  using be_u32_at_to_be_bytes [of "[]" 0] by (simp add: frame_prefix_def)

lemma le_u32_at_frame: "le_u32_at (frame_prefix p @ xs) 4 = word_of_nat (length p)"
  using le_u32_at_to_le_bytes [of "to_be_bytes FRAME_MAGIC_V1" 4] by (simp add: frame_prefix_def)

lemma decode_frame_frame:
  assumes "record_ok p"
  shows "decode_frame C (frame C p @ rest) = FrameOk (length (frame C p)) 8 (8 + length p)"
proof -
  let ?crc = "crc32c C (frame_prefix p)"
  have "le_u32_at (frame_prefix p @ to_le_bytes ?crc @ rest) (8 + length p) = ?crc"
    by (rule le_u32_at_to_le_bytes) simp
  then show ?thesis
    using record_ok_bounds [OF assms]
    by (simp add: decode_frame_def frame_def be_u32_at_frame le_u32_at_frame Let_def
        slice_def FRAME_OVERHEAD_def)
qed

lemma slice_frame_payload: "slice 8 (8 + length p) (frame C p @ rest) = p"
  by (simp add: frame_def frame_prefix_def slice_def)

text \<open>Whatever decodes is exactly one encoded frame: the decoder accepts nothing else.\<close>

lemma decode_frame_FrameOk:
  assumes "decode_frame C bs = FrameOk c s e"
  shows "\<exists>p. record_ok p \<and> bs = frame C p @ drop c bs \<and> c = length (frame C p) \<and>
             s = 8 \<and> e = 8 + length p \<and> slice s e bs = p"
proof -
  let ?n = "unat (le_u32_at bs 4)"
  let ?p = "slice 8 (8 + ?n) bs"
  from assms have len8: "8 \<le> length bs" and magic: "be_u32_at bs 0 = FRAME_MAGIC_V1"
    and le_max: "\<not> word_of_nat FRAME_MAX_PAYLOAD < le_u32_at bs 4"
    and total: "8 + ?n + 4 \<le> length bs"
    and crc: "crc32c C (slice 0 (8 + ?n) bs) = le_u32_at bs (8 + ?n)"
    and res: "c = 8 + ?n + 4" "s = 8" "e = 8 + ?n"
    by (auto simp: decode_frame_def Let_def split: if_splits)
  have p_len: "length ?p = ?n" using total by simp
  have ok: "record_ok ?p"
    using le_max p_len
    by (simp add: record_ok_def word_less_nat_alt unat_of_nat FRAME_MAX_PAYLOAD_def)
  have split3: "take (8 + ?n) bs = slice 0 4 bs @ slice 4 8 bs @ ?p"
  proof -
    have "take (8 + ?n) bs = take 4 bs @ take (4 + ?n) (drop 4 bs)"
      using take_add [of 4 "4 + ?n" bs] by simp
    also have "take (4 + ?n) (drop 4 bs) = take 4 (drop 4 bs) @ take ?n (drop 8 bs)"
      using take_add [of 4 ?n "drop 4 bs"] by simp
    finally show ?thesis by (simp add: slice_def)
  qed
  have prefix: "take (8 + ?n) bs = frame_prefix ?p"
  proof -
    have "slice 0 4 bs = to_be_bytes FRAME_MAGIC_V1"
      using to_be_bytes_be_u32_at [of 0 bs] len8 magic by simp
    moreover have "slice 4 8 bs = to_le_bytes (word_of_nat (length ?p))"
      using to_le_bytes_le_u32_at [of 4 bs] len8 p_len by simp
    ultimately show ?thesis by (simp only: split3 frame_prefix_def)
  qed
  have trailer: "slice (8 + ?n) (8 + ?n + 4) bs = to_le_bytes (crc32c C (frame_prefix ?p))"
    using to_le_bytes_le_u32_at [of "8 + ?n" bs] total crc prefix by (simp add: slice_0_take)
  have "take c bs = take (8 + ?n) bs @ slice (8 + ?n) (8 + ?n + 4) bs"
    using take_add [of "8 + ?n" 4 bs] res by (simp add: slice_def)
  then have "take c bs = frame C ?p"
    by (simp only: prefix trailer frame_def)
  then have "bs = frame C ?p @ drop c bs"
    by (metis append_take_drop_id)
  moreover have "c = length (frame C ?p)"
    using res p_len by (simp add: FRAME_OVERHEAD_def)
  ultimately show ?thesis
    using ok res(2,3) p_len by (metis (no_types, lifting))
qed

lemma decode_frame_consumed_le:
  "decode_frame C bs = FrameOk c s e \<Longrightarrow> 12 \<le> c \<and> c \<le> length bs \<and> s = 8 \<and> e = c - 4"
  by (auto simp: decode_frame_def Let_def split: if_splits)

text \<open>A verdict other than \<open>Truncated\<close> does not depend on the bytes that follow.\<close>

lemma decode_frame_append:
  assumes "decode_frame C bs \<noteq> FrameTruncated"
  shows "decode_frame C (bs @ xs) = decode_frame C bs"
  using assms by (auto simp: decode_frame_def Let_def slice_append_left split: if_splits)

text \<open>A frame cut short at any byte decodes as \<open>Truncated\<close>, never as damage.\<close>

lemma decode_frame_take:
  assumes "record_ok p" and "k < length (frame C p)"
  shows "decode_frame C (take k (frame C p)) = FrameTruncated"
proof (rule ccontr)
  assume "decode_frame C (take k (frame C p)) \<noteq> FrameTruncated"
  then have "decode_frame C (take k (frame C p)) = decode_frame C (take k (frame C p) @ drop k (frame C p))"
    by (rule decode_frame_append [symmetric])
  also have "\<dots> = FrameOk (length (frame C p)) 8 (8 + length p)"
    using decode_frame_frame [OF assms(1), of C "[]"] by simp
  finally have "length (frame C p) \<le> length (take k (frame C p))"
    using decode_frame_consumed_le by blast
  with assms(2) show False by simp
qed

lemma decode_frame_short: "length bs < 8 \<Longrightarrow> decode_frame C bs = FrameTruncated"
  by (simp add: decode_frame_def)

lemma frame_first_byte: "frame C p ! 0 = 0x46" "hd (frame C p) = 0x46"
  by (simp_all add: frame_def frame_prefix_def to_be_bytes_def to_le_bytes_def FRAME_MAGIC_V1_def)

section \<open>Damage detection\<close>

locale crc_injective = crc_streaming +
  assumes injective: "crc_injective_ok C"
begin

lemma crc_state_inject: "crate_crc32c_append C s xs = crate_crc32c_append C t xs \<longleftrightarrow> s = t"
  using injective by (auto simp: crc_injective_ok_def)

lemma crc_byte_inject: "crate_crc32c_append C s [a] = crate_crc32c_append C s [b] \<longleftrightarrow> a = b"
  using injective by (auto simp: crc_injective_ok_def)

lemma crc_single_byte: "crc32c C (xs @ a # ys) = crc32c C (xs @ b # ys) \<longleftrightarrow> a = b"
proof -
  have "crc32c C (xs @ c # ys) =
      crate_crc32c_append C (crate_crc32c_append C (crate_crc32c_append C 0 xs) [c]) ys" for c
    using append_append [of 0 xs "c # ys"] append_append [of _ "[c]" ys] crc32c_append_0
    by simp
  then show ?thesis by (simp only: crc_state_inject crc_byte_inject)
qed

lemma crc_update: "i < length xs \<Longrightarrow> crc32c C (xs[i := v]) = crc32c C xs \<longleftrightarrow> v = xs ! i"
  using crc_single_byte [of "take i xs" v "drop (Suc i) xs" "xs ! i"]
  by (simp add: upd_conv_take_nth_drop id_take_nth_drop [symmetric])

text \<open>
  Changing one payload or trailer byte of a frame is reported as a checksum mismatch, changing
  one magic byte as a bad magic. (A change of the length field moves the trailer, so no CRC
  argument applies to it.)
\<close>

lemma decode_frame_damaged:
  assumes "record_ok p" and "i < length (frame C p)" and "i < 4 \<or> 8 \<le> i"
    and "v \<noteq> frame C p ! i"
  shows "decode_frame C ((frame C p)[i := v] @ rest) =
    (if i < 4 then FrameBadMagic else FrameChecksumMismatch)"
proof -
  let ?f = "(frame C p)[i := v]"
  let ?len = "length (frame C p)"
  have flen: "length ?f = length p + 12" by (simp add: FRAME_OVERHEAD_def)
  show ?thesis
  proof (cases "i < 4")
    case True
    have "be_u32_at ?f 0 \<noteq> FRAME_MAGIC_V1"
    proof
      assume "be_u32_at ?f 0 = FRAME_MAGIC_V1"
      then have "slice 0 4 ?f = to_be_bytes FRAME_MAGIC_V1"
        using to_be_bytes_be_u32_at [of 0 ?f] flen by simp
      also have "\<dots> = slice 0 4 (frame C p)"
        by (simp add: frame_def frame_prefix_def slice_def)
      finally have "take 4 ?f ! i = take 4 (frame C p) ! i"
        by (simp add: slice_0_take)
      with True assms(2,4) show False by simp
    qed
    with True flen show ?thesis by (simp add: decode_frame_def)
  next
    case False
    with assms(3) have i8: "8 \<le> i" by simp
    have magic: "be_u32_at ?f 0 = FRAME_MAGIC_V1"
      using i8 be_u32_at_frame [of p] by (simp add: frame_def be_u32_at_def)
    have len: "le_u32_at ?f 4 = word_of_nat (length p)"
      using i8 le_u32_at_frame [of p] by (simp add: frame_def le_u32_at_def)
    have "crc32c C (slice 0 (8 + length p) ?f) \<noteq> le_u32_at ?f (8 + length p)"
    proof (cases "i < 8 + length p")
      case True
      then have "slice 0 (8 + length p) ?f = (frame_prefix p)[i := v]"
        by (simp add: slice_0_take frame_def list_update_append take_update_swap)
      moreover have "le_u32_at ?f (8 + length p) = crc32c C (frame_prefix p)"
        using True le_u32_at_to_le_bytes [of "(frame_prefix p)[i := v]" "8 + length p" _ "[]"]
        by (simp add: frame_def list_update_append)
      moreover have "v \<noteq> frame_prefix p ! i"
        using True assms(4) by (simp add: frame_def nth_append)
      ultimately show ?thesis
        using True crc_update [of i "frame_prefix p" v] by simp
    next
      case trailer: False
      let ?t = "to_le_bytes (crc32c C (frame_prefix p))"
      have f: "?f = frame_prefix p @ ?t[i - (8 + length p) := v]"
        using trailer by (simp add: frame_def list_update_append)
      have "slice 0 (8 + length p) ?f = frame_prefix p"
        unfolding f by (simp add: slice_def)
      moreover have "le_u32_at ?f (8 + length p) \<noteq> crc32c C (frame_prefix p)"
      proof
        assume "le_u32_at ?f (8 + length p) = crc32c C (frame_prefix p)"
        then have "slice (8 + length p) (8 + length p + 4) ?f = ?t"
          using to_le_bytes_le_u32_at [of "8 + length p" ?f] flen by simp
        then have "?t[i - (8 + length p) := v] = ?t"
          unfolding f by (simp add: slice_def)
        moreover have "i - (8 + length p) < length ?t"
          using trailer assms(2) by (simp add: FRAME_OVERHEAD_def)
        ultimately have "v = ?t ! (i - (8 + length p))"
          by (metis nth_list_update_eq)
        then show False
          using assms(4) trailer by (simp add: frame_def nth_append)
      qed
      ultimately show ?thesis by simp
    qed
    with magic len False flen record_ok_bounds [OF assms(1)] show ?thesis
      by (simp add: decode_frame_def Let_def slice_append_left)
  qed
qed

end

section \<open>The bit-serial CRC-32C of RFC 3720\<close>

definition crc_bit :: "u32 \<Rightarrow> u32" where
  "crc_bit r = drop_bit 1 r XOR (if bit r 0 then 0x82F63B78 else 0)"

definition crc_byte :: "u32 \<Rightarrow> u8 \<Rightarrow> u32" where
  "crc_byte r b = (crc_bit ^^ 8) (r XOR ucast b)"

definition rfc3720_append :: "u32 \<Rightarrow> bytes \<Rightarrow> u32" where
  "rfc3720_append s bs = NOT (foldl crc_byte (NOT s) bs)"

definition rfc3720 :: crc_crate where
  "rfc3720 = \<lparr>crate_crc32c = rfc3720_append 0, crate_crc32c_append = rfc3720_append\<rparr>"

lemma xor_right_cancel: "a XOR c = b XOR c \<longleftrightarrow> a = (b :: u32)"
proof
  assume "a XOR c = b XOR c"
  then have "(a XOR c) XOR c = (b XOR c) XOR c" by (rule arg_cong)
  then show "a = b" by (simp only: xor.assoc xor_self_eq xor.right_neutral)
qed simp

lemma xor_left_cancel: "c XOR a = c XOR b \<longleftrightarrow> a = (b :: u32)"
  using xor_right_cancel [of a c b] by (simp only: xor.commute [of c])

lemma crc_bit_inject: "crc_bit r = crc_bit t \<Longrightarrow> r = t"
proof -
  assume eq: "crc_bit r = crc_bit t"
  have top: "bit (crc_bit x) 31 = bit x 0" for x
    by (simp add: crc_bit_def bit_simps) (use bit_imp_le_length [of x 32] in auto)
  have b0: "bit r 0 = bit t 0" using top [of r] top [of t] eq by simp
  then have "drop_bit 1 r = drop_bit 1 t"
    using eq by (simp add: crc_bit_def xor_right_cancel split: if_splits)
  then have shift: "bit r (Suc n) = bit t (Suc n)" for n
    using bit_drop_bit_eq [of 1 r] bit_drop_bit_eq [of 1 t] by (simp add: fun_eq_iff)
  show "r = t"
  proof (rule bit_word_eqI)
    fix n
    show "bit r n = bit t n" using b0 shift by (cases n) simp_all
  qed
qed

lemma crc_bits_inject: "(crc_bit ^^ n) r = (crc_bit ^^ n) t \<longleftrightarrow> r = t"
  by (induction n) (auto dest: crc_bit_inject)

lemma ucast_u8_inject: "(ucast a :: u32) = ucast b \<longleftrightarrow> a = (b :: u8)"
proof
  assume eq: "(ucast a :: u32) = ucast b"
  have "bit (ucast a :: u32) n = bit a n" "bit (ucast b :: u32) n = bit b n" if "n < 8" for n
    using that by (simp_all add: bit_simps)
  with eq show "a = b" by (intro bit_word_eqI) simp
qed simp

lemma crc_byte_state_inject: "crc_byte r b = crc_byte t b \<longleftrightarrow> r = t"
  by (simp add: crc_byte_def crc_bits_inject xor_right_cancel)

lemma crc_byte_byte_inject: "crc_byte r a = crc_byte r b \<longleftrightarrow> a = b"
  by (simp add: crc_byte_def crc_bits_inject xor_left_cancel ucast_u8_inject)

lemma foldl_crc_byte_inject: "foldl crc_byte r bs = foldl crc_byte t bs \<longleftrightarrow> r = t"
  by (induction bs arbitrary: r t) (simp_all add: crc_byte_state_inject)

lemma rfc3720_streaming: "crc_streaming_ok rfc3720"
  by (simp add: crc_streaming_ok_def rfc3720_def rfc3720_append_def)

lemma rfc3720_injective: "crc_injective_ok rfc3720"
  by (simp add: crc_injective_ok_def rfc3720_def rfc3720_append_def foldl_crc_byte_inject
      crc_byte_byte_inject)

interpretation rfc: crc_injective rfc3720
  by unfold_locales (rule rfc3720_streaming, rule rfc3720_injective)

lemma encode_frame_owned_Inr: "encode_frame_owned C p = Inr bs \<Longrightarrow> record_ok p \<and> bs = frame C p"
  by (simp add: encode_frame_owned_eq split: if_splits)

section \<open>Properties\<close>

text \<open>C13: Decoding what was encoded gives back the payload, whatever follows the frame.\<close>

theorem encode_decode_roundtrip:
  assumes "encode_frame_owned C p = Inr bs"
  shows "decode_frame C (bs @ rest) = FrameOk (length bs) 8 (8 + length p) \<and>
    slice 8 (8 + length p) (bs @ rest) = p"
  using encode_frame_owned_Inr [OF assms] decode_frame_frame [of p C rest] slice_frame_payload [of p C rest]
  by simp

text \<open>
  C27: The decoder accepts nothing but frames: the bytes it consumes are exactly what the encoder
  produces for the payload it reports.
\<close>

theorem decode_accepts_only_frames:
  assumes "decode_frame C bs = FrameOk n s e"
  shows "encode_frame_owned C (slice s e bs) = Inr (take n bs)"
proof -
  from decode_frame_FrameOk [OF assms] obtain p where
    p: "record_ok p" "bs = frame C p @ drop n bs" "n = length (frame C p)" "slice s e bs = p" by blast
  have "take n bs = frame C p" using p(2,3) by (metis append_eq_conv_conj)
  with p(1,4) show ?thesis by (simp add: encode_frame_owned_eq)
qed

text \<open>
  C36: The four encoders (into a buffer, owned, into uninitialised memory, appended to a vector)
  accept the same payloads and write the same bytes into a buffer of the frame's size; a payload over
  the limit is refused by each of them, with the same error.
\<close>

theorem encoders_agree:
  assumes "crc_streaming_ok C" and "length out = length p + FRAME_OVERHEAD"
  shows "case encode_frame_owned C p of
      Inr bs \<Rightarrow>
        encode_frame_into C p (zeros (length out)) = Inr (bs, length bs) \<and>
        encode_frame_extend C p pre = Inr (pre @ bs, length bs) \<and>
        encode_frame_into_uninit C p out = Inr (map Some bs, map Some bs)
    | Inl e \<Rightarrow>
        FRAME_MAX_PAYLOAD < length p \<and> e = payload_too_large \<and> encode_frame_into C p (zeros (length out)) = Inl e \<and>
        encode_frame_extend C p pre = Inl e \<and> encode_frame_into_uninit C p out = Inl e"
proof -
  have cs: "crc_streaming C" by (rule crc_streaming.intro [OF assms(1)])
  have len: "length (frame C p) = length out" using assms(2) by simp
  show ?thesis
    using crc_streaming.encode_frame_extend_eq [OF cs, of p pre]
      crc_streaming.encode_frame_into_uninit_eq [OF cs, of p out]
      encode_frame_into_ok [of p "zeros (length out)" C] encode_frame_into_refused [of p "zeros (length out)" C] len assms(2)
    by (simp add: encode_frame_owned_eq record_ok_def)
qed

text \<open>
  C37: Damage to any one byte of a frame outside its length field is detected: a changed magic byte as
  a bad magic, a changed payload or checksum byte as a checksum mismatch.
\<close>

theorem single_byte_damage_detected:
  assumes "crc_streaming_ok C" and "crc_injective_ok C" and "encode_frame_owned C p = Inr bs"
    and "i < length bs" and "i < 4 \<or> 8 \<le> i" and "v \<noteq> bs ! i"
  shows "decode_frame C (bs[i := v] @ rest) = (if i < 4 then FrameBadMagic else FrameChecksumMismatch)"
proof -
  have "crc_injective C"
    by (intro crc_injective.intro crc_streaming.intro crc_injective_axioms.intro assms(1,2))
  from crc_injective.decode_frame_damaged [OF this, of p i v rest] encode_frame_owned_Inr [OF assms(3)]
    assms(4-6)
  show ?thesis by simp
qed

text \<open>A frame cut short anywhere is reported as truncated, never as a record.\<close>

lemma cut_frame_is_truncated:
  assumes "encode_frame_owned C p = Inr bs" and "k < length bs"
  shows "decode_frame C (take k bs) = FrameTruncated"
  using encode_frame_owned_Inr [OF assms(1)] assms(2) decode_frame_take [of p k C] by simp

subsection \<open>Witnesses\<close>

lemma sample_encodes: "encode_frame_owned rfc3720 [1, 2] = Inr (frame rfc3720 [1, 2])"
  by (simp add: encode_frame_owned_eq record_ok_def FRAME_MAX_PAYLOAD_def)

theorem encode_decode_roundtrip_witness:
  "encode_frame_owned rfc3720 [1, 2] = Inr (frame rfc3720 [1, 2]) \<and>
   decode_frame rfc3720 (frame rfc3720 [1, 2] @ [0]) = FrameOk 14 8 10 \<and>
   slice 8 10 (frame rfc3720 [1, 2] @ [0]) = [1, 2]"
  using sample_encodes encode_decode_roundtrip [OF sample_encodes, of "[0]"]
  by (simp add: FRAME_OVERHEAD_def)

theorem decode_accepts_only_frames_witness:
  "decode_frame rfc3720 (frame rfc3720 [1, 2]) = FrameOk 14 8 10 \<and>
   encode_frame_owned rfc3720 (slice 8 10 (frame rfc3720 [1, 2])) = Inr (take 14 (frame rfc3720 [1, 2]))"
proof -
  have "decode_frame rfc3720 (frame rfc3720 [1, 2]) = FrameOk 14 8 10"
    using decode_frame_frame [of "[1, 2]" rfc3720 "[]"]
    by (simp add: record_ok_def FRAME_MAX_PAYLOAD_def FRAME_OVERHEAD_def)
  with decode_accepts_only_frames [OF this] show ?thesis by simp
qed

theorem encoders_agree_witness:
  "crc_streaming_ok rfc3720 \<and>
   encode_frame_extend rfc3720 [1, 2] [9] = Inr (9 # frame rfc3720 [1, 2], 14)"
proof -
  have "length (replicate 14 None :: u8 option list) = length ([1, 2] :: bytes) + FRAME_OVERHEAD"
    by (simp add: FRAME_OVERHEAD_def)
  from encoders_agree [OF rfc3720_streaming this, of "[9]"] show ?thesis
    using rfc3720_streaming by (simp add: sample_encodes FRAME_OVERHEAD_def)
qed

theorem single_byte_damage_detected_witness:
  "frame rfc3720 [1, 2] ! 9 = 2 \<and>
   decode_frame rfc3720 ((frame rfc3720 [1, 2])[9 := 3] @ []) = FrameChecksumMismatch"
proof -
  have nth: "frame rfc3720 [1, 2] ! 9 = 2"
    by (simp add: frame_def frame_prefix_def to_be_bytes_def to_le_bytes_def)
  then show ?thesis
    using single_byte_damage_detected [OF rfc3720_streaming rfc3720_injective sample_encodes, of 9 3 "[]"]
    by (simp add: FRAME_OVERHEAD_def)
qed

end
