(* ===== verification/Fsys_Reader.thy ===== *)
theory Fsys_Reader
  imports Fsys_Format
begin

text \<open>
  The journal reader (\<open>src/journal/reader.rs\<close>): the streaming iterator with its compacting and
  growing read buffer, the classification of zero runs, and random access by LSN.

  The file is a byte list that does not change while it is read; \<open>file_size\<close> is the size cached
  at open time and may differ from the length of the file. \<open>rd\<close> is the kernel's answer to a
  \<open>read\<close> at an offset: an error, or how many of the requested bytes it is willing to return
  (never more than the file has).

  \<open>scan\<close> is the specification: a reading of the whole file with no buffer. The theorem of the
  component is that the buffered iterator computes it, whatever the sizes of the reads.
\<close>

section \<open>Reading from the kernel\<close>

type_synonym read_oracle = "nat \<Rightarrow> nat \<Rightarrow> io_error + nat"

definition sys_read :: "read_oracle \<Rightarrow> bytes \<Rightarrow> nat \<Rightarrow> nat \<Rightarrow> io_error + bytes" where
  "sys_read rd F off n =
     (case rd off n of Inl e \<Rightarrow> Inl e | Inr k \<Rightarrow> Inr (take (min k n) (drop off F)))"

definition seek_start :: "nat \<Rightarrow> unit result" where
  "seek_start off =
     (if off < 2 ^ 63 then Inr ()
      else Inl (Io (IoError InvalidInput ''Invalid argument (os error 22)'')))"

text \<open>
  The loop \<open>while total < buf.len() { n = file.read(&mut buf[total..])?; if n == 0 {...} }\<close>: the
  bytes read so far and whether a read failed.
\<close>

function read_loop :: "read_oracle \<Rightarrow> bytes \<Rightarrow> nat \<Rightarrow> nat \<Rightarrow> bytes \<Rightarrow> bytes \<times> unit result" where
  "read_loop rd F off want acc =
     (if want \<le> length acc then (acc, Inr ())
      else case sys_read rd F (off + length acc) (want - length acc) of
          Inl e \<Rightarrow> (acc, Inl (Io e))
        | Inr bs \<Rightarrow>
            if bs = [] then (acc, Inr ()) else read_loop rd F off want (acc @ bs))"
  by pat_completeness auto
termination
  by (relation "measure (\<lambda>(rd, F, off, want, acc). want - length acc)")
    (auto simp: sys_read_def length_greater_0_conv [symmetric] simp del: length_greater_0_conv
      split: sum.splits)

declare read_loop.simps [simp del]

section \<open>Data\<close>

definition READ_BUF_SIZE :: nat where
  "READ_BUF_SIZE = 64 * 1024"

definition GAP_ALIGN :: nat where
  "GAP_ALIGN = 512"

definition MAX_GAP_SKIP :: nat where
  "MAX_GAP_SKIP = 64 * 1024 * 1024"

datatype journal_tail_state =
    CleanEnd | TruncatedHeader | TruncatedPayload | ChecksumMismatch | BadMagic | LengthOverflow

datatype journal_record = JournalRecord (lsn: nat) (payload: bytes)

record journal_reader =
  jfile :: bytes
  file_size :: nat
  cursor :: nat
  last_state :: journal_tail_state

record journal_iter = journal_reader +
  buf :: bytes
  valid_start :: nat
  valid_end :: nat
  finished :: bool

definition reader_open :: "bytes \<Rightarrow> journal_reader" where
  "reader_open F = \<lparr>jfile = F, file_size = length F, cursor = 0, last_state = CleanEnd\<rparr>"

definition seek_to :: "nat \<Rightarrow> journal_reader \<Rightarrow> journal_reader" where
  "seek_to lsn1 r = r\<lparr>cursor := lsn1, last_state := CleanEnd\<rparr>"

definition refresh_size :: "bytes \<Rightarrow> journal_reader \<Rightarrow> journal_reader" where
  "refresh_size F r = r\<lparr>jfile := F, file_size := length F\<rparr>"

section \<open>Random access\<close>

definition read_exact_at :: "read_oracle \<Rightarrow> journal_reader \<Rightarrow> nat \<Rightarrow> nat \<Rightarrow> bytes result" where
  "read_exact_at rd r offset n =
     bind_ok (seek_start offset) (\<lambda>_.
       case read_loop rd (jfile r) offset n [] of
         (_, Inl e) \<Rightarrow> Inl e
       | (bs, Inr _) \<Rightarrow>
           if length bs < n then
             Inl (Io (IoError UnexpectedEof ''unexpected EOF in journal read_exact_at''))
           else Inr bs)"

definition bad_magic_at :: "nat \<Rightarrow> error" where
  "bad_magic_at l = Io (IoError InvalidData (''bad magic at LSN '' @ show_nat l))"

definition length_overflow_at :: "nat \<Rightarrow> error" where
  "length_overflow_at l =
     Io (IoError InvalidData (''frame length at LSN '' @ show_nat l @ '' exceeds FRAME_MAX_PAYLOAD''))"

definition truncated_at :: "nat \<Rightarrow> error" where
  "truncated_at l = Io (IoError UnexpectedEof (''frame at LSN '' @ show_nat l @ '' is truncated''))"

definition crc_mismatch_at :: "nat \<Rightarrow> error" where
  "crc_mismatch_at l = Io (IoError InvalidData (''CRC-32C mismatch at LSN '' @ show_nat l))"

definition read_at_lsn :: "crc_crate \<Rightarrow> read_oracle \<Rightarrow> journal_reader \<Rightarrow> nat \<Rightarrow> journal_record result" where
  "read_at_lsn C rd r l =
     bind_ok (read_exact_at rd r l 8) (\<lambda>header.
       if be_u32_at header 0 \<noteq> FRAME_MAGIC_V1 then Inl (bad_magic_at l)
       else
         let len32 = le_u32_at header 4
         in if word_of_nat FRAME_MAX_PAYLOAD < len32 then Inl (length_overflow_at l)
            else
              let flen = FRAME_OVERHEAD + unat len32;
                  file_len = length (jfile r);
                  fits = (case checked_add l flen of None \<Rightarrow> False | Some e \<Rightarrow> e \<le> file_len)
              in if \<not> fits then Inl (truncated_at l)
                 else bind_ok (read_exact_at rd r l flen) (\<lambda>fr.
                   case decode_frame C fr of
                     FrameOk _ s e \<Rightarrow> Inr (JournalRecord l (slice s e fr))
                   | FrameBadMagic \<Rightarrow> Inl (bad_magic_at l)
                   | FrameChecksumMismatch \<Rightarrow> Inl (crc_mismatch_at l)
                   | FrameTruncated \<Rightarrow> Inl (truncated_at l)
                   | FrameLengthOverflow \<Rightarrow> Inl (length_overflow_at l)))"

section \<open>The iterator\<close>

definition journal_iter_new :: "journal_reader \<Rightarrow> journal_iter" where
  "journal_iter_new r =
     \<lparr>jfile = jfile r, file_size = file_size r, cursor = cursor r, last_state = last_state r,
      buf = zeros READ_BUF_SIZE, valid_start = 0, valid_end = 0, finished = False\<rparr>"

definition buffered :: "journal_iter \<Rightarrow> nat" where
  "buffered it = valid_end it - valid_start it"

definition finish :: "journal_iter \<Rightarrow> journal_tail_state \<Rightarrow> journal_record result option \<times> journal_iter" where
  "finish it st = (None, it\<lparr>last_state := st, finished := True\<rparr>)"

definition view :: "journal_iter \<Rightarrow> bytes" where
  "view it = slice (valid_start it) (valid_end it) (buf it)"

text \<open>\<open>refill\<close>, in its three parts: compaction, growth for an oversize record, the read.\<close>

definition refill_compact :: "journal_iter \<Rightarrow> journal_iter" where
  "refill_compact it =
     (if 0 < valid_start it then
        it\<lparr>buf := copy_at 0 (view it) (buf it), valid_start := 0, valid_end := buffered it\<rparr>
      else it)"

definition refill_grow :: "journal_iter \<Rightarrow> journal_iter option" where
  "refill_grow it =
     (if length (buf it) = valid_end it then
        if valid_end it < 8 then None
        else
          let payload_len = le_u32_at (buf it) 4
          in if word_of_nat FRAME_MAX_PAYLOAD < payload_len then None
             else
               let needed = FRAME_OVERHEAD + unat payload_len;
                   in_file = file_size it - cursor it;
                   target = min needed in_file
               in if length (buf it) < target
                  then Some (it\<lparr>buf := buf it @ zeros (target - length (buf it))\<rparr>)
                  else Some it
      else Some it)"

definition refill_read :: "read_oracle \<Rightarrow> journal_iter \<Rightarrow> journal_iter \<times> nat result" where
  "refill_read rd it =
     (let file_offset = cursor it + valid_end it
      in if file_size it \<le> file_offset then (it, Inr 0)
         else
           let in_file = file_size it - file_offset;
               space = length (buf it) - valid_end it;
               to_read = min in_file space
           in if to_read = 0 then (it, Inr 0)
              else case seek_start file_offset of
                  Inl e \<Rightarrow> (it, Inl e)
                | Inr _ \<Rightarrow>
                    (case read_loop rd (jfile it) file_offset to_read [] of
                       (bs, Inl e) \<Rightarrow> (it\<lparr>buf := copy_at (valid_end it) bs (buf it)\<rparr>, Inl e)
                     | (bs, Inr _) \<Rightarrow>
                         (it\<lparr>buf := copy_at (valid_end it) bs (buf it),
                             valid_end := valid_end it + length bs\<rparr>, Inr (length bs))))"

definition refill :: "read_oracle \<Rightarrow> journal_iter \<Rightarrow> journal_iter \<times> nat result" where
  "refill rd it =
     (let it1 = refill_compact it
      in case refill_grow it1 of
           None \<Rightarrow> (it1, Inr 0)
         | Some it2 \<Rightarrow> refill_read rd it2)"

text \<open>
  A refill that reports bytes has moved the end of the buffered data forward, inside the cached
  file size, and left the cursor where it was. This is what makes the loops below terminate.
\<close>

lemma read_loop_length: "length acc \<le> want \<Longrightarrow> length (fst (read_loop rd F off want acc)) \<le> want"
proof (induction rd F off want acc rule: read_loop.induct)
  case (1 rd F off want acc)
  then show ?case
    by (subst read_loop.simps)
      (auto simp: sys_read_def split: sum.splits if_splits)
qed

lemma refill_compact_frame:
  "file_size (refill_compact it) = file_size it" "cursor (refill_compact it) = cursor it"
  "valid_start (refill_compact it) = 0" "valid_end (refill_compact it) = buffered it"
  "jfile (refill_compact it) = jfile it" "finished (refill_compact it) = finished it"
  "last_state (refill_compact it) = last_state it"
  by (simp_all add: refill_compact_def buffered_def)

lemma refill_grow_Some:
  "refill_grow it = Some it' \<Longrightarrow>
     file_size it' = file_size it \<and> cursor it' = cursor it \<and> valid_start it' = valid_start it \<and>
     valid_end it' = valid_end it \<and> jfile it' = jfile it \<and> finished it' = finished it \<and>
     last_state it' = last_state it \<and> (\<exists>n. buf it' = buf it @ zeros n)"
  by (auto simp: refill_grow_def Let_def split: if_splits)

lemma refill_read_progress:
  assumes "refill_read rd it = (it', Inr n)" and "0 < n"
  shows "file_size it' = file_size it \<and> cursor it' = cursor it \<and> valid_start it' = valid_start it \<and>
     valid_end it' = valid_end it + n \<and> valid_end it' \<le> length (buf it') \<and>
     cursor it + valid_end it' \<le> file_size it"
proof -
  let ?off = "cursor it + valid_end it"
  let ?want = "min (file_size it - ?off) (length (buf it) - valid_end it)"
  have "length (fst (read_loop rd (jfile it) ?off ?want [])) \<le> ?want"
    by (rule read_loop_length) simp
  with assms show ?thesis
    by (auto simp: refill_read_def Let_def split: if_splits sum.splits prod.splits)
qed

lemma refill_progress:
  assumes "refill rd it = (it', Inr n)" and "0 < n"
  shows "file_size it' = file_size it \<and> cursor it' = cursor it \<and> valid_start it' = 0 \<and>
     valid_end it' = buffered it + n \<and> valid_end it' \<le> length (buf it') \<and>
     cursor it + valid_end it' \<le> file_size it"
proof -
  from assms obtain it2 where grow: "refill_grow (refill_compact it) = Some it2"
    and read: "refill_read rd it2 = (it', Inr n)"
    by (auto simp: refill_def Let_def split: option.splits)
  from refill_grow_Some [OF grow] refill_read_progress [OF read assms(2)] show ?thesis
    by (simp add: refill_compact_frame)
qed

lemma length_view: "valid_start it = 0 \<Longrightarrow> valid_end it \<le> length (buf it) \<Longrightarrow> length (view it) = valid_end it"
  by (simp add: view_def)

lemma length_view_le: "length (view it) \<le> buffered it"
  by (simp add: view_def slice_def buffered_def)

lemma view_advance [simp]:
  "view (it\<lparr>valid_start := valid_start it + k, cursor := c\<rparr>) = drop k (view it)"
  "view (it\<lparr>cursor := c, valid_start := valid_start it + k\<rparr>) = drop k (view it)"
  by (simp_all add: view_def slice_def drop_take add.commute)

subsection \<open>Zero runs\<close>

lemma skip_measure:
  assumes "(it2, Inr n) = refill rd (it\<lparr>cursor := cursor it + length (view it), valid_start := valid_end it\<rparr>)"
    and "0 < n"
  shows "file_size it2 - (cursor it2 + length (view it2)) < file_size it - (cursor it + length (view it))"
proof -
  note r = refill_progress [OF assms(1) [symmetric] assms(2)]
  have "length (view it2) = valid_end it2" using r by (intro length_view) simp_all
  moreover have "cursor it + length (view it) + n \<le> file_size it"
    using r by (simp add: buffered_def)
  ultimately show ?thesis using r assms(2) by (simp add: buffered_def) linarith
qed

function skip_loop :: "read_oracle \<Rightarrow> nat \<Rightarrow> journal_iter \<Rightarrow> journal_iter \<times> journal_tail_state option result" where
  "skip_loop rd run_start it =
     (let k = length (takeWhile (\<lambda>b. b = 0) (view it))
      in if k < length (view it) then
           let it1 = it\<lparr>valid_start := valid_start it + k, cursor := cursor it + k\<rparr>;
               run_end = cursor it1
           in if run_end mod GAP_ALIGN = 0 \<and> run_end - run_start \<le> MAX_GAP_SKIP
              then (it1, Inr None)
              else (it1\<lparr>cursor := run_start\<rparr>, Inr (Some TruncatedHeader))
         else
           let it1 = it\<lparr>cursor := cursor it + length (view it), valid_start := valid_end it\<rparr>
           in if file_size it1 \<le> cursor it1 then (it1\<lparr>cursor := run_start\<rparr>, Inr (Some CleanEnd))
              else case refill rd it1 of
                  (it2, Inl e) \<Rightarrow> (it2, Inl e)
                | (it2, Inr n) \<Rightarrow>
                    if n = 0 then (it2\<lparr>cursor := run_start\<rparr>, Inr (Some CleanEnd))
                    else skip_loop rd run_start it2)"
  by pat_completeness auto
termination
  by (relation "measure (\<lambda>(rd, run_start, it). file_size it - (cursor it + length (view it)))")
    (auto intro: skip_measure)

declare skip_loop.simps [simp del]

definition skip_zero_run :: "read_oracle \<Rightarrow> journal_iter \<Rightarrow> journal_iter \<times> journal_tail_state option result" where
  "skip_zero_run rd it = skip_loop rd (cursor it) it"

subsection \<open>One call of \<open>next\<close>\<close>

text \<open>The progress measure of the loop: unread bytes of the file, then buffered bytes.\<close>

definition unread :: "journal_iter \<Rightarrow> nat" where
  "unread it = file_size it - (cursor it + length (view it))"

definition progress :: "journal_iter \<Rightarrow> journal_iter \<Rightarrow> bool" where
  "progress it' it \<longleftrightarrow>
     unread it' < unread it \<or> (unread it' = unread it \<and> length (view it') < length (view it))"

definition no_regress :: "journal_iter \<Rightarrow> journal_iter \<Rightarrow> bool" where
  "no_regress it' it \<longleftrightarrow>
     unread it' < unread it \<or> (unread it' = unread it \<and> length (view it') \<le> length (view it))"

lemma progress_trans: "progress it2 it1 \<Longrightarrow> no_regress it1 it \<Longrightarrow> progress it2 it"
  by (auto simp: progress_def no_regress_def)

lemma refill_unread:
  assumes "refill rd it = (it', Inr n)" and "0 < n"
  shows "unread it' < unread it"
proof -
  note r = refill_progress [OF assms]
  have "length (view it') = valid_end it'" using r by (intro length_view) simp_all
  with r assms(2) length_view_le [of it] show ?thesis by (auto simp: unread_def)
qed

lemma skip_loop_no_regress:
  assumes "skip_loop rd rs it = (it', Inr None)"
  shows "unread it' < unread it \<or>
    (unread it' = unread it \<and> length (takeWhile (\<lambda>b. b = 0) (view it)) < length (view it) \<and>
     length (view it') + length (takeWhile (\<lambda>b. b = 0) (view it)) = length (view it))"
  using assms
proof (induction rd rs it arbitrary: it' rule: skip_loop.induct)
  case (1 rd rs it)
  let ?k = "length (takeWhile (\<lambda>b. b = 0) (view it))"
  let ?it1 = "it\<lparr>cursor := cursor it + length (view it), valid_start := valid_end it\<rparr>"
  show ?case
  proof (cases "?k < length (view it)")
    case True
    with "1.prems" have it': "it' = it\<lparr>valid_start := valid_start it + ?k, cursor := cursor it + ?k\<rparr>"
      by (subst (asm) skip_loop.simps) (auto simp: Let_def split: if_splits)
    then have "length (view it') = length (view it) - ?k"
      by (simp add: view_advance)
    with True it' show ?thesis by (simp add: unread_def)
  next
    case False
    with "1.prems" obtain it2 n where ref: "refill rd ?it1 = (it2, Inr n)" "0 < n"
      and c: "\<not> file_size ?it1 \<le> cursor ?it1"
      and rec: "skip_loop rd rs it2 = (it', Inr None)"
      by (subst (asm) skip_loop.simps) (auto simp: Let_def split: if_splits prod.splits sum.splits)
    have "unread it' \<le> unread it2"
      using "1.IH" [OF refl False refl c ref(1) [symmetric] refl _ rec] ref(2) by auto
    moreover have "unread it2 < unread ?it1" by (rule refill_unread [OF ref])
    moreover have "unread ?it1 = unread it" by (simp add: unread_def view_def slice_def)
    ultimately show ?thesis by simp
  qed
qed

definition fill :: "read_oracle \<Rightarrow> journal_iter \<Rightarrow> journal_iter \<times> journal_record result option option" where
  "fill rd it =
     (if buffered it = 0 then
        if file_size it \<le> cursor it then
          (snd (finish it CleanEnd), Some (fst (finish it CleanEnd)))
        else case refill rd it of
            (it1, Inr n) \<Rightarrow>
              if n = 0 then (snd (finish it1 CleanEnd), Some (fst (finish it1 CleanEnd)))
              else (it1, None)
          | (it1, Inl e) \<Rightarrow> (it1\<lparr>finished := True\<rparr>, Some (Some (Inl e)))
      else (it, None))"

lemma fill_no_regress: "fill rd it = (it1, None) \<Longrightarrow> no_regress it1 it"
  by (auto simp: fill_def no_regress_def dest: refill_unread split: if_splits prod.splits sum.splits)

lemma skip_zero_run_progress:
  assumes "skip_zero_run rd it = (it', Inr None)" and "buf it ! valid_start it = 0"
  shows "progress it' it"
proof (cases "view it")
  case Nil
  with skip_loop_no_regress [OF assms(1) [unfolded skip_zero_run_def]] show ?thesis
    by (simp add: progress_def)
next
  case (Cons b v)
  then have "b = buf it ! valid_start it"
    by (cases "drop (valid_start it) (buf it)")
      (auto simp: view_def slice_def nth_via_drop take_Cons' split: if_splits)
  with assms(2) Cons have "0 < length (takeWhile (\<lambda>b. b = 0) (view it))" by simp
  with skip_loop_no_regress [OF assms(1) [unfolded skip_zero_run_def]] show ?thesis
    unfolding progress_def by linarith
qed

definition truncated_state :: "journal_iter \<Rightarrow> journal_tail_state" where
  "truncated_state it = (if buffered it < 8 then TruncatedHeader else TruncatedPayload)"

function next_loop :: "crc_crate \<Rightarrow> read_oracle \<Rightarrow> journal_iter \<Rightarrow> journal_record result option \<times> journal_iter" where
  "next_loop C rd it =
     (case fill rd it of
        (it1, Some out) \<Rightarrow> (out, it1)
      | (it1, None) \<Rightarrow>
          if buf it1 ! valid_start it1 = 0 then
            (case skip_zero_run rd it1 of
               (it2, Inr None) \<Rightarrow> next_loop C rd it2
             | (it2, Inr (Some st)) \<Rightarrow> finish it2 st
             | (it2, Inl e) \<Rightarrow> (Some (Inl e), it2\<lparr>finished := True\<rparr>))
          else
            (case decode_frame C (view it1) of
               FrameOk cons s e \<Rightarrow>
                 (Some (Inr (JournalRecord (cursor it1) (slice s e (view it1)))),
                  it1\<lparr>cursor := cursor it1 + cons, valid_start := valid_start it1 + cons\<rparr>)
             | FrameTruncated \<Rightarrow>
                 if file_size it1 \<le> cursor it1 + buffered it1 then finish it1 (truncated_state it1)
                 else (case refill rd it1 of
                     (it2, Inr n) \<Rightarrow>
                       if n = 0 then finish it2 (truncated_state it1) else next_loop C rd it2
                   | (it2, Inl e) \<Rightarrow> (Some (Inl e), it2\<lparr>finished := True\<rparr>))
             | FrameBadMagic \<Rightarrow> finish it1 BadMagic
             | FrameLengthOverflow \<Rightarrow> finish it1 LengthOverflow
             | FrameChecksumMismatch \<Rightarrow> finish it1 ChecksumMismatch))"
  by pat_completeness auto
termination
proof (relation "measures [\<lambda>(C, rd, it). unread it, \<lambda>(C, rd, it). length (view it)]", goal_cases)
  case 1
  then show ?case by simp
next
  case prems: (2 C rd it)
  then have "progress (fst (skip_zero_run rd (fst (fill rd it)))) it"
    by (auto intro: progress_trans [OF skip_zero_run_progress fill_no_regress] dest!: sym [of "(_, _)"])
  with prems show ?case by (auto simp: progress_def dest!: sym [of "(_, _)"])
next
  case prems: (3 C rd it)
  then have "unread (fst (refill rd (fst (fill rd it)))) < unread (fst (fill rd it))"
    by (auto intro: refill_unread dest!: sym [of "(_, _)"])
  with prems fill_no_regress show ?case
    by (fastforce simp: no_regress_def dest!: sym [of "(_, _)"])
qed

declare next_loop.simps [simp del]

definition next_record :: "crc_crate \<Rightarrow> read_oracle \<Rightarrow> journal_iter \<Rightarrow> journal_record result option \<times> journal_iter" where
  "next_record C rd it = (if finished it then (None, it) else next_loop C rd it)"

lemma next_loop_progress:
  "next_loop C rd it = (Some (Inr r), it') \<Longrightarrow> progress it' it"
proof (induction C rd it arbitrary: it' rule: next_loop.induct)
  case (1 C rd it)
  obtain it1 where fill: "fill rd it = (it1, None)"
  proof (cases "fill rd it")
    case (Pair it1 o1)
    with "1.prems" show ?thesis
    proof (cases o1)
      case (Some out)
      with Pair "1.prems" show ?thesis
        by (auto simp: next_loop.simps [of C rd it] fill_def finish_def
            split: if_splits prod.splits sum.splits)
    qed (auto intro: that)
  qed
  note nr = fill_no_regress [OF fill]
  show ?case
  proof (cases "buf it1 ! valid_start it1 = 0")
    case True
    with "1.prems" fill obtain it2 where skip: "skip_zero_run rd it1 = (it2, Inr None)"
      and rec: "next_loop C rd it2 = (Some (Inr r), it')"
      by (auto simp: next_loop.simps [of C rd it] finish_def
          split: prod.splits sum.splits option.splits)
    have "progress it' it2"
      using "1.IH"(1) [OF fill [symmetric] refl True skip [symmetric] refl refl rec] .
    moreover have "progress it2 it1" by (rule skip_zero_run_progress [OF skip True])
    ultimately show ?thesis using nr by (auto simp: progress_def no_regress_def)
  next
    case False
    show ?thesis
    proof (cases "decode_frame C (view it1)")
      case (FrameOk n s e)
      with "1.prems" fill False
      have it': "it' = it1\<lparr>cursor := cursor it1 + n, valid_start := valid_start it1 + n\<rparr>"
        by (simp add: next_loop.simps [of C rd it])
      from decode_frame_consumed_le [OF FrameOk] have n: "12 \<le> n" "n \<le> length (view it1)"
        by simp_all
      then have "progress it' it1"
        unfolding it' progress_def unread_def by (simp del: length_0_conv)
      with nr show ?thesis by (rule progress_trans [rotated])
    next
      case FrameTruncated
      with "1.prems" fill False obtain it2 n where ref: "refill rd it1 = (it2, Inr n)" "0 < n"
        and c: "\<not> file_size it1 \<le> cursor it1 + buffered it1"
        and rec: "next_loop C rd it2 = (Some (Inr r), it')"
        by (auto simp: next_loop.simps [of C rd it] finish_def
            split: if_splits prod.splits sum.splits)
      have "progress it' it2"
        using "1.IH"(2) [OF fill [symmetric] refl False FrameTruncated c ref(1) [symmetric] refl _ rec]
          ref(2) by simp
      with refill_unread [OF ref] nr show ?thesis by (auto simp: progress_def no_regress_def)
    qed (use "1.prems" fill False in \<open>simp_all add: next_loop.simps [of C rd it] finish_def\<close>)
  qed
qed

text \<open>\<open>while iter.next().transpose()?.is_some() {}\<close>, keeping the records it yields.\<close>

function drain_iter :: "crc_crate \<Rightarrow> read_oracle \<Rightarrow> journal_iter \<Rightarrow> journal_record list \<times> unit result \<times> journal_iter" where
  "drain_iter C rd it =
     (case next_record C rd it of
        (None, it1) \<Rightarrow> ([], Inr (), it1)
      | (Some (Inl e), it1) \<Rightarrow> ([], Inl e, it1)
      | (Some (Inr r), it1) \<Rightarrow>
          (case drain_iter C rd it1 of (rs, res, it2) \<Rightarrow> (r # rs, res, it2)))"
  by pat_completeness auto
termination
proof (relation "measures [\<lambda>(C, rd, it). unread it, \<lambda>(C, rd, it). length (view it)]", goal_cases)
  case 1
  then show ?case by simp
next
  case prems: (2 C rd it)
  then have "progress (snd (next_record C rd it)) it"
    by (auto simp: next_record_def intro: next_loop_progress dest!: sym [of "(_, _)"] split: if_splits)
  with prems show ?case by (auto simp: progress_def dest!: sym [of "(_, _)"])
qed

declare drain_iter.simps [simp del]

section \<open>The specification: reading the file without a buffer\<close>

function scan :: "crc_crate \<Rightarrow> bytes \<Rightarrow> nat \<Rightarrow> journal_record list \<times> nat \<times> journal_tail_state" where
  "scan C D pos =
     (let v = drop pos D
      in if v = [] then ([], pos, CleanEnd)
         else if hd v = 0 then
           let k = length (takeWhile (\<lambda>b. b = 0) v)
           in if k = length v then ([], pos, CleanEnd)
              else if (pos + k) mod GAP_ALIGN = 0 \<and> k \<le> MAX_GAP_SKIP then scan C D (pos + k)
              else ([], pos, TruncatedHeader)
         else case decode_frame C v of
             FrameOk cons s e \<Rightarrow>
               (case scan C D (pos + cons) of
                  (rs, p, st) \<Rightarrow> (JournalRecord pos (slice s e v) # rs, p, st))
           | FrameTruncated \<Rightarrow>
               ([], pos, if length v < 8 then TruncatedHeader else TruncatedPayload)
           | FrameBadMagic \<Rightarrow> ([], pos, BadMagic)
           | FrameLengthOverflow \<Rightarrow> ([], pos, LengthOverflow)
           | FrameChecksumMismatch \<Rightarrow> ([], pos, ChecksumMismatch))"
  by pat_completeness auto
termination
proof (relation "measure (\<lambda>(C, D, pos). length D - pos)", goal_cases)
  case 1
  then show ?case by simp
next
  case prems: (2 C D pos)
  then have "takeWhile (\<lambda>b. b = 0) (drop pos D) \<noteq> []"
    by (cases "drop pos D") simp_all
  then have "0 < length (takeWhile (\<lambda>b. b = 0) (drop pos D))"
    by (rule length_greater_0_conv [THEN iffD2])
  moreover have "pos < length D"
    using prems(1,2) by simp
  ultimately show ?case
    using prems(1,4) by (simp only: in_measure split_conv)
next
  case prems: (3 C D pos)
  then show ?case by (auto dest: decode_frame_consumed_le)
qed

declare scan.simps [simp del]

section \<open>The buffered iterator computes the specification\<close>

definition available :: "journal_iter \<Rightarrow> bytes" where
  "available it = take (file_size it) (jfile it)"

text \<open>
  The buffer mirrors the file at the cursor: the invariant written down at the \<open>buf\<close> field of
  the source.
\<close>

definition iter_inv :: "journal_iter \<Rightarrow> bool" where
  "iter_inv it \<longleftrightarrow>
     valid_start it \<le> valid_end it \<and> valid_end it \<le> length (buf it) \<and>
     READ_BUF_SIZE \<le> length (buf it) \<and>
     view it = take (buffered it) (drop (cursor it) (available it))"

definition same_file :: "journal_iter \<Rightarrow> journal_iter \<Rightarrow> bool" where
  "same_file it' it \<longleftrightarrow>
     jfile it' = jfile it \<and> file_size it' = file_size it \<and> finished it' = finished it"

text \<open>
  The kernel keeps the \<open>read\<close> contract: no error, and at least one byte when at least one was
  asked for and the file has one; the cached size is one a file can have.
\<close>

definition reads_ok :: "read_oracle \<Rightarrow> nat \<Rightarrow> bool" where
  "reads_ok rd fsize \<longleftrightarrow>
     (\<forall>off n. \<exists>k. rd off n = Inr k \<and> (0 < n \<longrightarrow> 0 < k)) \<and> fsize \<le> 2 ^ 63"

lemma same_file_available: "same_file it' it \<Longrightarrow> available it' = available it"
  by (simp add: same_file_def available_def)

lemma same_file_refl [simp]: "same_file it it"
  by (simp add: same_file_def)

lemma same_file_trans: "same_file a b \<Longrightarrow> same_file b c \<Longrightarrow> same_file a c"
  by (simp add: same_file_def)

lemma length_view_inv: "iter_inv it \<Longrightarrow> length (view it) = buffered it"
  unfolding view_def buffered_def by (rule length_slice) (simp add: iter_inv_def)

lemma iter_inv_bound:
  "iter_inv it \<Longrightarrow> buffered it = 0 \<or> cursor it + buffered it \<le> length (available it)"
  using length_view_inv [of it] by (auto simp: iter_inv_def)

lemma iter_inv_rest:
  assumes "iter_inv it"
  shows "drop (cursor it) (available it) = view it @ drop (cursor it + buffered it) (available it)"
proof -
  have "view it = take (buffered it) (drop (cursor it) (available it))"
    using assms by (simp add: iter_inv_def)
  then show ?thesis
    by (metis add.commute append_take_drop_id drop_drop)
qed

lemma take_split_at:
  "j \<le> m \<Longrightarrow> take j xs @ take (m - length (take j xs)) (drop (length (take j xs)) xs) = take m xs"
proof (cases "j \<le> length xs")
  case True
  assume "j \<le> m"
  with True show ?thesis using take_add [of j "m - j" xs] by simp
qed simp

lemma read_loop_full:
  assumes "reads_ok rd n"
  shows "read_loop rd F off want acc = (acc @ take (want - length acc) (drop (off + length acc) F), Inr ())"
  using assms
proof (induction rd F off want acc rule: read_loop.induct)
  case (1 rd F off want acc)
  let ?X = "drop (off + length acc) F"
  let ?m = "want - length acc"
  show ?case
  proof (cases "want \<le> length acc")
    case True
    then show ?thesis by (simp add: read_loop.simps [of rd F off want acc])
  next
    case False
    with "1.prems" obtain k where k: "rd (off + length acc) ?m = Inr k" "0 < k"
      unfolding reads_ok_def by (metis not_le zero_less_diff)
    let ?bs = "take (min k ?m) ?X"
    have call: "sys_read rd F (off + length acc) ?m = Inr ?bs"
      by (simp add: sys_read_def k(1))
    show ?thesis
    proof (cases "?bs = []")
      case True
      with k(2) False have "?X = []" by (auto simp: min_def split: if_splits)
      with True False call show ?thesis
        by (simp add: read_loop.simps [of rd F off want acc])
    next
      case nonempty: False
      with False call have "read_loop rd F off want acc = read_loop rd F off want (acc @ ?bs)"
        by (subst read_loop.simps) (simp del: take_eq_Nil)
      also have "\<dots> = (acc @ ?bs @ take (?m - length ?bs) (drop (length ?bs) ?X), Inr ())"
        using "1.IH" [OF False call nonempty "1.prems"] by (simp add: add.assoc add.commute)
      also have "?bs @ take (?m - length ?bs) (drop (length ?bs) ?X) = take ?m ?X"
        by (rule take_split_at) simp
      finally show ?thesis .
    qed
  qed
qed

lemma refill_compact_inv:
  assumes "iter_inv it"
  shows "take (buffered it) (buf (refill_compact it)) = view it"
    and "length (buf (refill_compact it)) = length (buf it)"
proof -
  have len: "length (view it) = buffered it" by (rule length_view_inv [OF assms])
  show "length (buf (refill_compact it)) = length (buf it)"
    using assms len by (auto simp: refill_compact_def iter_inv_def buffered_def)
  show "take (buffered it) (buf (refill_compact it)) = view it"
    using len by (auto simp: refill_compact_def copy_at_def view_def slice_def buffered_def)
qed

lemma refill_grow_inv:
  assumes "iter_inv it" and "view it = [] \<or> decode_frame C (view it) = FrameTruncated"
  shows "\<exists>it2. refill_grow (refill_compact it) = Some it2 \<and>
    (cursor it + buffered it < file_size it \<longrightarrow> buffered it < length (buf it2))"
proof -
  let ?it1 = "refill_compact it"
  note c = refill_compact_frame [of it] refill_compact_inv [OF assms(1)]
  have big: "READ_BUF_SIZE \<le> length (buf ?it1)" "buffered it \<le> length (buf ?it1)"
    using assms(1) c by (auto simp: iter_inv_def buffered_def)
  show ?thesis
  proof (cases "length (buf ?it1) = buffered it")
    case True
    with big have b8: "8 \<le> buffered it" by (simp add: READ_BUF_SIZE_def)
    with length_view_inv [OF assms(1)] assms(2) have dec: "decode_frame C (buf ?it1) = FrameTruncated"
      using c(8) True by auto
    from dec b8 True have "\<not> word_of_nat FRAME_MAX_PAYLOAD < le_u32_at (buf ?it1) 4"
      and "length (buf ?it1) < 8 + unat (le_u32_at (buf ?it1) 4) + 4"
      by (auto simp: decode_frame_def Let_def split: if_splits)
    with True b8 c show ?thesis
      by (auto simp: refill_grow_def Let_def FRAME_OVERHEAD_def)
  next
    case False
    with big c show ?thesis by (simp add: refill_grow_def)
  qed
qed


lemma take_own_length: "v = take m X \<Longrightarrow> v = take (length v) X"
  by (simp add: min_def)

lemma refill_read_complete:
  assumes rd: "reads_ok rd (file_size it)" and start: "valid_start it = 0"
    and fits: "valid_end it \<le> length (buf it)" "READ_BUF_SIZE \<le> length (buf it)"
    and mirror: "take (valid_end it) (buf it) = take (valid_end it) (drop (cursor it) (available it))"
    and space: "cursor it + valid_end it < file_size it \<longrightarrow> valid_end it < length (buf it)"
  shows "\<exists>it' n. refill_read rd it = (it', Inr n) \<and> iter_inv it' \<and> same_file it' it \<and>
    cursor it' = cursor it \<and> last_state it' = last_state it \<and> buffered it' = valid_end it + n \<and>
    (n = 0 \<longrightarrow> drop (cursor it + valid_end it) (available it) = [])"
proof -
  let ?off = "cursor it + valid_end it"
  let ?want = "min (file_size it - ?off) (length (buf it) - valid_end it)"
  let ?bs = "take ?want (drop ?off (jfile it))"
  show ?thesis
  proof (cases "file_size it \<le> ?off")
    case True
    then have "refill_read rd it = (it, Inr 0)" "drop ?off (available it) = []"
      by (simp_all add: refill_read_def available_def)
    moreover have "iter_inv it"
      using start fits mirror by (simp add: iter_inv_def buffered_def view_def slice_0_take)
    ultimately show ?thesis using start by (simp add: buffered_def)
  next
    case False
    then have want: "0 < ?want" using space by simp
    have seek: "seek_start ?off = Inr ()"
      using rd False by (simp add: seek_start_def reads_ok_def)
    have read: "read_loop rd (jfile it) ?off ?want [] = (?bs, Inr ())"
      using read_loop_full [OF rd, of "jfile it" ?off ?want "[]"] by simp
    let ?it' = "it\<lparr>buf := copy_at (valid_end it) ?bs (buf it), valid_end := valid_end it + length ?bs\<rparr>"
    have res: "refill_read rd it = (?it', Inr (length ?bs))"
      using False want seek read by (simp add: refill_read_def Let_def)
    have bs: "?bs = take ?want (drop ?off (available it))"
      by (simp add: available_def drop_take take_take min.assoc min.commute)
    have len: "valid_end it + length ?bs \<le> length (buf it)"
      using fits by auto
    have "view ?it' = take (valid_end it + length ?bs) (copy_at (valid_end it) ?bs (buf it))"
      using start by (simp add: view_def slice_0_take)
    also have "\<dots> = take (valid_end it) (buf it) @ ?bs"
      by (rule take_copy_at [OF fits(1)])
    also have "\<dots> = take (valid_end it + ?want) (drop (cursor it) (available it))"
      unfolding mirror bs by (simp add: take_add add.commute)
    finally have view: "view ?it' = take (valid_end it + ?want) (drop (cursor it) (available it))" .
    moreover have "length (view ?it') = valid_end it + length ?bs"
      using start len by (simp add: view_def)
    ultimately have "view ?it' = take (valid_end it + length ?bs) (drop (cursor it) (available it))"
      using take_own_length by metis
    then have inv: "iter_inv ?it'"
      using start fits len by (simp add: iter_inv_def buffered_def available_def)
    have "length ?bs = 0 \<longrightarrow> drop ?off (available it) = []"
      using want bs by (metis length_0_conv take_eq_Nil less_irrefl)
    with res inv start show ?thesis
      by (intro exI [of _ ?it'] exI [of _ "length ?bs"]) (simp add: same_file_def buffered_def)
  qed
qed

lemma refill_complete:
  assumes "iter_inv it" "reads_ok rd (file_size it)"
    and "view it = [] \<or> decode_frame C (view it) = FrameTruncated"
  shows "\<exists>it' n. refill rd it = (it', Inr n) \<and> iter_inv it' \<and> same_file it' it \<and>
    cursor it' = cursor it \<and> last_state it' = last_state it \<and> buffered it' = buffered it + n \<and>
    (n = 0 \<longrightarrow> drop (cursor it) (available it) = view it)"
proof -
  let ?it1 = "refill_compact it"
  note c = refill_compact_frame [of it] refill_compact_inv [OF assms(1)]
  from refill_grow_inv [OF assms(1,3)] obtain it2 where grow: "refill_grow ?it1 = Some it2"
    and space: "cursor it + buffered it < file_size it \<longrightarrow> buffered it < length (buf it2)"
    by blast
  from refill_grow_Some [OF grow] obtain z where g: "file_size it2 = file_size it"
    "cursor it2 = cursor it" "valid_start it2 = 0" "valid_end it2 = buffered it"
    "jfile it2 = jfile it" "finished it2 = finished it" "last_state it2 = last_state it"
    "buf it2 = buf ?it1 @ zeros z"
    by (auto simp: c)
  have "buffered it \<le> length (buf it)" "READ_BUF_SIZE \<le> length (buf it)"
    using assms(1) by (auto simp: iter_inv_def buffered_def)
  then have fits: "valid_end it2 \<le> length (buf it2)" "READ_BUF_SIZE \<le> length (buf it2)"
    and "take (valid_end it2) (buf it2) = view it"
    using g c by simp_all
  moreover have avail: "available it2 = available it" by (simp add: available_def g)
  ultimately have mirror:
    "take (valid_end it2) (buf it2) = take (valid_end it2) (drop (cursor it2) (available it2))"
    using assms(1) g by (simp add: iter_inv_def)
  have "refill rd it = refill_read rd it2" by (simp add: refill_def grow)
  moreover have "drop (cursor it) (available it) = view it"
    if "drop (cursor it + buffered it) (available it) = []"
    using iter_inv_rest [OF assms(1)] that by simp
  ultimately show ?thesis
    using refill_read_complete [OF _ g(3) fits mirror] assms(2) space g avail
    by (fastforce simp: same_file_def)
qed

text \<open>What the specification says of a zero run that starts at \<open>p\<close>.\<close>

definition zero_run :: "bytes \<Rightarrow> nat \<Rightarrow> nat" where
  "zero_run D p = length (takeWhile (\<lambda>b. b = 0) (drop p D))"

definition zero_run_state :: "bytes \<Rightarrow> nat \<Rightarrow> journal_tail_state option" where
  "zero_run_state D p =
     (let k = zero_run D p
      in if k = length (drop p D) then Some CleanEnd
         else if (p + k) mod GAP_ALIGN = 0 \<and> k \<le> MAX_GAP_SKIP then None
         else Some TruncatedHeader)"

lemma zero_run_split:
  assumes "drop p D = zeros n @ Y"
  shows "zero_run D p = n + length (takeWhile (\<lambda>b. b = 0) Y)"
  unfolding zero_run_def assms by (simp add: takeWhile_append)

lemma takeWhile_prefix_short:
  "length (takeWhile P v) < length v \<Longrightarrow> takeWhile P (v @ w) = takeWhile P v"
  by (induction v) (auto split: if_splits)

lemma takeWhile_zero_full:
  "\<not> length (takeWhile (\<lambda>b. b = (0 :: u8)) v) < length v \<Longrightarrow> v = zeros (length v)"
proof -
  assume "\<not> length (takeWhile (\<lambda>b. b = 0) v) < length v"
  then have "takeWhile (\<lambda>b. b = 0) v = v"
    by (metis (mono_tags, lifting) antisym_conv2 append_eq_append_conv append_Nil2
        length_takeWhile_le takeWhile_dropWhile_id)
  then show ?thesis by (rule takeWhile_all_zero)
qed

lemma iter_inv_advance:
  assumes "iter_inv it" and "k \<le> length (view it)"
  shows "iter_inv (it\<lparr>cursor := cursor it + k, valid_start := valid_start it + k\<rparr>)"
proof -
  have "drop k (view it) = take (buffered it - k) (drop (cursor it + k) (available it))"
    using assms(1) by (simp add: iter_inv_def drop_take add.commute)
  then show ?thesis
    using assms length_view_inv [OF assms(1)]
    by (auto simp: iter_inv_def buffered_def available_def)
qed

lemma cursor_valid_start_commute:
  "(it :: journal_iter)\<lparr>valid_start := a, cursor := b\<rparr> = it\<lparr>cursor := b, valid_start := a\<rparr>"
  by (cases it) simp

lemma skip_loop_complete:
  assumes "iter_inv it" "reads_ok rd (file_size it)" "rs \<le> cursor it"
    and "drop rs (available it) = zeros (cursor it - rs) @ drop (cursor it) (available it)"
  shows "\<exists>it' r. skip_loop rd rs it = (it', Inr r) \<and> same_file it' it \<and>
    last_state it' = last_state it \<and> r = zero_run_state (available it) rs \<and>
    (if r = None then cursor it' = rs + zero_run (available it) rs \<and> iter_inv it' else cursor it' = rs)"
  using assms
proof (induction rd rs it rule: skip_loop.induct)
  case (1 rd rs it)
  let ?D = "available it"
  let ?k = "length (takeWhile (\<lambda>b. b = 0) (view it))"
  note zr = zero_run_split [OF "1.prems"(4)]
  note rest = iter_inv_rest [OF "1.prems"(1)]
  have len_rs: "length (drop rs ?D) = (cursor it - rs) + length (drop (cursor it) ?D)"
    using "1.prems"(4) by (metis length_append length_replicate)
  show ?case
  proof (cases "?k < length (view it)")
    case True
    let ?it1 = "it\<lparr>valid_start := valid_start it + ?k, cursor := cursor it + ?k\<rparr>"
    have run: "zero_run ?D rs = cursor it - rs + ?k"
      unfolding zr rest using True by (simp add: takeWhile_prefix_short)
    have "?k < length (drop (cursor it) ?D)" unfolding rest using True by simp
    then have "zero_run ?D rs \<noteq> length (drop rs ?D)"
      unfolding run len_rs by simp
    moreover have "rs + zero_run ?D rs = cursor it + ?k" "cursor it + ?k - rs = zero_run ?D rs"
      unfolding run using "1.prems"(3) by simp_all
    moreover have "iter_inv ?it1"
      using iter_inv_advance [OF "1.prems"(1) less_imp_le [OF True]]
      by (simp only: cursor_valid_start_commute)
    ultimately show ?thesis using True
      by (subst skip_loop.simps)
        (simp add: Let_def zero_run_state_def same_file_def del: length_drop)
  next
    case False
    let ?it1 = "it\<lparr>cursor := cursor it + length (view it), valid_start := valid_end it\<rparr>"
    from takeWhile_zero_full [OF False] have allz: "view it = zeros (length (view it))" .
    have blen: "length (view it) = buffered it" by (rule length_view_inv [OF "1.prems"(1)])
    have dropc: "drop (cursor it) ?D = zeros (buffered it) @ drop (cursor it + buffered it) ?D"
      using rest allz blen by simp
    then have split1: "drop rs ?D = zeros (cursor ?it1 - rs) @ drop (cursor ?it1) ?D"
      using "1.prems"(3,4) blen
      by (simp add: replicate_add [symmetric] append_assoc [symmetric] del: append_assoc)
    have clean: "zero_run_state ?D rs = Some CleanEnd" if "drop (cursor ?it1) ?D = []"
      using zero_run_split [OF split1] that split1
      by (simp add: zero_run_state_def Let_def del: length_drop)
    have "valid_start it + length (view it) = valid_end it"
      using blen "1.prems"(1) by (auto simp: buffered_def iter_inv_def)
    then have inv1: "iter_inv ?it1"
      using iter_inv_advance [OF "1.prems"(1), of "length (view it)"] by simp
    have v1: "view ?it1 = []" by (simp add: view_def slice_def)
    have a1: "available ?it1 = ?D" by (simp add: available_def)
    show ?thesis
    proof (cases "file_size ?it1 \<le> cursor ?it1")
      case True
      then have "drop (cursor ?it1) ?D = []" by (simp add: available_def)
      with True False clean show ?thesis
        by (subst skip_loop.simps) (simp add: Let_def same_file_def)
    next
      case c: False
      have "reads_ok rd (file_size ?it1)" using "1.prems"(2) by simp
      from refill_complete [OF inv1 this disjI1 [OF v1]] obtain it2 n where
        ref: "refill rd ?it1 = (it2, Inr n)" and inv2: "iter_inv it2"
        and s2: "same_file it2 ?it1" "cursor it2 = cursor ?it1" "last_state it2 = last_state ?it1"
        and n0: "n = 0 \<longrightarrow> drop (cursor ?it1) (available ?it1) = view ?it1"
        by blast
      have same: "same_file it2 it" "available it2 = ?D" "last_state it2 = last_state it"
        using s2 a1 by (auto simp: same_file_def available_def)
      show ?thesis
      proof (cases "n = 0")
        case True
        with n0 v1 a1 have "drop (cursor ?it1) ?D = []" by simp
        with clean ref c False True same show ?thesis
          by (subst skip_loop.simps) (simp add: Let_def same_file_def)
      next
        case nz: False
        have step: "skip_loop rd rs it = skip_loop rd rs it2"
          using False c ref nz by (subst skip_loop.simps) (simp add: Let_def)
        have "\<exists>it' r. skip_loop rd rs it2 = (it', Inr r) \<and> same_file it' it2 \<and>
          last_state it' = last_state it2 \<and> r = zero_run_state (available it2) rs \<and>
          (if r = None then cursor it' = rs + zero_run (available it2) rs \<and> iter_inv it' else cursor it' = rs)"
          using "1.IH" [OF refl False refl c ref [symmetric] refl nz inv2] "1.prems" s2 same split1
          by (simp add: same_file_def)
        then show ?thesis
          unfolding step using same by (auto intro: same_file_trans)
      qed
    qed
  qed
qed

lemma scan_empty: "drop pos D = [] \<Longrightarrow> scan C D pos = ([], pos, CleanEnd)"
  by (simp add: scan.simps [of C D pos])

lemma scan_zero_run:
  assumes "drop pos D \<noteq> []" and "hd (drop pos D) = 0"
  shows "scan C D pos =
    (case zero_run_state D pos of
       None \<Rightarrow> scan C D (pos + zero_run D pos)
     | Some st \<Rightarrow> ([], pos, st))"
  using assms by (simp add: scan.simps [of C D pos] zero_run_state_def zero_run_def Let_def del: length_drop)

lemma scan_frame:
  assumes "drop pos D \<noteq> []" and "hd (drop pos D) \<noteq> 0"
  shows "scan C D pos =
    (case decode_frame C (drop pos D) of
       FrameOk n s e \<Rightarrow>
         (case scan C D (pos + n) of
            (rs, p, st) \<Rightarrow> (JournalRecord pos (slice s e (drop pos D)) # rs, p, st))
     | FrameTruncated \<Rightarrow>
         ([], pos, if length (drop pos D) < 8 then TruncatedHeader else TruncatedPayload)
     | FrameBadMagic \<Rightarrow> ([], pos, BadMagic)
     | FrameLengthOverflow \<Rightarrow> ([], pos, LengthOverflow)
     | FrameChecksumMismatch \<Rightarrow> ([], pos, ChecksumMismatch))"
  using assms by (simp add: scan.simps [of C D pos] Let_def del: length_drop)

text \<open>What one call of \<open>next\<close> owes to the specification.\<close>

definition next_ok :: "crc_crate \<Rightarrow> journal_iter \<Rightarrow> journal_record result option \<times> journal_iter \<Rightarrow> bool" where
  "next_ok C it res \<longleftrightarrow>
     (case res of
        (None, it') \<Rightarrow>
          finished it' \<and> scan C (available it) (cursor it) = ([], cursor it', last_state it')
      | (Some (Inl _), _) \<Rightarrow> False
      | (Some (Inr r), it') \<Rightarrow>
          iter_inv it' \<and> same_file it' it \<and>
          scan C (available it) (cursor it) =
            (case scan C (available it) (cursor it') of (rs, p, st) \<Rightarrow> (r # rs, p, st)))"

lemma next_ok_finish:
  "scan C (available it) (cursor it) = ([], cursor it', st) \<Longrightarrow> next_ok C it (finish it' st)"
  by (simp add: next_ok_def finish_def)

lemma next_ok_step:
  assumes "next_ok C it2 res" and "same_file it2 it"
    and "scan C (available it) (cursor it) = scan C (available it) (cursor it2)"
  shows "next_ok C it res"
  using assms same_file_available [OF assms(2)]
  by (auto simp: next_ok_def intro: same_file_trans split: prod.splits option.splits sum.splits)

lemma fill_complete:
  assumes "iter_inv it" and "reads_ok rd (file_size it)"
  obtains (fill) it1 where "fill rd it = (it1, None)" "iter_inv it1" "same_file it1 it"
      "cursor it1 = cursor it" "view it1 \<noteq> []"
  | (stop) it1 where "fill rd it = (it1, Some None)" "next_ok C it (None, it1)"
proof (cases "buffered it = 0")
  case True
  then have v: "view it = []" using length_view_inv [OF assms(1)] by simp
  show thesis
  proof (cases "file_size it \<le> cursor it")
    case le: True
    then have "drop (cursor it) (available it) = []" by (simp add: available_def)
    then have "next_ok C it (finish it CleanEnd)"
      by (intro next_ok_finish) (simp add: scan_empty)
    with True le show thesis by (intro stop) (auto simp: fill_def finish_def)
  next
    case gt: False
    from refill_complete [OF assms disjI1 [OF v]] obtain it1 n where
      ref: "refill rd it = (it1, Inr n)" "iter_inv it1" "same_file it1 it" "cursor it1 = cursor it"
      and b: "buffered it1 = n" and n0: "n = 0 \<longrightarrow> drop (cursor it) (available it) = []"
      using True v by auto
    show thesis
    proof (cases "n = 0")
      case z: True
      then have "next_ok C it (finish it1 CleanEnd)"
        using n0 ref by (intro next_ok_finish) (simp add: scan_empty)
      with True gt ref z show thesis by (intro stop) (auto simp: fill_def finish_def)
    next
      case nz: False
      then have "view it1 \<noteq> []" using length_view_inv [OF ref(2)] b by auto
      with True gt ref nz show thesis by (intro fill) (auto simp: fill_def)
    qed
  qed
next
  case False
  then have "view it \<noteq> []" using length_view_inv [OF assms(1)] by auto
  with False assms show thesis by (intro fill [of it]) (simp_all add: fill_def)
qed

lemma hd_view:
  assumes "iter_inv it" and "view it \<noteq> []"
  shows "buf it ! valid_start it = hd (drop (cursor it) (available it))"
    and "drop (cursor it) (available it) \<noteq> []"
proof -
  have "valid_start it < length (buf it)"
    using assms length_view_inv [OF assms(1)] by (auto simp: iter_inv_def buffered_def)
  moreover have "valid_start it < valid_end it"
    using assms(2) by (auto simp: view_def slice_def)
  ultimately have "hd (view it) = buf it ! valid_start it"
    by (simp add: view_def slice_def hd_take hd_drop_conv_nth)
  with iter_inv_rest [OF assms(1)] assms(2)
  show "buf it ! valid_start it = hd (drop (cursor it) (available it))"
    and "drop (cursor it) (available it) \<noteq> []"
    by (metis hd_append2, metis append_is_Nil_conv)
qed

text \<open>
  The three ways the loop body goes on, each stated at an iterator \<open>it1\<close> whose buffer is not
  empty and which stands where the call started.
\<close>

lemma skip_zero_run_complete:
  assumes inv: "iter_inv it1" and rd: "reads_ok rd (file_size it1)" and ne: "view it1 \<noteq> []"
    and zero: "buf it1 ! valid_start it1 = 0"
  obtains (again) it2 where "skip_zero_run rd it1 = (it2, Inr None)" "iter_inv it2"
      "same_file it2 it1"
      "scan C (available it1) (cursor it1) = scan C (available it1) (cursor it2)"
  | (stop) it2 st where "skip_zero_run rd it1 = (it2, Inr (Some st))" "next_ok C it1 (finish it2 st)"
proof -
  let ?D = "available it1"
  note hd1 = hd_view [OF inv ne]
  note sc = scan_zero_run [OF hd1(2) hd1(1) [symmetric, unfolded zero], of C]
  have "drop (cursor it1) ?D = zeros (cursor it1 - cursor it1) @ drop (cursor it1) ?D" by simp
  from skip_loop_complete [OF inv rd order_refl this] obtain it2 where
    skip: "skip_zero_run rd it1 = (it2, Inr (zero_run_state ?D (cursor it1)))"
    and s2: "same_file it2 it1"
    and c2: "if zero_run_state ?D (cursor it1) = None
      then cursor it2 = cursor it1 + zero_run ?D (cursor it1) \<and> iter_inv it2
      else cursor it2 = cursor it1"
    unfolding skip_zero_run_def by metis
  show thesis
  proof (cases "zero_run_state ?D (cursor it1)")
    case None
    with c2 have "cursor it2 = cursor it1 + zero_run ?D (cursor it1)" "iter_inv it2" by simp_all
    with None skip s2 sc show thesis by (intro again [of it2]) simp_all
  next
    case (Some st)
    with skip c2 sc show thesis by (intro stop [of it2 st] next_ok_finish) simp_all
  qed
qed

lemma frame_ok_complete:
  assumes inv: "iter_inv it1" and ne: "view it1 \<noteq> []" and nonzero: "buf it1 ! valid_start it1 \<noteq> 0"
    and dec: "decode_frame C (view it1) = FrameOk n s e"
  shows "next_ok C it1 (Some (Inr (JournalRecord (cursor it1) (slice s e (view it1)))),
    it1\<lparr>cursor := cursor it1 + n, valid_start := valid_start it1 + n\<rparr>)"
proof -
  let ?D = "available it1"
  note hd1 = hd_view [OF inv ne]
  note rest = iter_inv_rest [OF inv]
  have "hd (drop (cursor it1) ?D) \<noteq> 0" using hd1(1) nonzero by simp
  note sc = scan_frame [OF hd1(2) this, of C]
  have "decode_frame C (drop (cursor it1) ?D) = FrameOk n s e"
    using decode_frame_append [of C "view it1"] rest dec by (metis frame_decode.distinct(1))
  moreover from decode_frame_consumed_le [OF dec]
  have n: "n \<le> length (view it1)" "e \<le> length (view it1)" by auto
  moreover have "slice s e (drop (cursor it1) ?D) = slice s e (view it1)"
    unfolding rest by (rule slice_append_left [OF n(2)])
  moreover have "same_file (it1\<lparr>cursor := cursor it1 + n, valid_start := valid_start it1 + n\<rparr>) it1"
    by (simp add: same_file_def)
  ultimately show ?thesis
    using sc iter_inv_advance [OF inv n(1)] by (simp add: next_ok_def)
qed

lemma frame_bad_complete:
  assumes inv: "iter_inv it1" and ne: "view it1 \<noteq> []" and nonzero: "buf it1 ! valid_start it1 \<noteq> 0"
  shows "decode_frame C (view it1) = FrameBadMagic \<Longrightarrow> next_ok C it1 (finish it1 BadMagic)"
    and "decode_frame C (view it1) = FrameLengthOverflow \<Longrightarrow> next_ok C it1 (finish it1 LengthOverflow)"
    and "decode_frame C (view it1) = FrameChecksumMismatch \<Longrightarrow> next_ok C it1 (finish it1 ChecksumMismatch)"
    and "decode_frame C (view it1) = FrameTruncated \<Longrightarrow> cursor it2 = cursor it1 \<Longrightarrow>
      drop (cursor it1) (available it1) = view it1 \<Longrightarrow> next_ok C it1 (finish it2 (truncated_state it1))"
proof -
  let ?D = "available it1"
  note hd1 = hd_view [OF inv ne]
  have "hd (drop (cursor it1) ?D) \<noteq> 0" using hd1(1) nonzero by simp
  note sc = scan_frame [OF hd1(2) this, of C]
  have agree: "decode_frame C (drop (cursor it1) ?D) = decode_frame C (view it1)"
    if "decode_frame C (view it1) \<noteq> FrameTruncated"
    using decode_frame_append [OF that] iter_inv_rest [OF inv] by metis
  show "decode_frame C (view it1) = FrameBadMagic \<Longrightarrow> next_ok C it1 (finish it1 BadMagic)"
    and "decode_frame C (view it1) = FrameLengthOverflow \<Longrightarrow> next_ok C it1 (finish it1 LengthOverflow)"
    and "decode_frame C (view it1) = FrameChecksumMismatch \<Longrightarrow> next_ok C it1 (finish it1 ChecksumMismatch)"
    using sc agree by (simp_all add: next_ok_finish)
  assume "decode_frame C (view it1) = FrameTruncated" "cursor it2 = cursor it1"
    "drop (cursor it1) (available it1) = view it1"
  then show "next_ok C it1 (finish it2 (truncated_state it1))"
    using sc length_view_inv [OF inv] by (intro next_ok_finish) (simp add: truncated_state_def)
qed

lemma truncated_complete:
  assumes inv: "iter_inv it1" and rd: "reads_ok rd (file_size it1)" and ne: "view it1 \<noteq> []"
    and nonzero: "buf it1 ! valid_start it1 \<noteq> 0" and dec: "decode_frame C (view it1) = FrameTruncated"
  obtains (eof) "file_size it1 \<le> cursor it1 + buffered it1" "next_ok C it1 (finish it1 (truncated_state it1))"
  | (short) it2 where "\<not> file_size it1 \<le> cursor it1 + buffered it1" "refill rd it1 = (it2, Inr 0)"
      "next_ok C it1 (finish it2 (truncated_state it1))"
  | (again) it2 n where "\<not> file_size it1 \<le> cursor it1 + buffered it1" "refill rd it1 = (it2, Inr n)"
      "n \<noteq> 0" "iter_inv it2" "same_file it2 it1" "cursor it2 = cursor it1"
proof (cases "file_size it1 \<le> cursor it1 + buffered it1")
  case True
  then have "drop (cursor it1 + buffered it1) (available it1) = []" by (simp add: available_def)
  then have "drop (cursor it1) (available it1) = view it1" using iter_inv_rest [OF inv] by simp
  with True show thesis by (intro eof frame_bad_complete(4) [OF inv ne nonzero dec]) simp_all
next
  case False
  from refill_complete [OF inv rd disjI2 [OF dec]] obtain it2 n where
    ref: "refill rd it1 = (it2, Inr n)" "iter_inv it2" "same_file it2 it1" "cursor it2 = cursor it1"
    and n0: "n = 0 \<longrightarrow> drop (cursor it1) (available it1) = view it1"
    by blast
  show thesis
  proof (cases "n = 0")
    case True
    with n0 ref have "next_ok C it1 (finish it2 (truncated_state it1))"
      by (intro frame_bad_complete(4) [OF inv ne nonzero dec]) simp_all
    with True False ref show thesis by (intro short) simp_all
  next
    case nz: False
    from again [OF False ref(1) nz ref(2-4)] show thesis .
  qed
qed

lemma next_loop_complete:
  assumes "iter_inv it" and "reads_ok rd (file_size it)"
  shows "next_ok C it (next_loop C rd it)"
  using assms
proof (induction C rd it rule: next_loop.induct)
  case (1 C rd it)
  from "1.prems" show ?case
  proof (cases rule: fill_complete [where C = C])
    case (stop it1)
    then show ?thesis by (simp add: next_loop.simps [of C rd it])
  next
    case (fill it1)
    note inv1 = fill(2) and ne1 = fill(5)
    have rd1: "reads_ok rd (file_size it1)" using fill(3) "1.prems"(2) by (simp add: same_file_def)
    have "next_ok C it1 (next_loop C rd it)"
    proof (cases "buf it1 ! valid_start it1 = 0")
      case zero: True
      from inv1 rd1 ne1 zero show ?thesis
      proof (cases rule: skip_zero_run_complete [where C = C])
        case (again it2)
        then have "next_ok C it2 (next_loop C rd it2)"
          using "1.IH"(1) [OF fill(1) [symmetric] refl zero again(1) [symmetric] refl refl again(2)] rd1
          by (simp add: same_file_def)
        with next_ok_step [OF this again(3,4)] fill(1) zero again(1) show ?thesis
          by (simp add: next_loop.simps [of C rd it])
      qed (use fill(1) zero in \<open>simp add: next_loop.simps [of C rd it]\<close>)
    next
      case nonzero: False
      note bad = frame_bad_complete [OF inv1 ne1 nonzero, of C]
      note ok = frame_ok_complete [OF inv1 ne1 nonzero, of C]
      show ?thesis
      proof (cases "decode_frame C (view it1)")
        case FrameTruncated
        with inv1 rd1 ne1 nonzero show ?thesis
        proof (cases rule: truncated_complete [where C = C])
          case (again it2 n)
          then have "next_ok C it2 (next_loop C rd it2)"
            using "1.IH"(2) [OF fill(1) [symmetric] refl nonzero FrameTruncated again(1)
                again(2) [symmetric] refl again(3,4)] rd1
            by (simp add: same_file_def)
          with next_ok_step [OF this again(5)] fill(1) nonzero FrameTruncated again(1-3,6)
          show ?thesis by (simp add: next_loop.simps [of C rd it])
        qed (use fill(1) nonzero FrameTruncated in \<open>simp_all add: next_loop.simps [of C rd it]\<close>)
      qed (use fill(1) nonzero bad ok in \<open>simp_all add: next_loop.simps [of C rd it]\<close>)
    qed
    then show ?thesis by (rule next_ok_step [OF _ fill(3)]) (simp add: fill(4))
  qed
qed

text \<open>Draining the iterator: the records, the recovery point and the tail state of the specification.\<close>

lemma drain_iter_scan:
  assumes "iter_inv it" and "reads_ok rd (file_size it)" and "\<not> finished it"
  shows "\<exists>rs it'. drain_iter C rd it = (rs, Inr (), it') \<and>
    scan C (available it) (cursor it) = (rs, cursor it', last_state it')"
  using assms
proof (induction C rd it rule: drain_iter.induct)
  case (1 C rd it)
  have nok: "next_ok C it (next_record C rd it)"
    using next_loop_complete [OF "1.prems"(1,2)] "1.prems"(3) by (simp add: next_record_def)
  obtain o1 it1 where nr: "next_record C rd it = (o1, it1)" by fastforce
  show ?case
  proof (cases o1)
    case None
    with nok nr show ?thesis by (simp add: drain_iter.simps [of C rd it] next_ok_def)
  next
    case (Some x)
    with nok nr obtain r where x: "x = Inr r" by (cases x) (auto simp: next_ok_def)
    have ok: "iter_inv it1" "same_file it1 it"
      "scan C (available it) (cursor it) = (case scan C (available it) (cursor it1) of (rs, p, st) \<Rightarrow> (r # rs, p, st))"
      using nok nr Some x by (simp_all add: next_ok_def)
    have "\<exists>rs it'. drain_iter C rd it1 = (rs, Inr (), it') \<and>
        scan C (available it1) (cursor it1) = (rs, cursor it', last_state it')"
      using "1.IH" [OF nr [symmetric] Some x ok(1)] ok(2) "1.prems" by (simp add: same_file_def)
    then show ?thesis
      using ok same_file_available [OF ok(2)] nr Some x
      by (auto simp: drain_iter.simps [of C rd it])
  qed
qed

lemma journal_iter_new_inv: "iter_inv (journal_iter_new r)"
  by (simp add: iter_inv_def journal_iter_new_def buffered_def view_def slice_def)

section \<open>What the specification recovers\<close>

fun records_at :: "nat \<Rightarrow> bytes list \<Rightarrow> journal_record list" where
  "records_at l [] = []"
| "records_at l (p # ps) = JournalRecord l p # records_at (l + length p + FRAME_OVERHEAD) ps"

lemma records_at_append:
  "records_at l (ps @ qs) = records_at l ps @ records_at (l + length (frames C ps)) qs"
  by (induction ps arbitrary: l) (simp_all add: add.assoc)

lemma map_payload_records_at [simp]: "map payload (records_at l ps) = ps"
  by (induction ps arbitrary: l) simp_all

lemma scan_at_frame:
  assumes "record_ok p" and d: "drop pos D = frame C p @ T"
  shows "scan C D pos =
    (case scan C D (pos + length (frame C p)) of (rs, q, st) \<Rightarrow> (JournalRecord pos p # rs, q, st))"
proof -
  have "hd (frame C p @ T) \<noteq> 0"
    using frame_first_byte(2) [of C p] by simp
  then show ?thesis
    using scan_frame [of pos D C] decode_frame_frame [OF assms(1), of C T]
      slice_frame_payload [of p C T]
    unfolding d by simp
qed

lemma scan_frames:
  assumes "list_all record_ok ps" and "length pre = pos"
  shows "scan C (pre @ frames C ps @ T) pos =
    (case scan C (pre @ frames C ps @ T) (pos + length (frames C ps)) of
       (rs, q, st) \<Rightarrow> (records_at pos ps @ rs, q, st))"
  using assms
proof (induction ps arbitrary: pre pos)
  case Nil
  then show ?case by (simp split: prod.splits)
next
  case (Cons p ps)
  let ?D = "pre @ frames C (p # ps) @ T"
  have IH: "scan C ?D (pos + length (frame C p)) =
      (case scan C ?D (pos + length (frame C p) + length (frames C ps)) of
         (rs, q, st) \<Rightarrow> (records_at (pos + length (frame C p)) ps @ rs, q, st))"
    using Cons.IH [of "pre @ frame C p" "pos + length (frame C p)"] Cons.prems by simp
  have "scan C ?D pos = (case scan C ?D (pos + length (frame C p)) of
      (rs, q, st) \<Rightarrow> (JournalRecord pos p # rs, q, st))"
    using scan_at_frame [of p pos ?D C "frames C ps @ T"] Cons.prems by simp
  then show ?case unfolding IH by (simp add: add.assoc split: prod.splits)
qed

lemma scan_zeros:
  assumes "length pre = pos"
  shows "scan C (pre @ zeros n) pos = ([], pos, CleanEnd)"
proof (cases n)
  case 0
  then show ?thesis using assms by (simp add: scan_empty)
next
  case (Suc m)
  have d: "drop pos (pre @ zeros n) = zeros n" using assms by simp
  have "zero_run_state (pre @ zeros n) pos = Some CleanEnd"
    unfolding zero_run_state_def zero_run_def d by simp
  moreover have "drop pos (pre @ zeros n) \<noteq> []" "hd (drop pos (pre @ zeros n)) = 0"
    unfolding d using Suc by simp_all
  ultimately show ?thesis using scan_zero_run [of pos "pre @ zeros n" C] by simp
qed

lemma scan_torn:
  assumes "record_ok p" and "k < length (frame C p)" and "length pre = pos"
  shows "scan C (pre @ take k (frame C p)) pos =
    ([], pos, if k = 0 then CleanEnd else if k < 8 then TruncatedHeader else TruncatedPayload)"
proof (cases "k = 0")
  case True
  then show ?thesis using assms(3) by (simp add: scan_empty)
next
  case False
  have d: "drop pos (pre @ take k (frame C p)) = take k (frame C p)" using assms(3) by simp
  have "hd (take k (frame C p)) \<noteq> 0" "take k (frame C p) \<noteq> []"
    using False frame_first_byte(2) [of C p] by (simp_all add: hd_take)
  then show ?thesis
    using scan_frame [of pos "pre @ take k (frame C p)" C] decode_frame_take [OF assms(1,2)] False assms(2)
    unfolding d by (simp add: min_def)
qed

lemma scan_at_gap:
  assumes "drop pos D = zeros k @ b # v" and "0 < k" and "b \<noteq> 0"
    and "(pos + k) mod GAP_ALIGN = 0" and "k \<le> MAX_GAP_SKIP"
  shows "scan C D pos = scan C D (pos + k)"
proof -
  have run: "zero_run D pos = k" using zero_run_split [OF assms(1)] assms(3) by simp
  have "zero_run_state D pos = None"
    unfolding zero_run_state_def Let_def run using assms by simp
  moreover have "drop pos D \<noteq> []" "hd (drop pos D) = 0"
    unfolding assms(1) using assms(2) by (auto simp: gr0_conv_Suc)
  ultimately show ?thesis using scan_zero_run [of pos D C] run by simp
qed

lemma scan_gap:
  assumes "length pre = pos" and "0 < k"
  shows "scan C (pre @ zeros k @ frame C q @ T) pos =
    (if (pos + k) mod GAP_ALIGN = 0 \<and> k \<le> MAX_GAP_SKIP then scan C (pre @ zeros k @ frame C q @ T) (pos + k)
     else ([], pos, TruncatedHeader))"
proof -
  let ?D = "pre @ zeros k @ frame C q @ T"
  have d: "drop pos ?D = zeros k @ frame C q @ T" using assms(1) by simp
  have ne: "drop pos ?D \<noteq> []" "hd (drop pos ?D) = 0"
    unfolding d using assms(2) by (auto simp: gr0_conv_Suc)
  have "takeWhile (\<lambda>b. b = 0) (frame C q @ T) = []"
    using frame_first_byte(2) [of C q] by (cases "frame C q") auto
  then have run: "zero_run ?D pos = k" using zero_run_split [OF d] by simp
  show ?thesis
    using scan_zero_run [OF ne, of C] unfolding zero_run_state_def Let_def run d
    by (simp add: FRAME_OVERHEAD_def)
qed

text \<open>Every record the specification yields is a frame of the file at the record's LSN.\<close>

lemma scan_sound:
  "scan C D pos = (rs, q, st) \<Longrightarrow> r \<in> set rs \<Longrightarrow>
     pos \<le> lsn r \<and> record_ok (payload r) \<and> (\<exists>rest. drop (lsn r) D = frame C (payload r) @ rest)"
proof (induction C D pos arbitrary: rs q st rule: scan.induct)
  case (1 C D pos)
  let ?v = "drop pos D"
  show ?case
  proof (cases "?v = []")
    case True
    with "1.prems" show ?thesis by (simp add: scan_empty)
  next
    case ne: False
    show ?thesis
    proof (cases "hd ?v = 0")
      case True
      with scan_zero_run [OF ne True, of C] "1.prems"
      have st: "zero_run_state D pos = None" and rec: "scan C D (pos + zero_run D pos) = (rs, q, st)"
        by (auto split: option.splits)
      from st have "length (takeWhile (\<lambda>b. b = 0) ?v) \<noteq> length ?v"
        "(pos + length (takeWhile (\<lambda>b. b = 0) ?v)) mod GAP_ALIGN = 0 \<and>
         length (takeWhile (\<lambda>b. b = 0) ?v) \<le> MAX_GAP_SKIP"
        by (auto simp: zero_run_state_def zero_run_def Let_def split: if_splits)
      from "1.IH"(1) [OF refl ne True refl this] rec "1.prems"(2) show ?thesis
        by (fastforce simp: zero_run_def)
    next
      case nz: False
      show ?thesis
      proof (cases "decode_frame C ?v")
        case (FrameOk n s e)
        obtain rs1 where rs: "rs = JournalRecord pos (slice s e ?v) # rs1"
          and rec: "scan C D (pos + n) = (rs1, q, st)"
          using scan_frame [OF ne nz, of C] "1.prems"(1) FrameOk by (auto split: prod.splits)
        from decode_frame_FrameOk [OF FrameOk] obtain p where
          p: "record_ok p" "?v = frame C p @ drop n ?v" "slice s e ?v = p" by blast
        from "1.prems"(2) rs consider "r = JournalRecord pos p" | "r \<in> set rs1"
          using p by auto
        then show ?thesis
        proof cases
          case 1
          with p(1,2) show ?thesis by auto
        next
          case 2
          with "1.IH"(2) [OF refl ne nz FrameOk rec] show ?thesis by simp
        qed
      qed (use scan_frame [OF ne nz, of C] "1.prems" in auto)
    qed
  qed
qed

lemma reader_open_drain:
  assumes "reads_ok rd (length F)" and "scan C F 0 = (rs, q, st)"
  shows "\<exists>it'. drain_iter C rd (journal_iter_new (reader_open F)) = (rs, Inr (), it') \<and>
    cursor it' = q \<and> last_state it' = st"
proof -
  have "reads_ok rd (file_size (journal_iter_new (reader_open F)))"
    "\<not> finished (journal_iter_new (reader_open F))"
    "available (journal_iter_new (reader_open F)) = F" "cursor (journal_iter_new (reader_open F)) = 0"
    using assms(1) by (simp_all add: journal_iter_new_def reader_open_def available_def)
  with drain_iter_scan [OF journal_iter_new_inv this(1,2), of C] assms(2) show ?thesis by auto
qed

text \<open>
  One step of the specification, as a rule: the scan stops where it stands, or skips an aligned
  zero gap, or yields the frame it stands on.
\<close>

lemma scan_cases [consumes 1, case_names stop gap frame]:
  assumes "scan C D pos = (rs, q, st)"
  obtains (stop) "rs = []" "q = pos"
  | (gap) k b v where "0 < k" "drop pos D = zeros k @ b # v" "b \<noteq> 0"
      "(pos + k) mod GAP_ALIGN = 0" "k \<le> MAX_GAP_SKIP" "scan C D (pos + k) = (rs, q, st)"
  | (frame) p rest rs1 where "record_ok p" "drop pos D = frame C p @ rest"
      "rs = JournalRecord pos p # rs1" "scan C D (pos + length (frame C p)) = (rs1, q, st)"
proof (cases "drop pos D = []")
  case True
  with assms show thesis by (intro stop) (simp_all add: scan_empty)
next
  case ne: False
  show thesis
  proof (cases "hd (drop pos D) = 0")
    case True
    let ?z = "takeWhile (\<lambda>b. b = 0) (drop pos D)" and ?r = "dropWhile (\<lambda>b. b = 0) (drop pos D)"
    note sc = scan_zero_run [OF ne True, of C]
    show thesis
    proof (cases "zero_run_state D pos")
      case None
      have len: "length ?z \<noteq> length (drop pos D)" and ok: "(pos + length ?z) mod GAP_ALIGN = 0"
        "length ?z \<le> MAX_GAP_SKIP"
        using None by (auto simp: zero_run_state_def zero_run_def Let_def split: if_splits)
      have "?r \<noteq> []"
        using len by (metis append_Nil2 takeWhile_dropWhile_id)
      then obtain b v where r: "?r = b # v" "b \<noteq> 0"
        using hd_dropWhile [of "\<lambda>b. b = 0" "drop pos D"] by (cases ?r) auto
      have "?z = zeros (length ?z)" by (rule takeWhile_all_zero) simp
      then have "drop pos D = zeros (length ?z) @ b # v"
        using r(1) takeWhile_dropWhile_id [of "\<lambda>b. b = 0" "drop pos D"] by simp
      moreover have "0 < length ?z" using ne True by (cases "drop pos D") auto
      ultimately show thesis
        using gap [of "length ?z" b v] r(2) ok assms sc None by (simp add: zero_run_def)
    next
      case (Some st1)
      with sc assms show thesis by (intro stop) simp_all
    qed
  next
    case nz: False
    note sc = scan_frame [OF ne nz, of C]
    show thesis
    proof (cases "decode_frame C (drop pos D)")
      case (FrameOk n s e)
      from decode_frame_FrameOk [OF FrameOk] obtain p where
        "record_ok p" "drop pos D = frame C p @ drop n (drop pos D)" "n = length (frame C p)"
        "slice s e (drop pos D) = p" by blast
      with sc assms FrameOk show thesis by (auto intro: frame split: prod.splits)
    qed (use sc assms stop in auto)
  qed
qed

lemma scan_pos_bounds:
  "scan C D pos = (rs, q, st) \<Longrightarrow> pos \<le> q \<and> (pos \<le> length D \<longrightarrow> q \<le> length D)"
proof (induction "length D - pos" arbitrary: pos rs rule: less_induct)
  case less
  from less.prems show ?case
  proof (cases rule: scan_cases)
    case (gap k b v)
    have "length (drop pos D) = k + Suc (length v)" unfolding gap(2) by simp
    then have "length D - pos = k + Suc (length v)" by simp
    then show ?thesis using less.hyps [OF _ gap(6)] gap(1) by linarith
  next
    case (frame p rest rs1)
    have "length (drop pos D) = length (frame C p) + length rest" unfolding frame(2) by simp
    then have "length D - pos = length (frame C p) + length rest" by simp
    then show ?thesis using less.hyps [OF _ frame(4)] by (simp add: FRAME_OVERHEAD_def) linarith
  qed simp
qed

text \<open>
  The scan of a file cut at the recovery point and continued with a frame: the same records, then
  whatever follows.
\<close>

lemma scan_resume_step:
  assumes "scan C D pos = (rs, q, st)" and "pos \<le> length D"
  shows "scan C (take q D @ frame C p @ T) pos =
    (case scan C (take q D @ frame C p @ T) q of (rs', q', st') \<Rightarrow> (rs @ rs', q', st'))"
  using assms
proof (induction "length D - pos" arbitrary: pos rs rule: less_induct)
  case less
  let ?D = "take q D @ frame C p @ T"
  note q = scan_pos_bounds [OF less.prems(1)]
  have drp: "drop j ?D = take (q - j) (drop j D) @ frame C p @ T" if "j \<le> q" for j
    using that q less.prems(2) by (simp add: drop_take min_absorb2)
  from less.prems(1) show ?case
  proof (cases rule: scan_cases)
    case stop
    then show ?thesis by (simp split: prod.splits)
  next
    case (gap k b v)
    have k: "pos + k \<le> q" using scan_pos_bounds [OF gap(6)] by simp
    have klen: "pos + k \<le> length D" "length D - (pos + k) < length D - pos"
      using arg_cong [OF gap(2), of length] gap(1) by simp_all
    obtain b' v' where bv: "drop (pos + k) ?D = b' # v'" "b' \<noteq> 0"
    proof (cases "q = pos + k")
      case True
      then have "drop (pos + k) ?D = frame C p @ T" using drp [OF k] by simp
      then show ?thesis
        using frame_first_byte(2) [of C p] that by (cases "frame C p") auto
    next
      case False
      have "drop (pos + k) D = b # v" using arg_cong [OF gap(2), of "drop k"] by (simp add: add.commute)
      then show ?thesis using drp [OF k] False k gap(3) that by (cases "q - (pos + k)") auto
    qed
    have split: "drop pos ?D = zeros k @ b' # v'"
    proof -
      have "take k (drop pos ?D) = zeros k"
        using drp [of pos] q gap(2) k by simp
      moreover have "drop k (drop pos ?D) = b' # v'" using bv(1) by (simp only: drop_drop add.commute)
      ultimately show ?thesis by (metis append_take_drop_id)
    qed
    have "scan C ?D pos = scan C ?D (pos + k)"
      by (rule scan_at_gap [OF split gap(1) bv(2) gap(4,5)])
    with less.hyps [OF klen(2) gap(6) klen(1)] show ?thesis by simp
  next
    case (frame r rest rs1)
    let ?n = "length (frame C r)"
    have n: "pos + ?n \<le> q" using scan_pos_bounds [OF frame(4)] by simp
    have nlen: "pos + ?n \<le> length D" "length D - (pos + ?n) < length D - pos"
      using arg_cong [OF frame(2), of length] less.prems(2) by (simp_all add: FRAME_OVERHEAD_def)
    have "take ?n (drop pos ?D) = frame C r"
      using drp [of pos] q frame(2) n by simp
    then have split: "drop pos ?D = frame C r @ drop ?n (drop pos ?D)"
      by (metis append_take_drop_id)
    have "scan C ?D pos = (case scan C ?D (pos + ?n) of
        (rs', q', st') \<Rightarrow> (JournalRecord pos r # rs', q', st'))"
      by (rule scan_at_frame [OF frame(1) split])
    with less.hyps [OF nlen(2) frame(4) nlen(1)] frame(3) show ?thesis by (simp split: prod.splits)
  qed
qed

lemma scan_cut:
  assumes "scan C D pos = (rs, q, st)" and "pos \<le> length D"
  shows "\<exists>q'. scan C (take q D) pos = (rs, q', CleanEnd)"
  using assms
proof (induction "length D - pos" arbitrary: pos rs rule: less_induct)
  case less
  note q = scan_pos_bounds [OF less.prems(1)]
  have drp: "drop pos (take q D) = take (q - pos) (drop pos D)" by (simp add: drop_take)
  from less.prems(1) show ?case
  proof (cases rule: scan_cases)
    case stop
    then show ?thesis by (simp add: scan_empty)
  next
    case (gap k b v)
    have k: "pos + k \<le> q" using scan_pos_bounds [OF gap(6)] by simp
    have klen: "pos + k \<le> length D" "length D - (pos + k) < length D - pos"
      using arg_cong [OF gap(2), of length] gap(1) by simp_all
    show ?thesis
    proof (cases "q = pos + k")
      case True
      from gap(6) have "rs = []" unfolding True
        by (cases rule: scan_cases) (use scan_pos_bounds [of C D] gap(1) in \<open>fastforce simp: FRAME_OVERHEAD_def\<close>)+
      moreover have "take q D = take pos D @ zeros k"
        using True gap(2) by (simp add: take_add)
      ultimately show ?thesis using scan_zeros [of "take pos D" pos C k] klen(1) by simp
    next
      case False
      then have "drop pos (take q D) = zeros k @ b # take (q - (pos + k) - 1) v"
        using drp gap(2) k by (cases "q - (pos + k)") (auto simp: take_Cons')
      from scan_at_gap [OF this gap(1,3-5)] less.hyps [OF klen(2) gap(6) klen(1)]
      show ?thesis by simp
    qed
  next
    case (frame r rest rs1)
    let ?n = "length (frame C r)"
    have n: "pos + ?n \<le> q" using scan_pos_bounds [OF frame(4)] by simp
    have nlen: "pos + ?n \<le> length D" "length D - (pos + ?n) < length D - pos"
      using arg_cong [OF frame(2), of length] less.prems(2) by (simp_all add: FRAME_OVERHEAD_def)
    have "drop pos (take q D) = frame C r @ take (q - pos - ?n) rest"
      using drp frame(2) n by simp
    from scan_at_frame [OF frame(1) this] less.hyps [OF nlen(2) frame(4) nlen(1)] frame(3)
    show ?thesis by auto
  qed
qed

lemma scan_resume_frames:
  assumes "scan C D 0 = (rs, q, st)" and "list_all record_ok (p # ps)"
  shows "scan C (take q D @ frames C (p # ps)) 0 =
    (rs @ records_at q (p # ps), q + length (frames C (p # ps)), CleanEnd)"
proof -
  have q: "length (take q D) = q" using scan_pos_bounds [OF assms(1)] by simp
  have "scan C (take q D @ frames C (p # ps)) q =
      (records_at q (p # ps), q + length (frames C (p # ps)), CleanEnd)"
    using scan_frames [OF assms(2) q, of C "[]"] q by (simp add: scan_empty)
  with scan_resume_step [OF assms(1), of p "frames C ps"] show ?thesis by simp
qed

section \<open>Random access agrees with the frames of the file\<close>

lemma read_loop_prefix:
  "acc = take (length acc) (drop off F) \<Longrightarrow> read_loop rd F off want acc = (bs, res) \<Longrightarrow>
     bs = take (length bs) (drop off F)"
proof (induction rd F off want acc rule: read_loop.induct)
  case (1 rd F off want acc)
  have step: "acc @ take k (drop (off + length acc) F) =
      take (length (acc @ take k (drop (off + length acc) F))) (drop off F)" for k
  proof -
    have "acc @ take k (drop (off + length acc) F) = take (length acc + k) (drop off F)"
      using "1.prems"(1) by (metis add.commute drop_drop take_add)
    then show ?thesis by (rule take_own_length)
  qed
  show ?case
  proof (cases "want \<le> length acc")
    case True
    with "1.prems" show ?thesis by (simp add: read_loop.simps [of rd F off want acc])
  next
    case False
    show ?thesis
    proof (cases "sys_read rd F (off + length acc) (want - length acc)")
      case (Inl e)
      with False "1.prems" show ?thesis by (simp add: read_loop.simps [of rd F off want acc])
    next
      case (Inr xs)
      then obtain k where xs: "xs = take k (drop (off + length acc) F)"
        by (auto simp: sys_read_def split: sum.splits)
      show ?thesis
      proof (cases "xs = []")
        case True
        with False Inr "1.prems" show ?thesis by (simp add: read_loop.simps [of rd F off want acc])
      next
        case ne: False
        have "read_loop rd F off want (acc @ xs) = (bs, res)"
          using False Inr ne "1.prems"(2) by (simp add: read_loop.simps [of rd F off want acc])
        with "1.IH" [OF False Inr ne] step [of k] xs show ?thesis by simp
      qed
    qed
  qed
qed

lemma read_exact_at_sound:
  assumes "read_exact_at rd r off n = Inr bs"
  shows "bs = take (length bs) (drop off (jfile r))" "n \<le> length bs" "off < 2 ^ 63"
proof -
  from assms obtain res where "read_loop rd (jfile r) off n [] = (bs, res)" "n \<le> length bs" "off < 2 ^ 63"
    by (auto simp: read_exact_at_def seek_start_def split: prod.splits sum.splits if_splits)
  then show "bs = take (length bs) (drop off (jfile r))" "n \<le> length bs" "off < 2 ^ 63"
    using read_loop_prefix [of "[]" off "jfile r"] by simp_all
qed

lemma read_exact_at_complete:
  assumes "reads_ok rd m" and "off < 2 ^ 63"
  shows "read_exact_at rd r off n =
    (if off + n \<le> length (jfile r) \<or> n = 0 then Inr (take n (drop off (jfile r)))
     else Inl (Io (IoError UnexpectedEof ''unexpected EOF in journal read_exact_at'')))"
  using assms(2) by (auto simp: read_exact_at_def seek_start_def read_loop_full [OF assms(1)])

lemma read_at_lsn_frame:
  assumes rd: "reads_ok rd m" and r: "jfile r = pre @ frame C p @ post" "length (jfile r) < 2 ^ 63"
    and p: "record_ok p"
  shows "read_at_lsn C rd r (length pre) = Inr (JournalRecord (length pre) p)"
proof -
  let ?l = "length pre" and ?n = "length (frame C p)"
  have l: "?l < 2 ^ 63" and n: "?l + ?n \<le> length (jfile r)" using r by simp_all
  have n8: "8 \<le> ?n" by (simp add: FRAME_OVERHEAD_def)
  have hd: "read_exact_at rd r ?l 8 = Inr (take 8 (frame C p))"
    using read_exact_at_complete [OF rd l, of r 8] n n8 by (simp add: r(1) FRAME_OVERHEAD_def)
  have all: "read_exact_at rd r ?l ?n = Inr (frame C p)"
    using read_exact_at_complete [OF rd l, of r ?n] n by (simp add: r(1))
  have pre8: "take 8 (frame C p) = frame_header (word_of_nat (length p))"
    by (simp add: frame_def header_payload [symmetric] frame_header_def copy_at_def)
  have magic: "be_u32_at (take 8 (frame C p)) 0 = FRAME_MAGIC_V1"
    and len: "le_u32_at (take 8 (frame C p)) 4 = word_of_nat (length p)"
    using be_u32_at_to_be_bytes [of "[]" 0 FRAME_MAGIC_V1]
      le_u32_at_to_le_bytes [of "to_be_bytes FRAME_MAGIC_V1" 4 _ "[]"]
    by (simp_all add: pre8 frame_header_def copy_at_def)
  have dec: "decode_frame C (frame C p) = FrameOk ?n 8 (8 + length p)"
    using decode_frame_frame [OF p, of C "[]"] by simp
  have "?l + ?n \<le> u64_max" using n r(2) by (simp add: u64_max_def)
  then show ?thesis
    using hd all magic len record_ok_bounds [OF p] n dec slice_frame_payload [of p C "[]"]
    by (simp add: read_at_lsn_def checked_add_def FRAME_OVERHEAD_def add.commute add.left_commute)
qed

lemma read_at_lsn_ok:
  assumes "read_at_lsn C rd r l = Inr rec"
  shows "lsn rec = l \<and> record_ok (payload rec) \<and>
    (\<exists>rest. drop l (jfile r) = frame C (payload rec) @ rest)"
proof -
  from assms obtain n fr where fr: "read_exact_at rd r l n = Inr fr"
    and "(case decode_frame C fr of
        FrameOk _ s e \<Rightarrow> Inr (JournalRecord l (slice s e fr))
      | FrameBadMagic \<Rightarrow> Inl (bad_magic_at l)
      | FrameChecksumMismatch \<Rightarrow> Inl (crc_mismatch_at l)
      | FrameTruncated \<Rightarrow> Inl (truncated_at l)
      | FrameLengthOverflow \<Rightarrow> Inl (length_overflow_at l)) = Inr rec"
    by (auto simp: read_at_lsn_def Let_def bind_ok_Inr_iff split: if_splits)
  then obtain c s e where dec: "decode_frame C fr = FrameOk c s e"
    and rec: "rec = JournalRecord l (slice s e fr)"
    by (cases "decode_frame C fr") auto
  from decode_frame_FrameOk [OF dec] obtain p where
    "record_ok p" "fr = frame C p @ drop c fr" "slice s e fr = p" by blast
  moreover have "drop l (jfile r) = fr @ drop (length fr) (drop l (jfile r))"
    using read_exact_at_sound(1) [OF fr] by (metis append_take_drop_id)
  ultimately show ?thesis using rec by (metis append.assoc journal_record.sel)
qed

section \<open>Properties\<close>

text \<open>
  C11: The buffered iterator, with its compaction, growth and refills, computes the specification: the
  same records, the same recovery point and the same tail state, whatever the sizes of the reads.
\<close>

theorem journal_iter_computes_scan:
  assumes "reads_ok rd (file_size r)"
  shows "\<exists>it'. drain_iter C rd (journal_iter_new r) =
      (fst (scan C (take (file_size r) (jfile r)) (cursor r)), Inr (), it') \<and>
    (cursor it', last_state it') = snd (scan C (take (file_size r) (jfile r)) (cursor r))"
proof -
  have "reads_ok rd (file_size (journal_iter_new r))" "\<not> finished (journal_iter_new r)"
    using assms by (simp_all add: journal_iter_new_def)
  from drain_iter_scan [OF journal_iter_new_inv this, of C] obtain rs it' where
    "drain_iter C rd (journal_iter_new r) = (rs, Inr (), it')"
    "scan C (available (journal_iter_new r)) (cursor (journal_iter_new r)) =
      (rs, cursor it', last_state it')"
    by blast
  then show ?thesis by (simp add: available_def journal_iter_new_def)
qed

text \<open>
  C24: The crash-recovery statement of the module: a file holding whole frames followed by a torn one
  (a prefix of a frame, of any length short of the whole) yields exactly the whole records, stops
  at the torn frame and says how it is torn.
\<close>

theorem torn_tail_recovery:
  assumes "reads_ok rd (length (frames C ps @ take k (frame C p)))"
    and "list_all record_ok ps" and "record_ok p" and "k < length (frame C p)"
  shows "\<exists>it'. drain_iter C rd (journal_iter_new (reader_open (frames C ps @ take k (frame C p)))) =
      (records_at 0 ps, Inr (), it') \<and>
    cursor it' = length (frames C ps) \<and>
    last_state it' = (if k = 0 then CleanEnd else if k < 8 then TruncatedHeader else TruncatedPayload)"
proof -
  let ?F = "frames C ps @ take k (frame C p)"
  have "scan C ?F 0 = (records_at 0 ps, length (frames C ps),
      if k = 0 then CleanEnd else if k < 8 then TruncatedHeader else TruncatedPayload)"
    using scan_frames [OF assms(2), of "[]" 0 C "take k (frame C p)"]
      scan_torn [OF assms(3,4) refl, of "frames C ps"] by simp
  from reader_open_drain [OF assms(1) this] show ?thesis .
qed

text \<open>Preallocated or padded space after the last record is a clean end.\<close>

lemma zero_tail_recovery:
  assumes "reads_ok rd (length (frames C ps @ zeros n))" and "list_all record_ok ps"
  shows "\<exists>it'. drain_iter C rd (journal_iter_new (reader_open (frames C ps @ zeros n))) =
      (records_at 0 ps, Inr (), it') \<and>
    cursor it' = length (frames C ps) \<and> last_state it' = CleanEnd"
proof -
  let ?F = "frames C ps @ zeros n"
  have "scan C ?F 0 = (records_at 0 ps, length (frames C ps), CleanEnd)"
    using scan_frames [OF assms(2), of "[]" 0 C "zeros n"]
      scan_zeros [OF refl, of C "frames C ps" n] by simp
  from reader_open_drain [OF assms(1) this] show ?thesis .
qed


text \<open>Random access returns the record of a whole frame of the file.\<close>

lemma read_at_lsn_complete:
  assumes "reads_ok rd m" and "jfile r = pre @ frame C p @ post" and "length (jfile r) < 2 ^ 63"
    and "record_ok p"
  shows "read_at_lsn C rd r (length pre) = Inr (JournalRecord (length pre) p)"
  by (rule read_at_lsn_frame [OF assms])

text \<open>
  Whatever random access returns, whatever the kernel answers, is a frame of the file at that LSN.
\<close>

lemma read_at_lsn_sound:
  assumes "read_at_lsn C rd r l = Inr rec"
  shows "lsn rec = l \<and> record_ok (payload rec) \<and>
    (\<exists>rest. drop l (jfile r) = frame C (payload rec) @ rest)"
  by (rule read_at_lsn_ok [OF assms])

text \<open>
  C38: A run of zeros between two frames is skipped exactly when it ends on a sector boundary and is
  not longer than the gap limit; otherwise iteration ends in front of it.
\<close>

theorem gap_recovery:
  assumes "reads_ok rd (length (frames C ps @ zeros k @ frames C (q # qs)))"
    and "list_all record_ok (ps @ q # qs)" and "0 < k"
  shows "\<exists>it'. drain_iter C rd (journal_iter_new (reader_open (frames C ps @ zeros k @ frames C (q # qs)))) =
      ((if (length (frames C ps) + k) mod 512 = 0 \<and> k \<le> MAX_GAP_SKIP
        then records_at 0 ps @ records_at (length (frames C ps) + k) (q # qs)
        else records_at 0 ps), Inr (), it') \<and>
    last_state it' =
      (if (length (frames C ps) + k) mod 512 = 0 \<and> k \<le> MAX_GAP_SKIP then CleanEnd else TruncatedHeader)"
proof -
  let ?D = "frames C ps @ zeros k @ frames C (q # qs)" and ?n = "length (frames C ps)"
  have s1: "scan C ?D 0 = (case scan C ?D ?n of (rs, p, st) \<Rightarrow> (records_at 0 ps @ rs, p, st))"
    using scan_frames [of ps "[]" 0 C "zeros k @ frames C (q # qs)"] assms(2) by simp
  have s2: "scan C ?D ?n = (if (?n + k) mod GAP_ALIGN = 0 \<and> k \<le> MAX_GAP_SKIP
      then scan C ?D (?n + k) else ([], ?n, TruncatedHeader))"
    using scan_gap [OF refl assms(3), of C "frames C ps" q "frames C qs"] by simp
  have s3: "scan C ?D (?n + k) = (records_at (?n + k) (q # qs), length ?D, CleanEnd)"
    using scan_frames [of "q # qs" "frames C ps @ zeros k" "?n + k" C "[]"] assms(2)
    by (simp add: scan_empty add.assoc)
  show ?thesis
    using reader_open_drain [OF assms(1), of C] s1 s2 s3
    by (auto simp: GAP_ALIGN_def simp del: records_at.simps)
qed

subsection \<open>Witnesses\<close>

text \<open>A kernel that answers every read in full.\<close>

definition full_reads :: read_oracle where
  "full_reads off n = Inr n"

lemma full_reads_ok: "reads_ok full_reads n \<longleftrightarrow> n \<le> 2 ^ 63"
  by (simp add: reads_ok_def full_reads_def)

theorem journal_iter_computes_scan_witness:
  "reads_ok full_reads 20 \<and>
   (\<exists>it'. drain_iter rfc3720 full_reads (journal_iter_new (reader_open (zeros 20))) = ([], Inr (), it') \<and>
     (cursor it', last_state it') = (0, CleanEnd))"
proof -
  have "reads_ok full_reads (file_size (reader_open (zeros 20)))"
    by (simp add: full_reads_ok reader_open_def)
  from journal_iter_computes_scan [OF this, of rfc3720] show ?thesis
    using scan_zeros [of "[]" 0 rfc3720 20] by (simp add: reader_open_def full_reads_ok)
qed

theorem torn_tail_recovery_witness:
  "reads_ok full_reads (length (frames rfc3720 [[1, 2, 3]] @ take 5 (frame rfc3720 [4]))) \<and>
   list_all record_ok [[1, 2, 3]] \<and> record_ok [4] \<and> 5 < length (frame rfc3720 [4]) \<and>
   (\<exists>it'. drain_iter rfc3720 full_reads
       (journal_iter_new (reader_open (frames rfc3720 [[1, 2, 3]] @ take 5 (frame rfc3720 [4])))) =
       ([JournalRecord 0 [1, 2, 3]], Inr (), it') \<and>
     cursor it' = 15 \<and> last_state it' = TruncatedHeader)"
proof -
  have h: "reads_ok full_reads (length (frames rfc3720 [[1, 2, 3]] @ take 5 (frame rfc3720 [4])))"
    "list_all record_ok [[1, 2, 3]]" "record_ok [4]" "5 < length (frame rfc3720 [4])"
    by (simp_all add: full_reads_ok record_ok_def FRAME_MAX_PAYLOAD_def FRAME_OVERHEAD_def)
  show ?thesis
    using h torn_tail_recovery [OF h] by (simp add: FRAME_OVERHEAD_def)
qed

theorem gap_recovery_witness:
  "reads_ok full_reads (length (frames rfc3720 [replicate 500 1] @ zeros 512 @ frames rfc3720 [[2]])) \<and>
   list_all record_ok ([replicate 500 1] @ [[2]]) \<and> (0 :: nat) < 512 \<and>
   (\<exists>it'. drain_iter rfc3720 full_reads
       (journal_iter_new (reader_open (frames rfc3720 [replicate 500 1] @ zeros 512 @ frames rfc3720 [[2]]))) =
       ([JournalRecord 0 (replicate 500 1), JournalRecord 1024 [2]], Inr (), it') \<and>
     last_state it' = CleanEnd)"
proof -
  have h: "reads_ok full_reads (length (frames rfc3720 [replicate 500 1] @ zeros 512 @ frames rfc3720 [[2]]))"
    "list_all record_ok ([replicate 500 1] @ [[2]])" "(0 :: nat) < 512"
    by (simp_all add: full_reads_ok record_ok_def FRAME_MAX_PAYLOAD_def FRAME_OVERHEAD_def)
  show ?thesis
    using h gap_recovery [OF h]
    by (simp add: FRAME_OVERHEAD_def MAX_GAP_SKIP_def)
qed

end
