(* ===== verification/Fsys_Tail.thy ===== *)
theory Fsys_Tail
  imports Fsys_Reader
begin

text \<open>
  The resume scan of a journal open (\<open>src/journal/tail.rs\<close>): where appending resumes, and the
  durable copy of an unreadable tail that is made before the caller may truncate the journal.

  The file system is a map from paths to contents, with what the last \<open>sync_all\<close> of a file
  made durable and which directory entries have been synced. Every fallible call takes the next
  entry of a fault script (none left: it succeeds; a failing \<open>write_all\<close> may leave a prefix)
  and every \<open>read\<close> the next entry of a read script (none left: a full read), so that the
  statements quantify over every sequence of failures and short reads.
\<close>

section \<open>The file system\<close>

datatype path = Path (parent: string) (file_name: "string option")

definition path_text :: "path \<Rightarrow> string" where
  "path_text p =
     (case file_name p of
        None \<Rightarrow> parent p
      | Some n \<Rightarrow> if parent p = [] then n else parent p @ ''/'' @ n)"

definition with_file_name :: "path \<Rightarrow> string \<Rightarrow> path" where
  "with_file_name p n = Path (parent p) (Some n)"

record world =
  files :: "path \<Rightarrow> bytes option"
  synced :: "path \<Rightarrow> bytes option"
  entry_synced :: "path \<Rightarrow> bool"
  faults :: "(nat \<times> io_error) option list"
  reads :: "(io_error + nat) list"

definition file_bytes :: "world \<Rightarrow> path \<Rightarrow> bytes" where
  "file_bytes w p = (case files w p of Some b \<Rightarrow> b | None \<Rightarrow> [])"

definition next_fault :: "world \<Rightarrow> (nat \<times> io_error) option \<times> world" where
  "next_fault w = (case faults w of [] \<Rightarrow> (None, w) | f # fs \<Rightarrow> (f, w\<lparr>faults := fs\<rparr>))"

definition sys_step :: "world \<Rightarrow> world \<times> (io_error + unit)" where
  "sys_step w = (case next_fault w of (Some (_, e), w1) \<Rightarrow> (w1, Inl e) | (None, w1) \<Rightarrow> (w1, Inr ()))"

definition sys_open :: "world \<Rightarrow> path \<Rightarrow> world \<times> (io_error + unit)" where
  "sys_open w p =
     (case sys_step w of
        (w1, Inl e) \<Rightarrow> (w1, Inl e)
      | (w1, Inr _) \<Rightarrow>
          if files w1 p = None
          then (w1, Inl (IoError NotFound ''No such file or directory (os error 2)''))
          else (w1, Inr ()))"

definition sys_create_new :: "world \<Rightarrow> path \<Rightarrow> world \<times> (io_error + unit)" where
  "sys_create_new w p =
     (case sys_step w of
        (w1, Inl e) \<Rightarrow> (w1, Inl e)
      | (w1, Inr _) \<Rightarrow>
          if files w1 p = None then (w1\<lparr>files := (files w1)(p \<mapsto> [])\<rparr>, Inr ())
          else (w1, Inl (IoError AlreadyExists ''File exists (os error 17)'')))"

definition sys_write_all :: "world \<Rightarrow> path \<Rightarrow> bytes \<Rightarrow> world \<times> (io_error + unit)" where
  "sys_write_all w p bs =
     (case next_fault w of
        (Some (k, e), w1) \<Rightarrow> (w1\<lparr>files := (files w1)(p \<mapsto> file_bytes w1 p @ take k bs)\<rparr>, Inl e)
      | (None, w1) \<Rightarrow> (w1\<lparr>files := (files w1)(p \<mapsto> file_bytes w1 p @ bs)\<rparr>, Inr ()))"

definition sys_sync_all :: "world \<Rightarrow> path \<Rightarrow> world \<times> (io_error + unit)" where
  "sys_sync_all w p =
     (case sys_step w of
        (w1, Inl e) \<Rightarrow> (w1, Inl e)
      | (w1, Inr _) \<Rightarrow> (w1\<lparr>synced := (synced w1)(p \<mapsto> file_bytes w1 p)\<rparr>, Inr ()))"

definition sync_dir :: "world \<Rightarrow> path \<Rightarrow> world \<times> (io_error + unit)" where
  "sync_dir w p =
     (case sys_step w of
        (w1, Inl e) \<Rightarrow> (w1, Inl e)
      | (w1, Inr _) \<Rightarrow> (w1\<lparr>entry_synced := (entry_synced w1)(p := True)\<rparr>, Inr ()))"

definition sys_remove :: "world \<Rightarrow> path \<Rightarrow> world" where
  "sys_remove w p =
     (case sys_step w of
        (w1, Inl e) \<Rightarrow> w1
      | (w1, Inr _) \<Rightarrow> w1\<lparr>files := (files w1)(p := None)\<rparr>)"

text \<open>
  A source \<open>file.take(limit)\<close> at a position: a read with no limit left makes no call, and
  \<open>read(2)\<close> reports no bytes only at the end of the file.
\<close>

definition take_read :: "world \<Rightarrow> path \<Rightarrow> nat \<Rightarrow> nat \<Rightarrow> nat \<Rightarrow> world \<times> (io_error + bytes)" where
  "take_read w p pos limit n =
     (if limit = 0 then (w, Inr [])
      else case reads w of
          [] \<Rightarrow> (w, Inr (take (min n limit) (drop pos (file_bytes w p))))
        | Inl e # rs \<Rightarrow> (w\<lparr>reads := rs\<rparr>, Inl e)
        | Inr k # rs \<Rightarrow>
            (w\<lparr>reads := rs\<rparr>, Inr (take (min (max k 1) (min n limit)) (drop pos (file_bytes w p)))))"

section \<open>Definitions\<close>

definition CHUNK :: nat where
  "CHUNK = 64 * 1024"

datatype tail = EmptyTail | Zeros | Preserved path

record resume =
  clean_end :: nat
  tail :: tail

definition resume_empty :: resume where
  "resume_empty = \<lparr>clean_end = 0, tail = EmptyTail\<rparr>"

definition tail_has_data :: "resume \<Rightarrow> bool" where
  "tail_has_data r = (case tail r of Preserved _ \<Rightarrow> True | _ \<Rightarrow> False)"

definition tail_error :: "path \<Rightarrow> nat \<Rightarrow> nat \<Rightarrow> path option \<Rightarrow> io_error \<Rightarrow> error" where
  "tail_error p ce len sidecar e =
     (let target = (case sidecar of Some s \<Rightarrow> '' to '' @ debug_str (path_text s) | None \<Rightarrow> [])
      in Io (IoError (io_kind e)
           (''journal at '' @ debug_str (path_text p) @ '' has '' @ show_nat len
             @ '' unreadable bytes after its last valid frame at offset '' @ show_nat ce
             @ ''; saving them'' @ target
             @ '' before truncating failed, so the journal was not opened or changed: ''
             @ io_text e)))"

definition open_range :: "world \<Rightarrow> path \<Rightarrow> nat \<Rightarrow> world \<times> (io_error + unit)" where
  "open_range w p offset =
     (case sys_open w p of
        (w1, Inl e) \<Rightarrow> (w1, Inl e)
      | (w1, Inr _) \<Rightarrow>
          (case sys_step w1 of
             (w2, Inl e) \<Rightarrow> (w2, Inl e)
           | (w2, Inr _) \<Rightarrow>
               if offset < 2 ^ 63 then (w2, Inr ())
               else (w2, Inl (IoError InvalidInput ''Invalid argument (os error 22)''))))"

function read_some :: "world \<Rightarrow> path \<Rightarrow> nat \<Rightarrow> nat \<Rightarrow> nat \<Rightarrow> world \<times> (io_error + bytes)" where
  "read_some w p pos limit n =
     (case take_read w p pos limit n of
        (w1, Inl e) \<Rightarrow> if io_kind e = Interrupted then read_some w1 p pos limit n else (w1, Inl e)
      | (w1, Inr bs) \<Rightarrow> (w1, Inr bs))"
  by pat_completeness auto
termination
  by (relation "measure (\<lambda>(w, p, pos, limit, n). length (reads w))")
    (auto simp: take_read_def split: if_splits list.splits sum.splits)

declare read_some.simps [simp del]

text \<open>Calls that only read leave the files and what is durable alone.\<close>

definition same_store :: "world \<Rightarrow> world \<Rightarrow> bool" where
  "same_store w' w \<longleftrightarrow>
     files w' = files w \<and> synced w' = synced w \<and> entry_synced w' = entry_synced w"

lemma same_store_refl [simp]: "same_store w w"
  by (simp add: same_store_def)

lemma same_store_trans [trans]: "same_store w2 w1 \<Longrightarrow> same_store w1 w \<Longrightarrow> same_store w2 w"
  by (simp add: same_store_def)

lemma same_store_bytes: "same_store w' w \<Longrightarrow> file_bytes w' = file_bytes w"
  by (simp add: same_store_def file_bytes_def fun_eq_iff)

lemma take_read_store: "take_read w p pos limit n = (w1, r) \<Longrightarrow> same_store w1 w"
  by (auto simp: take_read_def same_store_def split: if_splits list.splits sum.splits)

lemma take_read_data:
  assumes "take_read w p pos limit n = (w1, Inr bs)"
  shows "\<exists>k. bs = take k (drop pos (file_bytes w p)) \<and> k \<le> limit \<and> k \<le> n \<and> (0 < limit \<and> 0 < n \<longrightarrow> 0 < k)"
proof (cases "limit = 0")
  case True
  with assms show ?thesis by (auto simp: take_read_def)
next
  case False
  show ?thesis
  proof (cases "reads w")
    case Nil
    with assms False show ?thesis
      by (intro exI [of _ "min n limit"]) (auto simp: take_read_def)
  next
    case (Cons r rs)
    with assms False obtain k where "r = Inr k"
      "bs = take (min (max k 1) (min n limit)) (drop pos (file_bytes w p))"
      by (cases r) (auto simp: take_read_def)
    then show ?thesis by (intro exI [of _ "min (max k 1) (min n limit)"]) auto
  qed
qed

lemma read_some_store: "read_some w p pos limit n = (w1, r) \<Longrightarrow> same_store w1 w"
proof (induction w p pos limit n rule: read_some.induct)
  case (1 w p pos limit n)
  obtain w2 r2 where tr: "take_read w p pos limit n = (w2, r2)" by fastforce
  note st = take_read_store [OF tr]
  show ?case
  proof (cases r2)
    case (Inl e)
    with tr "1.prems" st 1(1) [OF tr [symmetric] Inl] show ?thesis
      by (auto simp: read_some.simps [of w p pos limit n] intro: same_store_trans split: if_splits)
  next
    case (Inr bs)
    with tr "1.prems" st show ?thesis by (simp add: read_some.simps [of w p pos limit n])
  qed
qed

lemma read_some_data:
  "read_some w p pos limit n = (w1, Inr bs) \<Longrightarrow>
     \<exists>k. bs = take k (drop pos (file_bytes w p)) \<and> k \<le> limit \<and> k \<le> n \<and> (0 < limit \<and> 0 < n \<longrightarrow> 0 < k)"
proof (induction w p pos limit n rule: read_some.induct)
  case (1 w p pos limit n)
  obtain w2 r2 where tr: "take_read w p pos limit n = (w2, r2)" by fastforce
  note st = same_store_bytes [OF take_read_store [OF tr]]
  show ?case
  proof (cases r2)
    case (Inl e)
    with tr "1.prems" have i: "io_kind e = Interrupted" "read_some w2 p pos limit n = (w1, Inr bs)"
      by (auto simp: read_some.simps [of w p pos limit n] split: if_splits)
    from 1(1) [OF tr [symmetric] Inl i] st show ?thesis by simp
  next
    case (Inr xs)
    with tr "1.prems" have "xs = bs" by (simp add: read_some.simps [of w p pos limit n])
    with take_read_data [of w p pos limit n w2 bs] tr Inr show ?thesis by simp
  qed
qed

text \<open>A chunked read splits what is left of the source into the chunk and the rest.\<close>

lemma read_some_split:
  assumes "read_some w p pos limit n = (w1, Inr bs)" and "0 < n"
  shows "take limit (drop pos (file_bytes w p)) =
      bs @ take (limit - length bs) (drop (pos + length bs) (file_bytes w p))"
    and "bs = [] \<longleftrightarrow> take limit (drop pos (file_bytes w p)) = []"
proof -
  from read_some_data [OF assms(1)] obtain k where k: "bs = take k (drop pos (file_bytes w p))"
    "k \<le> limit" "0 < limit \<and> 0 < n \<longrightarrow> 0 < k" by blast
  show "take limit (drop pos (file_bytes w p)) =
      bs @ take (limit - length bs) (drop (pos + length bs) (file_bytes w p))"
    using take_split_at [OF k(2), of "drop pos (file_bytes w p)"] k(1) by (simp add: add.commute)
  show "bs = [] \<longleftrightarrow> take limit (drop pos (file_bytes w p)) = []"
    using k assms(2) by auto
qed

lemma read_some_shorter:
  assumes "(w1, Inr bs) = read_some w p pos limit n" and "bs \<noteq> []"
  shows "limit - length bs < limit"
proof -
  have "length bs \<le> limit" using read_some_data [OF assms(1) [symmetric]] by auto
  with assms(2) show ?thesis by (cases bs) auto
qed

function tail_is_zero_loop :: "world \<Rightarrow> path \<Rightarrow> nat \<Rightarrow> nat \<Rightarrow> world \<times> (io_error + bool)" where
  "tail_is_zero_loop w p pos limit =
     (case read_some w p pos limit CHUNK of
        (w1, Inl e) \<Rightarrow> (w1, Inl e)
      | (w1, Inr bs) \<Rightarrow>
          if bs = [] then (w1, Inr True)
          else if list_ex (\<lambda>b. b \<noteq> 0) bs then (w1, Inr False)
          else tail_is_zero_loop w1 p (pos + length bs) (limit - length bs))"
  by pat_completeness auto
termination
  by (relation "measure (\<lambda>(w, p, pos, limit). limit)")
    (auto intro: read_some_shorter)

declare tail_is_zero_loop.simps [simp del]

definition tail_is_zero :: "world \<Rightarrow> path \<Rightarrow> nat \<Rightarrow> nat \<Rightarrow> world \<times> (io_error + bool)" where
  "tail_is_zero w p offset len =
     (case open_range w p offset of
        (w1, Inl e) \<Rightarrow> (w1, Inl e)
      | (w1, Inr _) \<Rightarrow> tail_is_zero_loop w1 p offset len)"

definition sidecar_path :: "path \<Rightarrow> nat \<Rightarrow> nat \<Rightarrow> io_error + path" where
  "sidecar_path p ce attempt =
     (case file_name p of
        None \<Rightarrow> Inl (IoError InvalidInput ''journal path has no file name'')
      | Some n \<Rightarrow>
          Inr (with_file_name p (n @ ''.corrupt-'' @ show_nat ce
            @ (if 0 < attempt then ''.'' @ show_nat attempt else []))))"

function fill_loop :: "world \<Rightarrow> path \<Rightarrow> path \<Rightarrow> nat \<Rightarrow> nat \<Rightarrow> nat \<Rightarrow> world \<times> (io_error + nat)" where
  "fill_loop w file p pos limit copied =
     (case read_some w p pos limit CHUNK of
        (w1, Inl e) \<Rightarrow> (w1, Inl e)
      | (w1, Inr bs) \<Rightarrow>
          if bs = [] then (w1, Inr copied)
          else
            (case sys_write_all w1 file bs of
               (w2, Inl e) \<Rightarrow> (w2, Inl e)
             | (w2, Inr _) \<Rightarrow>
                 fill_loop w2 file p (pos + length bs) (limit - length bs) (copied + length bs)))"
  by pat_completeness auto
termination
  by (relation "measure (\<lambda>(w, file, p, pos, limit, copied). limit)")
    (auto intro: read_some_shorter)

declare fill_loop.simps [simp del]

definition fill_sidecar :: "world \<Rightarrow> path \<Rightarrow> path \<Rightarrow> nat \<Rightarrow> nat \<Rightarrow> world \<times> (io_error + unit)" where
  "fill_sidecar w file p ce len =
     (case open_range w p ce of
        (w1, Inl e) \<Rightarrow> (w1, Inl e)
      | (w1, Inr _) \<Rightarrow>
          (case fill_loop w1 file p ce len 0 of
             (w2, Inl e) \<Rightarrow> (w2, Inl e)
           | (w2, Inr copied) \<Rightarrow>
               if copied \<noteq> len then
                 (w2, Inl (IoError UnexpectedEof
                    (''journal shrank while its tail was copied ('' @ show_nat copied @ '' of ''
                      @ show_nat len @ '' bytes)'')))
               else sys_sync_all w2 file))"

text \<open>\<open>Read::read_exact\<close> of the standard library, on such a source.\<close>

function read_exact :: "world \<Rightarrow> path \<Rightarrow> nat \<Rightarrow> nat \<Rightarrow> nat \<Rightarrow> world \<times> bytes option" where
  "read_exact w p pos limit n =
     (if n = 0 then (w, Some [])
      else case read_some w p pos limit n of
          (w1, Inl e) \<Rightarrow> (w1, None)
        | (w1, Inr bs) \<Rightarrow>
            if bs = [] then (w1, None)
            else (case read_exact w1 p (pos + length bs) (limit - length bs) (n - length bs) of
                (w2, None) \<Rightarrow> (w2, None)
              | (w2, Some cs) \<Rightarrow> (w2, Some (bs @ cs))))"
  by pat_completeness auto
termination
  by (relation "measure (\<lambda>(w, p, pos, limit, n). n)")
    (auto simp: length_greater_0_conv [symmetric] simp del: length_greater_0_conv)

declare read_exact.simps [simp del]

function matching_loop :: "world \<Rightarrow> path \<Rightarrow> path \<Rightarrow> nat \<Rightarrow> nat \<Rightarrow> nat \<Rightarrow> world \<times> bool" where
  "matching_loop w candidate p pos off left =
     (if left = 0 then (w, True)
      else
        let n = min left (CHUNK div 2)
        in case read_exact w p pos left n of
            (w1, None) \<Rightarrow> (w1, False)
          | (w1, Some a) \<Rightarrow>
              (case read_exact w1 candidate off left n of
                 (w2, None) \<Rightarrow> (w2, False)
               | (w2, Some b) \<Rightarrow>
                   if a \<noteq> b then (w2, False)
                   else matching_loop w2 candidate p (pos + n) (off + n) (left - n)))"
  by pat_completeness auto
termination
  by (relation "measure (\<lambda>(w, candidate, p, pos, off, left). left)") (auto simp: CHUNK_def)

declare matching_loop.simps [simp del]

definition matching_sidecar :: "world \<Rightarrow> path \<Rightarrow> path \<Rightarrow> nat \<Rightarrow> nat \<Rightarrow> world \<times> bool" where
  "matching_sidecar w candidate p ce len =
     (case sys_open w candidate of
        (w1, Inl _) \<Rightarrow> (w1, False)
      | (w1, Inr _) \<Rightarrow>
          (case sys_step w1 of
             (w2, Inl _) \<Rightarrow> (w2, False)
           | (w2, Inr _) \<Rightarrow>
               if length (file_bytes w2 candidate) \<noteq> len then (w2, False)
               else
                 (case open_range w2 p ce of
                    (w3, Inl _) \<Rightarrow> (w3, False)
                  | (w3, Inr _) \<Rightarrow> matching_loop w3 candidate p ce 0 len)))"

definition U32_MAX :: nat where
  "U32_MAX = 2 ^ 32 - 1"

function write_sidecar :: "world \<Rightarrow> path \<Rightarrow> nat \<Rightarrow> nat \<Rightarrow> nat \<Rightarrow> world \<times> path result" where
  "write_sidecar w p ce len attempt =
     (case sidecar_path p ce attempt of
        Inl e \<Rightarrow> (w, Inl (tail_error p ce len None e))
      | Inr candidate \<Rightarrow>
          let fail = tail_error p ce len (Some candidate)
          in case sys_create_new w candidate of
               (w1, Inr _) \<Rightarrow>
                 (case fill_sidecar w1 candidate p ce len of
                    (w2, Inl e) \<Rightarrow> (sys_remove w2 candidate, Inl (fail e))
                  | (w2, Inr _) \<Rightarrow>
                      (case sync_dir w2 candidate of
                         (w3, Inl e) \<Rightarrow> (w3, Inl (fail e))
                       | (w3, Inr _) \<Rightarrow> (w3, Inr candidate)))
             | (w1, Inl e) \<Rightarrow>
                 if io_kind e = AlreadyExists then
                   (case matching_sidecar w1 candidate p ce len of
                      (w2, True) \<Rightarrow>
                        (case sys_sync_all w2 candidate of
                           (w3, Inl e) \<Rightarrow> (w3, Inl (fail e))
                         | (w3, Inr _) \<Rightarrow>
                             (case sync_dir w3 candidate of
                                (w4, Inl e) \<Rightarrow> (w4, Inl (fail e))
                              | (w4, Inr _) \<Rightarrow> (w4, Inr candidate)))
                    | (w2, False) \<Rightarrow>
                        if U32_MAX \<le> attempt then
                          (w2, Inl (fail (IoError AlreadyExists ''every sidecar file name is taken'')))
                        else write_sidecar w2 p ce len (attempt + 1))
                 else (w1, Inl (fail e)))"
  by pat_completeness auto
termination
  by (relation "measure (\<lambda>(w, p, ce, len, attempt). U32_MAX - attempt)") auto

declare write_sidecar.simps [simp del]

definition preserve_tail :: "world \<Rightarrow> path \<Rightarrow> nat \<Rightarrow> nat \<Rightarrow> world \<times> tail result" where
  "preserve_tail w p ce file_len =
     (if file_len \<le> ce then (w, Inr EmptyTail)
      else
        let len = file_len - ce
        in case tail_is_zero w p ce len of
             (w1, Inl e) \<Rightarrow> (w1, Inl (tail_error p ce len None e))
           | (w1, Inr True) \<Rightarrow> (w1, Inr Zeros)
           | (w1, Inr False) \<Rightarrow>
               (case write_sidecar w1 p ce len 0 of
                  (w2, Inl e) \<Rightarrow> (w2, Inl e)
                | (w2, Inr sidecar) \<Rightarrow> (w2, Inr (Preserved sidecar))))"

definition scan_clean_end ::
    "crc_crate \<Rightarrow> read_oracle \<Rightarrow> world \<Rightarrow> path \<Rightarrow> world \<times> (nat \<times> nat \<times> journal_tail_state) result" where
  "scan_clean_end C rd w p =
     (case sys_open w p of
        (w1, Inl e) \<Rightarrow> (w1, Inl (Io e))
      | (w1, Inr _) \<Rightarrow>
          (case sys_step w1 of
             (w2, Inl e) \<Rightarrow> (w2, Inl (Io e))
           | (w2, Inr _) \<Rightarrow>
               let reader = reader_open (file_bytes w2 p);
                   file_len = file_size reader
               in if file_len = 0 then (w2, Inr (0, 0, CleanEnd))
                  else (case drain_iter C rd (journal_iter_new reader) of
                      (_, Inl e, _) \<Rightarrow> (w2, Inl e)
                    | (_, Inr _, it) \<Rightarrow> (w2, Inr (cursor it, file_len, last_state it)))))"

definition prepare_resume :: "crc_crate \<Rightarrow> read_oracle \<Rightarrow> world \<Rightarrow> path \<Rightarrow> world \<times> resume result" where
  "prepare_resume C rd w p =
     (case scan_clean_end C rd w p of
        (w1, Inl e) \<Rightarrow> (w1, Inl e)
      | (w1, Inr (ce, file_len, _)) \<Rightarrow>
          (case preserve_tail w1 p ce file_len of
             (w2, Inl e) \<Rightarrow> (w2, Inl e)
           | (w2, Inr t) \<Rightarrow> (w2, Inr \<lparr>clean_end = ce, tail = t\<rparr>)))"

section \<open>What the reading calls observe\<close>

lemma sys_step_store: "sys_step w = (w1, r) \<Longrightarrow> same_store w1 w"
  by (auto simp: sys_step_def next_fault_def same_store_def split: list.splits option.splits prod.splits)

lemma sys_open_store: "sys_open w p = (w1, r) \<Longrightarrow> same_store w1 w"
  by (auto simp: sys_open_def dest: sys_step_store split: prod.splits sum.splits if_splits)

lemma sys_open_exists: "sys_open w p = (w1, Inr u) \<Longrightarrow> files w p \<noteq> None"
  by (auto simp: sys_open_def same_store_def dest!: sys_step_store split: prod.splits sum.splits if_splits)

lemma open_range_store: "open_range w p off = (w1, r) \<Longrightarrow> same_store w1 w"
  by (auto simp: open_range_def dest!: sys_step_store sys_open_store intro: same_store_trans
      split: prod.splits sum.splits if_splits)

lemma tail_is_zero_loop_spec:
  "tail_is_zero_loop w p pos limit = (w1, r) \<Longrightarrow>
     same_store w1 w \<and>
     (\<forall>b. r = Inr b \<longrightarrow> b = list_all (\<lambda>x. x = 0) (take limit (drop pos (file_bytes w p))))"
proof (induction w p pos limit rule: tail_is_zero_loop.induct)
  case (1 w p pos limit)
  obtain w2 r2 where rs: "read_some w p pos limit CHUNK = (w2, r2)" by fastforce
  note st = read_some_store [OF rs]
  show ?case
  proof (cases r2)
    case (Inl e)
    with rs "1.prems" st show ?thesis by (auto simp: tail_is_zero_loop.simps [of w p pos limit])
  next
    case (Inr bs)
    have ch: "0 < CHUNK" by (simp add: CHUNK_def)
    note sp = read_some_split [OF rs [unfolded Inr] ch]
    have la: "list_all (\<lambda>x. x = 0) (take limit (drop pos (file_bytes w p))) \<longleftrightarrow>
        \<not> list_ex (\<lambda>b. b \<noteq> 0) bs \<and>
        list_all (\<lambda>x. x = 0) (take (limit - length bs) (drop (pos + length bs) (file_bytes w p)))"
      unfolding sp(1) by (auto simp: list_ex_iff list_all_iff)
    show ?thesis
    proof (cases "bs = [] \<or> list_ex (\<lambda>b. b \<noteq> 0) bs")
      case True
      then have "w1 = w2" "r = Inr (bs = [])"
        using rs Inr "1.prems" by (auto simp: tail_is_zero_loop.simps [of w p pos limit] split: if_splits)
      moreover have "list_all (\<lambda>x. x = 0) (take limit (drop pos (file_bytes w p))) \<longleftrightarrow> bs = []"
        using sp(2) True la by (metis list.pred_inject(1))
      ultimately show ?thesis using st by simp
    next
      case False
      with rs Inr "1.prems" have "tail_is_zero_loop w2 p (pos + length bs) (limit - length bs) = (w1, r)"
        by (simp add: tail_is_zero_loop.simps [of w p pos limit])
      from "1.IH" [OF rs [symmetric] Inr _ _ this] False st la same_store_bytes [OF st]
      show ?thesis by (auto intro: same_store_trans)
    qed
  qed
qed

lemma tail_is_zero_spec:
  assumes "tail_is_zero w p off len = (w1, r)"
  shows "same_store w1 w \<and>
    (\<forall>b. r = Inr b \<longrightarrow> b = list_all (\<lambda>x. x = 0) (take len (drop off (file_bytes w p))))"
proof -
  obtain w2 r2 where o: "open_range w p off = (w2, r2)" by fastforce
  note st = open_range_store [OF o]
  show ?thesis
  proof (cases r2)
    case (Inl e)
    with o assms st show ?thesis by (auto simp: tail_is_zero_def)
  next
    case (Inr u)
    with o assms have "tail_is_zero_loop w2 p off len = (w1, r)" by (simp add: tail_is_zero_def)
    from tail_is_zero_loop_spec [OF this] st same_store_bytes [OF st] show ?thesis
      by (auto intro: same_store_trans)
  qed
qed

lemma read_exact_spec:
  "read_exact w p pos limit n = (w1, r) \<Longrightarrow>
     same_store w1 w \<and>
     (\<forall>bs. r = Some bs \<longrightarrow> length bs = n \<and> bs = take n (drop pos (file_bytes w p)))"
proof (induction w p pos limit n arbitrary: w1 r rule: read_exact.induct)
  case (1 w p pos limit n)
  show ?case
  proof (cases "n = 0")
    case True
    with "1.prems" show ?thesis by (auto simp: read_exact.simps [of w p pos limit 0])
  next
    case n: False
    obtain w2 r2 where rs: "read_some w p pos limit n = (w2, r2)" by fastforce
    note st = read_some_store [OF rs]
    show ?thesis
    proof (cases r2)
      case (Inl e)
      with rs n "1.prems" st show ?thesis by (simp add: read_exact.simps [of w p pos limit n])
    next
      case (Inr bs)
      from read_some_data [OF rs [unfolded Inr]] obtain k where
        k: "bs = take k (drop pos (file_bytes w p))" "k \<le> n" by blast
      show ?thesis
      proof (cases "bs = []")
        case True
        with rs n Inr "1.prems" st show ?thesis by (simp add: read_exact.simps [of w p pos limit n])
      next
        case ne: False
        obtain w3 r3 where rec: "read_exact w2 p (pos + length bs) (limit - length bs) (n - length bs) = (w3, r3)"
          by fastforce
        from rs n Inr ne rec "1.prems"
        have r: "w1 = w3" "r = (case r3 of None \<Rightarrow> None | Some cs \<Rightarrow> Some (bs @ cs))"
          by (simp_all add: read_exact.simps [of w p pos limit n] split: option.splits)
        note ih = "1.IH" [OF n rs [symmetric] Inr ne rec]
        have "length bs \<le> n" using k by simp
        then have "bs @ take (n - length bs) (drop (pos + length bs) (file_bytes w p)) =
            take n (drop pos (file_bytes w p))"
          using take_split_at [OF k(2), of "drop pos (file_bytes w p)"] k(1) by (simp add: add.commute)
        moreover have "length (bs @ cs) = n" if "length cs = n - length bs" for cs :: bytes
          using that \<open>length bs \<le> n\<close> by simp
        moreover obtain cs where "xs = bs @ cs" "r3 = Some cs" if "r = Some xs" for xs
          using r(2) by (cases r3) auto
        ultimately have "length xs = n \<and> xs = take n (drop pos (file_bytes w p))" if "r = Some xs" for xs
          using ih same_store_bytes [OF st] that by metis
        with ih r(1) st show ?thesis by (auto intro: same_store_trans)
      qed
    qed
  qed
qed

lemma take_eq_step:
  "take n P = take n Q \<Longrightarrow> take (l - n) (drop n P) = take (l - n) (drop n Q) \<Longrightarrow> n \<le> l \<Longrightarrow>
     take l P = take l Q"
  by (metis le_add_diff_inverse take_add)

lemma matching_loop_spec:
  "matching_loop w candidate p pos off left = (w1, r) \<Longrightarrow>
     same_store w1 w \<and>
     (r \<longrightarrow> take left (drop pos (file_bytes w p)) = take left (drop off (file_bytes w candidate)) \<and>
       left \<le> length (drop pos (file_bytes w p)))"
proof (induction w candidate p pos off left rule: matching_loop.induct)
  case (1 w candidate p pos off left)
  let ?n = "min left (CHUNK div 2)"
  show ?case
  proof (cases "left = 0")
    case True
    with "1.prems" show ?thesis by (auto simp: matching_loop.simps [of w candidate p pos off 0])
  next
    case nz: False
    obtain w2 r2 where a: "read_exact w p pos left ?n = (w2, r2)" by fastforce
    obtain w3 r3 where b: "read_exact w2 candidate off left ?n = (w3, r3)" by fastforce
    note sa = read_exact_spec [OF a] and sb = read_exact_spec [OF b]
    have st: "same_store w2 w" "same_store w3 w" using sa sb by (auto intro: same_store_trans)
    show ?thesis
    proof (cases "\<exists>xs. r2 = Some xs \<and> r3 = Some xs")
      case False
      with nz a b "1.prems" st have "\<not> r \<and> same_store w1 w"
        by (auto simp: matching_loop.simps [of w candidate p pos off left] Let_def
            split: option.splits if_splits)
      then show ?thesis by simp
    next
      case True
      then obtain xs where xs: "r2 = Some xs" "r3 = Some xs" by blast
      with nz a b "1.prems"
      have rec: "matching_loop w3 candidate p (pos + ?n) (off + ?n) (left - ?n) = (w1, r)"
        by (simp add: matching_loop.simps [of w candidate p pos off left] Let_def)
      let ?P = "drop pos (file_bytes w p)" and ?Q = "drop off (file_bytes w candidate)"
      have px: "xs = take ?n ?P" "length xs = ?n" using sa xs(1) by blast+
      moreover have "xs = take ?n ?Q" using sb xs(2) same_store_bytes [OF st(1)] by metis
      ultimately have n: "take ?n ?P = take ?n ?Q" "?n \<le> length ?P"
        by (metis, metis length_take min.cobounded1)
      have ih: "same_store w1 w3"
        "r \<longrightarrow> take (left - ?n) (drop ?n ?P) = take (left - ?n) (drop ?n ?Q) \<and> left - ?n \<le> length (drop ?n ?P)"
        using "1.IH" [OF nz refl a [symmetric] xs(1) b [symmetric] xs(2) _ rec] same_store_bytes [OF st(2)]
        by (simp_all add: add.commute)
      have "take left ?P = take left ?Q" if r
        using take_eq_step [OF n(1)] ih(2) that by (meson min.cobounded1)
      moreover have "left \<le> length ?P" if r
        using ih(2) n(2) that unfolding length_drop by linarith
      ultimately show ?thesis using ih(1) st(2) by (blast intro: same_store_trans)
    qed
  qed
qed

lemma matching_sidecar_spec:
  assumes "matching_sidecar w candidate p ce len = (w1, r)"
  shows "same_store w1 w \<and>
    (r \<longrightarrow> files w candidate = Some (take len (drop ce (file_bytes w p))) \<and>
      len \<le> length (drop ce (file_bytes w p)))"
proof -
  obtain w2 r2 where o: "sys_open w candidate = (w2, r2)" by fastforce
  obtain w3 r3 where m: "sys_step w2 = (w3, r3)" by fastforce
  obtain w4 r4 where g: "open_range w3 p ce = (w4, r4)" by fastforce
  have st: "same_store w2 w" "same_store w3 w" "same_store w4 w"
    using sys_open_store [OF o] sys_step_store [OF m] open_range_store [OF g]
    by (auto intro: same_store_trans)
  note fb = st [THEN same_store_bytes]
  show ?thesis
  proof (cases "(\<exists>u. r2 = Inr u) \<and> (\<exists>u. r3 = Inr u) \<and> length (file_bytes w3 candidate) = len \<and> (\<exists>u. r4 = Inr u)")
    case False
    with assms o m g st show ?thesis
      by (auto simp: matching_sidecar_def split: sum.splits if_splits)
  next
    case True
    with assms o m g have rec: "matching_loop w4 candidate p ce 0 len = (w1, r)"
      and len: "length (file_bytes w candidate) = len"
      by (auto simp: matching_sidecar_def fb)
    obtain b where b: "files w candidate = Some b"
      using sys_open_exists [of w candidate w2] o True by auto
    then have "file_bytes w candidate = b" by (simp add: file_bytes_def)
    with matching_loop_spec [OF rec] st fb len b show ?thesis
      by (auto intro: same_store_trans)
  qed
qed

section \<open>What the copying calls change\<close>

text \<open>Only the contents of one file change.\<close>

definition only_file :: "path \<Rightarrow> world \<Rightarrow> world \<Rightarrow> bool" where
  "only_file f w' w \<longleftrightarrow>
     (\<forall>q. q \<noteq> f \<longrightarrow> files w' q = files w q) \<and>
     (\<forall>q. q \<noteq> f \<longrightarrow> synced w' q = synced w q) \<and> (\<forall>q. q \<noteq> f \<longrightarrow> entry_synced w' q = entry_synced w q)"

lemma only_file_trans [trans]: "only_file f w2 w1 \<Longrightarrow> only_file f w1 w \<Longrightarrow> only_file f w2 w"
  by (simp add: only_file_def)

lemma only_file_store: "same_store w1 w \<Longrightarrow> only_file f w1 w"
  by (simp add: only_file_def same_store_def)

lemma only_file_bytes: "only_file f w' w \<Longrightarrow> p \<noteq> f \<Longrightarrow> file_bytes w' p = file_bytes w p"
  by (simp add: only_file_def file_bytes_def)

lemma sys_write_all_spec:
  assumes "sys_write_all w f bs = (w1, r)"
  shows "only_file f w1 w" and "files w1 f \<noteq> None"
    and "\<And>u. r = Inr u \<Longrightarrow> files w1 f = Some (file_bytes w f @ bs)"
proof -
  obtain o1 w2 where n: "next_fault w = (o1, w2)" by fastforce
  have "same_store w2 w"
    using n by (auto simp: next_fault_def same_store_def split: list.splits)
  then show "only_file f w1 w" "files w1 f \<noteq> None"
    "\<And>u. r = Inr u \<Longrightarrow> files w1 f = Some (file_bytes w f @ bs)"
    using assms n by (auto simp: sys_write_all_def only_file_def same_store_def file_bytes_def
        split: option.splits prod.splits)
qed

lemma sys_sync_all_spec:
  assumes "sys_sync_all w f = (w1, r)"
  shows "only_file f w1 w" "files w1 = files w" "\<And>u. r = Inr u \<Longrightarrow> synced w1 f = Some (file_bytes w f)"
proof -
  obtain w2 r2 where n: "sys_step w = (w2, r2)" by fastforce
  note st = sys_step_store [OF n]
  show "only_file f w1 w" "files w1 = files w" "\<And>u. r = Inr u \<Longrightarrow> synced w1 f = Some (file_bytes w f)"
    using assms n st same_store_bytes [OF st]
    by (auto simp: sys_sync_all_def only_file_def same_store_def split: sum.splits)
qed

lemma sync_dir_spec:
  assumes "sync_dir w f = (w1, r)"
  shows "only_file f w1 w" "files w1 = files w" "synced w1 = synced w"
    "\<And>u. r = Inr u \<Longrightarrow> entry_synced w1 f"
proof -
  obtain w2 r2 where n: "sys_step w = (w2, r2)" by fastforce
  note st = sys_step_store [OF n]
  show "only_file f w1 w" "files w1 = files w" "synced w1 = synced w"
    "\<And>u. r = Inr u \<Longrightarrow> entry_synced w1 f"
    using assms n st by (auto simp: sync_dir_def only_file_def same_store_def split: sum.splits)
qed

lemma fill_loop_spec:
  "fill_loop w f p pos limit copied = (w1, r) \<Longrightarrow> p \<noteq> f \<Longrightarrow>
     only_file f w1 w \<and> (files w f \<noteq> None \<longrightarrow> files w1 f \<noteq> None) \<and>
     (\<forall>c. r = Inr c \<longrightarrow>
        file_bytes w1 f = file_bytes w f @ take limit (drop pos (file_bytes w p)) \<and>
        c = copied + length (take limit (drop pos (file_bytes w p))))"
proof (induction w f p pos limit copied rule: fill_loop.induct)
  case (1 w f p pos limit copied)
  obtain w2 r2 where rs: "read_some w p pos limit CHUNK = (w2, r2)" by fastforce
  note st = read_some_store [OF rs]
  note fb = same_store_bytes [OF st]
  show ?case
  proof (cases r2)
    case (Inl e)
    with rs "1.prems" only_file_store [OF st, of f] st show ?thesis
      by (auto simp: same_store_def fill_loop.simps [of w f p pos limit copied])
  next
    case (Inr bs)
    have ch: "0 < CHUNK" by (simp add: CHUNK_def)
    note sp = read_some_split [OF rs [unfolded Inr] ch]
    show ?thesis
    proof (cases "bs = []")
      case True
      with rs Inr "1.prems" sp(2) only_file_store [OF st, of f] fb st show ?thesis
        by (auto simp: same_store_def fill_loop.simps [of w f p pos limit copied])
    next
      case ne: False
      obtain w3 r3 where wr: "sys_write_all w2 f bs = (w3, r3)" by fastforce
      note ws = sys_write_all_spec [OF wr]
      have only: "only_file f w3 w" using ws(1) only_file_store [OF st] by (rule only_file_trans)
      show ?thesis
      proof (cases r3)
        case (Inl e)
        with rs Inr ne wr "1.prems" only ws(2) show ?thesis
          by (auto simp: fill_loop.simps [of w f p pos limit copied])
      next
        case r3: (Inr u)
        with rs Inr ne wr "1.prems"
        have "fill_loop w3 f p (pos + length bs) (limit - length bs) (copied + length bs) = (w1, r)"
          by (simp add: fill_loop.simps [of w f p pos limit copied])
        note ih = "1.IH" [OF rs [symmetric] Inr ne wr [symmetric] r3 this "1.prems"(2)]
        have "file_bytes w3 f = file_bytes w f @ bs"
          using ws(3) [OF r3] fb by (simp add: file_bytes_def)
        moreover have "file_bytes w3 p = file_bytes w p"
          by (rule only_file_bytes [OF only "1.prems"(2)])
        ultimately show ?thesis
          using ih only_file_trans [OF _ only] ws(2) unfolding sp(1) by auto
      qed
    qed
  qed
qed

lemma fill_sidecar_spec:
  assumes "fill_sidecar w f p ce len = (w1, r)" and "p \<noteq> f" and "files w f = Some []"
  shows "only_file f w1 w" and
    "\<And>u. r = Inr u \<Longrightarrow> files w1 f = Some (take len (drop ce (file_bytes w p))) \<and>
       synced w1 f = Some (take len (drop ce (file_bytes w p))) \<and>
       len \<le> length (drop ce (file_bytes w p))"
proof -
  obtain w2 r2 where o: "open_range w p ce = (w2, r2)" by fastforce
  note st = open_range_store [OF o]
  note fb = same_store_bytes [OF st]
  obtain w3 r3 where l: "fill_loop w2 f p ce len 0 = (w3, r3)" by fastforce
  note ls = fill_loop_spec [OF l assms(2)]
  have only3: "only_file f w3 w" using ls only_file_store [OF st] only_file_trans by blast
  show "only_file f w1 w"
    using assms(1) o l only_file_store [OF st] only3
    by (auto simp: fill_sidecar_def dest: sys_sync_all_spec(1) intro: only_file_trans
        split: sum.splits if_splits)
  fix u
  assume "r = Inr u"
  with assms(1) o l have "r3 = Inr len" and sy: "sys_sync_all w3 f = (w1, Inr u)"
    by (auto simp: fill_sidecar_def split: sum.splits if_splits)
  with ls fb assms(3)
  have "file_bytes w3 f = take len (drop ce (file_bytes w p))"
    "len = length (take len (drop ce (file_bytes w p)))"
    by (simp_all add: file_bytes_def)
  moreover have "files w3 f \<noteq> None" using ls st assms(3) by (simp add: same_store_def)
  ultimately show "files w1 f = Some (take len (drop ce (file_bytes w p))) \<and>
       synced w1 f = Some (take len (drop ce (file_bytes w p))) \<and>
       len \<le> length (drop ce (file_bytes w p))"
    using sys_sync_all_spec [OF sy] by (auto simp: file_bytes_def)
qed

text \<open>A file whose contents, and whose directory entry, survive a crash.\<close>

definition saved :: "world \<Rightarrow> path \<Rightarrow> bytes \<Rightarrow> bool" where
  "saved w f bs \<longleftrightarrow> files w f = Some bs \<and> synced w f = Some bs \<and> entry_synced w f"

lemma sidecar_path_ne: "sidecar_path p ce attempt = Inr c \<Longrightarrow> c \<noteq> p"
  by (cases p) (auto simp: sidecar_path_def with_file_name_def split: option.splits)

lemma sys_create_new_spec:
  assumes "sys_create_new w c = (w1, r)"
  shows "case r of Inl _ \<Rightarrow> same_store w1 w
    | Inr _ \<Rightarrow> only_file c w1 w \<and> files w c = None \<and> files w1 c = Some []"
proof -
  obtain w2 r2 where st: "sys_step w = (w2, r2)" by fastforce
  from assms st sys_step_store [OF st] show ?thesis
    by (auto simp: sys_create_new_def only_file_def same_store_def split: sum.splits if_splits)
qed

lemma sys_remove_only: "only_file c (sys_remove w c) w"
  by (auto simp: sys_remove_def only_file_def same_store_def dest!: sys_step_store
      split: prod.splits sum.splits)

lemma only_file_map_le: "only_file c w1 w \<Longrightarrow> files w c = None \<Longrightarrow> files w \<subseteq>\<^sub>m files w1"
  unfolding map_le_def only_file_def by (metis domIff)

lemma write_sidecar_new:
  assumes "sys_create_new w c = (w1, Inr u)" and "fill_sidecar w1 c p ce len = (w2, r2)" and "c \<noteq> p"
  shows "files w \<subseteq>\<^sub>m files w2" "files w \<subseteq>\<^sub>m files (sys_remove w2 c)"
    "\<And>v w3 r3. r2 = Inr v \<Longrightarrow> sync_dir w2 c = (w3, r3) \<Longrightarrow> files w \<subseteq>\<^sub>m files w3 \<and>
      (\<forall>x. r3 = Inr x \<longrightarrow> saved w3 c (take len (drop ce (file_bytes w p))) \<and>
         len \<le> length (drop ce (file_bytes w p)))"
proof -
  have cr: "only_file c w1 w" "files w c = None" "files w1 c = Some []"
    using sys_create_new_spec [OF assms(1)] by simp_all
  have fi: "only_file c w2 w1"
    and ok: "\<And>u. r2 = Inr u \<Longrightarrow> files w2 c = Some (take len (drop ce (file_bytes w1 p))) \<and>
       synced w2 c = Some (take len (drop ce (file_bytes w1 p))) \<and>
       len \<le> length (drop ce (file_bytes w1 p))"
    using fill_sidecar_spec [OF assms(2) _ cr(3)] assms(3) by auto
  have fb: "file_bytes w1 p = file_bytes w p" using only_file_bytes [OF cr(1)] assms(3) by auto
  have only2: "only_file c w2 w" by (rule only_file_trans [OF fi cr(1)])
  then show "files w \<subseteq>\<^sub>m files w2" "files w \<subseteq>\<^sub>m files (sys_remove w2 c)"
    using cr(2) only_file_map_le only_file_trans [OF sys_remove_only] by blast+
  fix v w3 r3
  assume r2: "r2 = Inr v" and sd: "sync_dir w2 c = (w3, r3)"
  note ds = sync_dir_spec [OF sd]
  have "files w \<subseteq>\<^sub>m files w3"
    by (rule only_file_map_le [OF only_file_trans [OF ds(1) only2] cr(2)])
  with ok [OF r2] ds fb show "files w \<subseteq>\<^sub>m files w3 \<and>
      (\<forall>x. r3 = Inr x \<longrightarrow> saved w3 c (take len (drop ce (file_bytes w p))) \<and>
         len \<le> length (drop ce (file_bytes w p)))"
    by (simp add: saved_def)
qed

lemma write_sidecar_reuse:
  assumes "matching_sidecar w c p ce len = (w2, True)" and "sys_sync_all w2 c = (w3, Inr u)"
    and "sync_dir w3 c = (w4, r4)"
  shows "files w4 = files w"
    "\<And>x. r4 = Inr x \<Longrightarrow> saved w4 c (take len (drop ce (file_bytes w p))) \<and>
       len \<le> length (drop ce (file_bytes w p))"
proof -
  note m = matching_sidecar_spec [OF assms(1)]
  note sy = sys_sync_all_spec [OF assms(2)] and ds = sync_dir_spec [OF assms(3)]
  show "files w4 = files w"
    using m sy(2) ds(2) by (simp add: same_store_def)
  show "\<And>x. r4 = Inr x \<Longrightarrow> saved w4 c (take len (drop ce (file_bytes w p))) \<and>
       len \<le> length (drop ce (file_bytes w p))"
    using m sy ds by (auto simp: same_store_def saved_def file_bytes_def)
qed

lemma write_sidecar_spec:
  "write_sidecar w p ce len attempt = (w1, r) \<Longrightarrow>
     files w \<subseteq>\<^sub>m files w1 \<and>
     (\<forall>c. r = Inr c \<longrightarrow> c \<noteq> p \<and> saved w1 c (take len (drop ce (file_bytes w p))) \<and>
        len \<le> length (drop ce (file_bytes w p)))"
proof (induction w p ce len attempt rule: write_sidecar.induct)
  case (1 w p ce len attempt)
  show ?case
  proof (cases "sidecar_path p ce attempt")
    case (Inl e)
    with "1.prems" show ?thesis by (auto simp: write_sidecar.simps [of w p ce len attempt] Let_def)
  next
    case path: (Inr c)
    have cp: "c \<noteq> p" by (rule sidecar_path_ne [OF path])
    obtain w2 r2 where cr: "sys_create_new w c = (w2, r2)" by fastforce
    show ?thesis
    proof (cases r2)
      case new: (Inr u)
      obtain w3 r3 where fi: "fill_sidecar w2 c p ce len = (w3, r3)" by fastforce
      obtain w4 r4 where sd: "sync_dir w3 c = (w4, r4)" by fastforce
      note n = write_sidecar_new [OF cr [unfolded new] fi cp]
      show ?thesis
        using "1.prems" path cr new fi sd n(1,2) n(3) [OF _ sd] cp
        by (auto simp: write_sidecar.simps [of w p ce len attempt] Let_def split: sum.splits)
    next
      case taken: (Inl e)
      have st: "same_store w2 w" using sys_create_new_spec [OF cr] taken by simp
      note fb = same_store_bytes [OF st]
      show ?thesis
      proof (cases "io_kind e = AlreadyExists")
        case False
        with "1.prems" path cr taken st show ?thesis
          by (auto simp: write_sidecar.simps [of w p ce len attempt] Let_def same_store_def)
      next
        case exists: True
        obtain w3 b where m: "matching_sidecar w2 c p ce len = (w3, b)" by fastforce
        have st3: "same_store w3 w"
          using matching_sidecar_spec [OF m] st same_store_trans by blast
        show ?thesis
        proof (cases b)
          case True
          obtain w4 r4 where sy: "sys_sync_all w3 c = (w4, r4)" by fastforce
          obtain w5 r5 where sd: "sync_dir w4 c = (w5, r5)" by fastforce
          have f4: "files w4 = files w"
            using sys_sync_all_spec(2) [OF sy] st3 by (simp add: same_store_def)
          note reuse = write_sidecar_reuse [OF m [unfolded eqTrueI [OF True]] _ sd]
          show ?thesis
            using "1.prems" path cr taken exists m True sy sd f4 reuse st fb cp
            by (auto simp: write_sidecar.simps [of w p ce len attempt] Let_def same_store_def split: sum.splits)
        next
          case no: False
          show ?thesis
          proof (cases "U32_MAX \<le> attempt")
            case True
            with "1.prems" path cr taken exists m no st3 show ?thesis
              by (auto simp: write_sidecar.simps [of w p ce len attempt] Let_def same_store_def)
          next
            case more: False
            with "1.prems" path cr taken exists m no
            have "write_sidecar w3 p ce len (attempt + 1) = (w1, r)"
              by (simp add: write_sidecar.simps [of w p ce len attempt] Let_def)
            from "1.IH" [OF path refl cr [symmetric] taken exists m [symmetric] _ more this] no st3
              same_store_bytes [OF st3]
            show ?thesis by (simp add: same_store_def)
          qed
        qed
      qed
    qed
  qed
qed

section \<open>Runs without failures\<close>

definition quiet :: "world \<Rightarrow> bool" where
  "quiet w \<longleftrightarrow> faults w = [] \<and> reads w = []"

lemma sys_step_quiet [simp]: "quiet w \<Longrightarrow> sys_step w = (w, Inr ())"
  by (simp add: sys_step_def next_fault_def quiet_def)

lemma sys_open_quiet [simp]: "quiet w \<Longrightarrow> files w p = Some F \<Longrightarrow> sys_open w p = (w, Inr ())"
  by (simp add: sys_open_def)

lemma open_range_quiet [simp]:
  "quiet w \<Longrightarrow> files w p = Some F \<Longrightarrow> off < 2 ^ 63 \<Longrightarrow> open_range w p off = (w, Inr ())"
  by (simp add: open_range_def)

lemma read_some_quiet [simp]:
  "quiet w \<Longrightarrow> read_some w p pos limit n = (w, Inr (take (min n limit) (drop pos (file_bytes w p))))"
  by (subst read_some.simps) (simp add: take_read_def quiet_def)

lemma tail_is_zero_loop_quiet: "quiet w \<Longrightarrow> \<exists>b. tail_is_zero_loop w p pos limit = (w, Inr b)"
proof (induction w p pos limit rule: tail_is_zero_loop.induct)
  case (1 w p pos limit)
  then show ?case by (subst tail_is_zero_loop.simps) auto
qed

lemma tail_is_zero_quiet:
  assumes "quiet w" and "files w p = Some F" and "off < 2 ^ 63"
  shows "tail_is_zero w p off len = (w, Inr (list_all (\<lambda>x. x = 0) (take len (drop off F))))"
proof -
  obtain b where b: "tail_is_zero w p off len = (w, Inr b)"
    using tail_is_zero_loop_quiet [OF assms(1), of p off len] assms by (auto simp: tail_is_zero_def)
  with tail_is_zero_spec [OF b] assms(2) show ?thesis by (simp add: file_bytes_def)
qed

lemma read_exact_quiet:
  assumes "quiet w" and "n \<le> limit" and "n \<le> length (drop pos (file_bytes w p))"
  shows "read_exact w p pos limit n = (w, Some (take n (drop pos (file_bytes w p))))"
proof (cases "n = 0")
  case True
  then show ?thesis by (simp add: read_exact.simps [of w p pos limit 0])
next
  case False
  have "take n (drop pos (file_bytes w p)) \<noteq> []" using False assms(3) by auto
  moreover have "read_exact w p q l 0 = (w, Some [])" for q l
    by (simp add: read_exact.simps [of w p q l 0])
  ultimately show ?thesis
    using False assms by (subst read_exact.simps) (simp add: min_absorb1)
qed

lemma take_eq_split:
  "n \<le> l \<Longrightarrow> take l P = take l Q \<longleftrightarrow>
     take n P = take n Q \<and> take (l - n) (drop n P) = take (l - n) (drop n Q)"
  by (metis drop_take le_add_diff_inverse min.absorb1 take_add take_take)

text \<open>One round of the comparison, with the chunk length as a variable.\<close>

lemma matching_loop_step:
  assumes "left \<noteq> 0" and "n = min left (CHUNK div 2)"
    and "read_exact w p pos left n = (w, Some a)" and "read_exact w c off left n = (w, Some b)"
  shows "matching_loop w c p pos off left =
    (if a \<noteq> b then (w, False) else matching_loop w c p (pos + n) (off + n) (left - n))"
  using assms by (subst matching_loop.simps) (simp only: Let_def if_False prod.case option.case)

lemma matching_loop_quiet:
  assumes "quiet w" and "left \<le> length (drop pos (file_bytes w p))"
    and "left \<le> length (drop off (file_bytes w c))"
  shows "matching_loop w c p pos off left =
    (w, take left (drop pos (file_bytes w p)) = take left (drop off (file_bytes w c)))"
  using assms
proof (induction left arbitrary: pos off rule: less_induct)
  case (less left)
  let ?P = "drop pos (file_bytes w p)" and ?Q = "drop off (file_bytes w c)"
  show ?case
  proof (cases "left = 0")
    case True
    then show ?thesis by (simp add: matching_loop.simps [of w c p pos off 0])
  next
    case nz: False
    obtain n where n: "n = min left (CHUNK div 2)" by blast
    have n': "n \<le> left" "0 < n" using nz by (simp_all add: n CHUNK_def)
    have re: "read_exact w p pos left n = (w, Some (take n ?P))"
      "read_exact w c off left n = (w, Some (take n ?Q))"
      using less.prems n'(1) by (intro read_exact_quiet; simp)+
    have "matching_loop w c p (pos + n) (off + n) (left - n) =
        (w, take (left - n) (drop n ?P) = take (left - n) (drop n ?Q))"
      using less.IH [of "left - n" "pos + n" "off + n"] less.prems n' nz by (simp add: add.commute)
    with matching_loop_step [OF nz n re] take_eq_split [OF n'(1), of ?P ?Q] show ?thesis by simp
  qed
qed

text \<open>On a quiet file system a candidate matches exactly when it holds the tail.\<close>

lemma matching_sidecar_quiet:
  assumes "quiet w" and "files w p = Some F" and "ce < 2 ^ 63" and "files w c = Some G"
    and "len \<le> length (drop ce F)"
  shows "matching_sidecar w c p ce len = (w, G = take len (drop ce F))"
proof (cases "length G = len")
  case True
  then have "matching_loop w c p ce 0 len = (w, G = take len (drop ce F))"
    using assms matching_loop_quiet [of w len ce p 0 c] by (auto simp: file_bytes_def)
  with True assms show ?thesis by (simp add: matching_sidecar_def file_bytes_def)
next
  case False
  with assms show ?thesis by (auto simp: matching_sidecar_def file_bytes_def)
qed

lemma fill_loop_quiet:
  "quiet w \<Longrightarrow> \<exists>w1 c. fill_loop w f p pos limit copied = (w1, Inr c) \<and> quiet w1 \<and>
     synced w1 = synced w \<and> entry_synced w1 = entry_synced w"
proof (induction w f p pos limit copied rule: fill_loop.induct)
  case (1 w f p pos limit copied)
  let ?bs = "take (min CHUNK limit) (drop pos (file_bytes w p))"
  let ?w2 = "w\<lparr>files := (files w)(f \<mapsto> file_bytes w f @ ?bs)\<rparr>"
  have rs: "read_some w p pos limit CHUNK = (w, Inr ?bs)" using "1.prems" by simp
  have wr: "sys_write_all w f ?bs = (?w2, Inr ())"
    using "1.prems" by (simp add: sys_write_all_def next_fault_def quiet_def)
  have q2: "quiet ?w2" using "1.prems" by (simp add: quiet_def)
  show ?case
  proof (cases "?bs = []")
    case True
    then show ?thesis using "1.prems" rs by (subst fill_loop.simps) simp
  next
    case False
    then have "fill_loop w f p pos limit copied =
        fill_loop ?w2 f p (pos + length ?bs) (limit - length ?bs) (copied + length ?bs)"
      using rs wr by (subst fill_loop.simps) (simp del: take_eq_Nil length_take)
    with "1.IH" [OF rs [symmetric] refl False wr [symmetric] refl q2] show ?thesis by simp
  qed
qed

lemma fill_sidecar_quiet:
  assumes "quiet w" and "files w p = Some F" and "ce < 2 ^ 63" and "files w c = Some []"
    and "len \<le> length (drop ce F)" and "c \<noteq> p"
  shows "fill_sidecar w c p ce len =
    (w\<lparr>files := (files w)(c \<mapsto> take len (drop ce F)), synced := (synced w)(c \<mapsto> take len (drop ce F))\<rparr>, Inr ())"
proof -
  from fill_loop_quiet [OF assms(1)] obtain w1 n where
    f: "fill_loop w c p ce len 0 = (w1, Inr n)" "quiet w1" "synced w1 = synced w"
      "entry_synced w1 = entry_synced w" by blast
  have sp: "only_file c w1 w" "files w1 c \<noteq> None" "file_bytes w1 c = take len (drop ce F)" "n = len"
    using fill_loop_spec [OF f(1)] assms by (auto simp: file_bytes_def)
  then have "files w1 = (files w)(c \<mapsto> take len (drop ce F))"
    by (auto simp: only_file_def file_bytes_def fun_eq_iff)
  with f(2-4) assms(1) have "w1 = w\<lparr>files := (files w)(c \<mapsto> take len (drop ce F))\<rparr>"
    by (simp add: quiet_def)
  moreover have "sys_sync_all w1 c = (w1\<lparr>synced := (synced w1)(c \<mapsto> take len (drop ce F))\<rparr>, Inr ())"
    using f(2) sp(3) by (simp add: sys_sync_all_def)
  ultimately show ?thesis using assms f(1) sp(4) by (simp add: fill_sidecar_def)
qed

lemma write_sidecar_quiet:
  assumes "quiet w" and "files w p = Some F" and "ce < 2 ^ 63"
    and "len \<le> length (drop ce F)" and "sidecar_path p ce attempt = Inr c"
  shows "write_sidecar w p ce len attempt =
    (let T = take len (drop ce F)
     in if files w c = None \<or> files w c = Some T then
          (w\<lparr>files := (files w)(c \<mapsto> T), synced := (synced w)(c \<mapsto> T),
             entry_synced := (entry_synced w)(c := True)\<rparr>, Inr c)
        else if U32_MAX \<le> attempt then
          (w, Inl (tail_error p ce len (Some c) (IoError AlreadyExists ''every sidecar file name is taken'')))
        else write_sidecar w p ce len (attempt + 1))"
proof (cases "files w c")
  case None
  let ?w1 = "w\<lparr>files := (files w)(c \<mapsto> [])\<rparr>"
  have cp: "c \<noteq> p" by (rule sidecar_path_ne [OF assms(5)])
  have "fill_sidecar ?w1 c p ce len =
      (w\<lparr>files := (files w)(c \<mapsto> take len (drop ce F)), synced := (synced w)(c \<mapsto> take len (drop ce F))\<rparr>, Inr ())"
    using fill_sidecar_quiet [of ?w1 p F ce c len] assms cp by (auto simp: quiet_def)
  moreover have "sys_create_new w c = (?w1, Inr ())"
    using assms(1) None by (simp add: sys_create_new_def)
  moreover have "sync_dir w2 c = (w2\<lparr>entry_synced := (entry_synced w2)(c := True)\<rparr>, Inr ())" if "quiet w2" for w2
    using that by (simp add: sync_dir_def)
  ultimately show ?thesis
    using None assms by (subst write_sidecar.simps) (simp add: Let_def quiet_def)
next
  case (Some G)
  have "sys_create_new w c = (w, Inl (IoError AlreadyExists ''File exists (os error 17)''))"
    using assms(1) Some by (simp add: sys_create_new_def)
  moreover have "matching_sidecar w c p ce len = (w, G = take len (drop ce F))"
    using matching_sidecar_quiet [of w p F ce c G len] assms Some by simp
  moreover have "(files w)(c \<mapsto> G) = files w" using Some by (simp add: fun_upd_idem)
  ultimately show ?thesis
    using Some assms
    by (subst write_sidecar.simps)
      (auto simp: Let_def sys_sync_all_def sync_dir_def quiet_def file_bytes_def sys_step_def next_fault_def)
qed

text \<open>The loop over candidate names settles: run again on the world it left, it changes nothing.\<close>

lemma write_sidecar_settles:
  assumes "quiet w" and "files w p = Some F" and "ce < 2 ^ 63" and "len \<le> length (drop ce F)"
    and "write_sidecar w p ce len attempt = (w', Inr c)"
  shows "quiet w' \<and> write_sidecar w' p ce len attempt = (w', Inr c)"
  using assms(5)
proof (induction "U32_MAX - attempt" arbitrary: attempt rule: less_induct)
  case less
  let ?T = "take len (drop ce F)"
  obtain d where d: "sidecar_path p ce attempt = Inr d"
    using less.prems by (cases "sidecar_path p ce attempt")
      (simp_all add: write_sidecar.simps [of w p ce len attempt])
  have dp: "d \<noteq> p" by (rule sidecar_path_ne [OF d])
  note step = write_sidecar_quiet [OF assms(1-4) d]
  show ?case
  proof (cases "files w d = None \<or> files w d = Some ?T")
    case True
    with step less.prems have w': "w' = w\<lparr>files := (files w)(d \<mapsto> ?T), synced := (synced w)(d \<mapsto> ?T),
        entry_synced := (entry_synced w)(d := True)\<rparr>" and c: "c = d"
      by (simp_all add: Let_def)
    have q: "quiet w'" using assms(1) w' by (simp add: quiet_def)
    have "files w' p = Some F" using assms(2) w' dp by simp
    from write_sidecar_quiet [OF q this assms(3,4) d] show ?thesis
      using q w' c by (simp add: Let_def fun_upd_idem)
  next
    case False
    with step less.prems have more: "\<not> U32_MAX \<le> attempt"
      and rec: "write_sidecar w p ce len (attempt + 1) = (w', Inr c)"
      by (auto simp: Let_def split: if_splits)
    from less.hyps [OF _ rec] more have ih: "quiet w'" "write_sidecar w' p ce len (attempt + 1) = (w', Inr c)"
      by auto
    have le: "files w \<subseteq>\<^sub>m files w'" using write_sidecar_spec [OF rec] by simp
    then have "files w' p = Some F" "files w' d = files w d"
      using assms(2) False by (auto simp: map_le_def dom_def)
    from write_sidecar_quiet [OF ih(1) this(1) assms(3,4) d] this(2) False more ih show ?thesis
      by (simp add: Let_def)
  qed
qed

lemma write_sidecar_succeeds:
  assumes "quiet w" and "files w p = Some F" and "ce < 2 ^ 63" and "len \<le> length (drop ce F)"
    and "sidecar_path p ce k = Inr d" and "files w d = None" and "attempt \<le> k" and "k \<le> U32_MAX"
  shows "\<exists>w' c. write_sidecar w p ce len attempt = (w', Inr c)"
  using assms(7)
proof (induction "k - attempt" arbitrary: attempt rule: less_induct)
  case less
  obtain a where a: "sidecar_path p ce attempt = Inr a"
    using assms(5) by (cases "file_name p") (simp_all add: sidecar_path_def)
  note step = write_sidecar_quiet [OF assms(1-4) a]
  show ?case
  proof (cases "attempt = k")
    case True
    with a assms(5,6) step show ?thesis by (simp add: Let_def)
  next
    case False
    with less.prems less.hyps [of "attempt + 1"] assms(8)
    have "\<exists>w' c. write_sidecar w p ce len (attempt + 1) = (w', Inr c)" "\<not> U32_MAX \<le> attempt" by auto
    with step show ?thesis by (auto simp: Let_def)
  qed
qed

section \<open>The whole open\<close>

lemma scan_clean_end_store: "scan_clean_end C rd w p = (w1, r) \<Longrightarrow> same_store w1 w"
  by (auto simp: scan_clean_end_def Let_def dest!: sys_open_store sys_step_store intro: same_store_trans
      split: prod.splits sum.splits if_splits)

lemma scan_clean_end_spec:
  assumes "scan_clean_end C rd w p = (w1, Inr (ce, n, st))" and "files w p = Some F"
    and "reads_ok rd (length F)"
  shows "n = length F \<and> scan C F 0 = (fst (scan C F 0), ce, st)"
proof -
  obtain w2 r2 where o: "sys_open w p = (w2, r2)" by fastforce
  obtain w3 r3 where m: "sys_step w2 = (w3, r3)" by fastforce
  have "same_store w3 w"
    using sys_open_store [OF o] sys_step_store [OF m] same_store_trans by blast
  then have fb: "file_bytes w3 p = F"
    using assms(2) by (simp add: same_store_bytes file_bytes_def)
  obtain rs q t where sc: "scan C F 0 = (rs, q, t)" by (cases "scan C F 0") auto
  from reader_open_drain [OF assms(3) sc] obtain it where
    it: "drain_iter C rd (journal_iter_new (reader_open F)) = (rs, Inr (), it)" "cursor it = q" "last_state it = t"
    by blast
  from assms(1) o m fb it sc show ?thesis
    by (auto simp: scan_clean_end_def Let_def reader_open_def scan_empty split: sum.splits if_splits)
qed

text \<open>What an open may drop: nothing, zeros, or bytes that are saved elsewhere.\<close>

definition tail_kept :: "world \<Rightarrow> path \<Rightarrow> bytes \<Rightarrow> nat \<Rightarrow> tail \<Rightarrow> bool" where
  "tail_kept w p F ce t \<longleftrightarrow>
     (case t of
        EmptyTail \<Rightarrow> length F \<le> ce
      | Zeros \<Rightarrow> ce < length F \<and> drop ce F = zeros (length F - ce)
      | Preserved c \<Rightarrow> ce < length F \<and> c \<noteq> p \<and> saved w c (drop ce F))"

lemma preserve_tail_spec:
  assumes "preserve_tail w p ce (length F) = (w1, r)" and "files w p = Some F"
  shows "files w \<subseteq>\<^sub>m files w1 \<and> (\<forall>t. r = Inr t \<longrightarrow> tail_kept w1 p F ce t)"
proof (cases "length F \<le> ce")
  case True
  with assms show ?thesis by (auto simp: preserve_tail_def tail_kept_def)
next
  case False
  obtain w2 r2 where z: "tail_is_zero w p ce (length F - ce) = (w2, r2)" by fastforce
  obtain w3 r3 where s: "write_sidecar w2 p ce (length F - ce) 0 = (w3, r3)" by fastforce
  have st: "same_store w2 w" and zero: "\<And>b. r2 = Inr b \<Longrightarrow> b = list_all (\<lambda>x. x = 0) (drop ce F)"
    using tail_is_zero_spec [OF z] assms(2) by (simp_all add: file_bytes_def)
  have "drop ce F = zeros (length F - ce)" if "r2 = Inr True"
    using zero [OF that] replicate_length_same [of "drop ce F" 0] by (simp add: list_all_iff)
  moreover have "files w \<subseteq>\<^sub>m files w3"
    "\<And>c. r3 = Inr c \<Longrightarrow> c \<noteq> p \<and> saved w3 c (drop ce F)"
    using write_sidecar_spec [OF s] st same_store_bytes [OF st] assms(2)
    by (simp_all add: same_store_def file_bytes_def)
  ultimately show ?thesis
    using assms(1) z s False st
    by (auto simp: preserve_tail_def tail_kept_def Let_def same_store_def split: sum.splits bool.splits)
qed

lemma prepare_resume_quiet:
  assumes "quiet w" and "files w p = Some F" and "length F < 2 ^ 63" and "reads_ok rd (length F)"
    and "k \<le> U32_MAX" and "sidecar_path p (fst (snd (scan C F 0))) k = Inr d" and "files w d = None"
  shows "\<exists>w' r. prepare_resume C rd w p = (w', Inr r) \<and> prepare_resume C rd w' p = (w', Inr r) \<and> quiet w'"
proof -
  obtain rs ce st where sc: "scan C F 0 = (rs, ce, st)" by (cases "scan C F 0") auto
  have ce: "ce \<le> length F" using scan_pos_bounds [OF sc] by simp
  let ?len = "length F - ce"
  from reader_open_drain [OF assms(4) sc] obtain it where
    it: "drain_iter C rd (journal_iter_new (reader_open F)) = (rs, Inr (), it)" "cursor it = ce"
    by blast
  have clean: "\<exists>t. scan_clean_end C rd v p = (v, Inr (ce, length F, t))" if "quiet v" "files v p = Some F" for v
    using that it ce by (auto simp: scan_clean_end_def reader_open_def file_bytes_def Let_def)
  show ?thesis
  proof (cases "ce = length F \<or> list_all (\<lambda>x. x = 0) (drop ce F)")
    case True
    then have "\<exists>t. preserve_tail w p ce (length F) = (w, Inr t)"
      using tail_is_zero_quiet [OF assms(1,2), of ce ?len] assms(3) ce
      by (auto simp: preserve_tail_def Let_def)
    then obtain t where "preserve_tail w p ce (length F) = (w, Inr t)" by blast
    then have "prepare_resume C rd w p = (w, Inr \<lparr>clean_end = ce, tail = t\<rparr>)"
      using clean [OF assms(1,2)] by (auto simp: prepare_resume_def)
    then show ?thesis using assms(1) by blast
  next
    case False
    have lt: "ce < 2 ^ 63" "?len \<le> length (drop ce F)" using assms(3) ce by simp_all
    obtain w' c where ws: "write_sidecar w p ce ?len 0 = (w', Inr c)"
      using write_sidecar_succeeds [OF assms(1,2) lt, of k d 0] assms(5-7) sc by auto
    have again: "quiet w'" "write_sidecar w' p ce ?len 0 = (w', Inr c)"
      using write_sidecar_settles [OF assms(1,2) lt ws] by simp_all
    have F': "files w' p = Some F"
      using write_sidecar_spec [OF ws] assms(2) by (auto simp: map_le_def dom_def)
    have "preserve_tail v p ce (length F) = (w', Inr (Preserved c))"
      if "quiet v" "files v p = Some F" "write_sidecar v p ce ?len 0 = (w', Inr c)" for v
      using that False ce tail_is_zero_quiet [OF that(1,2) lt(1), of ?len]
      by (simp add: preserve_tail_def Let_def)
    then have "prepare_resume C rd v p = (w', Inr \<lparr>clean_end = ce, tail = Preserved c\<rparr>)"
      if "quiet v" "files v p = Some F" "write_sidecar v p ce ?len 0 = (w', Inr c)" for v
      using clean [OF that(1,2)] that by (auto simp: prepare_resume_def)
    from this [OF assms(1,2) ws] this [OF again(1) F' again(2)] again(1) show ?thesis by blast
  qed
qed

lemma prepare_resume_outcome:
  assumes "prepare_resume C rd w p = (w', res)" and "files w p = Some F" and "reads_ok rd (length F)"
  shows "files w \<subseteq>\<^sub>m files w' \<and>
    (\<forall>r. res = Inr r \<longrightarrow>
      clean_end r = fst (snd (scan C F 0)) \<and> tail_kept w' p F (clean_end r) (tail r))"
proof -
  obtain w1 r1 where s: "scan_clean_end C rd w p = (w1, r1)" by fastforce
  note st = scan_clean_end_store [OF s]
  show ?thesis
  proof (cases r1)
    case (Inl e)
    with assms(1) s st show ?thesis by (auto simp: prepare_resume_def same_store_def)
  next
    case (Inr x)
    then obtain ce n t where x: "r1 = Inr (ce, n, t)" by (cases x) auto
    note sp = scan_clean_end_spec [OF s [unfolded x] assms(2,3)]
    obtain w2 r2 where pt: "preserve_tail w1 p ce (length F) = (w2, r2)" by fastforce
    have f1: "files w1 = files w" using st by (simp add: same_store_def)
    have ce: "ce = fst (snd (scan C F 0))" using sp by (metis fst_conv snd_conv)
    from preserve_tail_spec [OF pt] f1 assms(1,2) s x sp pt ce show ?thesis
      by (auto simp: prepare_resume_def split: sum.splits)
  qed
qed

section \<open>Properties\<close>

text \<open>
  C12: The step of an open that comes before the tail is cut off. Whatever fails in it, it never changes
  or removes a file that was there, the journal itself included; and when it succeeds, the tail that
  the open will drop is empty, or only zeros, or byte for byte in a sidecar file whose contents and
  directory entry are durable.
\<close>

theorem prepare_resume_preserves:
  assumes "prepare_resume C rd w p = (w', res)" and "files w p = Some F" and "reads_ok rd (length F)"
  shows "files w \<subseteq>\<^sub>m files w' \<and>
    (\<forall>r. res = Inr r \<longrightarrow>
      clean_end r = fst (snd (scan C F 0)) \<and> tail_kept w' p F (clean_end r) (tail r))"
  by (rule prepare_resume_outcome [OF assms])

text \<open>
  Without failures the open succeeds whenever a candidate name is free, and an open repeated after
  a crash between the copy and the truncation finds the copy it made: it returns the same result and
  changes nothing.
\<close>

lemma prepare_resume_repeatable:
  assumes "quiet w" and "files w p = Some F" and "length F < 2 ^ 63" and "reads_ok rd (length F)"
    and "k \<le> U32_MAX" and "sidecar_path p (fst (snd (scan C F 0))) k = Inr d" and "files w d = None"
  shows "\<exists>w' r. prepare_resume C rd w p = (w', Inr r) \<and> prepare_resume C rd w' p = (w', Inr r)"
  using prepare_resume_quiet [OF assms] by blast

text \<open>
  Appending from the clean end of any file whatever: after the tail is cut off and new frames are
  written there, a reader finds the records it found before, then the new ones, and a clean end.
\<close>

lemma resumed_journal_reads_back:
  assumes "reads_ok rd (length (take q F @ frames C (n # ns)))"
    and "scan C F 0 = (rs, q, st)" and "list_all record_ok (n # ns)"
  shows "\<exists>it'. drain_iter C rd (journal_iter_new (reader_open (take q F @ frames C (n # ns)))) =
      (rs @ records_at q (n # ns), Inr (), it') \<and>
    cursor it' = q + length (frames C (n # ns)) \<and> last_state it' = CleanEnd"
  by (rule reader_open_drain [OF assms(1) scan_resume_frames [OF assms(2,3)]])

text \<open>
  Cutting the tail off loses no record: the truncated journal reads back the same records and
  ends cleanly.
\<close>

lemma truncated_journal_reads_back:
  assumes "reads_ok rd (length (take q F))" and "scan C F 0 = (rs, q, st)"
  shows "\<exists>it'. drain_iter C rd (journal_iter_new (reader_open (take q F))) = (rs, Inr (), it') \<and>
    last_state it' = CleanEnd"
proof -
  obtain q' where "scan C (take q F) 0 = (rs, q', CleanEnd)"
    using scan_cut [OF assms(2)] by auto
  from reader_open_drain [OF assms(1) this] show ?thesis by blast
qed

subsection \<open>Witnesses\<close>

text \<open>A journal of one record followed by an unreadable byte.\<close>

definition sample_path :: path where
  "sample_path = Path ''d'' (Some ''j'')"

definition sample_world :: world where
  "sample_world =
     \<lparr>files = [sample_path \<mapsto> frame rfc3720 [1] @ [7]], synced = Map.empty,
      entry_synced = (\<lambda>_. False), faults = [], reads = []\<rparr>"

lemma sample_scan:
  "scan rfc3720 (frame rfc3720 [1] @ [7]) 0 = ([JournalRecord 0 [1]], 13, TruncatedHeader)"
proof -
  let ?D = "frame rfc3720 [1] @ [7]"
  have "drop 13 ?D = [7]" by (simp add: FRAME_OVERHEAD_def)
  then have "scan rfc3720 ?D 13 = ([], 13, TruncatedHeader)"
    using scan_frame [of 13 ?D rfc3720] decode_frame_short [of "[7]" rfc3720] by simp
  moreover have "record_ok [1]" by (simp add: record_ok_def FRAME_MAX_PAYLOAD_def)
  ultimately show ?thesis
    using scan_at_frame [of "[1]" 0 ?D rfc3720 "[7]"] by (simp add: FRAME_OVERHEAD_def)
qed

lemma sample_facts:
  "quiet sample_world" "files sample_world sample_path = Some (frame rfc3720 [1] @ [7])"
  "length (frame rfc3720 [1] @ [7]) < 2 ^ 63" "reads_ok full_reads (length (frame rfc3720 [1] @ [7]))"
  by (simp_all add: sample_world_def quiet_def full_reads_ok FRAME_OVERHEAD_def)

lemma sample_free:
  "\<exists>d. sidecar_path sample_path (fst (snd (scan rfc3720 (frame rfc3720 [1] @ [7]) 0))) 0 = Inr d \<and>
     files sample_world d = None"
proof -
  obtain d where d: "sidecar_path sample_path 13 0 = Inr d"
    by (simp add: sidecar_path_def sample_path_def)
  then have "d \<noteq> sample_path" by (rule sidecar_path_ne)
  with d show ?thesis by (simp add: sample_scan sample_world_def)
qed

theorem prepare_resume_preserves_witness:
  "\<exists>w' r. prepare_resume rfc3720 full_reads sample_world sample_path = (w', Inr r) \<and>
     files sample_world \<subseteq>\<^sub>m files w' \<and> clean_end r = 13 \<and>
     tail_kept w' sample_path (frame rfc3720 [1] @ [7]) 13 (tail r)"
proof -
  obtain w' r where pr: "prepare_resume rfc3720 full_reads sample_world sample_path = (w', Inr r)"
    using prepare_resume_quiet [OF sample_facts, of 0 rfc3720] sample_free by auto
  show ?thesis
    using pr prepare_resume_preserves [OF pr sample_facts(2,4)] by (auto simp: sample_scan)
qed

end

