(* ===== verification/Fsys_Poison.thy ===== *)
theory Fsys_Poison
  imports Fsys_Error
begin

text \<open>
  The sticky failure state of a journal (\<open>src/journal/poison.rs\<close>): an atomic flag and a
  write-once cell with the first cause. \<open>set\<close> is two atomic actions, first the cell and then
  the flag, and several threads may be inside it at once; the step relation interleaves them.
\<close>

section \<open>State and operations\<close>

record poison =
  poisoned :: bool
  cause :: "(io_kind \<times> string) option"

definition poison_new :: poison where
  "poison_new = \<lparr>poisoned = False, cause = None\<rparr>"

definition is_set :: "poison \<Rightarrow> bool" where
  "is_set p = poisoned p"

definition poison_error :: "poison \<Rightarrow> error" where
  "poison_error p =
     (let (kind, message) = (case cause p of Some c \<Rightarrow> c | None \<Rightarrow> (OtherKind, ''unknown cause''))
      in Io (IoError kind
           (''journal is poisoned by an earlier write or sync failure ('' @ message
             @ ''); appends since then may not be on disk, reopen the journal to recover'')))"

definition poison_check :: "poison \<Rightarrow> unit result" where
  "poison_check p = (if is_set p then Inl (poison_error p) else Inr ())"

definition poison_entry :: "error \<Rightarrow> io_kind \<times> string" where
  "poison_entry e = (case e of Io i \<Rightarrow> (io_kind i, io_text i) | other \<Rightarrow> (OtherKind, error_display other))"

text \<open>The two actions of \<open>set\<close>: \<open>OnceLock::set\<close>, which keeps a value already there, and the store.\<close>

definition set_cause :: "error \<Rightarrow> poison \<Rightarrow> poison" where
  "set_cause e p = (if cause p = None then p\<lparr>cause := Some (poison_entry e)\<rparr> else p)"

definition set_flag :: "poison \<Rightarrow> poison" where
  "set_flag p = p\<lparr>poisoned := True\<rparr>"

definition poison_set :: "error \<Rightarrow> poison \<Rightarrow> poison" where
  "poison_set e p = set_flag (set_cause e p)"

section \<open>Interleaved calls\<close>

text \<open>The state with the number of threads that are between the two actions of \<open>set\<close>.\<close>

inductive poison_step :: "poison \<times> nat \<Rightarrow> poison \<times> nat \<Rightarrow> bool" where
  step_cause: "poison_step (p, n) (set_cause e p, Suc n)"
| step_flag: "poison_step (p, Suc n) (set_flag p, n)"

definition poison_inv :: "poison \<times> nat \<Rightarrow> bool" where
  "poison_inv s \<longleftrightarrow> (poisoned (fst s) \<or> 0 < snd s \<longrightarrow> cause (fst s) \<noteq> None)"

lemma poison_inv_step: "poison_step s t \<Longrightarrow> poison_inv s \<Longrightarrow> poison_inv t"
  by (induction rule: poison_step.induct) (auto simp: poison_inv_def set_cause_def set_flag_def)

lemma poison_inv_reachable: "poison_step\<^sup>*\<^sup>* (poison_new, 0) s \<Longrightarrow> poison_inv s"
proof (induction rule: rtranclp_induct)
  case base
  show ?case by (simp add: poison_inv_def poison_new_def)
qed (rule poison_inv_step)

lemma poison_cause_kept: "poison_step\<^sup>*\<^sup>* s t \<Longrightarrow> cause (fst s) = Some c \<Longrightarrow> cause (fst t) = Some c"
  by (induction rule: rtranclp_induct)
    (auto simp: set_cause_def set_flag_def elim!: poison_step.cases)

lemma poison_flag_kept: "poison_step\<^sup>*\<^sup>* s t \<Longrightarrow> poisoned (fst s) \<Longrightarrow> poisoned (fst t)"
  by (induction rule: rtranclp_induct)
    (auto simp: set_cause_def set_flag_def elim!: poison_step.cases)

lemma poison_check_Inl: "poison_check p = Inl e \<Longrightarrow> poisoned p \<and> e = poison_error p"
  by (simp add: poison_check_def is_set_def split: if_splits)

lemma poison_error_cause: "cause p = cause q \<Longrightarrow> poison_error p = poison_error q"
  by (simp add: poison_error_def)

section \<open>Sequential facts the journal uses\<close>

lemma poison_set_check [simp]: "is_set (poison_set e p)"
  by (simp add: poison_set_def set_flag_def set_cause_def is_set_def)

lemma poison_check_new [simp]: "poison_check poison_new = Inr ()"
  by (simp add: poison_check_def poison_new_def is_set_def)

section \<open>Properties\<close>

text \<open>
  Poison is sticky and the first cause wins: once some caller has been given an error, every
  later check, under any interleaving of further failures, gives the same error, and that error
  names a cause that was recorded.
\<close>

lemma poison_sticky:
  assumes "poison_step\<^sup>*\<^sup>* (poison_new, 0) s" and "poison_check (fst s) = Inl e"
    and "poison_step\<^sup>*\<^sup>* s t"
  shows "poison_check (fst t) = Inl e \<and> cause (fst t) \<noteq> None"
proof -
  have "poisoned (fst s)" and e: "e = poison_error (fst s)"
    using poison_check_Inl [OF assms(2)] by simp_all
  moreover from this obtain c where c: "cause (fst s) = Some c"
    using poison_inv_reachable [OF assms(1)] by (auto simp: poison_inv_def)
  ultimately have "poisoned (fst t)" "cause (fst t) = Some c"
    using poison_flag_kept [OF assms(3)] poison_cause_kept [OF assms(3)] by simp_all
  with c e show ?thesis
    using poison_error_cause [of "fst t" "fst s"] by (simp add: poison_check_def is_set_def)
qed

end
