(* ===== verification/Fsys_Gate.thy ===== *)
theory Fsys_Gate
  imports Fsys_Prelude
begin

text \<open>
  The in-flight write tracker of buffered journals (\<open>src/journal/gate.rs\<close>): the epoch word with
  its closed bit and its parity, the two counters, and the protocol that lets a group-commit
  leader wait for exactly the writes reserved below the frontier it read.

  The code uses sequentially consistent atomics for this argument, so the model interleaves the
  threads' atomic actions: one step relation per operation of the source over the shared gate and
  one thread's program counter, lifted to a list of threads. The flipper mutex is the phase of
  its holder, \<open>Free\<close> when nobody holds it. The epoch and the counters are 64-bit words and wrap.
  \<open>next_lsn\<close> is the caller's reservation counter.
\<close>

section \<open>Shared state and program counters\<close>

definition CLOSED :: u64 where
  "CLOSED = 1"

definition FLIP :: u64 where
  "FLIP = 2"

datatype flip_phase =
    Free
  | DrainLocked | DrainRead nat | DrainFlipped nat nat
  | CloseLocked | CloseSet | CloseWaited0 | ClosedHeld

record gate =
  epoch :: u64
  in_flight :: "u64 list"
  flipper :: flip_phase
  next_lsn :: nat

datatype pc =
    Idle
  | Loaded u64 | Counted u64 | Undo nat
  | Ticket nat | Reserved nat nat nat | Written nat
  | Flipping | Drained nat
  | QuietRead nat | QuietZero nat | Quiescent nat

definition gate_new :: gate where
  "gate_new = \<lparr>epoch = 0, in_flight = [0, 0], flipper = Free, next_lsn = 0\<rparr>"

definition parity :: "u64 \<Rightarrow> nat" where
  "parity e = unat (drop_bit 1 e AND 1)"

definition register :: "nat \<Rightarrow> gate \<Rightarrow> gate" where
  "register p g = g\<lparr>in_flight := (in_flight g)[p := in_flight g ! p + 1]\<rparr>"

definition leave :: "nat \<Rightarrow> gate \<Rightarrow> gate" where
  "leave p g = g\<lparr>in_flight := (in_flight g)[p := in_flight g ! p - 1]\<rparr>"

section \<open>The operations, as atomic actions\<close>

text \<open>\<open>try_enter\<close>: read the epoch, count, confirm the epoch, or undo and start over.\<close>

inductive try_enter :: "gate \<times> pc \<Rightarrow> gate \<times> pc \<Rightarrow> bool" where
  enter_closed: "epoch g AND CLOSED \<noteq> 0 \<Longrightarrow> try_enter (g, Idle) (g, Idle)"
| enter_load: "epoch g AND CLOSED = 0 \<Longrightarrow> try_enter (g, Idle) (g, Loaded (epoch g))"
| enter_count: "try_enter (g, Loaded e) (register (parity e) g, Counted e)"
| enter_confirm: "epoch g = e \<Longrightarrow> try_enter (g, Counted e) (g, Ticket (parity e))"
| enter_changed: "epoch g \<noteq> e \<Longrightarrow> try_enter (g, Counted e) (g, Undo (parity e))"
| enter_undo: "try_enter (g, Undo p) (leave p g, Idle)"

text \<open>
  The holder of a ticket: reserve a range, write it, drop the ticket; a ticket may also be dropped
  unused. A detached ticket is the same registration handed to another owner.
\<close>

inductive ticket_step :: "gate \<times> pc \<Rightarrow> gate \<times> pc \<Rightarrow> bool" where
  ticket_reserve:
    "ticket_step (g, Ticket p) (g\<lparr>next_lsn := next_lsn g + n\<rparr>, Reserved p (next_lsn g) n)"
| ticket_unused: "ticket_step (g, Ticket p) (leave p g, Idle)"
| ticket_written: "ticket_step (g, Reserved p l n) (g, Written p)"
| ticket_drop: "ticket_step (g, Written p) (leave p g, Idle)"

text \<open>\<open>drain_below\<close>: lock, read the frontier, flip the epoch, wait for the old parity.\<close>

inductive drain_below :: "gate \<times> pc \<Rightarrow> gate \<times> pc \<Rightarrow> bool" where
  drain_lock: "flipper g = Free \<Longrightarrow> drain_below (g, Idle) (g\<lparr>flipper := DrainLocked\<rparr>, Flipping)"
| drain_read: "flipper g = DrainLocked \<Longrightarrow>
    drain_below (g, Flipping) (g\<lparr>flipper := DrainRead (next_lsn g)\<rparr>, Flipping)"
| drain_flip: "flipper g = DrainRead f \<Longrightarrow>
    drain_below (g, Flipping)
      (g\<lparr>epoch := epoch g + FLIP, flipper := DrainFlipped f (parity (epoch g))\<rparr>, Flipping)"
| drain_wait: "flipper g = DrainFlipped f old \<Longrightarrow> in_flight g ! old \<noteq> 0 \<Longrightarrow>
    drain_below (g, Flipping) (g, Flipping)"
| drain_done: "flipper g = DrainFlipped f old \<Longrightarrow> in_flight g ! old = 0 \<Longrightarrow>
    drain_below (g, Flipping) (g\<lparr>flipper := Free\<rparr>, Drained f)"
| drain_return: "drain_below (g, Drained f) (g, Idle)"

text \<open>\<open>try_quiescent\<close>: read the frontier, then both counters; any non-zero counter gives up.\<close>

inductive try_quiescent :: "gate \<times> pc \<Rightarrow> gate \<times> pc \<Rightarrow> bool" where
  quiet_read: "try_quiescent (g, Idle) (g, QuietRead (next_lsn g))"
| quiet_busy0: "in_flight g ! 0 \<noteq> 0 \<Longrightarrow> try_quiescent (g, QuietRead f) (g, Idle)"
| quiet_idle0: "in_flight g ! 0 = 0 \<Longrightarrow> try_quiescent (g, QuietRead f) (g, QuietZero f)"
| quiet_busy1: "in_flight g ! 1 \<noteq> 0 \<Longrightarrow> try_quiescent (g, QuietZero f) (g, Idle)"
| quiet_idle1: "in_flight g ! 1 = 0 \<Longrightarrow> try_quiescent (g, QuietZero f) (g, Quiescent f)"
| quiet_return: "try_quiescent (g, Quiescent f) (g, Idle)"

text \<open>\<open>close\<close>: lock, set the closed bit, wait for both counters; dropping the guard reopens.\<close>

inductive close_gate :: "gate \<times> pc \<Rightarrow> gate \<times> pc \<Rightarrow> bool" where
  close_lock: "flipper g = Free \<Longrightarrow> close_gate (g, Idle) (g\<lparr>flipper := CloseLocked\<rparr>, Flipping)"
| close_set: "flipper g = CloseLocked \<Longrightarrow>
    close_gate (g, Flipping) (g\<lparr>epoch := epoch g OR CLOSED, flipper := CloseSet\<rparr>, Flipping)"
| close_wait0: "flipper g = CloseSet \<Longrightarrow> in_flight g ! 0 = 0 \<Longrightarrow>
    close_gate (g, Flipping) (g\<lparr>flipper := CloseWaited0\<rparr>, Flipping)"
| close_wait1: "flipper g = CloseWaited0 \<Longrightarrow> in_flight g ! 1 = 0 \<Longrightarrow>
    close_gate (g, Flipping) (g\<lparr>flipper := ClosedHeld\<rparr>, Flipping)"
| close_spin: "flipper g \<in> {CloseSet, CloseWaited0} \<Longrightarrow> close_gate (g, Flipping) (g, Flipping)"
| close_drop: "flipper g = ClosedHeld \<Longrightarrow>
    close_gate (g, Flipping) (g\<lparr>epoch := epoch g AND NOT CLOSED, flipper := Free\<rparr>, Idle)"

inductive thread_step :: "gate \<times> pc \<Rightarrow> gate \<times> pc \<Rightarrow> bool" where
  thread_enter: "try_enter a b \<Longrightarrow> thread_step a b"
| thread_ticket: "ticket_step a b \<Longrightarrow> thread_step a b"
| thread_drain: "drain_below a b \<Longrightarrow> thread_step a b"
| thread_quiet: "try_quiescent a b \<Longrightarrow> thread_step a b"
| thread_close: "close_gate a b \<Longrightarrow> thread_step a b"

text \<open>One thread acts at a time.\<close>

inductive gate_step :: "gate \<times> pc list \<Rightarrow> gate \<times> pc list \<Rightarrow> bool" where
  gate_act: "t < length ths \<Longrightarrow> thread_step (g, ths ! t) (g', x) \<Longrightarrow>
    gate_step (g, ths) (g', ths[t := x])"

section \<open>Parity and the closed bit\<close>

lemma parity_bit: "parity e = of_bool (bit e 1)"
  by (simp add: parity_def and_one_eq mod_2_eq_odd bit_iff_odd_drop_bit)

lemma parity_less [simp]: "parity e < 2"
  by (simp add: parity_bit)

lemma bit_1_unat: "bit (e :: u64) 1 \<longleftrightarrow> odd (unat e div 2)"
  using bit_unsigned_iff [of e 1, where 'a = nat] by (simp add: bit_iff_odd)

lemma parity_flip: "parity (e + FLIP) = 1 - parity e"
proof -
  have add: "unat (e + FLIP) = (unat e + 2) mod 2 ^ 64"
    by (simp add: FLIP_def unat_word_ariths)
  have less: "unat e < 2 ^ 64" using unsigned_less [of e] by simp
  have "odd (unat (e + FLIP) div 2) \<longleftrightarrow> \<not> odd (unat e div 2)"
  proof (cases "unat e + 2 < 2 ^ 64")
    case True
    then have "unat (e + FLIP) div 2 = Suc (unat e div 2)" using add by simp
    then show ?thesis by simp
  next
    case False
    with less have "unat e = 2 ^ 64 - 2 \<or> unat e = 2 ^ 64 - 1" by (auto simp: less_Suc_eq)
    then show ?thesis using add by auto
  qed
  then show ?thesis unfolding parity_bit bit_1_unat by simp
qed

lemma parity_close [simp]: "parity (e OR CLOSED) = parity e"
  by (simp add: parity_bit CLOSED_def bit_simps)

lemma parity_open [simp]: "parity (e AND NOT CLOSED) = parity e"
  by (simp add: parity_bit CLOSED_def bit_simps)

lemma closed_bit: "e AND CLOSED = 0 \<longleftrightarrow> \<not> bit e 0"
  by (simp add: CLOSED_def and_one_eq mod_2_eq_odd bit_0)

lemma closed_flip [simp]: "bit (e + FLIP) 0 = bit (e :: u64) 0"
  by (simp add: FLIP_def bit_0)

lemma closed_set [simp]: "bit (e OR CLOSED) 0"
  by (simp add: CLOSED_def bit_simps)

lemma closed_clear [simp]: "\<not> bit (e AND NOT CLOSED) 0"
  by (simp add: CLOSED_def bit_simps)

section \<open>The invariant\<close>

text \<open>Which counter a thread is counted in, and which parity it has confirmed and may still write under.\<close>

fun counted_in :: "nat \<Rightarrow> pc \<Rightarrow> bool" where
  "counted_in p (Counted e) = (parity e = p)"
| "counted_in p (Undo q) = (q = p)"
| "counted_in p (Ticket q) = (q = p)"
| "counted_in p (Reserved q l n) = (q = p)"
| "counted_in p (Written q) = (q = p)"
| "counted_in p _ = False"

fun holds :: "nat \<Rightarrow> pc \<Rightarrow> bool" where
  "holds p (Ticket q) = (q = p)"
| "holds p (Reserved q l n) = (q = p)"
| "holds p _ = False"

fun closing :: "flip_phase \<Rightarrow> bool" where
  "closing CloseSet = True"
| "closing CloseWaited0 = True"
| "closing ClosedHeld = True"
| "closing _ = False"

text \<open>No write reserved below a frontier is still in flight, as far as parity \<open>p\<close> goes.\<close>

definition settled :: "nat \<Rightarrow> nat \<Rightarrow> pc \<Rightarrow> bool" where
  "settled p f x \<longleftrightarrow> (\<forall>l n. x = Reserved p l n \<longrightarrow> f \<le> l)"

text \<open>What the phase of the flipper says of the gate, and of each thread.\<close>

fun phase_ok :: "flip_phase \<Rightarrow> gate \<Rightarrow> pc \<Rightarrow> bool" where
  "phase_ok (DrainRead f) g x = (holds (1 - parity (epoch g)) x = False \<and> f \<le> next_lsn g)"
| "phase_ok (DrainFlipped f old) g x =
     (old = 1 - parity (epoch g) \<and> f \<le> next_lsn g \<and> settled (parity (epoch g)) f x)"
| "phase_ok CloseWaited0 g x = (\<not> holds 0 x \<and> \<not> holds (1 - parity (epoch g)) x)"
| "phase_ok ClosedHeld g x = (\<not> holds 0 x \<and> \<not> holds 1 x)"
| "phase_ok _ g x = (\<not> holds (1 - parity (epoch g)) x)"

text \<open>What a thread that holds a frontier, or a value of the epoch, knows.\<close>

fun local_ok :: "gate \<Rightarrow> pc list \<Rightarrow> pc \<Rightarrow> bool" where
  "local_ok g ths (Loaded e) = (\<not> bit e 0)"
| "local_ok g ths (Counted e) = (\<not> bit e 0)"
| "local_ok g ths (Drained f) = (f \<le> next_lsn g \<and> (\<forall>x\<in>set ths. settled 0 f x \<and> settled 1 f x))"
| "local_ok g ths (QuietRead f) = (f \<le> next_lsn g)"
| "local_ok g ths (QuietZero f) = (f \<le> next_lsn g \<and> (\<forall>x\<in>set ths. settled 0 f x))"
| "local_ok g ths (Quiescent f) = (f \<le> next_lsn g \<and> (\<forall>x\<in>set ths. settled 0 f x \<and> settled 1 f x))"
| "local_ok g ths (Undo p) = (p < 2)"
| "local_ok g ths (Ticket p) = (p < 2)"
| "local_ok g ths (Reserved p l n) = (p < 2 \<and> l \<le> next_lsn g)"
| "local_ok g ths (Written p) = (p < 2)"
| "local_ok g ths _ = True"

definition counters_ok :: "gate \<Rightarrow> pc list \<Rightarrow> bool" where
  "counters_ok g ths \<longleftrightarrow>
     length (in_flight g) = 2 \<and>
     (\<forall>p<2. in_flight g ! p = word_of_nat (length (filter (counted_in p) ths)))"

definition gate_inv :: "gate \<times> pc list \<Rightarrow> bool" where
  "gate_inv s \<longleftrightarrow>
     (case s of (g, ths) \<Rightarrow>
        length ths < 2 ^ 64 \<and> counters_ok g ths \<and>
        bit (epoch g) 0 = closing (flipper g) \<and>
        (\<forall>x\<in>set ths. phase_ok (flipper g) g x) \<and>
        (\<forall>x\<in>set ths. local_ok g ths x))"

lemma counter_zero:
  assumes "counters_ok g ths" and "length ths < 2 ^ 64" and "p < 2" and "in_flight g ! p = 0"
    and "x \<in> set ths"
  shows "\<not> counted_in p x"
proof
  assume "counted_in p x"
  with assms(5) have "0 < length (filter (counted_in p) ths)"
    by (metis filter_empty_conv length_greater_0_conv)
  moreover have "length (filter (counted_in p) ths) < 2 ^ 64"
    using assms(2) length_filter_le le_less_trans by blast
  moreover have "(word_of_nat (length (filter (counted_in p) ths)) :: u64) = 0"
    using assms(1,3,4) by (simp add: counters_ok_def)
  then have "unat (word_of_nat (length (filter (counted_in p) ths)) :: u64) = 0" by simp
  ultimately show False by (simp add: unat_of_nat)
qed

lemma length_filter_update:
  assumes "t < length ths"
  shows "length (filter P (ths[t := x])) + of_bool (P (ths ! t)) = length (filter P ths) + of_bool (P x)"
proof -
  have "ths = take t ths @ ths ! t # drop (Suc t) ths" using assms by (rule id_take_nth_drop)
  then have "length (filter P ths) = length (filter P (take t ths @ ths ! t # drop (Suc t) ths))" by simp
  then show ?thesis using assms by (simp add: upd_conv_take_nth_drop)
qed

text \<open>The counters follow the threads through a step that moves one thread.\<close>

lemma counters_update:
  assumes "counters_ok g ths" and "t < length ths" and "length (in_flight g') = 2"
    and "\<And>p. p < 2 \<Longrightarrow> in_flight g' ! p + of_bool (counted_in p (ths ! t)) =
      in_flight g ! p + of_bool (counted_in p x)"
  shows "counters_ok g' (ths[t := x])"
  unfolding counters_ok_def
proof (intro conjI allI impI assms(3))
  fix p :: nat
  assume p: "p < 2"
  let ?n = "length (filter (counted_in p) (ths[t := x]))"
  have "?n + of_bool (counted_in p (ths ! t)) =
      length (filter (counted_in p) ths) + of_bool (counted_in p x)"
    by (rule length_filter_update [OF assms(2)])
  then have "(word_of_nat (?n + of_bool (counted_in p (ths ! t))) :: u64) =
      word_of_nat (length (filter (counted_in p) ths) + of_bool (counted_in p x))"
    by (rule arg_cong)
  moreover have "in_flight g ! p = word_of_nat (length (filter (counted_in p) ths))"
    using assms(1) p by (simp add: counters_ok_def)
  ultimately have "(word_of_nat ?n :: u64) + of_bool (counted_in p (ths ! t)) =
      in_flight g ! p + of_bool (counted_in p x)"
    by simp
  then show "in_flight g' ! p = word_of_nat ?n"
    using assms(4) [OF p] by (metis add_right_cancel)
qed

lemma gate_inv_update:
  assumes "gate_inv (g, ths)" and "t < length ths" and "counters_ok g' (ths[t := x])"
    and "bit (epoch g') 0 = closing (flipper g')"
    and "\<And>y. y \<in> set ths \<Longrightarrow> phase_ok (flipper g') g' y" and "phase_ok (flipper g') g' x"
    and "\<And>y. y \<in> set ths \<Longrightarrow> local_ok g' (ths[t := x]) y" and "local_ok g' (ths[t := x]) x"
  shows "gate_inv (g', ths[t := x])"
  using assms set_update_subset_insert [of ths t x] unfolding gate_inv_def by auto

lemma local_ok_mono:
  assumes "local_ok g ths y" and "next_lsn g \<le> next_lsn g'"
    and "\<forall>p l n. x = Reserved p l n \<longrightarrow> next_lsn g \<le> l"
  shows "local_ok g' (ths[t := x]) y"
proof -
  have "settled p f z" if "z \<in> set (ths[t := x])" "f \<le> next_lsn g" "\<forall>z\<in>set ths. settled p f z" for p f z
    using that assms(3) set_update_subset_insert [of ths t x] by (fastforce simp: settled_def)
  with assms(1,2) show ?thesis by (cases y) auto
qed

lemma phase_ok_quiet:
  "phase_ok ph g y \<Longrightarrow> \<forall>p. \<not> holds p x \<Longrightarrow> phase_ok ph g x"
  by (cases ph) (auto simp: settled_def)

lemma phase_ok_mono:
  "phase_ok ph g y \<Longrightarrow> epoch g' = epoch g \<Longrightarrow> next_lsn g \<le> next_lsn g' \<Longrightarrow> phase_ok ph g' y"
  by (cases ph) auto

lemma not_parity [simp]: "1 - parity e \<noteq> parity e" "parity e \<noteq> 1 - parity e" "parity e \<noteq> Suc 0 - parity e"
  using parity_less [of e] by arith+

text \<open>A step outside the flipper: the phase and the epoch stay, only one thread moves.\<close>

lemma gate_inv_plain:
  assumes "gate_inv (g, ths)" and "t < length ths"
    and "epoch g' = epoch g" "flipper g' = flipper g" "next_lsn g \<le> next_lsn g'"
    and "length (in_flight g') = 2"
    and "\<And>p. p < 2 \<Longrightarrow> in_flight g' ! p + of_bool (counted_in p (ths ! t)) =
      in_flight g ! p + of_bool (counted_in p x)"
    and "phase_ok (flipper g) g (ths ! t) \<Longrightarrow> phase_ok (flipper g) g' x"
    and "\<forall>p l n. x = Reserved p l n \<longrightarrow> next_lsn g \<le> l"
    and "local_ok g' (ths[t := x]) x"
  shows "gate_inv (g', ths[t := x])"
proof (rule gate_inv_update [OF assms(1,2)])
  show "counters_ok g' (ths[t := x])"
    using assms(1) counters_update [OF _ assms(2,6,7)] by (simp add: gate_inv_def)
  show "bit (epoch g') 0 = closing (flipper g')"
    using assms(1,3,4) by (simp add: gate_inv_def)
  show "phase_ok (flipper g') g' y" if "y \<in> set ths" for y
    using assms(1,3-5) that phase_ok_mono by (auto simp: gate_inv_def)
  show "phase_ok (flipper g') g' x"
    using assms(1,2,4,8) by (simp add: gate_inv_def)
  show "local_ok g' (ths[t := x]) y" if "y \<in> set ths" for y
    using assms(1) that local_ok_mono [OF _ assms(5,9)] by (simp add: gate_inv_def)
  show "local_ok g' (ths[t := x]) x" by (rule assms(10))
qed

lemma register_simps [simp]:
  "epoch (register p g) = epoch g" "flipper (register p g) = flipper g"
  "next_lsn (register p g) = next_lsn g" "length (in_flight (register p g)) = length (in_flight g)"
  "epoch (leave p g) = epoch g" "flipper (leave p g) = flipper g"
  "next_lsn (leave p g) = next_lsn g" "length (in_flight (leave p g)) = length (in_flight g)"
  by (simp_all add: register_def leave_def)

lemma nth_register:
  "length (in_flight g) = 2 \<Longrightarrow> p < 2 \<Longrightarrow> q < 2 \<Longrightarrow>
     in_flight (register p g) ! q = in_flight g ! q + of_bool (p = q)"
  by (auto simp: register_def nth_list_update)

lemma nth_leave:
  "length (in_flight g) = 2 \<Longrightarrow> p < 2 \<Longrightarrow> q < 2 \<Longrightarrow>
     in_flight (leave p g) ! q + of_bool (p = q) = in_flight g ! q"
  by (auto simp: leave_def nth_list_update)

lemma gate_inv_len: "gate_inv (g, ths) \<Longrightarrow> length (in_flight g) = 2"
  by (simp add: gate_inv_def counters_ok_def)

lemma gate_inv_at: "gate_inv (g, ths) \<Longrightarrow> t < length ths \<Longrightarrow> local_ok g ths (ths ! t)"
  by (simp add: gate_inv_def)

lemma try_enter_inv:
  assumes "try_enter (g, ths ! t) (g', x)" and "gate_inv (g, ths)" and "t < length ths"
  shows "gate_inv (g', ths[t := x])"
proof -
  note len = gate_inv_len [OF assms(2)] and loc = gate_inv_at [OF assms(2,3)]
  note plain = gate_inv_plain [OF assms(2,3)]
  from assms(1) show ?thesis
  proof (cases rule: try_enter.cases)
    case enter_closed
    then show ?thesis using len loc by (intro plain) auto
  next
    case enter_load
    then show ?thesis using len by (intro plain) (auto simp: closed_bit elim: phase_ok_quiet)
  next
    case (enter_count e)
    then show ?thesis using len loc
      by (intro plain) (auto simp: nth_register elim: phase_ok_quiet [OF phase_ok_mono])
  next
    case (enter_confirm e)
    have "\<not> closing (flipper g)"
      using assms(2) loc enter_confirm by (simp add: gate_inv_def)
    with enter_confirm show ?thesis using len
      by (intro plain; cases "flipper g") (auto simp: settled_def)
  next
    case (enter_changed e)
    then show ?thesis using len by (intro plain) (auto elim: phase_ok_quiet)
  next
    case (enter_undo p)
    then show ?thesis using len loc
      by (intro plain) (auto simp: nth_leave elim: phase_ok_quiet [OF phase_ok_mono])
  qed
qed

lemma ticket_step_inv:
  assumes "ticket_step (g, ths ! t) (g', x)" and "gate_inv (g, ths)" and "t < length ths"
  shows "gate_inv (g', ths[t := x])"
proof -
  note len = gate_inv_len [OF assms(2)] and loc = gate_inv_at [OF assms(2,3)]
  note plain = gate_inv_plain [OF assms(2,3)]
  from assms(1) show ?thesis
  proof (cases rule: ticket_step.cases)
    case (ticket_reserve p n)
    then show ?thesis using len loc
      by (intro plain; cases "flipper g") (auto simp: settled_def)
  next
    case (ticket_unused p)
    then show ?thesis using len loc
      by (intro plain) (auto simp: nth_leave elim: phase_ok_quiet [OF phase_ok_mono])
  next
    case (ticket_written p l n)
    then show ?thesis using len loc by (intro plain) (auto elim: phase_ok_quiet)
  next
    case (ticket_drop p)
    then show ?thesis using len loc
      by (intro plain) (auto simp: nth_leave elim: phase_ok_quiet [OF phase_ok_mono])
  qed
qed

lemma holds_counted: "holds p x \<Longrightarrow> counted_in p x"
  by (cases x) auto

lemma settled_counted: "\<not> counted_in p x \<Longrightarrow> settled p f x"
  by (auto simp: settled_def)

lemma gate_inv_zero:
  assumes "gate_inv (g, ths)" and "p < 2" and "in_flight g ! p = 0" and "x \<in> set ths"
  shows "\<not> counted_in p x" "\<not> holds p x" "settled p f x"
proof -
  show "\<not> counted_in p x" using assms counter_zero [of g ths p x] by (simp add: gate_inv_def)
  then show "\<not> holds p x" "settled p f x" using holds_counted settled_counted by blast+
qed

text \<open>No thread is registered in a parity whose counter reads zero, the moved thread included.\<close>

lemma settled_update:
  assumes "\<And>y. y \<in> set ths \<Longrightarrow> settled p f y" and "settled p f x"
  shows "\<forall>y\<in>set (ths[t := x]). settled p f y"
  using assms set_update_subset_insert [of ths t x] by blast

lemma try_quiescent_inv:
  assumes "try_quiescent (g, ths ! t) (g', x)" and "gate_inv (g, ths)" and "t < length ths"
  shows "gate_inv (g', ths[t := x])"
proof -
  note len = gate_inv_len [OF assms(2)] and loc = gate_inv_at [OF assms(2,3)]
  note plain = gate_inv_plain [OF assms(2,3)]
  note zero = gate_inv_zero(3) [OF assms(2)]
  have s0: "settled q f (QuietZero h)" "settled q f (Quiescent h)" for q f h by (simp_all add: settled_def)
  from assms(1) show ?thesis
  proof (cases rule: try_quiescent.cases)
    case (quiet_idle0 f)
    then have "\<forall>y\<in>set (ths[t := QuietZero f]). settled 0 f y"
      by (intro settled_update zero s0) auto
    with quiet_idle0 show ?thesis using len loc by (intro plain) (auto elim: phase_ok_quiet)
  next
    case (quiet_idle1 f)
    then have "\<forall>y\<in>set (ths[t := Quiescent f]). settled 1 f y"
      by (intro settled_update zero s0) auto
    moreover have "\<forall>y\<in>set (ths[t := Quiescent f]). settled 0 f y"
      using quiet_idle1 loc by (intro settled_update s0) auto
    ultimately show ?thesis
      using quiet_idle1 len loc by (intro plain) (auto elim: phase_ok_quiet)
  qed (use len loc in \<open>intro plain; auto elim: phase_ok_quiet\<close>)+
qed

text \<open>A step of the flipper's holder: the counters stay, the phase and the epoch may change.\<close>

lemma gate_inv_flip:
  assumes "gate_inv (g, ths)" and "t < length ths"
    and "in_flight g' = in_flight g" "next_lsn g' = next_lsn g"
    and "\<forall>p. \<not> counted_in p (ths ! t)" "\<forall>p. \<not> counted_in p x"
    and "bit (epoch g') 0 = closing (flipper g')"
    and "\<And>y. y \<in> set ths \<Longrightarrow> phase_ok (flipper g) g y \<Longrightarrow> phase_ok (flipper g') g' y"
    and "local_ok g' (ths[t := x]) x"
  shows "gate_inv (g', ths[t := x])"
proof (rule gate_inv_update [OF assms(1,2)])
  have "counters_ok g ths" using assms(1) by (simp add: gate_inv_def)
  moreover have "length (in_flight g') = 2" using assms(3) gate_inv_len [OF assms(1)] by simp
  ultimately show "counters_ok g' (ths[t := x])"
    by (rule counters_update [OF _ assms(2)]) (simp add: assms(3,5,6))
  show "bit (epoch g') 0 = closing (flipper g')" by (rule assms(7))
  show ph: "phase_ok (flipper g') g' y" if "y \<in> set ths" for y
    using assms(1) that assms(8) [OF that] by (simp add: gate_inv_def)
  have "\<forall>p. \<not> holds p x" using assms(6) holds_counted by blast
  then show "phase_ok (flipper g') g' x"
    using phase_ok_quiet [OF ph [OF nth_mem [OF assms(2)]]] by blast
  have x: "\<forall>p l n. x = Reserved p l n \<longrightarrow> next_lsn g \<le> l" using assms(6) by auto
  show "local_ok g' (ths[t := x]) y" if "y \<in> set ths" for y
    using assms(1) that local_ok_mono [OF _ _ x] assms(4) by (simp add: gate_inv_def)
  show "local_ok g' (ths[t := x]) x" by (rule assms(9))
qed

lemma other_parity: "p < 2 \<Longrightarrow> p = parity e \<or> p = 1 - parity e"
  using parity_less [of e] by arith

lemma drain_below_inv:
  assumes "drain_below (g, ths ! t) (g', x)" and "gate_inv (g, ths)" and "t < length ths"
  shows "gate_inv (g', ths[t := x])"
proof -
  note flip = gate_inv_flip [OF assms(2,3)]
  have cl: "bit (epoch g) 0 = closing (flipper g)" using assms(2) by (simp add: gate_inv_def)
  from assms(1) show ?thesis
  proof (cases rule: drain_below.cases)
    case (drain_flip f)
    have "settled (1 - parity (epoch g)) f y" if "\<not> holds (1 - parity (epoch g)) y" for y
      using that by (auto simp: settled_def)
    moreover have "1 - (1 - parity (epoch g)) = parity (epoch g)"
      using parity_less [of "epoch g"] by arith
    ultimately show ?thesis using drain_flip cl by (intro flip) (auto simp: parity_flip)
  next
    case (drain_done f old)
    have old: "old = 1 - parity (epoch g)" "f \<le> next_lsn g"
      and cur: "\<And>y. y \<in> set ths \<Longrightarrow> settled (parity (epoch g)) f y"
      using assms(2) drain_done nth_mem [OF assms(3)] by (auto simp: gate_inv_def)
    have "old < 2" using old(1) by simp
    moreover have "in_flight g ! old = 0" using drain_done by simp
    ultimately have z: "\<not> holds old y" "settled old h y" if "y \<in> set ths" for y h
      using gate_inv_zero [OF assms(2)] that by blast+
    have all: "settled p f y" if "y \<in> set ths" "p < 2" for p y
      using other_parity [OF that(2), of "epoch g"] cur [OF that(1)] z(2) [OF that(1)] old(1) by blast
    have "\<forall>y\<in>set (ths[t := Drained f]). settled p f y" if "p < 2" for p
      using all [OF _ that] by (rule settled_update) (simp_all add: settled_def)
    then have "local_ok g' (ths[t := x]) x" using drain_done old(2) by simp
    moreover have "\<not> holds (1 - parity (epoch g)) y" if "y \<in> set ths" for y
      using z(1) [OF that] old(1) by simp
    ultimately show ?thesis using drain_done cl by (intro flip) auto
  qed (use cl in \<open>intro flip; auto\<close>)+
qed

lemma close_gate_inv:
  assumes "close_gate (g, ths ! t) (g', x)" and "gate_inv (g, ths)" and "t < length ths"
  shows "gate_inv (g', ths[t := x])"
proof -
  note flip = gate_inv_flip [OF assms(2,3)]
  have cl: "bit (epoch g) 0 = closing (flipper g)" using assms(2) by (simp add: gate_inv_def)
  from assms(1) show ?thesis
  proof (cases rule: close_gate.cases)
    case close_wait0
    then show ?thesis using cl gate_inv_zero(2) [OF assms(2), of 0] by (intro flip) auto
  next
    case close_wait1
    then show ?thesis using cl gate_inv_zero(2) [OF assms(2), of 1] by (intro flip) auto
  next
    case close_drop
    have "\<not> holds (1 - parity (epoch g)) y" if "\<not> holds 0 y" "\<not> holds 1 y" for y
      using that parity_less [of "epoch g"] by (auto simp: less_2_cases_iff)
    with close_drop show ?thesis using cl by (intro flip) auto
  qed (use cl in \<open>intro flip; auto\<close>)+
qed

lemma gate_step_inv: "gate_step s s' \<Longrightarrow> gate_inv s \<Longrightarrow> gate_inv s'"
proof (induction rule: gate_step.induct)
  case (gate_act t ths g g' x)
  from gate_act(2) show ?case
    by (cases rule: thread_step.cases)
      (use gate_act in \<open>blast intro: try_enter_inv ticket_step_inv drain_below_inv try_quiescent_inv close_gate_inv\<close>)+
qed

lemma gate_inv_init: "n < 2 ^ 64 \<Longrightarrow> gate_inv (gate_new, replicate n Idle)"
  by (auto simp: gate_inv_def gate_new_def counters_ok_def less_2_cases_iff)

lemma gate_inv_reachable:
  assumes "gate_step\<^sup>*\<^sup>* (gate_new, replicate n Idle) s" and "n < 2 ^ 64"
  shows "gate_inv s"
  using assms(1)
proof (induction rule: rtranclp_induct)
  case base
  show ?case by (rule gate_inv_init [OF assms(2)])
qed (rule gate_step_inv)

text \<open>The flipper mutex has one holder, the thread inside \<open>drain_below\<close> or \<open>close\<close>.\<close>

definition one_flipper :: "gate \<Rightarrow> pc list \<Rightarrow> bool" where
  "one_flipper g ths \<longleftrightarrow> length (filter (\<lambda>x. x = Flipping) ths) = of_bool (flipper g \<noteq> Free)"

lemma one_flipper_thread:
  assumes "thread_step (g, y) (g', x)" and "of_bool (y = Flipping) \<le> (of_bool (flipper g \<noteq> Free) :: nat)"
  shows "of_bool (flipper g' \<noteq> Free) + of_bool (y = Flipping) = (of_bool (flipper g \<noteq> Free) + of_bool (x = Flipping) :: nat)"
  using assms
  by (auto elim!: thread_step.cases try_enter.cases ticket_step.cases drain_below.cases try_quiescent.cases
      close_gate.cases simp: register_def leave_def)

lemma one_flipper_step:
  assumes "one_flipper g ths" and "t < length ths" and "thread_step (g, ths ! t) (g', x)"
  shows "one_flipper g' (ths[t := x])"
proof -
  have "ths ! t \<in> set ths" using assms(2) by simp
  then have "ths ! t = Flipping \<longrightarrow> 0 < length (filter (\<lambda>x. x = Flipping) ths)"
    by (metis (mono_tags, lifting) filter_empty_conv length_greater_0_conv)
  then have "of_bool (ths ! t = Flipping) \<le> (of_bool (flipper g \<noteq> Free) :: nat)"
    using assms(1) by (auto simp: one_flipper_def)
  from one_flipper_thread [OF assms(3) this] length_filter_update [OF assms(2), of "\<lambda>x. x = Flipping" x] assms(1)
  show ?thesis by (simp add: one_flipper_def)
qed

lemma one_flipper_unique:
  assumes "one_flipper g ths" and "t < length ths" and "u < length ths" and "ths ! t = Flipping" and "ths ! u = Flipping"
  shows "t = u"
proof (rule ccontr)
  assume "t \<noteq> u"
  with assms(2-5) have "{t, u} \<subseteq> {i. i < length ths \<and> ths ! i = Flipping}" "card {t, u} = 2" by auto
  then have "2 \<le> card {i. i < length ths \<and> ths ! i = Flipping}"
    using card_mono [of "{i. i < length ths \<and> ths ! i = Flipping}" "{t, u}"] by simp
  moreover have "card {i. i < length ths \<and> ths ! i = Flipping} \<le> 1"
    using assms(1) unfolding one_flipper_def length_filter_conv_card by simp
  ultimately show False by simp
qed

lemma flipper_kept:
  assumes "one_flipper g ths" and "t < length ths" and "u < length ths" and "ths ! u = Flipping" and "t \<noteq> u"
    and "thread_step (g, ths ! t) (g', x)"
  shows "flipper g' = flipper g"
proof -
  have "ths ! t \<noteq> Flipping" using one_flipper_unique [OF assms(1-3)] assms(4,5) by blast
  moreover have "flipper g \<noteq> Free"
  proof -
    have "0 < length (filter (\<lambda>x. x = Flipping) ths)"
      using assms(3,4) by (metis (mono_tags, lifting) filter_empty_conv length_greater_0_conv nth_mem)
    with assms(1) show ?thesis by (cases "flipper g = Free") (simp_all add: one_flipper_def)
  qed
  ultimately show ?thesis
    using assms(6)
    by (auto elim!: thread_step.cases try_enter.cases ticket_step.cases drain_below.cases try_quiescent.cases
        close_gate.cases simp: register_def leave_def)
qed

section \<open>Properties\<close>

text \<open>
  C25: When \<open>drain_below\<close> returns a frontier, and for as long as its caller relies on it, no write
  reserved below the frontier is still in flight, however the threads are interleaved and however
  often the epoch has wrapped; the same holds of the frontier a successful \<open>try_quiescent\<close> returns.
\<close>

theorem drained_frontier_is_written:
  assumes "gate_step\<^sup>*\<^sup>* (gate_new, replicate n Idle) (g, ths)" and "n < 2 ^ 64"
    and "Drained f \<in> set ths \<or> Quiescent f \<in> set ths" and "Reserved p l k \<in> set ths"
  shows "f \<le> l \<and> f \<le> next_lsn g"
proof -
  have inv: "gate_inv (g, ths)" by (rule gate_inv_reachable [OF assms(1,2)])
  then have "local_ok g ths (Drained f) \<or> local_ok g ths (Quiescent f)" "local_ok g ths (Reserved p l k)"
    using assms(3,4) by (auto simp: gate_inv_def)
  then have "f \<le> next_lsn g" "settled 0 f (Reserved p l k)" "settled 1 f (Reserved p l k)" "p < 2"
    using assms(4) by auto
  then show ?thesis by (auto simp: settled_def less_2_cases_iff)
qed

text \<open>While the gate is held closed nobody holds a ticket: no reservation and no write is possible.\<close>

lemma closed_gate_excludes_writers:
  assumes "gate_step\<^sup>*\<^sup>* (gate_new, replicate n Idle) (g, ths)" and "n < 2 ^ 64"
    and "flipper g = ClosedHeld" and "x \<in> set ths"
  shows "x \<noteq> Ticket p \<and> x \<noteq> Reserved p l k"
proof -
  have inv: "gate_inv (g, ths)" by (rule gate_inv_reachable [OF assms(1,2)])
  then have "\<not> holds 0 x" "\<not> holds 1 x" "local_ok g ths x"
    using assms(3,4) by (auto simp: gate_inv_def)
  then show ?thesis by (auto simp: less_2_cases_iff)
qed

text \<open>
  A leader cannot be starved: while it waits, no step registers a new write under the parity it
  waits for, so the writes it waits for only become fewer.
\<close>

lemma drain_wait_not_starved:
  assumes "gate_step\<^sup>*\<^sup>* (gate_new, replicate n Idle) (g, ths)" and "n < 2 ^ 64"
    and "flipper g = DrainFlipped f old" and "gate_step (g, ths) (g', ths')"
  shows "length (filter (holds old) ths') \<le> length (filter (holds old) ths)"
proof -
  have inv: "gate_inv (g, ths)" by (rule gate_inv_reachable [OF assms(1,2)])
  from assms(4) obtain t x where t: "t < length ths" "thread_step (g, ths ! t) (g', x)" "ths' = ths[t := x]"
    by (auto elim: gate_step.cases)
  have "phase_ok (flipper g) g (ths ! t)" using inv nth_mem [OF t(1)] by (simp add: gate_inv_def)
  then have old: "old = 1 - parity (epoch g)" using assms(3) by simp
  have "holds old x \<longrightarrow> holds old (ths ! t)"
    using t(2) old by (auto elim!: thread_step.cases try_enter.cases ticket_step.cases
        drain_below.cases try_quiescent.cases close_gate.cases)
  with length_filter_update [OF t(1), of "holds old" x] t(3) show ?thesis
    by (cases "holds old x"; cases "holds old (ths ! t)") auto
qed

subsection \<open>Witnesses\<close>

text \<open>
  One thread writes while another drains: the run up to the point where the first has reserved
  again, above the frontier the second was given.
\<close>

lemma gate_run:
  assumes "gate_step\<^sup>*\<^sup>* s (g, ths)" and "t < length ths" and "thread_step (g, y) (g', x)"
    and "ths ! t = y" and "ths' = ths[t := x]"
  shows "gate_step\<^sup>*\<^sup>* s (g', ths')"
  using assms by (metis gate_act rtranclp.rtrancl_into_rtrancl)

definition gate_at :: "u64 \<Rightarrow> u64 \<Rightarrow> u64 \<Rightarrow> flip_phase \<Rightarrow> nat \<Rightarrow> gate" where
  "gate_at e a b ph n = \<lparr>epoch = e, in_flight = [a, b], flipper = ph, next_lsn = n\<rparr>"

lemmas gate_at_simps = gate_at_def register_def leave_def parity_bit CLOSED_def FLIP_def

lemma drained_run:
  "gate_step\<^sup>*\<^sup>* (gate_new, replicate 2 Idle) (gate_at 2 0 1 Free 12, [Reserved 1 5 7, Drained 5])"
proof -
  let ?run = "\<lambda>g ths. gate_step\<^sup>*\<^sup>* (gate_new, replicate 2 Idle) (g, ths)"
  have "?run (gate_at 0 0 0 Free 0) [Idle, Idle]"
    by (simp add: gate_at_simps gate_new_def numeral_2_eq_2)
  then have "?run (gate_at 0 0 0 Free 0) [Loaded 0, Idle]"
    by (rule gate_run [where t = 0 and y = "Idle" and x = "Loaded 0"])
      (use thread_enter [OF enter_load [of "gate_at 0 0 0 Free 0"]] in \<open>simp_all add: gate_at_simps\<close>)
  then have "?run (gate_at 0 1 0 Free 0) [Counted 0, Idle]"
    by (rule gate_run [where t = 0 and y = "Loaded 0" and x = "Counted 0"])
      (use thread_enter [OF enter_count [of "gate_at 0 0 0 Free 0" 0]] in \<open>simp_all add: gate_at_simps\<close>)
  then have "?run (gate_at 0 1 0 Free 0) [Ticket 0, Idle]"
    by (rule gate_run [where t = 0 and y = "Counted 0" and x = "Ticket 0"])
      (use thread_enter [OF enter_confirm [of "gate_at 0 1 0 Free 0" 0]] in \<open>simp_all add: gate_at_simps\<close>)
  then have "?run (gate_at 0 1 0 Free 5) [Reserved 0 0 5, Idle]"
    by (rule gate_run [where t = 0 and y = "Ticket 0" and x = "Reserved 0 0 5"])
      (use thread_ticket [OF ticket_reserve [of "gate_at 0 1 0 Free 0" 0 5]] in \<open>simp_all add: gate_at_simps\<close>)
  then have "?run (gate_at 0 1 0 Free 5) [Written 0, Idle]"
    by (rule gate_run [where t = 0 and y = "Reserved 0 0 5" and x = "Written 0"])
      (use thread_ticket [OF ticket_written [of "gate_at 0 1 0 Free 5" 0 0 5]] in \<open>simp_all add: gate_at_simps\<close>)
  then have "?run (gate_at 0 0 0 Free 5) [Idle, Idle]"
    by (rule gate_run [where t = 0 and y = "Written 0" and x = "Idle"])
      (use thread_ticket [OF ticket_drop [of "gate_at 0 1 0 Free 5" 0]] in \<open>simp_all add: gate_at_simps\<close>)
  then have "?run (gate_at 0 0 0 DrainLocked 5) [Idle, Flipping]"
    by (rule gate_run [where t = 1 and y = "Idle" and x = "Flipping"])
      (use thread_drain [OF drain_lock [of "gate_at 0 0 0 Free 5"]] in \<open>simp_all add: gate_at_simps\<close>)
  then have "?run (gate_at 0 0 0 (DrainRead 5) 5) [Idle, Flipping]"
    by (rule gate_run [where t = 1 and y = "Flipping" and x = "Flipping"])
      (use thread_drain [OF drain_read [of "gate_at 0 0 0 DrainLocked 5"]] in \<open>simp_all add: gate_at_simps\<close>)
  then have "?run (gate_at 2 0 0 (DrainFlipped 5 0) 5) [Idle, Flipping]"
    by (rule gate_run [where t = 1 and y = "Flipping" and x = "Flipping"])
      (use thread_drain [OF drain_flip [of "gate_at 0 0 0 (DrainRead 5) 5" 5]] in \<open>simp_all add: gate_at_simps\<close>)
  then have "?run (gate_at 2 0 0 Free 5) [Idle, Drained 5]"
    by (rule gate_run [where t = 1 and y = "Flipping" and x = "Drained 5"])
      (use thread_drain [OF drain_done [of "gate_at 2 0 0 (DrainFlipped 5 0) 5" 5 0]] in \<open>simp_all add: gate_at_simps\<close>)
  then have "?run (gate_at 2 0 0 Free 5) [Loaded 2, Drained 5]"
    by (rule gate_run [where t = 0 and y = "Idle" and x = "Loaded 2"])
      (use thread_enter [OF enter_load [of "gate_at 2 0 0 Free 5"]] in \<open>simp_all add: gate_at_simps\<close>)
  then have "?run (gate_at 2 0 1 Free 5) [Counted 2, Drained 5]"
    by (rule gate_run [where t = 0 and y = "Loaded 2" and x = "Counted 2"])
      (use thread_enter [OF enter_count [of "gate_at 2 0 0 Free 5" 2]] in \<open>simp_all add: gate_at_simps\<close>)
  then have "?run (gate_at 2 0 1 Free 5) [Ticket 1, Drained 5]"
    by (rule gate_run [where t = 0 and y = "Counted 2" and x = "Ticket 1"])
      (use thread_enter [OF enter_confirm [of "gate_at 2 0 1 Free 5" 2]] in \<open>simp_all add: gate_at_simps\<close>)
  then have "?run (gate_at 2 0 1 Free 12) [Reserved 1 5 7, Drained 5]"
    by (rule gate_run [where t = 0 and y = "Ticket 1" and x = "Reserved 1 5 7"])
      (use thread_ticket [OF ticket_reserve [of "gate_at 2 0 1 Free 5" 1 7]] in \<open>simp_all add: gate_at_simps\<close>)
  then show ?thesis .
qed

lemma closed_run:
  "gate_step\<^sup>*\<^sup>* (gate_new, replicate 2 Idle) (gate_at 1 0 0 ClosedHeld 5, [Idle, Flipping])"
proof -
  let ?run = "\<lambda>g ths. gate_step\<^sup>*\<^sup>* (gate_new, replicate 2 Idle) (g, ths)"
  have "?run (gate_at 0 0 0 Free 0) [Idle, Idle]"
    by (simp add: gate_at_simps gate_new_def numeral_2_eq_2)
  then have "?run (gate_at 0 0 0 Free 0) [Loaded 0, Idle]"
    by (rule gate_run [where t = 0 and y = "Idle" and x = "Loaded 0"])
      (use thread_enter [OF enter_load [of "gate_at 0 0 0 Free 0"]] in \<open>simp_all add: gate_at_simps\<close>)
  then have "?run (gate_at 0 1 0 Free 0) [Counted 0, Idle]"
    by (rule gate_run [where t = 0 and y = "Loaded 0" and x = "Counted 0"])
      (use thread_enter [OF enter_count [of "gate_at 0 0 0 Free 0" 0]] in \<open>simp_all add: gate_at_simps\<close>)
  then have "?run (gate_at 0 1 0 Free 0) [Ticket 0, Idle]"
    by (rule gate_run [where t = 0 and y = "Counted 0" and x = "Ticket 0"])
      (use thread_enter [OF enter_confirm [of "gate_at 0 1 0 Free 0" 0]] in \<open>simp_all add: gate_at_simps\<close>)
  then have "?run (gate_at 0 1 0 Free 5) [Reserved 0 0 5, Idle]"
    by (rule gate_run [where t = 0 and y = "Ticket 0" and x = "Reserved 0 0 5"])
      (use thread_ticket [OF ticket_reserve [of "gate_at 0 1 0 Free 0" 0 5]] in \<open>simp_all add: gate_at_simps\<close>)
  then have "?run (gate_at 0 1 0 Free 5) [Written 0, Idle]"
    by (rule gate_run [where t = 0 and y = "Reserved 0 0 5" and x = "Written 0"])
      (use thread_ticket [OF ticket_written [of "gate_at 0 1 0 Free 5" 0 0 5]] in \<open>simp_all add: gate_at_simps\<close>)
  then have "?run (gate_at 0 0 0 Free 5) [Idle, Idle]"
    by (rule gate_run [where t = 0 and y = "Written 0" and x = "Idle"])
      (use thread_ticket [OF ticket_drop [of "gate_at 0 1 0 Free 5" 0]] in \<open>simp_all add: gate_at_simps\<close>)
  then have "?run (gate_at 0 0 0 CloseLocked 5) [Idle, Flipping]"
    by (rule gate_run [where t = 1 and y = "Idle" and x = "Flipping"])
      (use thread_close [OF close_lock [of "gate_at 0 0 0 Free 5"]] in \<open>simp_all add: gate_at_simps\<close>)
  then have "?run (gate_at 1 0 0 CloseSet 5) [Idle, Flipping]"
    by (rule gate_run [where t = 1 and y = "Flipping" and x = "Flipping"])
      (use thread_close [OF close_set [of "gate_at 0 0 0 CloseLocked 5"]] in \<open>simp_all add: gate_at_simps\<close>)
  then have "?run (gate_at 1 0 0 CloseWaited0 5) [Idle, Flipping]"
    by (rule gate_run [where t = 1 and y = "Flipping" and x = "Flipping"])
      (use thread_close [OF close_wait0 [of "gate_at 1 0 0 CloseSet 5"]] in \<open>simp_all add: gate_at_simps\<close>)
  then have "?run (gate_at 1 0 0 ClosedHeld 5) [Idle, Flipping]"
    by (rule gate_run [where t = 1 and y = "Flipping" and x = "Flipping"])
      (use thread_close [OF close_wait1 [of "gate_at 1 0 0 CloseWaited0 5"]] in \<open>simp_all add: gate_at_simps\<close>)
  then show ?thesis .
qed

lemma waiting_run:
  "gate_step\<^sup>*\<^sup>* (gate_new, replicate 2 Idle) (gate_at 2 1 0 (DrainFlipped 5 0) 5, [Reserved 0 0 5, Flipping])"
proof -
  let ?run = "\<lambda>g ths. gate_step\<^sup>*\<^sup>* (gate_new, replicate 2 Idle) (g, ths)"
  have "?run (gate_at 0 0 0 Free 0) [Idle, Idle]"
    by (simp add: gate_at_simps gate_new_def numeral_2_eq_2)
  then have "?run (gate_at 0 0 0 Free 0) [Loaded 0, Idle]"
    by (rule gate_run [where t = 0 and y = "Idle" and x = "Loaded 0"])
      (use thread_enter [OF enter_load [of "gate_at 0 0 0 Free 0"]] in \<open>simp_all add: gate_at_simps\<close>)
  then have "?run (gate_at 0 1 0 Free 0) [Counted 0, Idle]"
    by (rule gate_run [where t = 0 and y = "Loaded 0" and x = "Counted 0"])
      (use thread_enter [OF enter_count [of "gate_at 0 0 0 Free 0" 0]] in \<open>simp_all add: gate_at_simps\<close>)
  then have "?run (gate_at 0 1 0 Free 0) [Ticket 0, Idle]"
    by (rule gate_run [where t = 0 and y = "Counted 0" and x = "Ticket 0"])
      (use thread_enter [OF enter_confirm [of "gate_at 0 1 0 Free 0" 0]] in \<open>simp_all add: gate_at_simps\<close>)
  then have "?run (gate_at 0 1 0 Free 5) [Reserved 0 0 5, Idle]"
    by (rule gate_run [where t = 0 and y = "Ticket 0" and x = "Reserved 0 0 5"])
      (use thread_ticket [OF ticket_reserve [of "gate_at 0 1 0 Free 0" 0 5]] in \<open>simp_all add: gate_at_simps\<close>)
  then have "?run (gate_at 0 1 0 DrainLocked 5) [Reserved 0 0 5, Flipping]"
    by (rule gate_run [where t = 1 and y = "Idle" and x = "Flipping"])
      (use thread_drain [OF drain_lock [of "gate_at 0 1 0 Free 5"]] in \<open>simp_all add: gate_at_simps\<close>)
  then have "?run (gate_at 0 1 0 (DrainRead 5) 5) [Reserved 0 0 5, Flipping]"
    by (rule gate_run [where t = 1 and y = "Flipping" and x = "Flipping"])
      (use thread_drain [OF drain_read [of "gate_at 0 1 0 DrainLocked 5"]] in \<open>simp_all add: gate_at_simps\<close>)
  then have "?run (gate_at 2 1 0 (DrainFlipped 5 0) 5) [Reserved 0 0 5, Flipping]"
    by (rule gate_run [where t = 1 and y = "Flipping" and x = "Flipping"])
      (use thread_drain [OF drain_flip [of "gate_at 0 1 0 (DrainRead 5) 5" 5]] in \<open>simp_all add: gate_at_simps\<close>)
  then show ?thesis .
qed

theorem drained_frontier_is_written_witness:
  "gate_step\<^sup>*\<^sup>* (gate_new, replicate 2 Idle) (gate_at 2 0 1 Free 12, [Reserved 1 5 7, Drained 5]) \<and>
   (5 :: nat) \<le> 5 \<and> 5 \<le> next_lsn (gate_at 2 0 1 Free 12)"
  using drained_run drained_frontier_is_written [OF drained_run, of 5 1 5 7] by simp

end
