(* ===== verification/Fsys_LogBuffer.thy ===== *)
theory Fsys_LogBuffer
  imports Fsys_Format Fsys_Platform Fsys_Poison
begin

text \<open>
  The dual log buffer of Direct-IO journals (\<open>src/journal/log_buffer.rs\<close>): two sector-aligned
  slots, rotation with a carried partial sector, oversize records through a scratch buffer, and
  the partial flush of a sync point.

  Every critical section under the state lock is one function. A rotation and an oversize record
  release the lock for their write, so each is a beginning and an end around the write, and the
  work in between is a \<open>job\<close>. \<open>append_iter\<close> is one turn of the append loop under the lock;
  \<open>append_frame\<close> is the loop as one thread runs it, with \<open>None\<close> for a wait on \<open>flush_done\<close> that
  nobody answers; \<open>lb_step\<close> interleaves the critical sections and the writes of any number of
  threads.
\<close>

section \<open>State\<close>

datatype in_flight_write = InSlot nat | InScratch

record log_buffer =
  iouring :: bool
  slots :: "bytes list"
  capacity :: nat
  sector_size :: nat
  active_idx :: nat
  active_len :: nat
  active_flush_pos :: nat
  flushing :: "in_flight_write option"

definition other_error :: "string \<Rightarrow> error" where
  "other_error s = Io (IoError OtherKind s)"

definition active :: "log_buffer \<Rightarrow> bytes" where
  "active lb = slots lb ! active_idx lb"

definition log_buffer_new :: "disk \<Rightarrow> bool \<Rightarrow> nat \<Rightarrow> nat \<Rightarrow> nat \<Rightarrow> log_buffer result" where
  "log_buffer_new d ring capacity_per_slot ss flush_pos =
     (let cap = max (round_up capacity_per_slot ss) ss
      in bind_ok (aligned_buf_new d cap ss) (\<lambda>buf0.
           bind_ok (aligned_buf_new d cap ss) (\<lambda>buf1.
             Inr \<lparr>iouring = ring, slots = [buf0, buf1], capacity = cap, sector_size = ss,
                  active_idx = 0, active_len = 0, active_flush_pos = flush_pos, flushing = None\<rparr>)))"

definition next_lsn_of :: "log_buffer \<Rightarrow> nat" where
  "next_lsn_of lb = active_flush_pos lb + active_len lb"

definition flushed_through :: "log_buffer \<Rightarrow> nat" where
  "flushed_through lb = active_flush_pos lb"

definition buffered_len :: "log_buffer \<Rightarrow> nat" where
  "buffered_len lb = active_len lb"

section \<open>Writing a slot\<close>

definition flush_slot_to_disk :: "log_buffer \<Rightarrow> disk \<Rightarrow> nat \<Rightarrow> bytes \<Rightarrow> disk \<times> unit result" where
  "flush_slot_to_disk lb d offset data =
     (if iouring lb then
        (case write_at_fixed d data offset of
           (d1, Inl e) \<Rightarrow> (d1, Inl e)
         | (d1, Inr written) \<Rightarrow>
             if written \<noteq> length data then
               (d1, Inl (Io (IoError WriteZero ''iouring write_at_fixed returned short count'')))
             else (d1, Inr ()))
      else write_at_direct d offset data)"

section \<open>Appending\<close>

text \<open>
  Encoding the frames of a batch one behind the other into a slot. An error leaves the frames
  encoded so far in the slot, behind \<open>active_len\<close>.
\<close>

fun encode_batch :: "crc_crate \<Rightarrow> bytes list \<Rightarrow> nat \<Rightarrow> bytes \<Rightarrow> bytes \<times> nat result" where
  "encode_batch C [] cur buf = (buf, Inr cur)"
| "encode_batch C (r # rs) cur buf =
     (case checked_add (length r) FRAME_OVERHEAD of
        None \<Rightarrow> (buf, Inl (other_error ''batched frame size overflow''))
      | Some frame_size \<Rightarrow>
          (case encode_frame_into C r (slice cur (cur + frame_size) buf) of
             Inl e \<Rightarrow> (buf, Inl e)
           | Inr (fr, _) \<Rightarrow> encode_batch C rs (cur + frame_size) (copy_at cur fr buf)))"

definition try_append_frames_batched ::
    "crc_crate \<Rightarrow> log_buffer \<Rightarrow> bytes list \<Rightarrow> nat \<Rightarrow> log_buffer \<times> (nat \<times> nat) option result" where
  "try_append_frames_batched C lb records total_encoded_size =
     (let remaining = capacity lb - active_len lb
      in if remaining < total_encoded_size then (lb, Inr None)
         else
           let start_lsn = active_flush_pos lb + active_len lb
           in case encode_batch C records (active_len lb) (active lb) of
                (buf, Inl e) \<Rightarrow> (lb\<lparr>slots := (slots lb)[active_idx lb := buf]\<rparr>, Inl e)
              | (buf, Inr cur) \<Rightarrow>
                  (lb\<lparr>slots := (slots lb)[active_idx lb := buf], active_len := cur\<rparr>,
                   Inr (Some (start_lsn, active_flush_pos lb + cur))))"

text \<open>What is written with the lock released.\<close>

datatype job =
    SlotJob (job_idx: nat) (job_len: nat) (job_write: nat) (job_pos: nat)
  | ScratchJob (job_data: bytes) (job_pos: nat) (job_record: nat) (job_size: nat)

definition rotate_begin :: "log_buffer \<Rightarrow> (log_buffer \<times> job) result" where
  "rotate_begin lb =
     (let old_idx = active_idx lb;
          old_len = active_len lb;
          old_flush_pos = active_flush_pos lb;
          new_idx = 1 - old_idx;
          whole = old_len - old_len mod sector_size lb;
          tail = old_len - whole;
          write_len = round_up old_len (sector_size lb)
      in case checked_add old_flush_pos whole of
           None \<Rightarrow> Inl (other_error ''flush_pos overflow'')
         | Some new_flush_pos \<Rightarrow>
             Inr (lb\<lparr>slots := (slots lb)[new_idx := copy_at 0 (slice whole old_len (slots lb ! old_idx)) (slots lb ! new_idx)],
                     active_idx := new_idx, active_len := tail, active_flush_pos := new_flush_pos,
                     flushing := Some (InSlot old_idx)\<rparr>,
                  SlotJob old_idx old_len write_len old_flush_pos))"

definition oversize_begin ::
    "crc_crate \<Rightarrow> disk \<Rightarrow> log_buffer \<Rightarrow> bytes \<Rightarrow> bytes option \<Rightarrow> nat \<Rightarrow> (log_buffer \<times> job) result" where
  "oversize_begin C d lb payload encoded frame_size =
     (let ss = sector_size lb;
          prefix = active_len lb;
          start_pos = active_flush_pos lb;
          record_start = start_pos + prefix
      in case checked_add prefix frame_size of
           None \<Rightarrow> Inl (other_error ''oversize frame length overflow'')
         | Some total_len \<Rightarrow>
             let whole = total_len - total_len mod ss;
                 tail = total_len - whole
             in case checked_add start_pos whole of
                  None \<Rightarrow> Inl (other_error ''flush_pos overflow'')
                | Some new_flush_pos \<Rightarrow>
                    bind_ok (aligned_buf_new d (round_up total_len ss) ss) (\<lambda>scratch0.
                    bind_ok (case encoded of
                        Some fr \<Rightarrow> Inr (copy_at prefix fr scratch0)
                      | None \<Rightarrow>
                          bind_ok (encode_frame_into C payload (slice prefix total_len scratch0))
                            (\<lambda>(fr, _). Inr (copy_at prefix fr scratch0))) (\<lambda>scratch1.
                      let scratch = copy_at 0 (slice 0 prefix (active lb)) scratch1;
                          slot0 = copy_at 0 (zeros prefix) (active lb);
                          slot1 = copy_at 0 (slice whole total_len scratch) slot0
                      in Inr (lb\<lparr>slots := (slots lb)[active_idx lb := slot1], active_len := tail,
                                 active_flush_pos := new_flush_pos, flushing := Some InScratch\<rparr>,
                              ScratchJob scratch start_pos record_start frame_size))))"

text \<open>The write of a job, and what its owner does when it has the lock again.\<close>

definition job_run :: "log_buffer \<Rightarrow> disk \<Rightarrow> job \<Rightarrow> disk \<times> unit result" where
  "job_run lb d j =
     (case j of
        SlotJob i _ write_len pos \<Rightarrow> flush_slot_to_disk lb d pos (take write_len (slots lb ! i))
      | ScratchJob scratch pos _ _ \<Rightarrow> write_at_direct d pos scratch)"

definition rotate_end :: "log_buffer \<Rightarrow> poison \<Rightarrow> nat \<Rightarrow> nat \<Rightarrow> unit result \<Rightarrow> log_buffer \<times> poison" where
  "rotate_end lb p old_idx old_len res =
     (lb\<lparr>slots := (slots lb)[old_idx := copy_at 0 (zeros old_len) (slots lb ! old_idx)], flushing := None\<rparr>,
      case res of Inl e \<Rightarrow> poison_set e p | Inr _ \<Rightarrow> p)"

definition oversize_end :: "log_buffer \<Rightarrow> poison \<Rightarrow> unit result \<Rightarrow> log_buffer \<times> poison" where
  "oversize_end lb p res =
     (lb\<lparr>flushing := None\<rparr>, case res of Inl e \<Rightarrow> poison_set e p | Inr _ \<Rightarrow> p)"

definition job_end :: "log_buffer \<Rightarrow> poison \<Rightarrow> job \<Rightarrow> unit result \<Rightarrow> log_buffer \<times> poison" where
  "job_end lb p j res =
     (case j of
        SlotJob i len _ _ \<Rightarrow> rotate_end lb p i len res
      | ScratchJob _ _ _ _ \<Rightarrow> oversize_end lb p res)"

definition rotate :: "log_buffer \<Rightarrow> disk \<Rightarrow> poison \<Rightarrow> log_buffer \<times> disk \<times> poison \<times> unit result" where
  "rotate lb d p =
     (case rotate_begin lb of
        Inl e \<Rightarrow> (lb, d, p, Inl e)
      | Inr (lb1, j) \<Rightarrow>
          (case job_run lb1 d j of
             (d1, res) \<Rightarrow> (case job_end lb1 p j res of (lb2, p1) \<Rightarrow> (lb2, d1, p1, res))))"

definition append_oversize ::
    "crc_crate \<Rightarrow> log_buffer \<Rightarrow> disk \<Rightarrow> poison \<Rightarrow> bytes \<Rightarrow> bytes option \<Rightarrow> nat \<Rightarrow>
      log_buffer \<times> disk \<times> poison \<times> (nat \<times> nat) result" where
  "append_oversize C lb d p payload encoded frame_size =
     (case oversize_begin C d lb payload encoded frame_size of
        Inl e \<Rightarrow> (lb, d, p, Inl e)
      | Inr (lb1, j) \<Rightarrow>
          (case job_run lb1 d j of
             (d1, res) \<Rightarrow>
               (case job_end lb1 p j res of
                  (lb2, p1) \<Rightarrow>
                    (lb2, d1, p1,
                     bind_ok res (\<lambda>_. Inr (job_record j, job_record j + frame_size))))))"

text \<open>One turn of the append loop, with the lock held: the paths A to D of the source.\<close>

datatype turn =
    TurnDone log_buffer "(nat \<times> nat) result"
  | TurnWait
  | TurnRotate
  | TurnOversize

definition append_iter :: "log_buffer \<Rightarrow> poison \<Rightarrow> bytes option \<Rightarrow> nat \<Rightarrow> turn" where
  "append_iter lb p encoded frame_size =
     (case poison_check p of
        Inl e \<Rightarrow> TurnDone lb (Inl e)
      | Inr _ \<Rightarrow>
          (case encoded of
             Some fr \<Rightarrow>
               if active_len lb + frame_size \<le> capacity lb then
                 let offset = active_len lb;
                     start = active_flush_pos lb + offset
                 in TurnDone
                      (lb\<lparr>slots := (slots lb)[active_idx lb := copy_at offset fr (active lb)],
                          active_len := offset + frame_size\<rparr>)
                      (Inr (start, start + frame_size))
               else if flushing lb \<noteq> None then TurnWait
               else if active_len lb mod sector_size lb + frame_size \<le> capacity lb then TurnRotate
               else TurnOversize
           | None \<Rightarrow>
               if flushing lb \<noteq> None then TurnWait
               else if active_len lb mod sector_size lb + frame_size \<le> capacity lb then TurnRotate
               else TurnOversize))"

text \<open>The frame is encoded before the lock is taken when it can fit in a slot.\<close>

definition encode_ahead :: "crc_crate \<Rightarrow> log_buffer \<Rightarrow> bytes \<Rightarrow> (nat \<times> bytes option) result" where
  "encode_ahead C lb payload =
     bind_ok (frame_len (length payload)) (\<lambda>frame_size.
       if frame_size \<le> capacity lb
       then bind_ok (encode_frame_owned C payload) (\<lambda>fr. Inr (frame_size, Some fr))
       else Inr (frame_size, None))"

text \<open>
  The loop, for a thread that runs alone. A wait is never answered then, and a loop that did not
  end would have no result either: both are \<open>None\<close>.
\<close>

partial_function (option) append_loop ::
    "crc_crate \<Rightarrow> log_buffer \<Rightarrow> disk \<Rightarrow> poison \<Rightarrow> bytes \<Rightarrow> bytes option \<Rightarrow> nat \<Rightarrow>
      (log_buffer \<times> disk \<times> poison \<times> (nat \<times> nat) result) option" where
  "append_loop C lb d p payload encoded frame_size =
     (case append_iter lb p encoded frame_size of
        TurnDone lb1 res \<Rightarrow> Some (lb1, d, p, res)
      | TurnWait \<Rightarrow> None
      | TurnRotate \<Rightarrow>
          (case rotate lb d p of
             (lb1, d1, p1, res) \<Rightarrow>
               (case res of
                  Inl e \<Rightarrow> Some (lb1, d1, p1, Inl e)
                | Inr _ \<Rightarrow> append_loop C lb1 d1 p1 payload encoded frame_size))
      | TurnOversize \<Rightarrow> Some (append_oversize C lb d p payload encoded frame_size))"

definition append_frame ::
    "crc_crate \<Rightarrow> log_buffer \<Rightarrow> disk \<Rightarrow> poison \<Rightarrow> bytes \<Rightarrow>
      (log_buffer \<times> disk \<times> poison \<times> (nat \<times> nat) result) option" where
  "append_frame C lb d p payload =
     (case encode_ahead C lb payload of
        Inl e \<Rightarrow> Some (lb, d, p, Inl e)
      | Inr (frame_size, encoded) \<Rightarrow> append_loop C lb d p payload encoded frame_size)"

section \<open>Sync points and resume\<close>

definition flush_partial :: "log_buffer \<Rightarrow> disk \<Rightarrow> poison \<Rightarrow> (disk \<times> poison \<times> nat result) option" where
  "flush_partial lb d p =
     (if flushing lb \<noteq> None then None
      else case poison_check p of
          Inl e \<Rightarrow> Some (d, p, Inl e)
        | Inr _ \<Rightarrow>
            let end_lsn = active_flush_pos lb + active_len lb
            in if active_len lb = 0 then Some (d, p, Inr end_lsn)
               else
                 let aligned = round_up (active_len lb) (sector_size lb)
                 in case flush_slot_to_disk lb d (active_flush_pos lb) (take aligned (active lb)) of
                      (d1, Inl e) \<Rightarrow> Some (d1, poison_set e p, Inl e)
                    | (d1, Inr _) \<Rightarrow> Some (d1, p, Inr end_lsn))"

definition set_flush_pos_for_resume :: "log_buffer \<Rightarrow> nat \<Rightarrow> bytes \<Rightarrow> log_buffer result" where
  "set_flush_pos_for_resume lb flush_pos prefix =
     (if flush_pos mod sector_size lb \<noteq> 0 \<or> sector_size lb \<le> length prefix then
        Inl (Io (IoError InvalidInput ''journal resume position is not sector-aligned''))
      else
        Inr (lb\<lparr>active_flush_pos := flush_pos,
                slots := (slots lb)[active_idx lb := copy_at 0 prefix (active lb)],
                active_len := length prefix\<rparr>))"

section \<open>What the memory holds\<close>

text \<open>
  The log is the sequence of bytes appended so far. The active slot mirrors its end, from the
  last sector boundary at or below it, with zeros behind.
\<close>

definition geometry :: "log_buffer \<Rightarrow> bool" where
  "geometry lb \<longleftrightarrow>
     length (slots lb) = 2 \<and> (\<forall>s\<in>set (slots lb). length s = capacity lb) \<and>
     is_power_of_two (sector_size lb) \<and> sector_size lb dvd capacity lb \<and>
     sector_size lb \<le> capacity lb \<and> capacity lb \<le> 2 ^ 33 \<and>
     active_idx lb < 2 \<and> active_len lb \<le> capacity lb \<and> sector_size lb dvd active_flush_pos lb"

definition mem_ok :: "log_buffer \<Rightarrow> bytes \<Rightarrow> bool" where
  "mem_ok lb log \<longleftrightarrow>
     geometry lb \<and> length log = active_flush_pos lb + active_len lb \<and>
     active lb = drop (active_flush_pos lb) log @ zeros (capacity lb - active_len lb)"

text \<open>The other slot is zero unless it is being written, and it is never the active one.\<close>

definition dormant_ok :: "log_buffer \<Rightarrow> bool" where
  "dormant_ok lb \<longleftrightarrow>
     (case flushing lb of
        Some (InSlot i) \<Rightarrow> i = 1 - active_idx lb
      | _ \<Rightarrow> slots lb ! (1 - active_idx lb) = zeros (capacity lb))"

text \<open>A file holds the first \<open>n\<close> bytes of the log.\<close>

definition disk_ok :: "disk \<Rightarrow> bytes \<Rightarrow> nat \<Rightarrow> bool" where
  "disk_ok d log n \<longleftrightarrow> n \<le> length log \<and> take n (contents d) = take n log"

text \<open>What is being written, and that it is a stretch of the log up to at least the active slot.\<close>

definition job_bytes :: "log_buffer \<Rightarrow> job \<Rightarrow> bytes" where
  "job_bytes lb j =
     (case j of SlotJob i _ write_len _ \<Rightarrow> take write_len (slots lb ! i) | ScratchJob scratch _ _ _ \<Rightarrow> scratch)"

definition covers :: "bytes \<Rightarrow> nat \<Rightarrow> bytes \<Rightarrow> nat \<Rightarrow> bool" where
  "covers data pos log n \<longleftrightarrow>
     pos + n \<le> length log \<and> n \<le> length data \<and> data = take n (drop pos log) @ zeros (length data - n)"

definition job_ok :: "log_buffer \<Rightarrow> job \<Rightarrow> bytes \<Rightarrow> bool" where
  "job_ok lb j log \<longleftrightarrow>
     (\<exists>n. covers (job_bytes lb j) (job_pos j) log n \<and>
        job_pos j \<le> active_flush_pos lb \<and> active_flush_pos lb \<le> job_pos j + n) \<and>
     (case j of
        SlotJob i len _ _ \<Rightarrow>
          flushing lb = Some (InSlot i) \<and> len \<le> capacity lb \<and> drop len (slots lb ! i) = zeros (capacity lb - len)
      | ScratchJob _ _ _ _ \<Rightarrow> flushing lb = Some InScratch)"

text \<open>A job whose bytes are those of the log up to \<open>n\<close> at least.\<close>

definition job_reaches :: "log_buffer \<Rightarrow> job \<Rightarrow> bytes \<Rightarrow> nat \<Rightarrow> bool" where
  "job_reaches lb j log n \<longleftrightarrow> (\<exists>k. covers (job_bytes lb j) (job_pos j) log k \<and> n \<le> job_pos j + k)"

lemma geometry_slot: "geometry lb \<Longrightarrow> i < 2 \<Longrightarrow> length (slots lb ! i) = capacity lb"
  unfolding geometry_def by (metis nth_mem)

lemma geometry_active: "geometry lb \<Longrightarrow> length (active lb) = capacity lb"
  unfolding active_def by (rule geometry_slot) (simp_all add: geometry_def)

lemma disk_ok_mono: "disk_ok d log n \<Longrightarrow> m \<le> n \<Longrightarrow> disk_ok d log m"
  unfolding disk_ok_def by (metis le_trans min.absorb1 take_take)

lemma disk_ok_append: "disk_ok d log n \<Longrightarrow> disk_ok d (log @ x) n"
  by (simp add: disk_ok_def)

lemma covers_append: "covers data pos log n \<Longrightarrow> covers data pos (log @ x) n"
  by (simp add: covers_def)

text \<open>A successful write of a stretch of the log extends what the file holds.\<close>

lemma disk_write:
  assumes "contents d' = put_at pos data (contents d)" and "disk_ok d log pos"
    and "covers data pos log n"
  shows "disk_ok d' log (pos + n)"
proof -
  have len: "pos \<le> length log" and tk: "take pos (contents d) = take pos log"
    using assms(2) by (simp_all add: disk_ok_def)
  then have pos: "pos \<le> length (contents d)"
    by (metis length_take min.absorb2 min.cobounded1)
  have n: "n \<le> length data" "pos + n \<le> length log" "take n data = take n (drop pos log)"
    using assms(3) by (auto simp: covers_def dest: arg_cong [where f = "take n"])
  have "take (pos + n) (contents d') = take (pos + n) (take (pos + length data) (contents d'))"
    using n(1) by simp
  also have "\<dots> = take pos log @ take n data"
    unfolding assms(1) take_put_at_end [OF pos] tk using len n(1) by simp
  also have "\<dots> = take (pos + n) log" unfolding n(3) by (simp add: take_add)
  finally show ?thesis using n(2) by (simp add: disk_ok_def)
qed

context positioned_writer
begin

lemma pw_disk_ok:
  assumes "pw d pos data = (d', Inr u)" and "disk_ok d log pos" and "covers data pos log n"
  shows "disk_ok d' log (pos + n)"
  using disk_write [OF pw_ok assms(2,3)] assms(1) by simp

end

lemma flush_slot_effect:
  "flush_slot_to_disk lb d off data = (d', r) \<Longrightarrow>
     \<exists>n\<le>length data. contents d' = put_at off (take n data) (contents d) \<and> (r = Inr () \<longrightarrow> n = length data)"
proof (cases "iouring lb")
  case True
  assume f: "flush_slot_to_disk lb d off data = (d', r)"
  obtain d1 r1 where w: "write_at_fixed d data off = (d1, r1)" by fastforce
  from transfer_write_effect [of d data off 0 d1 r1] w obtain n where
    "n \<le> length data" "contents d1 = put_at off (take n data) (contents d)" "\<forall>m. r1 = Inr m \<longrightarrow> m = n"
    by (auto simp: write_at_fixed_def)
  with f w True show ?thesis
    by (auto simp: flush_slot_to_disk_def split: sum.splits if_splits)
next
  case False
  assume "flush_slot_to_disk lb d off data = (d', r)"
  with False show ?thesis using linux_direct.pw_effect [of d off data d' r]
    by (simp add: flush_slot_to_disk_def)
qed

interpretation slot_flush: positioned_writer "flush_slot_to_disk lb" for lb
  by unfold_locales (rule flush_slot_effect)

section \<open>Each critical section keeps the memory invariant\<close>

lemma mod_whole:
  fixes n s :: nat
  shows "n - n mod s + n mod s = n" "n - (n - n mod s) = n mod s" "s dvd n - n mod s"
  by (simp, simp only: diff_diff_cancel mod_less_eq_dividend, simp add: minus_mod_eq_mult_div)

lemma sector_pos: "geometry lb \<Longrightarrow> 0 < sector_size lb"
  by (auto simp: geometry_def is_power_of_two_def)

lemma geometry_update:
  assumes "geometry lb" and "length b = capacity lb" and "slots lb' = (slots lb)[i := b]"
    and "capacity lb' = capacity lb" and "sector_size lb' = sector_size lb"
    and "active_idx lb' < 2" and "active_len lb' \<le> capacity lb" and "sector_size lb dvd active_flush_pos lb'"
  shows "geometry lb'"
proof -
  have "length x = capacity lb" if "x \<in> set ((slots lb)[i := b])" for x
    using that assms(1,2) set_update_subset_insert [of "slots lb" i b] by (auto simp: geometry_def)
  with assms show ?thesis by (simp add: geometry_def)
qed

lemma active_update [simp]:
  "geometry lb \<Longrightarrow> slots lb' = (slots lb)[active_idx lb := b] \<Longrightarrow> active_idx lb' = active_idx lb \<Longrightarrow>
     active lb' = b"
  by (simp add: active_def geometry_def)

text \<open>A frame copied behind the end of the active slot extends the log by it.\<close>

lemma mem_ok_append:
  assumes "mem_ok lb log" and "active_len lb + length fr \<le> capacity lb"
  shows "mem_ok (lb\<lparr>slots := (slots lb)[active_idx lb := copy_at (active_len lb) fr (active lb)],
      active_len := active_len lb + length fr\<rparr>) (log @ fr)"
proof -
  let ?lb = "lb\<lparr>slots := (slots lb)[active_idx lb := copy_at (active_len lb) fr (active lb)],
      active_len := active_len lb + length fr\<rparr>"
  have g: "geometry lb" and len: "length log = active_flush_pos lb + active_len lb"
    and act: "active lb = drop (active_flush_pos lb) log @ zeros (capacity lb - active_len lb)"
    using assms(1) by (simp_all add: mem_ok_def)
  have "length (copy_at (active_len lb) fr (active lb)) = capacity lb"
    using assms(2) geometry_active [OF g] by simp
  then have "geometry ?lb"
    by (rule geometry_update [OF g]) (use g assms(2) in \<open>simp_all add: geometry_def\<close>)
  moreover have "active ?lb = copy_at (active_len lb) fr (active lb)"
    by (rule active_update [OF g]) simp_all
  moreover have "copy_at (active_len lb) fr (active lb) =
      drop (active_flush_pos lb) log @ fr @ zeros (capacity lb - (active_len lb + length fr))"
    unfolding act copy_at_def using len assms(2) by (simp add: drop_replicate)
  ultimately show ?thesis using len by (simp add: mem_ok_def)
qed

lemma encode_batch_frames:
  assumes "list_all record_ok rs" and "cur + length (frames C rs) \<le> length buf"
  shows "encode_batch C rs cur buf = (copy_at cur (frames C rs) buf, Inr (cur + length (frames C rs)))"
  using assms
proof (induction rs arbitrary: cur buf)
  case Nil
  then show ?case by simp
next
  case (Cons r rs)
  let ?n = "length (frame C r)"
  have r: "record_ok r" using Cons.prems by simp
  have "length r + FRAME_OVERHEAD \<le> u64_max"
    using record_ok_bounds(1) [OF r] by (simp add: u64_max_def FRAME_OVERHEAD_def)
  then have chk: "checked_add (length r) FRAME_OVERHEAD = Some ?n" by simp
  have fits: "cur + ?n + length (frames C rs) \<le> length buf" using Cons.prems by (simp add: add.assoc)
  then have "encode_frame_into C r (slice cur (cur + ?n) buf) = Inr (frame C r, ?n)"
    by (intro encode_frame_into_ok [OF r]) simp
  moreover have "encode_batch C rs (cur + ?n) (copy_at cur (frame C r) buf) =
      (copy_at (cur + ?n) (frames C rs) (copy_at cur (frame C r) buf), Inr (cur + ?n + length (frames C rs)))"
    using Cons.prems(1) fits by (intro Cons.IH) simp_all
  ultimately show ?case
    using chk copy_at_copy_at [OF fits] by (simp add: add.assoc checked_add_def)
qed

lemma batch_mem_ok:
  assumes "mem_ok lb log" and "list_all record_ok rs" and "n = length (frames C rs)"
    and "try_append_frames_batched C lb rs n = (lb', Inr (Some (s, e)))"
  shows "mem_ok lb' (log @ frames C rs) \<and> s = length log \<and> e = length (log @ frames C rs) \<and>
    flushing lb' = flushing lb \<and> active_idx lb' = active_idx lb \<and> active_flush_pos lb' = active_flush_pos lb \<and>
    capacity lb' = capacity lb \<and> slots lb' ! (1 - active_idx lb) = slots lb ! (1 - active_idx lb)"
proof -
  have g: "geometry lb" and len: "length log = active_flush_pos lb + active_len lb"
    using assms(1) by (simp_all add: mem_ok_def)
  have fit: "active_len lb + length (frames C rs) \<le> capacity lb"
    using assms(3,4) g by (auto simp: try_append_frames_batched_def geometry_def Let_def split: if_splits)
  from encode_batch_frames [OF assms(2)] fit geometry_active [OF g]
  have "encode_batch C rs (active_len lb) (active lb) =
      (copy_at (active_len lb) (frames C rs) (active lb), Inr (active_len lb + length (frames C rs)))"
    by simp
  with assms(3,4) fit have lb': "lb' = lb\<lparr>slots := (slots lb)[active_idx lb := copy_at (active_len lb) (frames C rs) (active lb)],
      active_len := active_len lb + length (frames C rs)\<rparr>"
    and se: "s = length log" "e = length (log @ frames C rs)"
    using len by (auto simp: try_append_frames_batched_def Let_def split: if_splits)
  have "active_idx lb \<noteq> 1 - active_idx lb" using g by (simp add: geometry_def) arith
  with mem_ok_append [OF assms(1) fit] lb' se show ?thesis by simp
qed

lemma batch_total:
  assumes "mem_ok lb log" and "list_all record_ok rs" and "n = length (frames C rs)"
  shows "if active_len lb + n \<le> capacity lb
    then \<exists>lb'. try_append_frames_batched C lb rs n = (lb', Inr (Some (length log, length log + n))) \<and>
      mem_ok lb' (log @ frames C rs)
    else try_append_frames_batched C lb rs n = (lb, Inr None)"
proof (cases "active_len lb + n \<le> capacity lb")
  case True
  have g: "geometry lb" and "length log = active_flush_pos lb + active_len lb"
    using assms(1) by (simp_all add: mem_ok_def)
  moreover from encode_batch_frames [OF assms(2)] True assms(3) geometry_active [OF g]
  have "encode_batch C rs (active_len lb) (active lb) =
      (copy_at (active_len lb) (frames C rs) (active lb), Inr (active_len lb + n))" by simp
  moreover have "\<not> capacity lb - active_len lb < n" using True by simp
  ultimately obtain lb' where "try_append_frames_batched C lb rs n = (lb', Inr (Some (length log, length log + n)))"
    by (auto simp: try_append_frames_batched_def Let_def)
  with batch_mem_ok [OF assms this] True show ?thesis by auto
next
  case False
  moreover have "active_len lb \<le> capacity lb" using assms(1) by (simp add: mem_ok_def geometry_def)
  ultimately have "capacity lb - active_len lb < n" by linarith
  with False show ?thesis by (simp add: try_append_frames_batched_def)
qed

lemma slice_to_end: "length xs = l \<Longrightarrow> slice w l (xs @ ys) = drop w xs"
  by (auto simp: slice_def)

text \<open>Rounding up within a slot.\<close>

lemma round_up_slot:
  assumes "geometry lb" and "n \<le> capacity lb"
  shows "n \<le> round_up n (sector_size lb)" "round_up n (sector_size lb) \<le> capacity lb"
proof -
  let ?s = "sector_size lb"
  have p: "is_power_of_two ?s" and c: "?s dvd capacity lb" "capacity lb \<le> 2 ^ 33" "?s \<le> capacity lb"
    using assms(1) by (simp_all add: geometry_def)
  have eq: "round_up n ?s = (n + ?s - 1) div ?s * ?s"
    using assms(2) c by (intro round_up_eq [OF p]) simp
  have s: "0 < ?s" by (rule sector_pos [OF assms(1)])
  have "(n + ?s - 1) div ?s * ?s + (n + ?s - 1) mod ?s = n + ?s - 1" by (rule div_mult_mod_eq)
  moreover have "(n + ?s - 1) mod ?s < ?s" using s by simp
  ultimately show "n \<le> round_up n ?s" unfolding eq using s by linarith
  obtain k where k: "capacity lb = ?s * k" using c(1) by (auto elim: dvdE)
  have "(n + ?s - 1) div ?s \<le> (?s * k + (?s - 1)) div ?s"
    using assms(2) k by (intro div_le_mono) simp
  also have "\<dots> = k + (?s - 1) div ?s" using s by (intro div_mult_self4) simp
  also have "\<dots> = k" using s by simp
  finally show "round_up n ?s \<le> capacity lb" unfolding eq k by (simp add: mult.commute)
qed

text \<open>Rotation: the log is unchanged, the other slot mirrors its end, the old slot is the job.\<close>

lemma rotate_begin_ok:
  assumes "mem_ok lb log" and "flushing lb = None" and "dormant_ok lb"
    and "rotate_begin lb = Inr (lb', j)"
  shows "mem_ok lb' log \<and> dormant_ok lb' \<and> job_ok lb' j log \<and> flushing lb' \<noteq> None \<and>
    job_pos j = active_flush_pos lb \<and> job_reaches lb' j log (length log)"
proof -
  let ?s = "sector_size lb" and ?o = "active_idx lb" and ?p = "active_flush_pos lb"
    and ?l = "active_len lb" and ?c = "capacity lb"
  define m where "m = ?l mod ?s"
  define w where "w = ?l - m"
  have wm: "?l - ?l mod ?s = w" "?l - w = m" "?l = w + m" "?s dvd w"
    using mod_whole [of ?l ?s] by (simp_all add: w_def m_def)
  have g: "geometry lb" and len: "length log = ?p + (w + m)"
    and act: "slots lb ! ?o = drop ?p log @ zeros (?c - ?l)"
    using assms(1) wm(3) by (simp_all add: mem_ok_def active_def)
  have o: "?o < 2" "?l \<le> ?c" "length (slots lb) = 2" using g by (simp_all add: geometry_def)
  then have no: "1 - ?o \<noteq> ?o" "1 - ?o < 2" "1 - (1 - ?o) = ?o" and mc: "m \<le> ?c" using wm(3) by arith+
  have dorm: "slots lb ! (1 - ?o) = zeros ?c" using assms(2,3) by (simp add: dormant_ok_def)
  let ?t = "slice w ?l (slots lb ! ?o)" and ?T = "drop (?p + w) log"
  have t: "?t = ?T" "length ?T = m"
    unfolding act using len wm(3) slice_to_end [of "drop ?p log" ?l w] by (simp_all add: add.commute)
  have new: "copy_at 0 ?t (slots lb ! (1 - ?o)) = ?T @ zeros (?c - m)"
    unfolding dorm t copy_at_def using t(2) by (simp add: drop_replicate del: length_drop)
  have lb': "lb' = lb\<lparr>slots := (slots lb)[1 - ?o := ?T @ zeros (?c - m)],
      active_idx := 1 - ?o, active_len := m, active_flush_pos := ?p + w, flushing := Some (InSlot ?o)\<rparr>"
    and j: "j = SlotJob ?o ?l (round_up ?l ?s) ?p"
    using assms(4) unfolding rotate_begin_def Let_def wm(1) wm(2) new by (auto split: option.splits)
  have "length (?T @ zeros (?c - m)) = ?c" using t(2) mc by (simp del: length_drop)
  moreover have "?s dvd ?p + w" using g wm(4) by (simp add: geometry_def)
  ultimately have g': "geometry lb'"
    by (intro geometry_update [OF g]) (use no(2) mc in \<open>simp_all add: lb'\<close>)
  have "active lb' = ?T @ zeros (?c - m)" using o no by (simp add: lb' active_def)
  with g' len have "mem_ok lb' log" by (simp add: mem_ok_def lb')
  moreover have "dormant_ok lb'" using no by (simp add: dormant_ok_def lb')
  moreover have old: "slots lb' ! ?o = drop ?p log @ zeros (?c - ?l)" using o no act by (simp add: lb')
  have "job_ok lb' j log \<and> job_reaches lb' j log (length log)"
  proof -
    note ru = round_up_slot [OF g o(2)]
    have "length (drop ?p log) = ?l" using len wm(3) by simp
    then have "job_bytes lb' j = drop ?p log @ zeros (round_up ?l ?s - ?l)"
      using ru old by (simp add: job_bytes_def j del: length_drop)
    then have "covers (job_bytes lb' j) (job_pos j) log ?l"
      using len wm(3) ru(1) by (simp add: covers_def j)
    moreover have "drop ?l (slots lb' ! ?o) = zeros (?c - ?l)"
      unfolding old using len wm(3) by simp
    ultimately show ?thesis
      using o wm(3) len by (auto simp: job_ok_def job_reaches_def j lb')
  qed
  ultimately show ?thesis by (simp add: lb' j)
qed

text \<open>An oversize record: it is part of the log at once, and the job covers all of it.\<close>

lemma aligned_buf_new_Inr: "aligned_buf_new d n a = Inr b \<Longrightarrow> b = zeros n"
  by (simp add: aligned_buf_new_def split: if_splits)

lemma copy_at_front: "length xs = length src \<Longrightarrow> copy_at 0 src (xs @ ys) = src @ ys"
  by (simp add: copy_at_def)

lemma oversize_scratch:
  assumes "length X = n" and "length fr = k" and "n + k \<le> N" and "length A = c" and "take n A = X" "n \<le> c"
  shows "copy_at 0 (slice 0 n A) (copy_at n fr (zeros N)) = X @ fr @ zeros (N - (n + k))"
  using assms by (simp add: copy_at_def slice_def drop_replicate)

lemma oversize_begin_ok:
  assumes "mem_ok lb log" and "flushing lb = None" and "dormant_ok lb" and "record_ok payload"
    and "fs = length (frame C payload)" and "encoded = None \<or> encoded = Some (frame C payload)"
    and "oversize_begin C d lb payload encoded fs = Inr (lb', j)"
  shows "mem_ok lb' (log @ frame C payload) \<and> dormant_ok lb' \<and> job_ok lb' j (log @ frame C payload) \<and>
    flushing lb' \<noteq> None \<and> job_pos j = active_flush_pos lb \<and> job_record j = length log \<and>
    job_reaches lb' j (log @ frame C payload) (length (log @ frame C payload))"
proof -
  let ?s = "sector_size lb" and ?o = "active_idx lb" and ?p = "active_flush_pos lb"
    and ?l = "active_len lb" and ?c = "capacity lb" and ?fr = "frame C payload"
  let ?X = "drop ?p log" and ?L = "log @ ?fr"
  define m where "m = (?l + fs) mod ?s"
  define w where "w = ?l + fs - m"
  have wm: "?l + fs - (?l + fs) mod ?s = w" "?l + fs - w = m" "?l + fs = w + m" "?s dvd w"
    using mod_whole [of "?l + fs" ?s] by (simp_all add: w_def m_def)
  have g: "geometry lb" and len: "length log = ?p + ?l" "length ?X = ?l"
    and act: "active lb = ?X @ zeros (?c - ?l)"
    using assms(1) by (simp_all add: mem_ok_def)
  have o: "?o < 2" "?l \<le> ?c" "length (slots lb) = 2" "?s \<le> ?c" "?c \<le> 2 ^ 33" "is_power_of_two ?s"
    "?s dvd ?p"
    using g by (simp_all add: geometry_def)
  have no: "1 - ?o \<noteq> ?o" using o(1) by arith
  have mc: "m \<le> ?c" using sector_pos [OF g] o(4) by (simp add: m_def) (metis le_trans mod_less_divisor less_imp_le)
  let ?N = "round_up (?l + fs) ?s"
  have "fs \<le> 2 ^ 29" using record_ok_bounds(1) [OF assms(4)] assms(5) by (simp add: FRAME_OVERHEAD_def)
  then have "?l + fs + ?s \<le> 2 ^ 64" using o by simp
  from round_up_eq [OF o(6) this] have N: "?l + fs \<le> ?N"
    using sector_pos [OF g] div_mult_mod_eq [of "?l + fs + ?s - 1" ?s]
      mod_less_divisor [of ?s "?l + fs + ?s - 1"] by linarith
  let ?S = "?X @ ?fr @ zeros (?N - (?l + fs))"
  have scr: "copy_at 0 (slice 0 ?l (active lb)) (copy_at ?l ?fr (zeros ?N)) = ?S"
    using len(2) o(2) assms(5) N geometry_active [OF g]
    by (intro oversize_scratch [of _ _ _ _ _ _ ?c]) (simp_all add: act del: length_drop)
  have enc: "(case encoded of
      Some fr \<Rightarrow> Inr (copy_at ?l fr (zeros ?N))
    | None \<Rightarrow> bind_ok (encode_frame_into C payload (slice ?l (?l + fs) (zeros ?N)))
        (\<lambda>(fr, _). Inr (copy_at ?l fr (zeros ?N)))) = Inr (copy_at ?l ?fr (zeros ?N))"
    using assms(5,6) N encode_frame_into_ok [OF assms(4), of "slice ?l (?l + fs) (zeros ?N)" C]
    by auto
  have T: "slice w (?l + fs) ?S = drop w (?X @ ?fr)"
    using slice_to_end [of "?X @ ?fr" "?l + fs" w "zeros (?N - (?l + fs))"] len(2) assms(5)
    by (simp del: length_drop)
  have slot: "copy_at 0 (drop w (?X @ ?fr)) (copy_at 0 (zeros ?l) (active lb)) =
      drop w (?X @ ?fr) @ zeros (?c - m)"
  proof -
    have "copy_at 0 (zeros ?l) (active lb) = zeros ?c"
      unfolding act using copy_at_front [of ?X "zeros ?l"] len(2) o(2)
      by (simp add: replicate_add [symmetric] del: length_drop)
    moreover have "length (drop w (?X @ ?fr)) = m" using len(2) wm(2) assms(5) by simp
    ultimately show ?thesis by (simp add: copy_at_def drop_replicate del: length_drop)
  qed
  have lb': "lb' = lb\<lparr>slots := (slots lb)[?o := drop w (?X @ ?fr) @ zeros (?c - m)], active_len := m,
      active_flush_pos := ?p + w, flushing := Some InScratch\<rparr>"
    and j: "j = ScratchJob ?S ?p (?p + ?l) fs"
    using assms(7) enc scr T slot unfolding oversize_begin_def Let_def
    by (auto simp: bind_ok_Inr_iff wm(1,2) split: option.splits dest!: aligned_buf_new_Inr)
  have dl: "drop w (?X @ ?fr) = drop (?p + w) ?L" "length (drop w (?X @ ?fr)) = m"
    using len wm(2) assms(5) by (simp_all add: add.commute)
  have "length (drop w (?X @ ?fr) @ zeros (?c - m)) = ?c" using dl(2) mc by simp
  moreover have "?s dvd ?p + w" using o(7) wm(4) by simp
  ultimately have g': "geometry lb'"
    by (intro geometry_update [OF g]) (use o(1) mc in \<open>simp_all add: lb'\<close>)
  have "active lb' = drop (?p + w) ?L @ zeros (?c - m)"
    using o(1,3) by (simp only: dl(1) [symmetric]) (simp add: lb' active_def)
  with g' len wm(3) assms(5) have "mem_ok lb' ?L" by (simp add: mem_ok_def lb')
  moreover have "dormant_ok lb'" using assms(2,3) no by (simp add: dormant_ok_def lb')
  moreover have "job_ok lb' j ?L \<and> job_reaches lb' j ?L (length ?L)"
  proof -
    have "covers ?S ?p ?L (?l + fs)"
      using len N assms(5) by (simp add: covers_def)
    moreover have "?p + w \<le> ?p + (?l + fs)" using wm(3) by simp
    ultimately show ?thesis using len(1) assms(5) by (auto simp: job_ok_def job_reaches_def job_bytes_def j lb')
  qed
  ultimately show ?thesis using len(1) by (simp add: lb' j)
qed

lemma encode_ahead_Inr:
  assumes "encode_ahead C lb payload = Inr (fs, enc)"
  shows "record_ok payload \<and> fs = length (frame C payload) \<and>
    enc = (if fs \<le> capacity lb then Some (frame C payload) else None)"
  using assms
  by (auto simp: encode_ahead_def frame_len_eq [of payload C] encode_frame_owned_eq split: if_splits)

lemma append_iter_done:
  assumes "append_iter lb p enc fs = TurnDone lb' (Inr (s, e))"
  obtains fr where "enc = Some fr" "active_len lb + fs \<le> capacity lb" "poison_check p = Inr ()"
    "s = active_flush_pos lb + active_len lb" "e = s + fs"
    "lb' = lb\<lparr>slots := (slots lb)[active_idx lb := copy_at (active_len lb) fr (active lb)],
        active_len := active_len lb + fs\<rparr>"
  using assms by (auto simp: append_iter_def Let_def split: sum.splits option.splits if_splits)

lemma append_iter_idle:
  "append_iter lb p enc fs \<in> {TurnRotate, TurnOversize} \<Longrightarrow> flushing lb = None \<and> poison_check p = Inr ()"
  by (auto simp: append_iter_def Let_def split: sum.splits option.splits if_splits)

text \<open>What an append leaves alone: everything but the active slot's contents and length.\<close>

definition same_but_active :: "log_buffer \<Rightarrow> log_buffer \<Rightarrow> bool" where
  "same_but_active lb' lb \<longleftrightarrow>
     flushing lb' = flushing lb \<and> active_idx lb' = active_idx lb \<and>
     active_flush_pos lb' = active_flush_pos lb \<and> capacity lb' = capacity lb \<and>
     slots lb' ! (1 - active_idx lb) = slots lb ! (1 - active_idx lb)"

lemma same_but_active_dormant: "same_but_active lb' lb \<Longrightarrow> dormant_ok lb \<Longrightarrow> dormant_ok lb'"
  by (simp add: same_but_active_def dormant_ok_def split: option.splits in_flight_write.splits)

lemma same_but_active_bytes:
  assumes "same_but_active lb' lb" and "dormant_ok lb" and "job_ok lb j log"
  shows "job_bytes lb' j = job_bytes lb j"
  using assms by (cases j) (auto simp: job_bytes_def job_ok_def same_but_active_def dormant_ok_def)

lemma same_but_active_job:
  assumes "same_but_active lb' lb" and "dormant_ok lb" and "job_ok lb j log"
  shows "job_ok lb' j (log @ x)"
proof -
  have "job_bytes lb' j = job_bytes lb j" by (rule same_but_active_bytes [OF assms])
  then show ?thesis
    using assms by (cases j) (auto simp: job_ok_def same_but_active_def dormant_ok_def dest: covers_append)
qed

lemma append_iter_ok:
  assumes "mem_ok lb log" and "append_iter lb p enc fs = TurnDone lb' (Inr (s, e))"
    and "enc = Some fr" and "fs = length fr"
  shows "mem_ok lb' (log @ fr) \<and> s = length log \<and> e = length (log @ fr) \<and> same_but_active lb' lb"
proof -
  from append_iter_done [OF assms(2)] assms(3,4)
  have fit: "active_len lb + length fr \<le> capacity lb"
    and se: "s = active_flush_pos lb + active_len lb" "e = s + length fr"
    and lb': "lb' = lb\<lparr>slots := (slots lb)[active_idx lb := copy_at (active_len lb) fr (active lb)],
        active_len := active_len lb + length fr\<rparr>"
    by auto
  have "length log = active_flush_pos lb + active_len lb" "active_idx lb < 2"
    using assms(1) by (simp_all add: mem_ok_def geometry_def)
  moreover from this(2) have "active_idx lb \<noteq> 1 - active_idx lb" by arith
  ultimately show ?thesis
    using mem_ok_append [OF assms(1) fit] se by (simp add: lb' same_but_active_def)
qed

lemma batch_same: "try_append_frames_batched C lb rs n = (lb', r) \<Longrightarrow> active_idx lb < 2 \<Longrightarrow> same_but_active lb' lb"
proof -
  assume "try_append_frames_batched C lb rs n = (lb', r)" and "active_idx lb < 2"
  moreover from this(2) have "active_idx lb \<noteq> 1 - active_idx lb" by arith
  ultimately show ?thesis
    by (auto simp: try_append_frames_batched_def same_but_active_def Let_def
        split: if_splits prod.splits sum.splits)
qed

text \<open>The end of a job: the slot is zeroed and the buffer is idle; the log does not change.\<close>

lemma job_end_ok:
  assumes "mem_ok lb log" and "dormant_ok lb" and "job_ok lb j log" and "job_end lb p j res = (lb', p')"
  shows "mem_ok lb' log \<and> dormant_ok lb' \<and> flushing lb' = None \<and>
    active_flush_pos lb' = active_flush_pos lb \<and>
    p' = (case res of Inl e \<Rightarrow> poison_set e p | Inr _ \<Rightarrow> p)"
proof (cases j)
  case (SlotJob i len wl pos)
  let ?z = "copy_at 0 (zeros len) (slots lb ! i)"
  have g: "geometry lb" using assms(1) by (simp add: mem_ok_def)
  have i: "i = 1 - active_idx lb" "len \<le> capacity lb" "drop len (slots lb ! i) = zeros (capacity lb - len)"
    using assms(2,3) SlotJob by (auto simp: dormant_ok_def job_ok_def)
  have a: "active_idx lb < 2" "length (slots lb) = 2" using g by (simp_all add: geometry_def)
  then have ne: "i \<noteq> active_idx lb" "i < 2" using i(1) by arith+
  have z: "?z = zeros (capacity lb)" using i(2,3) by (simp add: copy_at_def replicate_add [symmetric])
  have lb': "lb' = lb\<lparr>slots := (slots lb)[i := zeros (capacity lb)], flushing := None\<rparr>"
    and p': "p' = (case res of Inl e \<Rightarrow> poison_set e p | Inr _ \<Rightarrow> p)"
    using assms(4) SlotJob z by (simp_all add: job_end_def rotate_end_def)
  have "geometry lb'"
    by (rule geometry_update [OF g, of "zeros (capacity lb)" _ i]) (use g in \<open>simp_all add: lb' geometry_def\<close>)
  moreover have "active lb' = active lb" using ne by (simp add: lb' active_def)
  ultimately show ?thesis
    using assms(1) a ne i(1) p' by (simp add: mem_ok_def dormant_ok_def lb')
next
  case (ScratchJob data pos r sz)
  then show ?thesis
    using assms
    by (auto simp: job_end_def oversize_end_def mem_ok_def geometry_def active_def dormant_ok_def job_ok_def)
qed

text \<open>The write of a job, when it succeeds, brings the file up to the active slot.\<close>

lemma job_run_ok:
  assumes "job_ok lb j log" and "disk_ok d log (job_pos j)" and "job_run lb d j = (d', Inr u)"
  shows "disk_ok d' log (active_flush_pos lb)"
proof -
  from assms(1) obtain n where n: "covers (job_bytes lb j) (job_pos j) log n"
    "active_flush_pos lb \<le> job_pos j + n" by (auto simp: job_ok_def)
  have "disk_ok d' log (job_pos j + n)"
    using assms(2,3) n(1) slot_flush.pw_disk_ok linux_direct.pw_disk_ok
    by (cases j) (auto simp: job_run_def job_bytes_def)
  from disk_ok_mono [OF this n(2)] show ?thesis .
qed

text \<open>A sync point that succeeds brings the file up to the end of the log.\<close>

lemma flush_partial_ok:
  assumes "mem_ok lb log" and "disk_ok d log (active_flush_pos lb)"
    and "flush_partial lb d p = Some (d', p', Inr n)"
  shows "n = length log \<and> disk_ok d' log (length log) \<and> p' = p"
proof (cases "active_len lb = 0")
  case True
  with assms show ?thesis
    by (auto simp: flush_partial_def mem_ok_def Let_def split: if_splits sum.splits)
next
  case False
  let ?a = "round_up (active_len lb) (sector_size lb)" and ?p = "active_flush_pos lb"
  have g: "geometry lb" and len: "length log = ?p + active_len lb" "length (drop ?p log) = active_len lb"
    and act: "active lb = drop ?p log @ zeros (capacity lb - active_len lb)"
    using assms(1) by (simp_all add: mem_ok_def)
  have w: "flush_slot_to_disk lb d ?p (take ?a (active lb)) = (d', Inr ())" and n: "n = length log" "p' = p"
    using assms(3) False len by (auto simp: flush_partial_def Let_def split: if_splits sum.splits prod.splits)
  have ru: "active_len lb \<le> ?a" "?a \<le> capacity lb"
    using g by (auto simp: geometry_def intro: round_up_slot [OF g])
  then have "take ?a (active lb) = drop ?p log @ zeros (?a - active_len lb)"
    unfolding act using len(2) by (simp del: length_drop)
  then have "covers (take ?a (active lb)) ?p log (active_len lb)"
    using len ru by (simp add: covers_def)
  from slot_flush.pw_disk_ok [OF w assms(2) this] n len show ?thesis by simp
qed

section \<open>Any number of threads\<close>

text \<open>
  The shared state, the job whose owner has released the lock (with the result of its write once
  it has one), and the log: the bytes of every record that was given a place.
\<close>

record lb_state =
  buf_of :: log_buffer
  disk_of :: disk
  poison_of :: poison
  work :: "(job \<times> unit result option) option"
  log_of :: bytes

inductive lb_step :: "crc_crate \<Rightarrow> lb_state \<Rightarrow> lb_state \<Rightarrow> bool" for C where
  step_append:
    "encode_ahead C (buf_of st) payload = Inr (fs, Some fr) \<Longrightarrow>
     append_iter (buf_of st) (poison_of st) (Some fr) fs = TurnDone lb' (Inr (s, e)) \<Longrightarrow>
     lb_step C st (st\<lparr>buf_of := lb', log_of := log_of st @ fr\<rparr>)"
| step_batch:
    "list_all record_ok rs \<Longrightarrow>
     try_append_frames_batched C (buf_of st) rs (length (frames C rs)) = (lb', Inr (Some (s, e))) \<Longrightarrow>
     lb_step C st (st\<lparr>buf_of := lb', log_of := log_of st @ frames C rs\<rparr>)"
| step_rotate:
    "encode_ahead C (buf_of st) payload = Inr (fs, enc) \<Longrightarrow>
     append_iter (buf_of st) (poison_of st) enc fs = TurnRotate \<Longrightarrow>
     rotate_begin (buf_of st) = Inr (lb', j) \<Longrightarrow>
     lb_step C st (st\<lparr>buf_of := lb', work := Some (j, None)\<rparr>)"
| step_oversize:
    "encode_ahead C (buf_of st) payload = Inr (fs, enc) \<Longrightarrow>
     append_iter (buf_of st) (poison_of st) enc fs = TurnOversize \<Longrightarrow>
     oversize_begin C (disk_of st) (buf_of st) payload enc fs = Inr (lb', j) \<Longrightarrow>
     lb_step C st (st\<lparr>buf_of := lb', work := Some (j, None), log_of := log_of st @ frame C payload\<rparr>)"
| step_write:
    "work st = Some (j, None) \<Longrightarrow> job_run (buf_of st) (disk_of st) j = (d', res) \<Longrightarrow>
     lb_step C st (st\<lparr>disk_of := d', work := Some (j, Some res)\<rparr>)"
| step_end:
    "work st = Some (j, Some res) \<Longrightarrow> job_end (buf_of st) (poison_of st) j res = (lb', p') \<Longrightarrow>
     lb_step C st (st\<lparr>buf_of := lb', poison_of := p', work := None\<rparr>)"
| step_flush:
    "flush_partial (buf_of st) (disk_of st) (poison_of st) = Some (d', p', res) \<Longrightarrow>
     lb_step C st (st\<lparr>disk_of := d', poison_of := p'\<rparr>)"
| step_poison: "lb_step C st (st\<lparr>poison_of := poison_set e (poison_of st)\<rparr>)"

definition work_ok :: "lb_state \<Rightarrow> bool" where
  "work_ok st \<longleftrightarrow>
     (case work st of
        None \<Rightarrow>
          flushing (buf_of st) = None \<and>
          (\<not> is_set (poison_of st) \<longrightarrow> disk_ok (disk_of st) (log_of st) (active_flush_pos (buf_of st)))
      | Some (j, None) \<Rightarrow>
          job_ok (buf_of st) j (log_of st) \<and>
          (\<not> is_set (poison_of st) \<longrightarrow> disk_ok (disk_of st) (log_of st) (job_pos j))
      | Some (j, Some res) \<Rightarrow>
          job_ok (buf_of st) j (log_of st) \<and>
          (\<not> is_set (poison_of st) \<and> res = Inr () \<longrightarrow>
             disk_ok (disk_of st) (log_of st) (active_flush_pos (buf_of st))))"

definition lb_inv :: "lb_state \<Rightarrow> bool" where
  "lb_inv st \<longleftrightarrow> mem_ok (buf_of st) (log_of st) \<and> dormant_ok (buf_of st) \<and> work_ok st"

text \<open>An append by another thread does not disturb a job.\<close>

lemma work_ok_append:
  assumes "work_ok st" and "same_but_active lb' (buf_of st)" and "dormant_ok (buf_of st)"
  shows "work_ok (st\<lparr>buf_of := lb', log_of := log_of st @ x\<rparr>)"
  using assms same_but_active_job [OF assms(2,3)]
  by (auto simp: work_ok_def same_but_active_def dest: disk_ok_append
      split: option.splits)

lemma job_ok_busy: "job_ok lb j log \<Longrightarrow> flushing lb \<noteq> None"
  by (cases j) (auto simp: job_ok_def)

lemma work_ok_idle: "work_ok st \<Longrightarrow> flushing (buf_of st) = None \<Longrightarrow> work st = None"
  by (auto simp: work_ok_def dest: job_ok_busy split: option.splits)

lemma flush_partial_outcome:
  assumes "flush_partial lb d p = Some (d', p', res)"
  shows "flushing lb = None" "is_set p' \<or> (\<not> is_set p \<and> (\<exists>n. res = Inr n))"
  using assms
  by (auto simp: flush_partial_def poison_check_def Let_def split: if_splits prod.splits sum.splits)

lemma lb_step_inv: "lb_step C st st' \<Longrightarrow> lb_inv st \<Longrightarrow> lb_inv st'"
proof (induction rule: lb_step.induct)
  case (step_append st payload fs fr lb' s e)
  have "fs = length fr" using encode_ahead_Inr [OF step_append(1)] by (auto split: if_splits)
  with append_iter_ok [OF _ step_append(2) refl] step_append(3)
  have "mem_ok lb' (log_of st @ fr)" "same_but_active lb' (buf_of st)" by (auto simp: lb_inv_def)
  with step_append(3) show ?case
    by (simp add: lb_inv_def work_ok_append same_but_active_dormant)
next
  case (step_batch rs st lb' s e)
  from batch_mem_ok [OF _ step_batch(1) refl step_batch(2)] step_batch(3)
  have "mem_ok lb' (log_of st @ frames C rs)" by (simp add: lb_inv_def)
  moreover have "same_but_active lb' (buf_of st)"
    using batch_same [OF step_batch(2)] step_batch(3) by (simp add: lb_inv_def mem_ok_def geometry_def)
  ultimately show ?case
    using step_batch(3) by (simp add: lb_inv_def work_ok_append same_but_active_dormant)
next
  case (step_rotate st payload fs enc lb' j)
  have idle: "flushing (buf_of st) = None" "work st = None"
    using append_iter_idle [of "buf_of st"] step_rotate(2,4) work_ok_idle by (auto simp: lb_inv_def)
  from rotate_begin_ok [OF _ idle(1) _ step_rotate(3), of "log_of st"] step_rotate(4) idle
  show ?case by (auto simp: lb_inv_def work_ok_def)
next
  case (step_oversize st payload fs enc lb' j)
  have idle: "flushing (buf_of st) = None" "work st = None"
    using append_iter_idle [of "buf_of st"] step_oversize(2,4) work_ok_idle by (auto simp: lb_inv_def)
  have "record_ok payload" "fs = length (frame C payload)" "enc = None \<or> enc = Some (frame C payload)"
    using encode_ahead_Inr [OF step_oversize(1)] by auto
  from oversize_begin_ok [OF _ idle(1) _ this step_oversize(3), of "log_of st"] step_oversize(4) idle
  show ?case by (auto simp: lb_inv_def work_ok_def disk_ok_append)
next
  case (step_write st j d' res)
  with job_run_ok [of "buf_of st" j "log_of st" "disk_of st" d'] show ?case
    by (auto simp: lb_inv_def work_ok_def)
next
  case (step_end st j res lb' p')
  from job_end_ok [OF _ _ _ step_end(2), of "log_of st"] step_end(1,3) show ?case
    by (auto simp: lb_inv_def work_ok_def split: sum.splits)
next
  case (step_flush st d' p' res)
  have idle: "flushing (buf_of st) = None" "work st = None"
    using flush_partial_outcome(1) [OF step_flush(1)] step_flush(2) work_ok_idle by (auto simp: lb_inv_def)
  show ?case
  proof (cases "is_set p'")
    case True
    with step_flush(2) idle show ?thesis by (simp add: lb_inv_def work_ok_def)
  next
    case False
    with flush_partial_outcome(2) [OF step_flush(1)] obtain n where n: "res = Inr n" "\<not> is_set (poison_of st)"
      by auto
    with step_flush(2) idle
    have mem: "mem_ok (buf_of st) (log_of st)"
      and "disk_ok (disk_of st) (log_of st) (active_flush_pos (buf_of st))"
      by (simp_all add: lb_inv_def work_ok_def)
    from flush_partial_ok [OF this step_flush(1) [unfolded n(1)]]
    have "disk_ok d' (log_of st) (active_flush_pos (buf_of st))"
      using mem by (auto simp: mem_ok_def elim: disk_ok_mono)
    with step_flush(2) idle show ?thesis by (simp add: lb_inv_def work_ok_def)
  qed
next
  case (step_poison st e)
  then show ?case by (auto simp: lb_inv_def work_ok_def split: option.splits)
qed

text \<open>A buffer seated at the end of a file that ends on a record.\<close>

definition lb_init :: "log_buffer \<Rightarrow> disk \<Rightarrow> lb_state" where
  "lb_init lb d =
     \<lparr>buf_of = lb, disk_of = d, poison_of = poison_new, work = None,
      log_of = take (active_flush_pos lb) (contents d) @ take (active_len lb) (active lb)\<rparr>"

lemma resume_mem_ok:
  assumes "log_buffer_new d ring cap ss 0 = Inr lb0" and "is_power_of_two ss" and "cap < 2 ^ 32" "ss < 2 ^ 32"
    and "set_flush_pos_for_resume lb0 pos prefix = Inr lb" and "pos \<le> length (contents d)"
  shows "lb_inv (lb_init lb d)"
proof -
  let ?c = "max (round_up cap ss) ss"
  have lb0: "lb0 = \<lparr>iouring = ring, slots = [zeros ?c, zeros ?c], capacity = ?c, sector_size = ss,
      active_idx = 0, active_len = 0, active_flush_pos = 0, flushing = None\<rparr>"
    using assms(1) by (auto simp: log_buffer_new_def Let_def bind_ok_Inr_iff dest!: aligned_buf_new_Inr)
  have pr: "pos mod ss = 0" "length prefix < ss"
    and lb: "lb = lb0\<lparr>active_flush_pos := pos, slots := [copy_at 0 prefix (zeros ?c), zeros ?c],
      active_len := length prefix\<rparr>"
    using assms(5) by (auto simp: set_flush_pos_for_resume_def lb0 active_def split: if_splits)
  have ru: "round_up cap ss = (cap + ss - 1) div ss * ss"
    using assms(3,4) by (intro round_up_eq [OF assms(2)]) simp
  have "ss dvd ?c" unfolding ru by (simp add: max_def)
  moreover have "round_up cap ss \<le> cap + ss - 1"
    unfolding ru by (rule div_times_less_eq_dividend)
  then have "?c \<le> 2 ^ 33" using assms(3,4) by simp
  moreover have "copy_at 0 prefix (zeros ?c) = prefix @ zeros (?c - length prefix)"
    using pr(2) by (simp add: copy_at_def drop_replicate)
  moreover have "length prefix \<le> ?c" using pr(2) by simp
  ultimately have "geometry lb" "active lb = prefix @ zeros (?c - length prefix)"
    using assms(2) pr by (simp_all add: geometry_def lb lb0 active_def mod_eq_0_iff_dvd)
  then show ?thesis
    using assms(6) by (simp add: lb_inv_def lb_init_def mem_ok_def dormant_ok_def work_ok_def disk_ok_def lb lb0)
qed

lemma resume_log:
  assumes "log_buffer_new d ring cap ss 0 = Inr lb0" and "set_flush_pos_for_resume lb0 pos prefix = Inr lb"
  shows "log_of (lb_init lb d) = take pos (contents d) @ prefix"
proof -
  let ?c = "max (round_up cap ss) ss"
  have "slots lb0 = [zeros ?c, zeros ?c]" "active_idx lb0 = 0" "sector_size lb0 = ss"
    using assms(1) by (auto simp: log_buffer_new_def Let_def bind_ok_Inr_iff dest!: aligned_buf_new_Inr)
  then show ?thesis
    using assms(2) by (auto simp: set_flush_pos_for_resume_def active_def lb_init_def copy_at_def split: if_splits)
qed

lemma lb_inv_reachable:
  assumes "(lb_step C)\<^sup>*\<^sup>* s0 s" and "lb_inv s0"
  shows "lb_inv s"
  using assms(1)
proof (induction rule: rtranclp_induct)
  case base
  show ?case by (rule assms(2))
qed (rule lb_step_inv)

lemma lb_log_frames:
  assumes "(lb_step C)\<^sup>*\<^sup>* s0 s"
  shows "\<exists>ps. list_all record_ok ps \<and> log_of s = log_of s0 @ frames C ps"
  using assms
proof (induction rule: rtranclp_induct)
  case base
  show ?case by (rule exI [of _ "[]"]) simp
next
  case (step s1 s2)
  then obtain ps where ps: "list_all record_ok ps" "log_of s1 = log_of s0 @ frames C ps" by blast
  have "\<exists>qs. list_all record_ok qs \<and> log_of s2 = log_of s1 @ frames C qs"
    using step(2)
  proof (cases rule: lb_step.cases)
    case (step_append payload fs fr lb' s e)
    then show ?thesis
      using encode_ahead_Inr [OF step_append(2)]
      by (intro exI [of _ "[payload]"]) (auto split: if_splits)
  next
    case (step_oversize payload fs enc lb' j)
    then show ?thesis
      using encode_ahead_Inr [OF step_oversize(2)] by (intro exI [of _ "[payload]"]) simp
  qed (auto intro: exI [of _ "[]"])
  then obtain qs where "list_all record_ok qs" "log_of s2 = log_of s1 @ frames C qs" by blast
  with ps show ?case by (intro exI [of _ "ps @ qs"]) simp
qed

section \<open>One thread: the append returns, and appends\<close>

text \<open>The buffer at rest, its log, and a file that holds everything below the active slot.\<close>

definition at_rest :: "log_buffer \<Rightarrow> disk \<Rightarrow> bytes \<Rightarrow> bool" where
  "at_rest lb d log \<longleftrightarrow>
     mem_ok lb log \<and> dormant_ok lb \<and> flushing lb = None \<and> disk_ok d log (active_flush_pos lb)"

lemma rotate_ok:
  assumes "at_rest lb d log" and "rotate lb d p = (lb', d', p', Inr u)"
  shows "at_rest lb' d' log \<and> p' = p \<and> active_len lb' = active_len lb mod sector_size lb \<and>
    capacity lb' = capacity lb"
proof -
  obtain lb1 j where b: "rotate_begin lb = Inr (lb1, j)"
    using assms(2) by (auto simp: rotate_def split: sum.splits)
  from assms(2) b have r: "job_run lb1 d j = (d', Inr ())" and e: "job_end lb1 p j (Inr ()) = (lb', p')"
    by (auto simp: rotate_def split: prod.splits)
  from rotate_begin_ok [OF _ _ _ b, of log] assms(1)
  have b1: "mem_ok lb1 log" "dormant_ok lb1" "job_ok lb1 j log" "disk_ok d log (job_pos j)"
    by (auto simp: at_rest_def)
  from job_end_ok [OF b1(1-3) e] job_run_ok [OF b1(3,4) r]
  have "at_rest lb' d' log \<and> p' = p" by (simp add: at_rest_def)
  moreover have "active_len lb1 = active_len lb mod sector_size lb" "capacity lb1 = capacity lb"
    using b by (auto simp: rotate_begin_def Let_def mod_whole(2) split: option.splits)
  moreover have "active_len lb' = active_len lb1" "capacity lb' = capacity lb1"
    using e by (cases j; auto simp: job_end_def rotate_end_def oversize_end_def)+
  ultimately show ?thesis by simp
qed

lemma append_oversize_ok:
  assumes "at_rest lb d log" and "record_ok payload" and "fs = length (frame C payload)"
    and "enc = None \<or> enc = Some (frame C payload)"
    and "append_oversize C lb d p payload enc fs = (lb', d', p', Inr (s, e))"
  shows "at_rest lb' d' (log @ frame C payload) \<and> s = length log \<and> e = length (log @ frame C payload) \<and> p' = p"
proof -
  obtain lb1 j where b: "oversize_begin C d lb payload enc fs = Inr (lb1, j)"
    using assms(5) by (auto simp: append_oversize_def split: sum.splits)
  from assms(5) b have r: "job_run lb1 d j = (d', Inr ())" and e: "job_end lb1 p j (Inr ()) = (lb', p')"
    and se: "s = job_record j" "e = job_record j + fs"
    by (auto simp: append_oversize_def bind_ok_Inr_iff split: prod.splits)
  from oversize_begin_ok [OF _ _ _ assms(2-4) b, of log] assms(1)
  have b1: "mem_ok lb1 (log @ frame C payload)" "dormant_ok lb1" "job_ok lb1 j (log @ frame C payload)"
    "disk_ok d (log @ frame C payload) (job_pos j)" "job_record j = length log"
    by (auto simp: at_rest_def disk_ok_append)
  from job_end_ok [OF b1(1-3) e] job_run_ok [OF b1(3,4) r] b1(5) se assms(3) show ?thesis
    by (simp add: at_rest_def)
qed

text \<open>
  The only ways for an append to be refused: a poisoned journal, no memory for the scratch buffer,
  and a log that outgrows 64 bits.
\<close>

definition append_excused :: "crc_crate \<Rightarrow> disk \<Rightarrow> bytes \<Rightarrow> bytes \<Rightarrow> poison \<Rightarrow> bool" where
  "append_excused C d log payload p' \<longleftrightarrow>
     is_set p' \<or> oom d \<or> 2 ^ 64 \<le> length (log @ frame C payload)"

lemma rotate_begin_total:
  assumes "mem_ok lb log" and "rotate_begin lb = Inl e"
  shows "2 ^ 64 \<le> length log"
proof -
  have "length log = active_flush_pos lb + active_len lb" using assms(1) by (simp add: mem_ok_def)
  moreover have "u64_max < active_flush_pos lb + (active_len lb - active_len lb mod sector_size lb)"
    using assms(2) by (simp add: rotate_begin_def Let_def split: option.splits)
  ultimately show ?thesis by (simp add: u64_max_def)
qed

lemma oversize_begin_total:
  assumes "mem_ok lb log" and "record_ok payload" and "fs = length (frame C payload)"
    and "\<not> oom d" and "length (log @ frame C payload) < 2 ^ 64"
  shows "\<exists>x. oversize_begin C d lb payload enc fs = Inr x"
proof -
  let ?n = "active_len lb + fs" and ?s = "sector_size lb"
  have g: "geometry lb" "length log = active_flush_pos lb + active_len lb"
    using assms(1) by (simp_all add: mem_ok_def)
  then have ps: "is_power_of_two ?s" and c: "active_len lb \<le> 2 ^ 33" "?s \<le> 2 ^ 33"
    by (auto simp: geometry_def)
  have fs: "0 < fs" "fs < 2 ^ 29"
    using assms(2,3) by (simp_all add: record_ok_def FRAME_MAX_PAYLOAD_def FRAME_OVERHEAD_def)
  have ru: "round_up ?n ?s = (?n + ?s - 1) div ?s * ?s"
    using fs c by (intro round_up_eq [OF ps]) simp
  have "round_up ?n ?s \<le> ?n + ?s - 1" unfolding ru by (rule div_times_less_eq_dividend)
  then have hi: "\<not> 2 ^ 63 - ?s < round_up ?n ?s" using fs c by simp
  have s: "0 < ?s" by (rule sector_pos [OF g(1)])
  have "1 \<le> (?n + ?s - 1) div ?s" using s fs by (simp add: div_greater_zero_iff Suc_le_eq)
  then have lo: "round_up ?n ?s \<noteq> 0" unfolding ru using s by simp
  have le: "?n \<le> round_up ?n ?s"
  proof -
    have "(?n + ?s - 1) div ?s * ?s + (?n + ?s - 1) mod ?s = ?n + ?s - 1" by (rule div_mult_mod_eq)
    moreover have "(?n + ?s - 1) mod ?s < ?s" using s by simp
    ultimately show ?thesis unfolding ru using s by linarith
  qed
  have "checked_add (active_len lb) fs = Some ?n"
    using fs c by (simp add: u64_max_def)
  moreover have "checked_add (active_flush_pos lb) (?n - ?n mod ?s) = Some (active_flush_pos lb + (?n - ?n mod ?s))"
    using assms(3,5) g(2) by (simp add: u64_max_def)
  moreover have "aligned_buf_new d (round_up ?n ?s) ?s = Inr (zeros (round_up ?n ?s))"
    using lo hi ps assms(4) by (simp add: aligned_buf_new_def)
  moreover have "encode_frame_into C payload (slice (active_len lb) ?n (zeros (round_up ?n ?s))) = Inr (frame C payload, fs)"
    using le assms(3) by (subst encode_frame_into_ok [OF assms(2)]) (simp_all add: slice_def)
  ultimately show ?thesis
    unfolding oversize_begin_def Let_def
    by (cases enc) (simp_all del: checked_add_Some_iff)
qed

text \<open>What the loop owes for one record.\<close>

definition append_post ::
    "crc_crate \<Rightarrow> disk \<Rightarrow> bytes \<Rightarrow> bytes \<Rightarrow> poison \<Rightarrow>
      (log_buffer \<times> disk \<times> poison \<times> (nat \<times> nat) result) option \<Rightarrow> bool" where
  "append_post C d log payload p r \<longleftrightarrow>
     (\<exists>lb' d' p' res. r = Some (lb', d', p', res) \<and>
        (case res of
           Inr (s, e) \<Rightarrow>
             at_rest lb' d' (log @ frame C payload) \<and> s = length log \<and>
             e = length (log @ frame C payload) \<and> p' = p
         | Inl err \<Rightarrow> append_excused C d log payload p'))"

lemma append_post_oversize:
  assumes "at_rest lb d log" and "record_ok payload" and "fs = length (frame C payload)"
    and "enc = None \<or> enc = Some (frame C payload)"
  shows "append_post C d log payload p (Some (append_oversize C lb d p payload enc fs))"
proof -
  obtain lb' d' p' res where r: "append_oversize C lb d p payload enc fs = (lb', d', p', res)"
    by (metis prod_cases4)
  show ?thesis
  proof (cases res)
    case (Inr se)
    with r append_oversize_ok [OF assms, of p lb' d' p' "fst se" "snd se"] show ?thesis
      by (auto simp: append_post_def split: prod.splits)
  next
    case (Inl err)
    have "append_excused C d log payload p'"
    proof (rule ccontr)
      assume "\<not> append_excused C d log payload p'"
      then have n: "\<not> is_set p'" "\<not> oom d" "length (log @ frame C payload) < 2 ^ 64"
        by (auto simp: append_excused_def)
      from oversize_begin_total [OF _ assms(2,3) n(2,3), of lb enc] assms(1)
      obtain lb1 j where b: "oversize_begin C d lb payload enc fs = Inr (lb1, j)"
        by (auto simp: at_rest_def)
      then have "\<exists>x y z w. j = ScratchJob x y z w"
        by (auto simp: oversize_begin_def Let_def bind_ok_Inr_iff split: option.splits)
      with r b Inl n(1) show False
        by (auto simp: append_oversize_def job_end_def oversize_end_def split: prod.splits sum.splits)
    qed
    with r Inl show ?thesis by (simp add: append_post_def)
  qed
qed

lemma append_post_done:
  assumes "at_rest lb d log" and "append_iter lb p enc fs = TurnDone lb' res"
    and "enc = Some (frame C payload) \<or> enc = None" and "fs = length (frame C payload)"
  shows "append_post C d0 log payload p (Some (lb', d, p, res))"
proof (cases res)
  case (Inl err)
  with assms(2) have "is_set p"
    by (auto simp: append_iter_def Let_def poison_check_def split: sum.splits option.splits if_splits)
  with Inl show ?thesis by (simp add: append_post_def append_excused_def)
next
  case (Inr se)
  obtain s e where se: "se = (s, e)" by fastforce
  note dn = assms(2) [unfolded Inr se]
  from append_iter_done [OF dn] assms(3) have enc: "enc = Some (frame C payload)" by auto
  from append_iter_ok [OF _ dn enc assms(4), of log] assms(1)
  have "at_rest lb' d (log @ frame C payload) \<and> s = length log \<and> e = length (log @ frame C payload)"
    by (auto simp: at_rest_def same_but_active_def disk_ok_append
        intro: same_but_active_dormant [of lb' lb, unfolded same_but_active_def])
  then show ?thesis by (simp add: append_post_def Inr se)
qed

lemma append_post_rotate_failed:
  assumes "at_rest lb d log" and "rotate lb d p = (lb', d', p', Inl e)"
  shows "append_post C d log payload p (Some (lb', d', p', Inl e))"
proof -
  have "is_set p' \<or> 2 ^ 64 \<le> length log"
  proof (cases "rotate_begin lb")
    case (Inl e')
    with rotate_begin_total [of lb log e'] assms(1) show ?thesis by (simp add: at_rest_def)
  next
    case (Inr x)
    then obtain lb1 i n w q where "rotate_begin lb = Inr (lb1, SlotJob i n w q)"
      by (cases x) (auto simp: rotate_begin_def Let_def split: option.splits)
    with assms(2) show ?thesis
      by (auto simp: rotate_def job_end_def rotate_end_def split: prod.splits sum.splits)
  qed
  then show ?thesis by (auto simp: append_post_def append_excused_def)
qed

lemma append_loop_post:
  assumes "at_rest lb d log" and "encode_ahead C lb payload = Inr (fs, enc)"
  shows "append_post C d log payload p (append_loop C lb d p payload enc fs)"
proof -
  from encode_ahead_Inr [OF assms(2)]
  have pl: "record_ok payload" "fs = length (frame C payload)"
    and enc: "enc = (if fs \<le> capacity lb then Some (frame C payload) else None)" by auto
  then have enc': "enc = Some (frame C payload) \<or> enc = None" by simp
  have idle: "flushing lb = None" using assms(1) by (simp add: at_rest_def)
  show ?thesis
  proof (cases "append_iter lb p enc fs")
    case (TurnDone lb1 res)
    with append_post_done [OF assms(1) TurnDone enc' pl(2)] show ?thesis
      by (subst append_loop.simps) simp
  next
    case TurnWait
    with idle show ?thesis
      by (auto simp: append_iter_def Let_def split: sum.splits option.splits if_splits)
  next
    case TurnOversize
    with append_post_oversize [OF assms(1) pl, of enc p] enc' show ?thesis
      by (subst append_loop.simps) auto
  next
    case TurnRotate
    obtain lb1 d1 p1 res where r: "rotate lb d p = (lb1, d1, p1, res)" by (metis prod_cases4)
    show ?thesis
    proof (cases res)
      case (Inl e)
      with TurnRotate r append_post_rotate_failed [OF assms(1), of p lb1 d1 p1 e] show ?thesis
        by (subst append_loop.simps) simp
    next
      case (Inr u)
      from rotate_ok [OF assms(1)] r Inr
      have n: "at_rest lb1 d1 log" "p1 = p" "active_len lb1 = active_len lb mod sector_size lb"
        "capacity lb1 = capacity lb" by auto
      have fit: "active_len lb mod sector_size lb + fs \<le> capacity lb" "poison_check p = Inr ()"
        using TurnRotate by (auto simp: append_iter_def Let_def split: sum.splits option.splits if_splits)
      with enc have "enc = Some (frame C payload)" by simp
      with fit n obtain lb2 se where t: "append_iter lb1 p1 enc fs = TurnDone lb2 (Inr se)"
        by (auto simp: append_iter_def Let_def)
      have "append_loop C lb d p payload enc fs = Some (lb2, d1, p1, Inr se)"
        using TurnRotate r Inr t
        by (subst append_loop.simps, simp, subst append_loop.simps, simp)
      with append_post_done [OF n(1) t enc' pl(2), of d] n(2) show ?thesis by simp
    qed
  qed
qed

lemma append_frame_post:
  assumes "at_rest lb d log" and "record_ok payload"
  shows "append_post C d log payload p (append_frame C lb d p payload)"
proof -
  obtain fs enc where "encode_ahead C lb payload = Inr (fs, enc)"
    using assms(2) by (fastforce simp: encode_ahead_def frame_len_eq [of payload C] encode_frame_owned_eq)
  with append_loop_post [OF assms(1) this, of p] show ?thesis by (simp add: append_frame_def)
qed

lemma append_frame_too_large:
  assumes "\<not> record_ok payload"
  shows "append_frame C lb d p payload = Some (lb, d, p, Inl payload_too_large)"
  using assms by (simp add: append_frame_def encode_ahead_def frame_len_eq [of payload C])

section \<open>Properties\<close>

text \<open>
  C10: A sync point of a Direct-IO journal under any interleaving of appends, batches, rotations, oversize
  records, background failures and earlier flushes: when it succeeds, the file holds, below the LSN it returns, the bytes the
  journal was opened on followed by whole frames, one per record appended so far, with no gap and
  no overlap, and nothing appended so far lies beyond that LSN.
\<close>

theorem flushed_log_is_on_disk:
  assumes "log_buffer_new d ring cap ss 0 = Inr lb0" and "is_power_of_two ss"
    and "cap < 2 ^ 32" and "ss < 2 ^ 32"
    and "set_flush_pos_for_resume lb0 pos prefix = Inr lb" and "pos \<le> length (contents d)"
    and "(lb_step C)\<^sup>*\<^sup>* (lb_init lb d) st"
    and "flush_partial (buf_of st) (disk_of st) (poison_of st) = Some (d', p', Inr n)"
  shows "n = next_lsn_of (buf_of st) \<and>
    (\<exists>ps. list_all record_ok ps \<and> take n (contents d') = take pos (contents d) @ prefix @ frames C ps)"
proof -
  have inv: "lb_inv st"
    by (rule lb_inv_reachable [OF assms(7) resume_mem_ok [OF assms(1-6)]])
  have idle: "flushing (buf_of st) = None" "\<not> is_set (poison_of st)"
    using assms(8) by (auto simp: flush_partial_def poison_check_def Let_def split: if_splits)
  with inv have m: "mem_ok (buf_of st) (log_of st)"
    "disk_ok (disk_of st) (log_of st) (active_flush_pos (buf_of st))"
    using work_ok_idle [of st] by (auto simp: lb_inv_def work_ok_def)
  from flush_partial_ok [OF m assms(8)]
  have n: "n = length (log_of st)" "disk_ok d' (log_of st) n" by auto
  have "log_of (lb_init lb d) = take pos (contents d) @ prefix"
    by (rule resume_log [OF assms(1,5)])
  with lb_log_frames [OF assms(7)] n m(1) show ?thesis
    by (auto simp: disk_ok_def next_lsn_of_def mem_ok_def)
qed

text \<open>
  Appending to a buffer at rest returns: the loop ends after at most one rotation. It either
  gives the record the LSN range of its frame at the end of the log, and the buffer and the file
  represent the log with that frame appended; or it is refused, and then the journal is poisoned,
  or there is no memory, or the log would outgrow 64 bits.
\<close>

lemma append_frame_returns:
  assumes "at_rest lb d log" and "record_ok payload"
  shows "\<exists>lb' d' p' res. append_frame C lb d p payload = Some (lb', d', p', res) \<and>
     (case res of
        Inr (s, e) \<Rightarrow>
          at_rest lb' d' (log @ frame C payload) \<and> s = length log \<and>
          e = length (log @ frame C payload) \<and> p' = p
      | Inl err \<Rightarrow> is_set p' \<or> oom d \<or> 2 ^ 64 \<le> length (log @ frame C payload))"
  using append_frame_post [OF assms, of C p] unfolding append_post_def append_excused_def .

text \<open>
  The batched append is all or nothing: it takes the whole batch, as contiguous frames in order
  at the end of the log, exactly when the frames fit in what is left of the active slot, and
  otherwise leaves the buffer as it was.
\<close>

lemma batch_append_all_or_nothing:
  assumes "mem_ok lb log" and "list_all record_ok rs" and "n = length (frames C rs)"
  shows "if active_len lb + n \<le> capacity lb
    then \<exists>lb'. try_append_frames_batched C lb rs n = (lb', Inr (Some (length log, length log + n))) \<and>
      mem_ok lb' (log @ frames C rs)
    else try_append_frames_batched C lb rs n = (lb, Inr None)"
  using batch_total [OF assms] by simp

subsection \<open>Witnesses\<close>

text \<open>A fresh file, 16-byte sectors and slots of one sector.\<close>

definition fresh_disk :: disk where
  "fresh_disk = \<lparr>contents = [], script = [], oom = False\<rparr>"

definition fresh_buffer :: log_buffer where
  "fresh_buffer = \<lparr>iouring = False, slots = [zeros 16, zeros 16], capacity = 16, sector_size = 16,
     active_idx = 0, active_len = 0, active_flush_pos = 0, flushing = None\<rparr>"

lemma power_of_two_16: "is_power_of_two 16"
  unfolding is_power_of_two_def by (rule exI [of _ 4]) simp

lemma fresh_buffer_new: "log_buffer_new fresh_disk False 16 16 0 = Inr fresh_buffer"
proof -
  have "round_up 16 16 = 16" using round_up_eq [OF power_of_two_16, of 16] by simp
  then show ?thesis
    using power_of_two_16
    by (simp add: log_buffer_new_def Let_def aligned_buf_new_def fresh_disk_def fresh_buffer_def)
qed

lemma fresh_buffer_seated: "set_flush_pos_for_resume fresh_buffer 0 [] = Inr fresh_buffer"
  by (simp add: set_flush_pos_for_resume_def fresh_buffer_def copy_at_def active_def)

lemma fresh_at_rest: "at_rest fresh_buffer fresh_disk []"
proof -
  have "lb_inv (lb_init fresh_buffer fresh_disk)"
    by (rule resume_mem_ok [OF fresh_buffer_new power_of_two_16 _ _ fresh_buffer_seated]) simp_all
  then show ?thesis
    by (simp add: lb_inv_def work_ok_def lb_init_def at_rest_def fresh_disk_def fresh_buffer_def is_set_def poison_new_def)
qed

lemma small_record_ok: "length p \<le> 100 \<Longrightarrow> record_ok p"
  by (simp add: record_ok_def FRAME_MAX_PAYLOAD_def)

theorem flushed_log_is_on_disk_witness:
  "\<exists>st d' p' n ps. (lb_step rfc3720)\<^sup>*\<^sup>* (lb_init fresh_buffer fresh_disk) st \<and>
     flush_partial (buf_of st) (disk_of st) (poison_of st) = Some (d', p', Inr n) \<and>
     n = 13 \<and> list_all record_ok ps \<and> take 13 (contents d') = frames rfc3720 ps"
proof -
  let ?s0 = "lb_init fresh_buffer fresh_disk" and ?f = "frame rfc3720 [7]"
  define lb where "lb = fresh_buffer\<lparr>slots := (slots fresh_buffer)[0 := copy_at 0 ?f (zeros 16)], active_len := 13\<rparr>"
  define st where "st = ?s0\<lparr>buf_of := lb, log_of := log_of ?s0 @ ?f\<rparr>"
  have len: "length ?f = 13" by (simp add: FRAME_OVERHEAD_def)
  have ahead: "encode_ahead rfc3720 (buf_of ?s0) [7] = Inr (13, Some ?f)"
    using small_record_ok [of "[7]"] len
    by (simp add: encode_ahead_def frame_len_def FRAME_MAX_PAYLOAD_def encode_frame_owned_eq lb_init_def fresh_buffer_def)
  have "append_iter (buf_of ?s0) (poison_of ?s0) (Some ?f) 13 = TurnDone lb (Inr (0, 13))"
    by (simp add: append_iter_def lb_init_def fresh_buffer_def lb_def Let_def active_def)
  from lb_step.step_append [OF ahead this] have st: "(lb_step rfc3720)\<^sup>*\<^sup>* ?s0 st"
    by (simp add: st_def r_into_rtranclp)
  have "round_up 13 16 = 16" using round_up_eq [OF power_of_two_16, of 13] by simp
  then obtain d' p' where fl: "flush_partial (buf_of st) (disk_of st) (poison_of st) = Some (d', p', Inr 13)"
    using len
    by (simp add: flush_partial_def st_def lb_init_def lb_def fresh_buffer_def fresh_disk_def Let_def active_def
        flush_slot_to_disk_def write_at_direct_def write_at_def write_at_loop.simps sys_pwrite_def as_i64_def copy_at_def)
  from flushed_log_is_on_disk [OF fresh_buffer_new power_of_two_16 _ _ fresh_buffer_seated _ st fl]
  obtain ps where "list_all record_ok ps" "take 13 (contents d') = frames rfc3720 ps" by auto
  with st fl show ?thesis by blast
qed

end
