(* ===== verification/Fsys_Options.thy ===== *)
theory Fsys_Options
  imports Fsys_Prelude
begin

text \<open>
  Journal configuration (\<open>src/journal/options.rs\<close>), the write-lifetime hint that the open passes
  to the kernel (\<open>apply_write_lifetime_hint\<close> in \<open>src/journal/mod.rs\<close>, \<open>fcntl_set_rw_hint\<close> in
  \<open>src/platform/linux.rs\<close>) and the backend identity a journal reports
  (\<open>src/journal/backend.rs\<close>). Durations are nanoseconds.
\<close>

section \<open>Data\<close>

definition DEFAULT_LOG_BUFFER_KIB :: nat where
  "DEFAULT_LOG_BUFFER_KIB = 64"

definition MIN_LOG_BUFFER_BYTES :: nat where
  "MIN_LOG_BUFFER_BYTES = 4 * 1024"

definition MAX_LOG_BUFFER_BYTES :: nat where
  "MAX_LOG_BUFFER_BYTES = 64 * 1024 * 1024"

definition DEFAULT_GROUP_COMMIT_WINDOW :: "nat option" where
  "DEFAULT_GROUP_COMMIT_WINDOW = Some (500 * 1000)"

definition DEFAULT_GROUP_COMMIT_MAX_BATCH :: nat where
  "DEFAULT_GROUP_COMMIT_MAX_BATCH = 8"

definition MIN_GROUP_COMMIT_MAX_BATCH :: nat where
  "MIN_GROUP_COMMIT_MAX_BATCH = 1"

definition MAX_GROUP_COMMIT_MAX_BATCH :: nat where
  "MAX_GROUP_COMMIT_MAX_BATCH = 4096"

definition MAX_GROUP_COMMIT_WINDOW :: nat where
  "MAX_GROUP_COMMIT_WINDOW = 100 * 1000 * 1000"

datatype write_lifetime_hint = ShortLife | MediumLife | LongLife | ExtremeLife

datatype sync_mode = SyncFull | SyncBarrier

record journal_options =
  opt_direct :: bool
  opt_log_buffer_kib :: nat
  opt_window :: "nat option"
  opt_max_batch :: nat
  opt_sync_mode :: sync_mode
  opt_hint :: "write_lifetime_hint option"

section \<open>Operations\<close>

definition options_new :: journal_options where
  "options_new =
     \<lparr>opt_direct = False, opt_log_buffer_kib = DEFAULT_LOG_BUFFER_KIB,
      opt_window = DEFAULT_GROUP_COMMIT_WINDOW, opt_max_batch = DEFAULT_GROUP_COMMIT_MAX_BATCH,
      opt_sync_mode = SyncFull, opt_hint = None\<rparr>"

text \<open>\<open>Ord::clamp\<close>.\<close>

definition clamp :: "nat \<Rightarrow> nat \<Rightarrow> nat \<Rightarrow> nat" where
  "clamp lo hi x = (if x < lo then lo else if hi < x then hi else x)"

definition set_direct :: "bool \<Rightarrow> journal_options \<Rightarrow> journal_options" where
  "set_direct yes o1 = o1\<lparr>opt_direct := yes\<rparr>"

definition set_log_buffer_kib :: "nat \<Rightarrow> journal_options \<Rightarrow> journal_options" where
  "set_log_buffer_kib kib o1 =
     o1\<lparr>opt_log_buffer_kib := clamp (MIN_LOG_BUFFER_BYTES div 1024) (MAX_LOG_BUFFER_BYTES div 1024) kib\<rparr>"

definition set_group_commit_window :: "nat option \<Rightarrow> journal_options \<Rightarrow> journal_options" where
  "set_group_commit_window window o1 =
     o1\<lparr>opt_window :=
        (case window of
           None \<Rightarrow> None
         | Some d \<Rightarrow>
             if d = 0 then None
             else if MAX_GROUP_COMMIT_WINDOW < d then Some MAX_GROUP_COMMIT_WINDOW
             else Some d)\<rparr>"

definition set_group_commit_max_batch :: "nat \<Rightarrow> journal_options \<Rightarrow> journal_options" where
  "set_group_commit_max_batch max_batch o1 =
     o1\<lparr>opt_max_batch := clamp MIN_GROUP_COMMIT_MAX_BATCH MAX_GROUP_COMMIT_MAX_BATCH max_batch\<rparr>"

definition set_sync_mode :: "sync_mode \<Rightarrow> journal_options \<Rightarrow> journal_options" where
  "set_sync_mode mode o1 = o1\<lparr>opt_sync_mode := mode\<rparr>"

definition set_write_lifetime_hint :: "write_lifetime_hint option \<Rightarrow> journal_options \<Rightarrow> journal_options" where
  "set_write_lifetime_hint hint o1 = o1\<lparr>opt_hint := hint\<rparr>"

text \<open>The slot size in bytes that an open computes from the options, \<open>u32::saturating_mul\<close> written out.\<close>

definition cap_bytes :: "journal_options \<Rightarrow> nat" where
  "cap_bytes o1 = min (opt_log_buffer_kib o1 * 1024) (2 ^ 32 - 1)"

subsection \<open>The hint on its way to the kernel\<close>

definition hint_ordinal :: "write_lifetime_hint \<Rightarrow> nat" where
  "hint_ordinal h = (case h of ShortLife \<Rightarrow> 0 | MediumLife \<Rightarrow> 1 | LongLife \<Rightarrow> 2 | ExtremeLife \<Rightarrow> 3)"

definition kernel_hint :: "nat \<Rightarrow> nat" where
  "kernel_hint ordinal = saturating_add ordinal 2"

text \<open>
  The value handed to \<open>F_SET_RW_HINT\<close>, if any call is made; the call's result is ignored.
\<close>

definition apply_write_lifetime_hint :: "write_lifetime_hint option \<Rightarrow> nat option" where
  "apply_write_lifetime_hint hint = map_option (\<lambda>h. kernel_hint (hint_ordinal h)) hint"

text \<open>\<open>RWH_WRITE_LIFE_*\<close> of the kernel interface, as the source lists them.\<close>

definition rwh_write_life :: "write_lifetime_hint \<Rightarrow> nat" where
  "rwh_write_life h = (case h of ShortLife \<Rightarrow> 2 | MediumLife \<Rightarrow> 3 | LongLife \<Rightarrow> 4 | ExtremeLife \<Rightarrow> 5)"

subsection \<open>Which backend serves a journal\<close>

datatype journal_backend_kind = KernelIoUring | KernelDirect | KernelBuffered | Spdk

definition backend_as_str :: "journal_backend_kind \<Rightarrow> string" where
  "backend_as_str k =
     (case k of
        KernelIoUring \<Rightarrow> ''kernel-io-uring'' | KernelDirect \<Rightarrow> ''kernel-direct''
      | KernelBuffered \<Rightarrow> ''kernel-buffered'' | Spdk \<Rightarrow> ''spdk'')"

definition backend_is_kernel :: "journal_backend_kind \<Rightarrow> bool" where
  "backend_is_kernel k = (case k of Spdk \<Rightarrow> False | _ \<Rightarrow> True)"

record journal_backend_health =
  health_backend :: journal_backend_kind
  queue_depth_current :: nat
  queue_depth_max :: nat
  appends_per_second :: nat
  avg_append_latency_us :: nat
  p99_append_latency_us :: nat
  failed_appends :: nat

definition backend_health_empty :: "journal_backend_kind \<Rightarrow> journal_backend_health" where
  "backend_health_empty k =
     \<lparr>health_backend = k, queue_depth_current = 0, queue_depth_max = 0, appends_per_second = 0,
      avg_append_latency_us = 0, p99_append_latency_us = 0, failed_appends = 0\<rparr>"

text \<open>The time a snapshot was taken is the caller's clock, an argument.\<close>

record journal_backend_info =
  selected :: journal_backend_kind
  selection_reason :: string
  fallbacks_skipped :: "(journal_backend_kind \<times> string) list"
  opened_at :: nat

definition backend_info_single :: "nat \<Rightarrow> journal_backend_kind \<Rightarrow> string \<Rightarrow> journal_backend_info" where
  "backend_info_single now k reason =
     \<lparr>selected = k, selection_reason = reason, fallbacks_skipped = [], opened_at = now\<rparr>"

text \<open>The native ring is there, was refused, or has not been tried.\<close>

definition backend_kind :: "bool option \<Rightarrow> bool \<Rightarrow> journal_backend_kind" where
  "backend_kind native_ring direct =
     (if native_ring = Some True then KernelIoUring
      else if direct then KernelDirect else KernelBuffered)"

definition backend_health :: "bool option \<Rightarrow> bool \<Rightarrow> journal_backend_health" where
  "backend_health native_ring direct = backend_health_empty (backend_kind native_ring direct)"

definition backend_info :: "nat \<Rightarrow> bool option \<Rightarrow> bool \<Rightarrow> journal_backend_info" where
  "backend_info now native_ring direct =
     (let k = backend_kind native_ring direct;
          reason =
            (case k of
               KernelIoUring \<Rightarrow> ''Linux io_uring native substrate active for this journal''
             | KernelDirect \<Rightarrow> ''Direct-IO mode (JournalOptions::direct(true)) active''
             | KernelBuffered \<Rightarrow> ''default buffered-IO mode (lock-free pwrite + group-commit fdatasync)''
             | Spdk \<Rightarrow> ''SPDK backend in use (opened via fsys-spdk companion crate)'')
      in backend_info_single now k reason)"

section \<open>Every chain of setters\<close>

datatype setter =
    Direct bool | LogBufferKib nat | GroupCommitWindow "nat option" | GroupCommitMaxBatch nat
  | SetSyncMode sync_mode | WriteLifetimeHint "write_lifetime_hint option"

primrec apply_setter :: "setter \<Rightarrow> journal_options \<Rightarrow> journal_options" where
  "apply_setter (Direct yes) = set_direct yes"
| "apply_setter (LogBufferKib k) = set_log_buffer_kib k"
| "apply_setter (GroupCommitWindow w) = set_group_commit_window w"
| "apply_setter (GroupCommitMaxBatch n) = set_group_commit_max_batch n"
| "apply_setter (SetSyncMode m) = set_sync_mode m"
| "apply_setter (WriteLifetimeHint h) = set_write_lifetime_hint h"

definition options_ok :: "journal_options \<Rightarrow> bool" where
  "options_ok o1 \<longleftrightarrow>
     4 \<le> opt_log_buffer_kib o1 \<and> opt_log_buffer_kib o1 \<le> 65536 \<and>
     (case opt_window o1 of None \<Rightarrow> True | Some d \<Rightarrow> 0 < d \<and> d \<le> MAX_GROUP_COMMIT_WINDOW) \<and>
     1 \<le> opt_max_batch o1 \<and> opt_max_batch o1 \<le> 4096"

lemmas options_defs =
  DEFAULT_LOG_BUFFER_KIB_def MIN_LOG_BUFFER_BYTES_def MAX_LOG_BUFFER_BYTES_def
  DEFAULT_GROUP_COMMIT_WINDOW_def DEFAULT_GROUP_COMMIT_MAX_BATCH_def MIN_GROUP_COMMIT_MAX_BATCH_def
  MAX_GROUP_COMMIT_MAX_BATCH_def MAX_GROUP_COMMIT_WINDOW_def options_new_def clamp_def
  set_direct_def set_log_buffer_kib_def set_group_commit_window_def set_group_commit_max_batch_def
  set_sync_mode_def set_write_lifetime_hint_def

lemma options_new_ok: "options_ok options_new"
  by (simp add: options_ok_def options_defs)

lemma apply_setter_ok: "options_ok o1 \<Longrightarrow> options_ok (apply_setter s o1)"
  by (cases s) (auto simp: options_ok_def options_defs split: option.splits)

lemma setters_ok: "options_ok o1 \<Longrightarrow> options_ok (fold apply_setter ss o1)"
  by (induction ss arbitrary: o1) (simp_all add: apply_setter_ok)

lemma cap_bytes_exact: "options_ok o1 \<Longrightarrow> cap_bytes o1 = opt_log_buffer_kib o1 * 1024"
  by (simp add: options_ok_def cap_bytes_def)

section \<open>Properties\<close>

text \<open>
  Whatever setters are called in whatever order with whatever values, the options stay within
  the documented limits: a slot between 4 KiB and 64 MiB, a group-commit window that is absent or
  between one nanosecond and 100 ms, and a batch hint between 1 and 4096. So the slot size in
  bytes never saturates.
\<close>

lemma options_stay_within_limits:
  "options_ok (fold apply_setter ss options_new) \<and>
   cap_bytes (fold apply_setter ss options_new) = opt_log_buffer_kib (fold apply_setter ss options_new) * 1024"
  using setters_ok [OF options_new_ok, of ss] by (simp add: cap_bytes_exact)

text \<open>
  The hint that reaches the kernel is the kernel's constant for the lifetime the caller asked
  for, and no call is made when none was asked for.
\<close>

lemma write_lifetime_hint_reaches_kernel:
  "apply_write_lifetime_hint (opt_hint (set_write_lifetime_hint hint o1)) = map_option rwh_write_life hint"
  by (cases hint)
    (auto simp: apply_write_lifetime_hint_def set_write_lifetime_hint_def kernel_hint_def saturating_add_def
      u64_max_def hint_ordinal_def rwh_write_life_def split: write_lifetime_hint.splits)

end
