(* ===== verification/Fsys_Open.thy ===== *)
theory Fsys_Open
  imports Fsys_Tail Fsys_LogBuffer Fsys_Gate Fsys_Options
begin

text \<open>
  Opening a journal (\<open>open_buffered\<close>, \<open>open_direct\<close>, \<open>open_direct_journal\<close> and
  \<open>read_resume_prefix\<close> of \<open>src/journal/mod.rs\<close>, \<open>probe_sector_size\<close> of
  \<open>src/platform/linux.rs\<close>) over the file system of the resume scan: the truncation at the clean
  end, its durability, and the log buffer that a Direct-IO journal resumes with.
\<close>

section \<open>The handle\<close>

record journal_handle =
  jh_path :: path
  jh_gate :: gate
  jh_synced_lsn :: nat
  jh_committed_lsn :: nat
  jh_in_flight :: bool
  jh_window :: "nat option"
  jh_max_batch :: nat
  jh_native_ring :: "bool option"
  jh_direct :: bool
  jh_log_buffer :: "log_buffer option"
  jh_sync_mode :: sync_mode
  jh_poison :: poison
  jh_closed :: bool

text \<open>The fields every constructor sets the same way; \<open>next_lsn\<close> is the counter beside the gate.\<close>

definition journal_handle_at :: "path \<Rightarrow> journal_options \<Rightarrow> nat \<Rightarrow> bool \<Rightarrow> log_buffer option \<Rightarrow> journal_handle" where
  "journal_handle_at p o1 len direct lbuf =
     \<lparr>jh_path = p, jh_gate = gate_new\<lparr>next_lsn := len\<rparr>, jh_synced_lsn = len, jh_committed_lsn = len,
      jh_in_flight = False, jh_window = opt_window o1, jh_max_batch = opt_max_batch o1,
      jh_native_ring = None, jh_direct = direct, jh_log_buffer = lbuf, jh_sync_mode = opt_sync_mode o1,
      jh_poison = poison_new, jh_closed = False\<rparr>"

section \<open>Calls on the journal file\<close>

definition set_file :: "path \<Rightarrow> bytes \<Rightarrow> world \<Rightarrow> world" where
  "set_file p b w = w\<lparr>files := (files w)(p \<mapsto> b)\<rparr>"

text \<open>\<open>open\<close> with read, write and create: an existing file is opened as it is.\<close>

definition sys_open_create :: "world \<Rightarrow> path \<Rightarrow> world \<times> (io_error + unit)" where
  "sys_open_create w p =
     (case sys_step w of
        (w1, Inl e) \<Rightarrow> (w1, Inl e)
      | (w1, Inr _) \<Rightarrow> ((if files w1 p = None then set_file p [] w1 else w1), Inr ()))"

text \<open>\<open>Path::exists\<close> answers false when the call to \<open>stat\<close> fails.\<close>

definition sys_exists :: "world \<Rightarrow> path \<Rightarrow> world \<times> bool" where
  "sys_exists w p =
     (case sys_step w of (w1, Inl _) \<Rightarrow> (w1, False) | (w1, Inr _) \<Rightarrow> (w1, files w1 p \<noteq> None))"

definition sys_len :: "world \<Rightarrow> path \<Rightarrow> world \<times> (io_error + nat)" where
  "sys_len w p =
     (case sys_step w of (w1, Inl e) \<Rightarrow> (w1, Inl e) | (w1, Inr _) \<Rightarrow> (w1, Inr (length (file_bytes w1 p))))"

definition resize :: "nat \<Rightarrow> bytes \<Rightarrow> bytes" where
  "resize n b = take n b @ zeros (n - length b)"

definition sys_set_len :: "world \<Rightarrow> path \<Rightarrow> nat \<Rightarrow> world \<times> (io_error + unit)" where
  "sys_set_len w p n =
     (case sys_step w of
        (w1, Inl e) \<Rightarrow> (w1, Inl e)
      | (w1, Inr _) \<Rightarrow> (set_file p (resize n (file_bytes w1 p)) w1, Inr ()))"

text \<open>\<open>Read::read_exact\<close> with its errors.\<close>

function sys_read_exact :: "world \<Rightarrow> path \<Rightarrow> nat \<Rightarrow> nat \<Rightarrow> world \<times> (io_error + bytes)" where
  "sys_read_exact w p pos n =
     (if n = 0 then (w, Inr [])
      else case read_some w p pos n n of
          (w1, Inl e) \<Rightarrow> (w1, Inl e)
        | (w1, Inr bs) \<Rightarrow>
            if bs = [] then (w1, Inl (IoError UnexpectedEof ''failed to fill whole buffer''))
            else (case sys_read_exact w1 p (pos + length bs) (n - length bs) of
                (w2, Inl e) \<Rightarrow> (w2, Inl e)
              | (w2, Inr cs) \<Rightarrow> (w2, Inr (bs @ cs))))"
  by pat_completeness auto
termination
  by (relation "measure (\<lambda>(w, p, pos, n). n)")
    (auto simp: length_greater_0_conv [symmetric] simp del: length_greater_0_conv)

declare sys_read_exact.simps [simp del]

text \<open>\<open>?\<close> over the file system: a failed call ends the function with its error.\<close>

definition world_bind :: "world \<times> 'a result \<Rightarrow> ('a \<Rightarrow> world \<Rightarrow> world \<times> 'b result) \<Rightarrow> world \<times> 'b result" where
  "world_bind r f = (case r of (w, Inl e) \<Rightarrow> (w, Inl e) | (w, Inr a) \<Rightarrow> f a w)"

definition map_io :: "world \<times> (io_error + 'a) \<Rightarrow> world \<times> 'a result" where
  "map_io r = (case r of (w, Inl e) \<Rightarrow> (w, Inl (Io e)) | (w, Inr a) \<Rightarrow> (w, Inr a))"

text \<open>The file cut to \<open>n\<close> bytes and the cut made durable.\<close>

definition cut_at :: "path \<Rightarrow> nat \<Rightarrow> world \<Rightarrow> world \<times> unit result" where
  "cut_at p n w = world_bind (map_io (sys_set_len w p n)) (\<lambda>_ w1. map_io (sys_sync_all w1 p))"

section \<open>Opening\<close>

definition open_buffered ::
    "crc_crate \<Rightarrow> read_oracle \<Rightarrow> world \<Rightarrow> path \<Rightarrow> journal_options \<Rightarrow> world \<times> journal_handle result" where
  "open_buffered C rd w p o1 =
     world_bind (map_io (sys_open_create w p)) (\<lambda>_ w1.
     world_bind (map_io (sys_len w1 p)) (\<lambda>file_len w2.
     world_bind (if file_len = 0 then (w2, Inr resume_empty) else prepare_resume C rd w2 p) (\<lambda>resume w3.
       let len = clean_end resume
       in world_bind (if len < file_len then cut_at p len w3 else (w3, Inr ())) (\<lambda>_ w4.
          world_bind (map_io (sys_step w4)) (\<lambda>_ w5.
            (w5, Inr (journal_handle_at p o1 len False None)))))))"

text \<open>
  What the machine answers: whether the file system takes \<open>O_DIRECT\<close>, the block size \<open>statfs\<close>
  reports (if it succeeds), whether a ring can be set up, and whether memory is out.
\<close>

record open_env =
  env_direct_ok :: bool
  env_statfs :: "nat option"
  env_ring :: bool
  env_oom :: bool

definition probe_sector_size :: "nat option \<Rightarrow> nat" where
  "probe_sector_size statfs =
     (case statfs of
        Some bs \<Rightarrow> if 512 \<le> bs \<and> bs \<le> 65536 then bs else 512
      | None \<Rightarrow> 512)"

definition einval :: io_error where
  "einval = IoError InvalidInput ''Invalid argument (os error 22)''"

definition open_direct_journal :: "open_env \<Rightarrow> world \<Rightarrow> path \<Rightarrow> world \<times> bool result" where
  "open_direct_journal env w p =
     (if CHR 0x00 \<in> set (path_text p) then
        (w, Inl (Io (IoError InvalidInput ''journal path contains a NUL byte'')))
      else case (if env_direct_ok env then sys_open_create w p else (w, Inl einval)) of
          (w1, Inr _) \<Rightarrow> (w1, Inr True)
        | (w1, Inl e) \<Rightarrow>
            if e = einval then
              (case sys_open_create w1 p of
                 (w2, Inr _) \<Rightarrow> (w2, Inr False)
               | (w2, Inl e2) \<Rightarrow> (w2, Inl (Io e2)))
            else (w1, Inl (Io e)))"

definition read_resume_prefix :: "world \<Rightarrow> path \<Rightarrow> nat \<Rightarrow> nat \<Rightarrow> world \<times> bytes result" where
  "read_resume_prefix w p resume_sector resume_lsn =
     (let len = resume_lsn - resume_sector
      in if len = 0 then (w, Inr [])
         else
           world_bind (map_io (sys_open w p)) (\<lambda>_ w1.
           world_bind (map_io (sys_step w1)) (\<lambda>_ w2.
             map_io (sys_read_exact w2 p resume_sector len))))"

text \<open>The cut before the log buffer is seated: a tail with data is dropped and zero-filled back.\<close>

definition direct_cut :: "path \<Rightarrow> resume \<Rightarrow> nat \<Rightarrow> nat \<Rightarrow> world \<Rightarrow> world \<times> unit result" where
  "direct_cut p resume keep file_len w =
     (let resume_lsn = clean_end resume;
          target = min keep file_len
      in if tail_has_data resume then
           world_bind (map_io (sys_set_len w p resume_lsn)) (\<lambda>_ w1.
           world_bind (if resume_lsn < target then map_io (sys_set_len w1 p target) else (w1, Inr ())) (\<lambda>_ w2.
             map_io (sys_sync_all w2 p)))
         else if keep < file_len then cut_at p keep w
         else (w, Inr ()))"

definition direct_log_buffer ::
    "open_env \<Rightarrow> path \<Rightarrow> journal_options \<Rightarrow> resume \<Rightarrow> nat \<Rightarrow> world \<Rightarrow> world \<times> log_buffer result" where
  "direct_log_buffer env p o1 resume file_len w =
     (let ss = probe_sector_size (env_statfs env);
          resume_lsn = clean_end resume;
          resume_sector = resume_lsn - resume_lsn mod ss;
          keep = (if resume_sector < resume_lsn then resume_sector + ss else resume_sector);
          d = \<lparr>contents = file_bytes w p, script = [], oom = env_oom env\<rparr>
      in world_bind (w, log_buffer_new d (env_ring env) (cap_bytes o1) ss 0) (\<lambda>lbuf w1.
         world_bind (direct_cut p resume keep file_len w1) (\<lambda>_ w2.
           if 0 < resume_lsn then
             world_bind (read_resume_prefix w2 p resume_sector resume_lsn) (\<lambda>prefix w3.
               (w3, set_flush_pos_for_resume lbuf resume_sector prefix))
           else (w2, Inr lbuf))))"

text \<open>The log buffer when Direct IO is on; otherwise the resume rule of the buffered mode.\<close>

definition direct_seat ::
    "open_env \<Rightarrow> path \<Rightarrow> journal_options \<Rightarrow> resume \<Rightarrow> bool \<Rightarrow> nat \<Rightarrow> world \<Rightarrow> world \<times> log_buffer option result" where
  "direct_seat env p o1 resume direct_active file_len w =
     (if direct_active then
        world_bind (direct_log_buffer env p o1 resume file_len w) (\<lambda>lbuf w1. (w1, Inr (Some lbuf)))
      else
        world_bind (if clean_end resume < file_len then cut_at p (clean_end resume) w else (w, Inr ()))
          (\<lambda>_ w1. (w1, Inr None)))"

definition open_direct ::
    "crc_crate \<Rightarrow> read_oracle \<Rightarrow> open_env \<Rightarrow> world \<Rightarrow> path \<Rightarrow> journal_options \<Rightarrow> world \<times> journal_handle result" where
  "open_direct C rd env w p o1 =
     (case sys_exists w p of
        (w1, there) \<Rightarrow>
          world_bind (if there then prepare_resume C rd w1 p else (w1, Inr resume_empty)) (\<lambda>resume w2.
          world_bind (open_direct_journal env w2 p) (\<lambda>direct_active w3.
          world_bind (map_io (sys_len w3 p)) (\<lambda>file_len w4.
          world_bind (direct_seat env p o1 resume direct_active file_len w4) (\<lambda>log_buffer w5.
            (w5, Inr (journal_handle_at p o1 (clean_end resume) direct_active log_buffer)))))))"

definition open_with_options ::
    "crc_crate \<Rightarrow> read_oracle \<Rightarrow> open_env \<Rightarrow> world \<Rightarrow> path \<Rightarrow> journal_options \<Rightarrow> world \<times> journal_handle result" where
  "open_with_options C rd env w p o1 =
     (if opt_direct o1 then open_direct C rd env w p o1 else open_buffered C rd w p o1)"

section \<open>What the calls do to the journal file\<close>

lemma world_bind_cases:
  assumes "world_bind r f = (w', res)"
  obtains (err) e where "r = (w', Inl e)" "res = Inl e"
    | (ok) w a where "r = (w, Inr a)" "f a w = (w', res)"
  using assms by (cases r; cases "snd r") (auto simp: world_bind_def)

lemma map_io_cases:
  assumes "map_io r = (w', res)"
  obtains (err) e where "r = (w', Inl e)" "res = Inl (Io e)"
    | (ok) a where "r = (w', Inr a)" "res = Inr a"
  using assms by (cases r; cases "snd r") (auto simp: map_io_def)

lemma world_bind_ok [simp]: "world_bind (w, Inr a) f = f a w" "world_bind (w, Inl e) f = (w, Inl e)"
  by (simp_all add: world_bind_def)

lemma map_io_simps [simp]: "map_io (w, Inr a) = (w, Inr a)" "map_io (w, Inl e) = (w, Inl (Io e))"
  by (simp_all add: map_io_def)

lemma sys_open_create_existing:
  assumes "sys_open_create w p = (w', r)" and "files w p \<noteq> None"
  shows "same_store w' w"
proof -
  obtain w1 r1 where s: "sys_step w = (w1, r1)" by fastforce
  from sys_step_store [OF s] assms s show ?thesis
    by (auto simp: sys_open_create_def same_store_def split: sum.splits if_splits)
qed

lemma sys_len_spec:
  assumes "sys_len w p = (w', r)"
  shows "same_store w' w \<and> (\<forall>n. r = Inr n \<longrightarrow> n = length (file_bytes w p))"
proof -
  obtain w1 r1 where s: "sys_step w = (w1, r1)" by fastforce
  from sys_step_store [OF s] same_store_bytes [OF sys_step_store [OF s]] assms s show ?thesis
    by (auto simp: sys_len_def split: sum.splits)
qed

lemma sys_set_len_spec:
  assumes "sys_set_len w p n = (w', r)"
  shows "only_file p w' w \<and>
    (case r of Inl _ \<Rightarrow> files w' p = files w p | Inr _ \<Rightarrow> files w' p = Some (resize n (file_bytes w p)))"
proof -
  obtain w1 r1 where s: "sys_step w = (w1, r1)" by fastforce
  from sys_step_store [OF s] same_store_bytes [OF sys_step_store [OF s]] assms s show ?thesis
    by (auto simp: sys_set_len_def set_file_def only_file_def same_store_def split: sum.splits)
qed

lemma sys_read_exact_spec:
  "sys_read_exact w p pos n = (w', r) \<Longrightarrow>
     same_store w' w \<and> (\<forall>bs. r = Inr bs \<longrightarrow> length bs = n \<and> bs = take n (drop pos (file_bytes w p)))"
proof (induction w p pos n arbitrary: w' r rule: sys_read_exact.induct)
  case (1 w p pos n)
  show ?case
  proof (cases "n = 0")
    case True
    with "1.prems" show ?thesis by (auto simp: sys_read_exact.simps [of w p pos 0] same_store_def)
  next
    case False
    obtain w1 r1 where rs: "read_some w p pos n n = (w1, r1)" by fastforce
    note st = read_some_store [OF rs]
    show ?thesis
    proof (cases r1)
      case (Inl e)
      with "1.prems" rs st False show ?thesis by (auto simp: sys_read_exact.simps [of w p pos n])
    next
      case (Inr bs)
      from read_some_data [OF rs [unfolded Inr]] obtain k where
        bs: "bs = take k (drop pos (file_bytes w p))" "k \<le> n" by auto
      show ?thesis
      proof (cases "bs = []")
        case True
        with "1.prems" rs st Inr False show ?thesis by (auto simp: sys_read_exact.simps [of w p pos n])
      next
        case ne: False
        obtain w2 r2 where rec: "sys_read_exact w1 p (pos + length bs) (n - length bs) = (w2, r2)" by fastforce
        from "1.IH" [OF False rs [symmetric] Inr ne rec] st same_store_bytes [OF st]
        have ih: "same_store w2 w" "\<And>cs. r2 = Inr cs \<Longrightarrow> length cs = n - length bs \<and>
            cs = take (n - length bs) (drop (pos + length bs) (file_bytes w p))"
          by (auto intro: same_store_trans)
        have split: "bs @ take (n - length bs) (drop (pos + length bs) (file_bytes w p)) = take n (drop pos (file_bytes w p))"
        proof -
          have "length bs \<le> n" "bs = take (length bs) (drop pos (file_bytes w p))"
            using bs by (auto simp: min_def)
          then show ?thesis
            by (metis add.commute drop_drop le_add_diff_inverse take_add)
        qed
        show ?thesis
        proof (cases r2)
          case (Inl e)
          with "1.prems" rs Inr False ne rec ih(1) show ?thesis
            by (auto simp: sys_read_exact.simps [of w p pos n])
        next
          case (Inr cs)
          have "length bs \<le> n" using bs by simp
          then have "length (take n (drop pos (file_bytes w p))) = n"
            using split ih(2) [OF Inr] by (metis length_append le_add_diff_inverse)
          with "1.prems" rs \<open>r1 = Inr bs\<close> False ne rec ih(1) ih(2) [OF Inr] Inr split show ?thesis
            by (auto simp: sys_read_exact.simps [of w p pos n])
        qed
      qed
    qed
  qed
qed

section \<open>Where a truncation may leave the file\<close>

text \<open>
  The journal file of an open that found \<open>F\<close> with its clean end at \<open>ce\<close>: whole, or cut behind
  the clean end with only zeros left there.
\<close>

definition cut_shape :: "bytes \<Rightarrow> nat \<Rightarrow> bytes \<Rightarrow> bool" where
  "cut_shape F ce b \<longleftrightarrow> (\<exists>z. b = take ce F @ zeros z)"

definition opened :: "world \<Rightarrow> path \<Rightarrow> bytes \<Rightarrow> nat \<Rightarrow> tail \<Rightarrow> world \<Rightarrow> bool" where
  "opened w p F ce t w' \<longleftrightarrow>
     (\<forall>q b. q \<noteq> p \<longrightarrow> files w q = Some b \<longrightarrow> files w' q = Some b) \<and> tail_kept w' p F ce t \<and>
     (files w' p = Some F \<or> (\<exists>b. files w' p = Some b \<and> cut_shape F ce b))"

lemma tail_kept_only: "only_file p w' w \<Longrightarrow> tail_kept w p F ce t \<Longrightarrow> tail_kept w' p F ce t"
  by (auto simp: tail_kept_def only_file_def saved_def split: tail.splits)

lemma opened_step:
  assumes "opened w p F ce t w1" and "only_file p w2 w1"
    and "files w2 p = files w1 p \<or> (\<exists>b. files w2 p = Some b \<and> cut_shape F ce b)"
  shows "opened w p F ce t w2"
  using assms tail_kept_only [OF assms(2)] by (auto simp: opened_def only_file_def)

lemma opened_store: "opened w p F ce t w1 \<Longrightarrow> same_store w2 w1 \<Longrightarrow> opened w p F ce t w2"
  by (rule opened_step) (auto simp: only_file_store same_store_def)

text \<open>A tail that is empty or zero is a cut shape already.\<close>

lemma tail_without_data:
  assumes "tail_kept w p F ce t" and "\<forall>c. t \<noteq> Preserved c" and "ce \<le> length F"
  shows "F = take ce F @ zeros (length F - ce)"
  using assms append_take_drop_id [of ce F] by (cases t) (auto simp: tail_kept_def)

lemma resize_cut: "ce \<le> length F \<Longrightarrow> resize ce F = take ce F"
  by (simp add: resize_def)

lemma resize_shape:
  assumes "cut_shape F ce b" and "ce \<le> n" and "ce \<le> length F"
  shows "cut_shape F ce (resize n b)"
proof -
  obtain z where b: "b = take ce F @ zeros z" using assms(1) by (auto simp: cut_shape_def)
  have "resize n b = take ce F @ zeros (min (n - ce) z + (n - (ce + z)))"
    using assms(2,3) by (simp add: b resize_def take_replicate min_def replicate_add)
  then show ?thesis unfolding cut_shape_def by blast
qed

lemma cut_at_spec:
  assumes "cut_at p n w = (w', r)"
  shows "only_file p w' w \<and>
    (files w' p = files w p \<or> files w' p = Some (resize n (file_bytes w p))) \<and>
    (\<forall>u. r = Inr u \<longrightarrow> files w' p = Some (resize n (file_bytes w p)) \<and> synced w' p = Some (resize n (file_bytes w p)))"
proof -
  obtain w1 r1 where s: "sys_set_len w p n = (w1, r1)" by fastforce
  obtain w2 r2 where y: "sys_sync_all w1 p = (w2, r2)" by fastforce
  note s' = sys_set_len_spec [OF s] and y' = sys_sync_all_spec [OF y]
  show ?thesis
  proof (cases r1)
    case (Inl e)
    with assms s s' show ?thesis by (auto simp: cut_at_def)
  next
    case (Inr u)
    then have "file_bytes w1 p = resize n (file_bytes w p)" using s' by (simp add: file_bytes_def)
    with Inr assms s s' y y' show ?thesis
      by (cases r2) (auto simp: cut_at_def intro: only_file_trans)
  qed
qed

lemma read_resume_prefix_spec:
  assumes "read_resume_prefix w p a b = (w', r)"
  shows "same_store w' w \<and>
    (\<forall>bs. r = Inr bs \<longrightarrow> length bs = b - a \<and> bs = take (b - a) (drop a (file_bytes w p)))"
proof (cases "b - a = 0")
  case True
  with assms show ?thesis by (auto simp: read_resume_prefix_def same_store_def)
next
  case False
  obtain w1 r1 where o1: "sys_open w p = (w1, r1)" by fastforce
  obtain w2 r2 where s: "sys_step w1 = (w2, r2)" by fastforce
  obtain w3 r3 where x: "sys_read_exact w2 p a (b - a) = (w3, r3)" by fastforce
  note st = sys_open_store [OF o1] sys_step_store [OF s]
  have st2: "same_store w2 w" using st by (auto intro: same_store_trans)
  note x' = sys_read_exact_spec [OF x, unfolded same_store_bytes [OF st2]]
  have st3: "same_store w3 w" using x' st2 by (auto intro: same_store_trans)
  have eq: "read_resume_prefix w p a b =
      (case r1 of Inl e \<Rightarrow> (w1, Inl (Io e)) | Inr _ \<Rightarrow>
        (case r2 of Inl e \<Rightarrow> (w2, Inl (Io e)) | Inr _ \<Rightarrow> map_io (w3, r3)))"
    using False o1 s x by (simp add: read_resume_prefix_def Let_def split: sum.splits)
  show ?thesis
    using assms [unfolded eq] st(1) st2 st3 x' by (auto simp: map_io_def split: sum.splits)
qed

section \<open>Every way out of an open\<close>

lemma prepare_resume_opened:
  assumes "prepare_resume C rd w p = (w', res)" and "files w p = Some F" and "reads_ok rd (length F)"
    and "ce = fst (snd (scan C F 0))"
  shows "(\<forall>q b. files w q = Some b \<longrightarrow> files w' q = Some b) \<and>
    (\<forall>r. res = Inr r \<longrightarrow> clean_end r = ce \<and> opened w p F ce (tail r) w')"
  using prepare_resume_outcome [OF assms(1-3)] assms(2,4)
  by (auto simp: opened_def map_le_def dom_def)

lemma clean_end_bound: "ce = fst (snd (scan C F 0)) \<Longrightarrow> ce \<le> length F"
  using scan_pos_bounds [of C F 0] by (cases "scan C F 0") auto

text \<open>A cut at \<open>n\<close>, behind the clean end, of a file that has the shape or is cut to it.\<close>

lemma cut_at_opened:
  assumes "cut_at p n w1 = (w2, r)" and "opened w p F ce t w1" and "ce \<le> length F" and "ce \<le> n"
    and "n = ce \<or> (\<forall>c. t \<noteq> Preserved c)"
  shows "opened w p F ce t w2 \<and>
    (r = Inr () \<longrightarrow> (\<exists>b. files w2 p = Some b \<and> synced w2 p = Some b \<and> cut_shape F ce b \<and> length b = n))"
proof -
  have o1: "files w1 p = Some F \<or> (\<exists>b. files w1 p = Some b \<and> cut_shape F ce b)"
    and t: "tail_kept w1 p F ce t" using assms(2) by (auto simp: opened_def)
  have sh: "cut_shape F ce (resize n (file_bytes w1 p))"
  proof (cases "\<exists>b. files w1 p = Some b \<and> cut_shape F ce b")
    case True
    then show ?thesis using resize_shape [OF _ assms(4,3)] by (auto simp: file_bytes_def)
  next
    case False
    then have F: "file_bytes w1 p = F" using o1 by (auto simp: file_bytes_def)
    show ?thesis
    proof (cases "n = ce")
      case True
      then show ?thesis using F assms(3) by (auto simp: resize_cut cut_shape_def intro: exI [of _ 0])
    next
      case False
      then have "cut_shape F ce F"
        using tail_without_data [OF t _ assms(3)] assms(5) by (auto simp: cut_shape_def)
      then show ?thesis unfolding F by (rule resize_shape [OF _ assms(4,3)])
    qed
  qed
  moreover have "length (resize n (file_bytes w1 p)) = n" by (simp add: resize_def)
  ultimately show ?thesis
    using cut_at_spec [OF assms(1)] opened_step [OF assms(2), of w2] by auto
qed

lemma direct_cut_opened:
  assumes "direct_cut p rs keep (length F) w1 = (w2, r)" and "opened w p F ce (tail rs) w1"
    and "files w1 p = Some F" and "clean_end rs = ce" and "ce \<le> length F" and "ce \<le> keep"
  shows "opened w p F ce (tail rs) w2 \<and>
    (r = Inr () \<longrightarrow> (\<exists>b. files w2 p = Some b \<and> cut_shape F ce b))"
proof (cases "tail_has_data rs")
  case False
  then have t: "\<forall>c. tail rs \<noteq> Preserved c" by (auto simp: tail_has_data_def split: tail.splits)
  have F: "cut_shape F ce F"
    using tail_without_data [OF _ t assms(5), of w1 p] assms(2) by (auto simp: opened_def cut_shape_def)
  show ?thesis
  proof (cases "keep < length F")
    case True
    then have "cut_at p keep w1 = (w2, r)" using assms(1) False by (simp add: direct_cut_def Let_def)
    from cut_at_opened [OF this assms(2,5,6)] t show ?thesis by auto
  next
    case no_cut: False
    then show ?thesis using assms False F by (auto simp: direct_cut_def Let_def)
  qed
next
  case True
  obtain w3 r3 where s1: "sys_set_len w1 p ce = (w3, r3)" by fastforce
  have fb1: "file_bytes w1 p = F" using assms(3) by (simp add: file_bytes_def)
  have n1: "only_file p w3 w1" "case r3 of Inl _ \<Rightarrow> files w3 p = Some F | Inr _ \<Rightarrow> files w3 p = Some (take ce F)"
    using sys_set_len_spec [OF s1] fb1 assms(3,5) by (auto simp: resize_cut split: sum.splits)
  have sh: "cut_shape F ce (take ce F)" by (auto simp: cut_shape_def intro: exI [of _ 0])
  have o3: "opened w p F ce (tail rs) w3"
    using opened_step [OF assms(2) n1(1)] n1(2) sh assms(3) by (auto split: sum.splits)
  show ?thesis
  proof (cases r3)
    case (Inl e)
    with assms(1,4) True s1 o3 show ?thesis by (auto simp: direct_cut_def Let_def)
  next
    case (Inr u)
    let ?t = "min keep (length F)"
    obtain w4 r4 where s2: "(if ce < ?t then map_io (sys_set_len w3 p ?t) else (w3, Inr ())) = (w4, r4)" by fastforce
    have n2: "only_file p w4 w3 \<and> (\<exists>b. files w4 p = Some b \<and> cut_shape F ce b)"
    proof (cases "ce < ?t")
      case False
      then show ?thesis using s2 n1(2) Inr sh by (auto simp: only_file_def)
    next
      case lt: True
      then obtain r5 where "sys_set_len w3 p ?t = (w4, r5)"
        using s2 by (cases "sys_set_len w3 p ?t"; cases "snd (sys_set_len w3 p ?t)") auto
      from sys_set_len_spec [OF this] n1(2) Inr sh resize_shape [OF sh _ assms(5), of ?t] lt show ?thesis
        by (auto simp: file_bytes_def split: sum.splits)
    qed
    have o4: "opened w p F ce (tail rs) w4" using opened_step [OF o3] n2 by blast
    obtain w5 r5 where y: "sys_sync_all w4 p = (w5, r5)" by fastforce
    have o5: "opened w p F ce (tail rs) w5" "files w5 p = files w4 p"
      using opened_step [OF o4] sys_sync_all_spec [OF y] by auto
    show ?thesis
      using assms(1,4) True s1 Inr s2 y o4 o5 n2
      by (cases r4; cases r5) (auto simp: direct_cut_def Let_def)
  qed
qed

text \<open>The log buffer that is seated at the end of the opened file represents its valid part.\<close>

lemma log_buffer_new_sector:
  assumes "log_buffer_new d ring cap ss n = Inr lb"
  shows "is_power_of_two ss" "log_buffer_new (d\<lparr>contents := b\<rparr>) ring cap ss n = Inr lb"
  using assms by (auto simp: log_buffer_new_def aligned_buf_new_def Let_def bind_ok_Inr_iff split: if_splits)

lemma seated_at_rest:
  assumes "log_buffer_new d ring cap ss 0 = Inr lb0" and "cap < 2 ^ 32" and "ss < 2 ^ 32"
    and "set_flush_pos_for_resume lb0 pos prefix = Inr lb" and "pos \<le> length (contents d')"
  shows "at_rest lb d' (take pos (contents d') @ prefix)"
proof -
  let ?d = "d\<lparr>contents := contents d'\<rparr>"
  note new = log_buffer_new_sector(2) [OF assms(1), of "contents d'"]
  have "lb_inv (lb_init lb ?d)"
    using resume_mem_ok [OF new log_buffer_new_sector(1) [OF assms(1)] assms(2-4)] assms(5) by simp
  with resume_log [OF new assms(4)] show ?thesis
    by (simp add: lb_inv_def work_ok_def lb_init_def at_rest_def disk_ok_def is_set_def poison_new_def)
qed

lemma seated_empty:
  assumes "log_buffer_new d ring cap ss 0 = Inr lb0"
  shows "set_flush_pos_for_resume lb0 0 [] = Inr lb0"
proof -
  have "0 < ss" using log_buffer_new_sector(1) [OF assms] by (auto simp: is_power_of_two_def)
  with assms show ?thesis
    by (auto simp: log_buffer_new_def Let_def bind_ok_Inr_iff set_flush_pos_for_resume_def copy_at_def active_def)
qed

lemma probe_sector_size_bounds: "0 < probe_sector_size s" "probe_sector_size s < 2 ^ 32"
  by (simp_all add: probe_sector_size_def split: option.splits)

lemma direct_log_buffer_opened:
  assumes "direct_log_buffer env p o1 rs (length F) w1 = (w2, res)" and "opened w p F ce (tail rs) w1"
    and "files w1 p = Some F" and "clean_end rs = ce" and "ce \<le> length F"
  shows "opened w p F ce (tail rs) w2 \<and>
    (\<forall>lb. res = Inr lb \<longrightarrow> (\<exists>b. files w2 p = Some b \<and> cut_shape F ce b \<and>
       (\<forall>s m. at_rest lb \<lparr>contents = b, script = s, oom = m\<rparr> (take ce F))))"
proof -
  define ss where "ss = probe_sector_size (env_statfs env)"
  define sec where "sec = ce - ce mod ss"
  define keep where "keep = (if sec < ce then sec + ss else sec)"
  let ?d = "\<lparr>contents = file_bytes w1 p, script = [], oom = env_oom env\<rparr>"
  note ssb = probe_sector_size_bounds [of "env_statfs env", folded ss_def]
  have "ce mod ss < ss" using ssb(1) by simp
  then have keep: "ce \<le> keep" "sec \<le> ce" unfolding keep_def sec_def by auto
  obtain w3 r3 where c: "direct_cut p rs keep (length F) w1 = (w3, r3)" by fastforce
  note c' = direct_cut_opened [OF c assms(2-5) keep(1)]
  obtain w4 r4 where x: "read_resume_prefix w3 p sec ce = (w4, r4)" by fastforce
  note x' = read_resume_prefix_spec [OF x]
  have o4: "opened w p F ce (tail rs) w4" using c' x' opened_store by blast
  have eq: "direct_log_buffer env p o1 rs (length F) w1 =
      (case log_buffer_new ?d (env_ring env) (cap_bytes o1) ss 0 of
         Inl e \<Rightarrow> (w1, Inl e)
       | Inr lb0 \<Rightarrow>
           (case r3 of
              Inl e \<Rightarrow> (w3, Inl e)
            | Inr _ \<Rightarrow>
                if 0 < ce then
                  (case r4 of Inl e \<Rightarrow> (w4, Inl e) | Inr prefix \<Rightarrow> (w4, set_flush_pos_for_resume lb0 sec prefix))
                else (w3, Inr lb0)))"
    unfolding direct_log_buffer_def Let_def assms(4) ss_def [symmetric] sec_def [symmetric] keep_def [symmetric]
    by (simp add: world_bind_def c x split: sum.splits)
  show ?thesis
  proof (cases "log_buffer_new ?d (env_ring env) (cap_bytes o1) ss 0")
    case (Inl e)
    with assms(1,2) eq show ?thesis by auto
  next
    case (Inr lb0)
    have cap: "cap_bytes o1 < 2 ^ 32" by (simp add: cap_bytes_def)
    have rest: "at_rest lb \<lparr>contents = b, script = s, oom = m\<rparr> (take ce F)"
      if seat: "set_flush_pos_for_resume lb0 pos pre = Inr lb" and sh: "cut_shape F ce b"
        and pos: "pos \<le> ce" and pre: "pre = take (ce - pos) (drop pos b)" for lb b pos pre s m
    proof -
      obtain z where b: "b = take ce F @ zeros z" using sh by (auto simp: cut_shape_def)
      have "pos \<le> length b" using pos b assms(5) by simp
      moreover have "take pos b @ pre = take ce F"
        using pos pre b assms(5) by (metis append_eq_conv_conj append_take_drop_id le_add_diff_inverse length_take
            min.absorb2 take_add)
      ultimately show ?thesis
        using seated_at_rest [OF Inr cap ssb(2) seat, of "\<lparr>contents = b, script = s, oom = m\<rparr>"] by simp
    qed
    show ?thesis
    proof (cases "res")
      case (Inl e)
      with assms(1) eq Inr c' o4 show ?thesis by (auto split: sum.splits if_splits)
    next
      case (Inr lb)
      with assms(1) eq \<open>log_buffer_new _ _ _ _ _ = _\<close> have r3: "r3 = Inr ()" by (auto split: sum.splits)
      then obtain b where b: "files w3 p = Some b" "cut_shape F ce b" using c' by blast
      show ?thesis
      proof (cases "0 < ce")
        case True
        with assms(1) eq \<open>log_buffer_new _ _ _ _ _ = _\<close> Inr r3 obtain pre where
          pre: "r4 = Inr pre" "set_flush_pos_for_resume lb0 sec pre = Inr lb" "w2 = w4"
          by (auto split: sum.splits)
        have "pre = take (ce - sec) (drop sec b)" "files w4 p = Some b"
          using x' pre(1) b(1) by (auto simp: file_bytes_def same_store_def)
        with rest [OF pre(2) b(2) keep(2)] o4 b pre(3) Inr show ?thesis by auto
      next
        case False
        with assms(1) eq \<open>log_buffer_new _ _ _ _ _ = _\<close> Inr r3 have "lb0 = lb" "w2 = w3" by auto
        with rest [OF seated_empty [OF \<open>log_buffer_new _ _ _ _ _ = _\<close>] b(2)] False c' b Inr show ?thesis
          by auto
      qed
    qed
  qed
qed

section \<open>The two constructors\<close>

text \<open>
  What every way out of an open leaves, and what a handle it returns stands for: the LSN counters
  at the clean end, and memory and file that represent the valid part of the journal.
\<close>

definition open_safe :: "world \<Rightarrow> path \<Rightarrow> bytes \<Rightarrow> nat \<Rightarrow> world \<Rightarrow> bool" where
  "open_safe w p F ce w' \<longleftrightarrow>
     (\<forall>q b. files w q = Some b \<longrightarrow> files w' q = Some b) \<or> (\<exists>t. opened w p F ce t w')"

definition handle_ok :: "path \<Rightarrow> bytes \<Rightarrow> nat \<Rightarrow> world \<Rightarrow> journal_handle \<Rightarrow> bool" where
  "handle_ok p F ce w' h \<longleftrightarrow>
     next_lsn (jh_gate h) = ce \<and> jh_synced_lsn h = ce \<and> jh_committed_lsn h = ce \<and>
     \<not> jh_in_flight h \<and> jh_poison h = poison_new \<and>
     (\<exists>b. files w' p = Some b \<and> cut_shape F ce b \<and>
        (case jh_log_buffer h of
           None \<Rightarrow> b = take ce F
         | Some lb \<Rightarrow> (\<forall>s m. at_rest lb \<lparr>contents = b, script = s, oom = m\<rparr> (take ce F))))"

lemma handle_at_ok:
  assumes "files w' p = Some b" and "cut_shape F ce b"
    and "case lbuf of None \<Rightarrow> b = take ce F | Some lb \<Rightarrow> (\<forall>s m. at_rest lb \<lparr>contents = b, script = s, oom = m\<rparr> (take ce F))"
  shows "handle_ok p F ce w' (journal_handle_at p o1 ce direct lbuf)"
  using assms by (auto simp: handle_ok_def journal_handle_at_def)

text \<open>The cut of a file that is wholly valid, or longer than its valid part.\<close>

lemma plain_cut_opened:
  assumes "(if ce < length F then cut_at p ce w1 else (w1, Inr ())) = (w2, r)" and "opened w p F ce t w1"
    and "files w1 p = Some F" and "ce \<le> length F"
  shows "opened w p F ce t w2 \<and> (r = Inr () \<longrightarrow> files w2 p = Some (take ce F))"
proof (cases "ce < length F")
  case True
  with assms(1) have c: "cut_at p ce w1 = (w2, r)" by simp
  from cut_at_opened [OF c assms(2,4)] cut_at_spec [OF c] assms(3,4) show ?thesis
    by (auto simp: file_bytes_def resize_cut)
next
  case False
  with assms show ?thesis by auto
qed

lemma resumed_tail:
  assumes "(if n = 0 then (w1, Inr resume_empty) else prepare_resume C rd w1 p) = (w2, res)"
    and "files w1 p = Some F" and "reads_ok rd (length F)" and "ce = fst (snd (scan C F 0))"
    and "n = 0 \<Longrightarrow> F = []" and "same_store w1 w"
  shows "(\<forall>q b. files w q = Some b \<longrightarrow> files w2 q = Some b) \<and>
    (\<forall>r. res = Inr r \<longrightarrow> clean_end r = ce \<and> opened w p F ce (tail r) w2)"
proof (cases "n = 0")
  case True
  then have "w2 = w1" "res = Inr resume_empty" "F = []" using assms(1,5) by auto
  moreover from this(3) have "ce = 0" using assms(4) clean_end_bound [OF assms(4)] by simp
  ultimately show ?thesis
    using assms(2,6) by (auto simp: resume_empty_def opened_def tail_kept_def same_store_def)
next
  case False
  with assms(1) have pr: "prepare_resume C rd w1 p = (w2, res)" by simp
  from prepare_resume_opened [OF pr assms(2-4)] assms(6) show ?thesis
    by (auto simp: opened_def same_store_def)
qed

lemma open_buffered_spec:
  assumes "open_buffered C rd w p o1 = (w', res)" and "files w p = Some F" and "reads_ok rd (length F)"
    and "ce = fst (snd (scan C F 0))"
  shows "open_safe w p F ce w' \<and> (\<forall>h. res = Inr h \<longrightarrow> handle_ok p F ce w' h)"
proof -
  have ce: "ce \<le> length F" by (rule clean_end_bound [OF assms(4)])
  obtain w1 r1 where s1: "sys_open_create w p = (w1, r1)" by fastforce
  have st1: "same_store w1 w" using sys_open_create_existing [OF s1] assms(2) by simp
  obtain w2 r2 where s2: "sys_len w1 p = (w2, r2)" by fastforce
  have st2: "same_store w2 w" "files w2 p = Some F" "\<And>n. r2 = Inr n \<Longrightarrow> n = length F"
    using sys_len_spec [OF s2] st1 assms(2) by (auto simp: same_store_def file_bytes_def)
  have safe: "open_safe w p F ce v" if "same_store v w" for v
    using that by (simp add: open_safe_def same_store_def)
  show ?thesis
  proof (cases "r1 = Inr () \<and> r2 = Inr (length F)")
    case False
    with st2(3) have "(\<exists>e. r1 = Inl e) \<or> (\<exists>e. r2 = Inl e)" by (cases r1; cases r2) auto
    with assms(1) s1 s2 safe [OF st1] safe [OF st2(1)] show ?thesis
      by (cases r1) (auto simp: open_buffered_def)
  next
    case True
    obtain w3 r3 where s3: "(if length F = 0 then (w2, Inr resume_empty) else prepare_resume C rd w2 p) = (w3, r3)"
      by fastforce
    note t3 = resumed_tail [OF s3 st2(2) assms(3,4) _ st2(1)]
    show ?thesis
    proof (cases r3)
      case (Inl e)
      with assms(1) s1 s2 s3 True t3 show ?thesis
        by (auto simp: open_buffered_def open_safe_def)
    next
      case (Inr r)
      with t3 have o3: "clean_end r = ce" "opened w p F ce (tail r) w3" by auto
      have f3: "files w3 p = Some F" using t3 assms(2) by simp
      obtain w4 r4 where s4: "(if ce < length F then cut_at p ce w3 else (w3, Inr ())) = (w4, r4)" by fastforce
      note o4 = plain_cut_opened [OF s4 o3(2) f3 ce]
      obtain w5 r5 where s5: "sys_step w4 = (w5, r5)" by fastforce
      note st5 = sys_step_store [OF s5]
      have o5: "opened w p F ce (tail r) w5" using o4 opened_store [OF _ st5] by blast
      have eq: "open_buffered C rd w p o1 =
          (case r4 of
             Inl e \<Rightarrow> (w4, Inl e)
           | Inr _ \<Rightarrow> (case r5 of Inl e \<Rightarrow> (w5, Inl (Io e)) | Inr _ \<Rightarrow> (w5, Inr (journal_handle_at p o1 ce False None))))"
        unfolding open_buffered_def Let_def s1 s2 conjunct1 [OF True] conjunct2 [OF True]
          map_io_simps world_bind_ok s3 Inr o3(1) s4
        by (simp add: world_bind_def map_io_def s5 split: sum.splits)
      have "handle_ok p F ce w5 (journal_handle_at p o1 ce False None)" if "r4 = Inr ()"
        using handle_at_ok [of w5 p "take ce F" F ce None] o4 that st5
        by (auto simp: same_store_def cut_shape_def intro: exI [of _ 0])
      with assms(1) eq o4 o5 show ?thesis
        by (auto simp: open_safe_def split: sum.splits)
    qed
  qed
qed

lemma open_direct_journal_existing:
  assumes "open_direct_journal env w p = (w', r)" and "files w p \<noteq> None"
  shows "same_store w' w"
proof -
  obtain w1 r1 where s1: "(if env_direct_ok env then sys_open_create w p else (w, Inl einval)) = (w1, r1)" by fastforce
  have st1: "same_store w1 w"
    using s1 sys_open_create_existing [of w p w1 r1] assms(2) by (auto simp: same_store_def split: if_splits)
  obtain w2 r2 where s2: "sys_open_create w1 p = (w2, r2)" by fastforce
  have "same_store w2 w1"
    using sys_open_create_existing [OF s2] st1 assms(2) by (simp add: same_store_def)
  then have st2: "same_store w2 w" using st1 by (auto intro: same_store_trans)
  have "w' \<in> {w, w1, w2}"
    using assms(1) s2 unfolding open_direct_journal_def s1 by (auto split: if_splits sum.splits)
  with st1 st2 show ?thesis by (auto simp: same_store_def)
qed

lemma sys_exists_store: "sys_exists w p = (w1, b) \<Longrightarrow> same_store w1 w"
  using sys_step_store [of w "fst (sys_step w)" "snd (sys_step w)"]
  by (cases "sys_step w"; cases "snd (sys_step w)") (auto simp: sys_exists_def)

lemma direct_seat_opened:
  assumes "direct_seat env p o1 r act (length F) w1 = (w2, res)" and "opened w p F ce (tail r) w1"
    and "files w1 p = Some F" and "clean_end r = ce" and "ce \<le> length F"
  shows "opened w p F ce (tail r) w2 \<and>
    (\<forall>x. res = Inr x \<longrightarrow> handle_ok p F ce w2 (journal_handle_at p o1 ce act x))"
proof (cases act)
  case True
  obtain w3 r3 where d: "direct_log_buffer env p o1 r (length F) w1 = (w3, r3)" by fastforce
  from direct_log_buffer_opened [OF d assms(2-5)] assms(1) True d show ?thesis
    by (cases r3) (auto simp: direct_seat_def intro!: handle_at_ok)
next
  case False
  obtain w3 r3 where c: "(if ce < length F then cut_at p ce w1 else (w1, Inr ())) = (w3, r3)" by fastforce
  note o3 = plain_cut_opened [OF c assms(2,3,5)]
  have "direct_seat env p o1 r act (length F) w1 = world_bind (w3, r3) (\<lambda>_ w1. (w1, Inr None))"
    unfolding direct_seat_def assms(4) c using False by simp
  with assms(1) o3 show ?thesis
    by (cases r3) (auto intro!: handle_at_ok simp: cut_shape_def intro: exI [of _ 0])
qed

lemma open_direct_spec:
  assumes "open_direct C rd env w p o1 = (w', res)" and "files w p = Some F" and "reads_ok rd (length F)"
    and "ce = fst (snd (scan C F 0))" and "snd (sys_exists w p)"
  shows "open_safe w p F ce w' \<and> (\<forall>h. res = Inr h \<longrightarrow> handle_ok p F ce w' h)"
proof -
  have ce: "ce \<le> length F" by (rule clean_end_bound [OF assms(4)])
  obtain w1 where s1: "sys_exists w p = (w1, True)" using assms(5) by (cases "sys_exists w p") auto
  have st1: "same_store w1 w" "files w1 p = Some F"
    using sys_exists_store [OF s1] assms(2) by (simp_all add: same_store_def)
  obtain w2 r2 where s2: "prepare_resume C rd w1 p = (w2, r2)" by fastforce
  note t2 = prepare_resume_opened [OF s2 st1(2) assms(3,4)]
  show ?thesis
  proof (cases r2)
    case (Inl e)
    with assms(1) s1 s2 t2 st1 show ?thesis
      by (auto simp: open_direct_def open_safe_def same_store_def)
  next
    case (Inr r)
    with t2 st1 have o2: "clean_end r = ce" "opened w p F ce (tail r) w2" "files w2 p = Some F"
      by (auto simp: opened_def same_store_def)
    obtain w3 r3 where s3: "open_direct_journal env w2 p = (w3, r3)" by fastforce
    have st3: "same_store w3 w2" using open_direct_journal_existing [OF s3] o2(3) by simp
    obtain w4 r4 where s4: "sys_len w3 p = (w4, r4)" by fastforce
    have st4: "same_store w4 w2" using sys_len_spec [OF s4] st3 by (auto intro: same_store_trans)
    have len: "\<And>n. r4 = Inr n \<Longrightarrow> n = length F"
      using sys_len_spec [OF s4] same_store_bytes [OF st3] o2(3) by (simp add: file_bytes_def)
    note o3 = opened_store [OF o2(2) st3] and o4 = opened_store [OF o2(2) st4]
    have f4: "files w4 p = Some F" using st4 o2(3) by (simp add: same_store_def)
    show ?thesis
    proof (cases r4)
      case (Inl e)
      then have "w' \<in> {w3, w4} \<and> (\<exists>e. res = Inl e)"
        using assms(1) s3 s4 unfolding open_direct_def s1 prod.case if_True s2 \<open>r2 = Inr r\<close> world_bind_ok
        by (cases r3) auto
      with o3 o4 show ?thesis by (auto simp: open_safe_def)
    next
      case (Inr n)
      show ?thesis
      proof (cases r3)
        case (Inl e)
        then show ?thesis
          using assms(1) s3 o3 unfolding open_direct_def s1 prod.case if_True s2 \<open>r2 = Inr r\<close> world_bind_ok
          by (auto simp: open_safe_def)
      next
        case act: (Inr act)
        obtain w5 r5 where s5: "direct_seat env p o1 r act (length F) w4 = (w5, r5)" by fastforce
        have "w' = w5 \<and> res = (case r5 of Inl e \<Rightarrow> Inl e | Inr x \<Rightarrow> Inr (journal_handle_at p o1 ce act x))"
          using assms(1) s3 s4 act Inr len [OF Inr] s5 o2(1)
          unfolding open_direct_def s1 prod.case if_True s2 \<open>r2 = Inr r\<close> world_bind_ok
          by (cases r5) auto
        with direct_seat_opened [OF s5 o4 f4 o2(1) ce] show ?thesis
          by (auto simp: open_safe_def split: sum.splits)
      qed
    qed
  qed
qed

lemma open_buffered_quiet:
  assumes "quiet w" and "files w p = Some F" and "length F < 2 ^ 63" and "reads_ok rd (length F)"
    and "k \<le> U32_MAX" and "sidecar_path p (fst (snd (scan C F 0))) k = Inr d" and "files w d = None"
  shows "\<exists>w' h. open_buffered C rd w p o1 = (w', Inr h)"
proof -
  have open1: "sys_open_create w p = (w, Inr ())" "sys_len w p = (w, Inr (length F))"
    using assms(1,2) by (simp_all add: sys_open_create_def sys_len_def file_bytes_def)
  obtain w1 r where r: "(if length F = 0 then (w, Inr resume_empty) else prepare_resume C rd w p) = (w1, Inr r)" "quiet w1"
  proof (cases "length F = 0")
    case True
    with assms(1) that [of w resume_empty] show thesis by simp
  next
    case False
    with prepare_resume_quiet [OF assms] that show thesis by auto
  qed
  have "quiet w2 \<and> r2 = Inr ()" if "cut_at p n w1 = (w2, r2)" for n w2 r2
  proof -
    let ?v = "set_file p (resize n (file_bytes w1 p)) w1"
    have "quiet ?v" using r(2) by (simp add: quiet_def set_file_def)
    with that r(2) show ?thesis
      by (auto simp: cut_at_def sys_set_len_def sys_sync_all_def) (auto simp: quiet_def)
  qed
  then obtain w2 where
    c: "(if clean_end r < length F then cut_at p (clean_end r) w1 else (w1, Inr ())) = (w2, Inr ())" "quiet w2"
    using r(2) by (cases "cut_at p (clean_end r) w1"; cases "clean_end r < length F") auto
  show ?thesis
    unfolding open_buffered_def Let_def open1 map_io_simps world_bind_ok r(1) c(1) sys_step_quiet [OF c(2)]
    by simp
qed

section \<open>Properties\<close>

text \<open>
  C9: Opening an existing journal, in either mode and whatever call fails on the way: every other
  file keeps its bytes; the journal file either keeps all its bytes, or is cut behind the end of the
  last valid frame, with only zeros left behind it and with the dropped tail empty, zero or durably
  saved. A handle that is returned stands exactly for the valid part: its LSN counters are at the
  clean end, and the file, with the log buffer of a Direct-IO journal, represents the bytes below
  it. In Direct-IO mode this needs the first \<open>stat\<close> call to have answered that the file exists.
\<close>

theorem open_keeps_valid_part:
  assumes "open_with_options C rd env w p o1 = (w', res)" and "files w p = Some F"
    and "reads_ok rd (length F)" and "opt_direct o1 \<Longrightarrow> snd (sys_exists w p)"
    and "ce = fst (snd (scan C F 0))"
  shows "open_safe w p F ce w' \<and> (\<forall>h. res = Inr h \<longrightarrow> handle_ok p F ce w' h)"
  using assms open_direct_spec [of C rd env w p o1 w' res F ce] open_buffered_spec [of C rd w p o1 w' res F ce]
  by (auto simp: open_with_options_def split: if_splits)

text \<open>
  C39: The exception: when the \<open>stat\<close> call of \<open>path.exists()\<close> fails on a journal that is there, a
  Direct-IO open takes the journal for a new one and cuts it to nothing, records and all, and
  returns a working handle at LSN 0.
\<close>

theorem direct_open_stat_failure_empties_journal:
  assumes "files w p = Some F" and "F \<noteq> []" and "faults w = [Some (k, e)]" and "reads w = []"
    and "env_direct_ok env" and "\<not> env_oom env" and "env_statfs env = None" and "options_ok o1"
    and "CHR 0x00 \<notin> set (path_text p)"
  shows "\<exists>w' h. open_direct C rd env w p o1 = (w', Inr h) \<and> files w' = (files w)(p \<mapsto> []) \<and>
    synced w' p = Some [] \<and> next_lsn (jh_gate h) = 0"
proof -
  let ?w = "w\<lparr>faults := []\<rparr>" and ?d = "\<lparr>contents = F, script = [], oom = False\<rparr>"
  have q: "quiet ?w" by (simp add: quiet_def assms(4))
  have ex: "sys_exists w p = (?w, False)"
    using assms(3) by (simp add: sys_exists_def sys_step_def next_fault_def)
  have oj: "open_direct_journal env ?w p = (?w, Inr True)"
    using assms(1,5,9) q by (simp add: open_direct_journal_def sys_open_create_def)
  have ln: "sys_len ?w p = (?w, Inr (length F))"
    using q assms(1) by (simp add: sys_len_def file_bytes_def)
  have p2: "is_power_of_two 512" unfolding is_power_of_two_def by (rule exI [of _ 9]) simp
  have "4096 \<le> cap_bytes o1" "cap_bytes o1 \<le> 2 ^ 26" using assms(8) by (auto simp: options_ok_def cap_bytes_def)
  then have "round_up (cap_bytes o1) 512 = (cap_bytes o1 + 511) div 512 * 512"
    using round_up_eq [OF p2, of "cap_bytes o1"] by simp
  moreover have "(cap_bytes o1 + 511) div 512 * 512 \<le> cap_bytes o1 + 511" by (rule div_times_less_eq_dividend)
  moreover define c where "c = max (round_up (cap_bytes o1) 512) 512"
  ultimately have "c \<le> 2 ^ 63 - 512" "c \<noteq> 0"
    using \<open>cap_bytes o1 \<le> 2 ^ 26\<close> by simp_all
  then have "aligned_buf_new ?d c 512 = Inr (zeros c)" using p2 by (simp add: aligned_buf_new_def)
  then obtain lb where lb: "log_buffer_new ?d (env_ring env) (cap_bytes o1) 512 0 = Inr lb"
    by (auto simp: log_buffer_new_def Let_def c_def)
  let ?w1 = "set_file p [] ?w"
  have q1: "quiet ?w1" using q by (simp add: quiet_def set_file_def)
  have cut: "cut_at p 0 ?w = (?w1\<lparr>synced := (synced ?w1)(p \<mapsto> [])\<rparr>, Inr ())"
    using q q1 by (simp add: cut_at_def sys_set_len_def sys_sync_all_def resize_def set_file_def file_bytes_def)
  have "direct_cut p resume_empty 0 (length F) ?w = (?w1\<lparr>synced := (synced ?w1)(p \<mapsto> [])\<rparr>, Inr ())"
    using cut assms(2) by (simp add: direct_cut_def resume_empty_def tail_has_data_def)
  then have "direct_log_buffer env p o1 resume_empty (length F) ?w =
      (?w1\<lparr>synced := (synced ?w1)(p \<mapsto> [])\<rparr>, Inr lb)"
    using lb assms(1,6,7)
    by (simp add: direct_log_buffer_def Let_def probe_sector_size_def resume_empty_def file_bytes_def)
  then show ?thesis
    using ex oj ln by (simp add: open_direct_def direct_seat_def journal_handle_at_def set_file_def resume_empty_def)
qed

text \<open>
  Without failures a buffered open of an existing journal succeeds, whatever bytes it holds, as
  long as some name for a copy of its tail is free.
\<close>

lemma open_buffered_succeeds:
  assumes "quiet w" and "files w p = Some F" and "length F < 2 ^ 63" and "reads_ok rd (length F)"
    and "k \<le> U32_MAX" and "sidecar_path p (fst (snd (scan C F 0))) k = Inr d" and "files w d = None"
  shows "\<exists>w' h. open_buffered C rd w p o1 = (w', Inr h) \<and> handle_ok p F (fst (snd (scan C F 0))) w' h"
  using open_buffered_quiet [OF assms, of o1] open_buffered_spec [OF _ assms(2,4) refl] by blast

subsection \<open>Witnesses\<close>

definition no_env :: open_env where
  "no_env = \<lparr>env_direct_ok = True, env_statfs = None, env_ring = False, env_oom = False\<rparr>"

theorem open_keeps_valid_part_witness:
  "\<exists>w' h. open_with_options rfc3720 full_reads no_env sample_world sample_path options_new = (w', Inr h) \<and>
     open_safe sample_world sample_path (frame rfc3720 [1] @ [7]) 13 w' \<and>
     handle_ok sample_path (frame rfc3720 [1] @ [7]) 13 w' h"
proof -
  obtain w' h where "open_buffered rfc3720 full_reads sample_world sample_path options_new = (w', Inr h)"
    using open_buffered_quiet [OF sample_facts, of 0 rfc3720 _ options_new] sample_free by auto
  then have o1: "open_with_options rfc3720 full_reads no_env sample_world sample_path options_new = (w', Inr h)"
    by (simp add: open_with_options_def options_new_def)
  show ?thesis
    using o1 open_keeps_valid_part [OF o1 sample_facts(2,4) _ refl] by (auto simp: sample_scan options_new_def)
qed

theorem direct_open_stat_failure_empties_journal_witness:
  "\<exists>w' h. open_direct rfc3720 full_reads no_env (sample_world\<lparr>faults := [Some (0, IoError OtherKind ''EIO'')]\<rparr>)
       sample_path options_new = (w', Inr h) \<and>
     files w' sample_path = Some [] \<and> next_lsn (jh_gate h) = 0"
proof -
  let ?w = "sample_world\<lparr>faults := [Some (0, IoError OtherKind ''EIO'')]\<rparr>"
  have h: "files ?w sample_path = Some (frame rfc3720 [1] @ [7])" "frame rfc3720 [1] @ [7] \<noteq> []"
    "faults ?w = [Some (0, IoError OtherKind ''EIO'')]" "reads ?w = []" "env_direct_ok no_env"
    "\<not> env_oom no_env" "env_statfs no_env = None" "CHR 0x00 \<notin> set (path_text sample_path)"
    by (simp_all add: sample_world_def no_env_def sample_path_def path_text_def)
  from direct_open_stat_failure_empties_journal [OF h(1-7) options_new_ok h(8), of rfc3720 full_reads]
  show ?thesis by auto
qed

end
