(* ===== verification/Fsys_GroupCommit.thy ===== *)
theory Fsys_GroupCommit
  imports Fsys_Poison
begin

text \<open>
  The leader/follower group commit of \<open>sync_through\<close> (\<open>src/journal/mod.rs\<close>: \<open>GroupCommitState\<close>,
  \<open>GroupCommit\<close>, \<open>LeaderGuard\<close>, \<open>sync_through\<close> and \<open>flush_and_sync\<close>) for any number of threads.

  Each critical section under the state lock, each atomic access outside it, and each call of the
  leader is one step; waiting for the batching window is a state the leader may leave at any
  time, so the statements do not depend on the clock. What the leader flushes is an interface:
  \<open>app\<close> and \<open>fl\<close> are the actions of a thread that appends or flushes, \<open>ret\<close> the return of a flush
  with the frontier it covered, \<open>lose\<close> what a failed fsync may do to the file. The locale
  \<open>frontier_source\<close> names what the group commit relies on; the buffered journal (with the write
  gate) and the Direct-IO journal (with the log buffer) provide it.
\<close>

section \<open>State\<close>

record group_commit =
  gc_in_flight :: bool
  gc_committed :: nat
  gc_pending :: nat
  gc_synced :: nat

definition group_commit_new :: "nat \<Rightarrow> group_commit" where
  "group_commit_new initial =
     \<lparr>gc_in_flight = False, gc_committed = initial, gc_pending = 0, gc_synced = initial\<rparr>"

datatype sync_pc =
    SyncIdle
  | SyncEnter nat | SyncLock nat | Parked nat | Woken nat
  | LeaderWait nat | LeaderFlush nat | LeaderCheck nat nat | LeaderSync nat nat
  | LeaderDrop nat "nat result"
  | SyncDone nat "unit result"

record 'b sync_state =
  backend :: 'b
  gcs :: group_commit
  stable :: bytes
  spcs :: "sync_pc list"
  goals :: "nat list"

section \<open>The critical sections\<close>

text \<open>One turn of the election loop with the state lock held.\<close>

datatype election = Covered | Refused error | Lead | Follow

definition elect :: "nat \<Rightarrow> poison \<Rightarrow> group_commit \<Rightarrow> election" where
  "elect lsn p g =
     (if lsn \<le> gc_committed g then Covered
      else case poison_check p of
          Inl e \<Rightarrow> Refused e
        | Inr _ \<Rightarrow> if \<not> gc_in_flight g then Lead else Follow)"

text \<open>The drop of the leader's guard, and the follower it wakes.\<close>

definition leader_drop :: "nat option \<Rightarrow> group_commit \<Rightarrow> group_commit" where
  "leader_drop frontier g =
     (case frontier of
        Some f \<Rightarrow> if gc_committed g < f then g\<lparr>gc_committed := f, gc_synced := f\<rparr> else g
      | None \<Rightarrow> g)\<lparr>gc_in_flight := False\<rparr>"

fun wake :: "sync_pc \<Rightarrow> sync_pc" where
  "wake (Parked lsn) = Woken lsn"
| "wake x = x"

definition frontier_of :: "nat result \<Rightarrow> nat option" where
  "frontier_of r = (case r of Inl _ \<Rightarrow> None | Inr f \<Rightarrow> Some f)"

definition sync_outcome :: "nat result \<Rightarrow> unit result" where
  "sync_outcome r = (case r of Inl e \<Rightarrow> Inl e | Inr _ \<Rightarrow> Inr ())"

section \<open>The protocol\<close>

definition set_pc :: "nat \<Rightarrow> sync_pc \<Rightarrow> 'b sync_state \<Rightarrow> 'b sync_state" where
  "set_pc t x st = st\<lparr>spcs := (spcs st)[t := x]\<rparr>"

inductive sync_step ::
    "(nat \<Rightarrow> 'b \<Rightarrow> 'b \<Rightarrow> bool) \<Rightarrow> (nat \<Rightarrow> 'b \<Rightarrow> 'b \<Rightarrow> bool) \<Rightarrow> (nat \<Rightarrow> 'b \<Rightarrow> nat result \<Rightarrow> 'b \<Rightarrow> bool) \<Rightarrow>
      ('b \<Rightarrow> poison) \<Rightarrow> ('b \<Rightarrow> bytes) \<Rightarrow> ('b \<Rightarrow> bytes) \<Rightarrow> (bytes \<Rightarrow> error \<Rightarrow> 'b \<Rightarrow> 'b \<Rightarrow> bool) \<Rightarrow> ('b \<Rightarrow> nat \<Rightarrow> bool) \<Rightarrow>
      'b sync_state \<Rightarrow> 'b sync_state \<Rightarrow> bool"
  for app fl ret pois content logb lose rested where
  sync_append: "t < length (spcs st) \<Longrightarrow> spcs st ! t = SyncIdle \<Longrightarrow> app t (backend st) b' \<Longrightarrow>
    sync_step app fl ret pois content logb lose rested st (st\<lparr>backend := b'\<rparr>)"
| sync_call: "t < length (spcs st) \<Longrightarrow> spcs st ! t = SyncIdle \<Longrightarrow> rested (backend st) t \<Longrightarrow>
    sync_step app fl ret pois content logb lose rested st
      (set_pc t (SyncEnter lsn) (st\<lparr>goals := (goals st)[t := min lsn (length (logb (backend st)))]\<rparr>))"
| sync_fast: "t < length (spcs st) \<Longrightarrow> spcs st ! t = SyncEnter lsn \<Longrightarrow>
    sync_step app fl ret pois content logb lose rested st
      (set_pc t (if lsn \<le> gc_synced (gcs st) then SyncDone lsn (Inr ()) else SyncLock lsn) st)"
| sync_covered: "t < length (spcs st) \<Longrightarrow> spcs st ! t = SyncLock lsn \<Longrightarrow>
    elect lsn (pois (backend st)) (gcs st) = Covered \<Longrightarrow>
    sync_step app fl ret pois content logb lose rested st (set_pc t (SyncDone lsn (Inr ())) st)"
| sync_refused: "t < length (spcs st) \<Longrightarrow> spcs st ! t = SyncLock lsn \<Longrightarrow>
    elect lsn (pois (backend st)) (gcs st) = Refused e \<Longrightarrow>
    sync_step app fl ret pois content logb lose rested st (set_pc t (SyncDone lsn (Inl e)) st)"
| sync_lead: "t < length (spcs st) \<Longrightarrow> spcs st ! t = SyncLock lsn \<Longrightarrow>
    elect lsn (pois (backend st)) (gcs st) = Lead \<Longrightarrow>
    sync_step app fl ret pois content logb lose rested st
      (set_pc t (LeaderWait lsn) (st\<lparr>gcs := (gcs st)\<lparr>gc_in_flight := True\<rparr>\<rparr>))"
| sync_follow: "t < length (spcs st) \<Longrightarrow> spcs st ! t = SyncLock lsn \<Longrightarrow>
    elect lsn (pois (backend st)) (gcs st) = Follow \<Longrightarrow>
    sync_step app fl ret pois content logb lose rested st
      (set_pc t (Parked lsn) (st\<lparr>gcs := (gcs st)\<lparr>gc_pending := gc_pending (gcs st) + 1\<rparr>\<rparr>))"
| sync_woken: "t < length (spcs st) \<Longrightarrow> spcs st ! t = Woken lsn \<Longrightarrow>
    sync_step app fl ret pois content logb lose rested st
      (set_pc t (if lsn \<le> gc_synced (gcs st) then SyncDone lsn (Inr ()) else SyncLock lsn)
        (st\<lparr>gcs := (gcs st)\<lparr>gc_pending := gc_pending (gcs st) - 1\<rparr>\<rparr>))"
| sync_window: "t < length (spcs st) \<Longrightarrow> spcs st ! t = LeaderWait lsn \<Longrightarrow>
    sync_step app fl ret pois content logb lose rested st (set_pc t (LeaderFlush lsn) st)"
| sync_flush: "t < length (spcs st) \<Longrightarrow> spcs st ! t = LeaderFlush lsn \<Longrightarrow> fl t (backend st) b' \<Longrightarrow>
    sync_step app fl ret pois content logb lose rested st (st\<lparr>backend := b'\<rparr>)"
| sync_flushed: "t < length (spcs st) \<Longrightarrow> spcs st ! t = LeaderFlush lsn \<Longrightarrow> ret t (backend st) r b' \<Longrightarrow>
    sync_step app fl ret pois content logb lose rested st
      (set_pc t (case r of Inl e \<Rightarrow> LeaderDrop lsn (Inl e) | Inr f \<Rightarrow> LeaderCheck lsn f) (st\<lparr>backend := b'\<rparr>))"
| sync_check: "t < length (spcs st) \<Longrightarrow> spcs st ! t = LeaderCheck lsn f \<Longrightarrow>
    sync_step app fl ret pois content logb lose rested st
      (set_pc t (case poison_check (pois (backend st)) of
          Inl e \<Rightarrow> LeaderDrop lsn (Inl e) | Inr _ \<Rightarrow> LeaderSync lsn f) st)"
| sync_ok: "t < length (spcs st) \<Longrightarrow> spcs st ! t = LeaderSync lsn f \<Longrightarrow>
    sync_step app fl ret pois content logb lose rested st
      (set_pc t (LeaderDrop lsn (Inr f)) (st\<lparr>stable := content (backend st)\<rparr>))"
| sync_failed: "t < length (spcs st) \<Longrightarrow> spcs st ! t = LeaderSync lsn f \<Longrightarrow> lose (stable st) e (backend st) b' \<Longrightarrow>
    sync_step app fl ret pois content logb lose rested st
      (set_pc t (LeaderDrop lsn (Inl e)) (st\<lparr>backend := b'\<rparr>))"
| sync_drop: "t < length (spcs st) \<Longrightarrow> spcs st ! t = LeaderDrop lsn r \<Longrightarrow>
    sync_step app fl ret pois content logb lose rested st
      (st\<lparr>gcs := leader_drop (frontier_of r) (gcs st),
         spcs := map wake ((spcs st)[t := SyncDone lsn (sync_outcome r)])\<rparr>)"
| sync_return: "t < length (spcs st) \<Longrightarrow> spcs st ! t = SyncDone lsn r \<Longrightarrow>
    sync_step app fl ret pois content logb lose rested st (set_pc t SyncIdle st)"

text \<open>The start: nobody syncs, and the frontier is what the open found durable.\<close>

definition sync_start :: "nat \<Rightarrow> 'b \<Rightarrow> bytes \<Rightarrow> nat \<Rightarrow> 'b sync_state" where
  "sync_start n b s c =
     \<lparr>backend = b, gcs = group_commit_new c, stable = s, spcs = replicate n SyncIdle, goals = replicate n 0\<rparr>"

section \<open>The invariant\<close>

text \<open>The frontier that a leader past its check of the failure flag will publish.\<close>

fun carried :: "sync_pc \<Rightarrow> nat set" where
  "carried (LeaderSync _ f) = {f}"
| "carried (LeaderDrop _ (Inr f)) = {f}"
| "carried _ = {}"

lemma carried_iff: "f \<in> carried x \<longleftrightarrow> (\<exists>l. x = LeaderSync l f \<or> x = LeaderDrop l (Inr f))"
  by (cases x rule: carried.cases) auto

fun is_leader :: "sync_pc \<Rightarrow> bool" where
  "is_leader (LeaderWait _) = True"
| "is_leader (LeaderFlush _) = True"
| "is_leader (LeaderCheck _ _) = True"
| "is_leader (LeaderSync _ _) = True"
| "is_leader (LeaderDrop _ _) = True"
| "is_leader _ = False"

fun is_parked :: "sync_pc \<Rightarrow> bool" where
  "is_parked (Parked _) = True"
| "is_parked _ = False"

definition one_leader :: "group_commit \<Rightarrow> sync_pc list \<Rightarrow> bool" where
  "one_leader g ps \<longleftrightarrow>
     (\<forall>t<length ps. \<forall>u<length ps. is_leader (ps ! t) \<longrightarrow> is_leader (ps ! u) \<longrightarrow> t = u) \<and>
     (gc_in_flight g \<longleftrightarrow> (\<exists>t<length ps. is_leader (ps ! t))) \<and>
     (\<forall>t<length ps. is_parked (ps ! t) \<longrightarrow> gc_in_flight g)"

text \<open>The LSN a call was made with, while it runs.\<close>

fun asked :: "sync_pc \<Rightarrow> nat option" where
  "asked SyncIdle = None"
| "asked (SyncEnter l) = Some l"
| "asked (SyncLock l) = Some l"
| "asked (Parked l) = Some l"
| "asked (Woken l) = Some l"
| "asked (LeaderWait l) = Some l"
| "asked (LeaderFlush l) = Some l"
| "asked (LeaderCheck l f) = Some l"
| "asked (LeaderSync l f) = Some l"
| "asked (LeaderDrop l r) = Some l"
| "asked (SyncDone l r) = Some l"

text \<open>
  What a file may hold after a crash: whatever it likes, but for the bytes the last fsync wrote
  that have not been written over since.
\<close>

definition crash_image :: "bytes \<Rightarrow> bytes \<Rightarrow> bytes \<Rightarrow> bool" where
  "crash_image s f c \<longleftrightarrow>
     (\<forall>n. n \<le> length s \<longrightarrow> n \<le> length f \<longrightarrow> take n s = take n f \<longrightarrow> take n c = take n s)"

subsection \<open>Elections\<close>

lemma wake_simps [simp]:
  "is_leader (wake x) = is_leader x" "\<not> is_parked (wake x)" "asked (wake x) = asked x"
  by (cases x; simp)+

lemma one_leader_move:
  assumes "one_leader g ps" and "t < length ps" and "is_leader x = is_leader (ps ! t)"
    and "is_parked x \<Longrightarrow> gc_in_flight g" and "gc_in_flight g' = gc_in_flight g"
  shows "one_leader g' (ps[t := x])"
  using assms unfolding one_leader_def by (auto simp: nth_list_update)

lemma one_leader_elected:
  assumes "one_leader g ps" and "t < length ps" and "\<not> gc_in_flight g" and "is_leader x"
  shows "one_leader (g\<lparr>gc_in_flight := True\<rparr>) (ps[t := x])"
  using assms unfolding one_leader_def by (auto simp: nth_list_update)

lemma one_leader_dropped:
  assumes "one_leader g ps" and "t < length ps" and "is_leader (ps ! t)" and "\<not> is_leader x"
    and "\<not> gc_in_flight g'"
  shows "one_leader g' (map wake (ps[t := x]))"
  using assms unfolding one_leader_def by (auto simp: nth_list_update)

lemma leader_drop_simps [simp]:
  "gc_in_flight (leader_drop f g) = False"
  "gc_committed (leader_drop None g) = gc_committed g" "gc_synced (leader_drop None g) = gc_synced g"
  "gc_committed (leader_drop (Some n) g) = max (gc_committed g) n"
  by (auto simp: leader_drop_def split: option.splits)

lemma leader_drop_synced:
  "gc_synced g = gc_committed g \<Longrightarrow> gc_synced (leader_drop f g) = gc_committed (leader_drop f g)"
  by (auto simp: leader_drop_def split: option.splits)

lemma elect_cases:
  "elect lsn p g = Covered \<Longrightarrow> lsn \<le> gc_committed g"
  "elect lsn p g = Lead \<Longrightarrow> \<not> gc_in_flight g \<and> \<not> is_set p"
  "elect lsn p g = Follow \<Longrightarrow> gc_in_flight g"
  by (auto simp: elect_def poison_check_def split: if_splits)

locale frontier_source =
  fixes app fl :: "nat \<Rightarrow> 'b \<Rightarrow> 'b \<Rightarrow> bool"
    and ret :: "nat \<Rightarrow> 'b \<Rightarrow> nat result \<Rightarrow> 'b \<Rightarrow> bool"
    and pois :: "'b \<Rightarrow> poison" and content logb :: "'b \<Rightarrow> bytes"
    and lose :: "bytes \<Rightarrow> error \<Rightarrow> 'b \<Rightarrow> 'b \<Rightarrow> bool"
    and rested :: "'b \<Rightarrow> nat \<Rightarrow> bool"
    and inv :: "'b \<Rightarrow> bool"
    and drained firm :: "'b \<Rightarrow> nat \<Rightarrow> bool"
    and aims :: "'b \<Rightarrow> nat \<Rightarrow> nat \<Rightarrow> bool"
  assumes act_inv: "app t b b' \<or> fl t b b' \<Longrightarrow> inv b \<Longrightarrow> inv b'"
    and act_drained: "app t b b' \<or> fl t b b' \<Longrightarrow> inv b \<Longrightarrow> drained b n \<Longrightarrow> drained b' n"
    and act_firm: "app t b b' \<or> fl t b b' \<Longrightarrow> inv b \<Longrightarrow> firm b n \<Longrightarrow> firm b' n"
    and act_log: "app t b b' \<or> fl t b b' \<Longrightarrow> inv b \<Longrightarrow> \<exists>x. logb b' = logb b @ x"
    and act_poison: "app t b b' \<or> fl t b b' \<Longrightarrow> is_set (pois b) \<Longrightarrow> is_set (pois b')"
    and act_rested: "app t b b' \<or> fl t b b' \<Longrightarrow> t \<noteq> u \<Longrightarrow> rested b u \<Longrightarrow> rested b' u"
    and act_aims: "fl t b b' \<or> (app t b b' \<and> t \<noteq> u) \<Longrightarrow> inv b \<Longrightarrow> aims b u n \<Longrightarrow> aims b' u n"
    and ret_inv: "ret t b r b' \<Longrightarrow> inv b \<Longrightarrow> inv b'"
    and ret_firm: "ret t b r b' \<Longrightarrow> inv b \<Longrightarrow> firm b n \<Longrightarrow> firm b' n"
    and ret_log: "ret t b r b' \<Longrightarrow> inv b \<Longrightarrow> logb b' = logb b"
    and ret_poison: "ret t b r b' \<Longrightarrow> is_set (pois b) \<Longrightarrow> is_set (pois b')"
    and ret_rested: "ret t b r b' \<Longrightarrow> rested b' t \<and> (rested b u \<longrightarrow> rested b' u)"
    and ret_frontier: "ret t b (Inr f) b' \<Longrightarrow> inv b \<Longrightarrow> drained b' f"
    and ret_aims: "ret t b (Inr f) b' \<Longrightarrow> inv b \<Longrightarrow> aims b t n \<Longrightarrow> n \<le> f"
    and start_aims: "inv b \<Longrightarrow> rested b t \<Longrightarrow> n \<le> length (logb b) \<Longrightarrow> aims b t n"
    and drained_firm: "inv b \<Longrightarrow> drained b n \<Longrightarrow> \<not> is_set (pois b) \<Longrightarrow> firm b n"
    and firm_file: "inv b \<Longrightarrow> firm b n \<Longrightarrow> n \<le> length (logb b) \<and> n \<le> length (content b) \<and> take n (content b) = take n (logb b)"
    and lose_inv: "lose s e b b' \<Longrightarrow> inv b \<Longrightarrow> inv b' \<and> logb b' = logb b"
    and lose_poison: "lose s e b b' \<Longrightarrow> is_set (pois b')"
    and lose_firm: "lose s e b b' \<Longrightarrow> inv b \<Longrightarrow> firm b n \<Longrightarrow> n \<le> length s \<Longrightarrow> take n s = take n (logb b) \<Longrightarrow> firm b' n"
    and lose_rested: "lose s e b b' \<Longrightarrow> rested b u \<Longrightarrow> rested b' u"

begin

abbreviation step :: "'b sync_state \<Rightarrow> 'b sync_state \<Rightarrow> bool" where
  "step \<equiv> sync_step app fl ret pois content logb lose rested"

text \<open>The bytes of the log below \<open>n\<close> are in the file and in what survives a crash.\<close>

definition held :: "'b \<Rightarrow> bytes \<Rightarrow> nat \<Rightarrow> bool" where
  "held b s n \<longleftrightarrow> firm b n \<and> n \<le> length s \<and> take n s = take n (logb b)"

fun pc_ok :: "'b \<Rightarrow> bytes \<Rightarrow> nat \<Rightarrow> nat \<Rightarrow> nat \<Rightarrow> sync_pc \<Rightarrow> bool" where
  "pc_ok b s c g t SyncIdle = True"
| "pc_ok b s c g t (LeaderFlush l) = aims b t g"
| "pc_ok b s c g t (LeaderCheck l f) = (rested b t \<and> drained b f \<and> g \<le> f)"
| "pc_ok b s c g t (LeaderSync l f) = (rested b t \<and> firm b f \<and> g \<le> f)"
| "pc_ok b s c g t (LeaderDrop l r) = (rested b t \<and> (\<forall>f. r = Inr f \<longrightarrow> held b s f \<and> g \<le> f))"
| "pc_ok b s c g t (SyncDone l r) = (rested b t \<and> (r = Inr () \<longrightarrow> g \<le> c))"
| "pc_ok b s c g t _ = rested b t"

definition goal_ok :: "'b \<Rightarrow> nat \<Rightarrow> sync_pc \<Rightarrow> bool" where
  "goal_ok b g x \<longleftrightarrow> (\<forall>l. asked x = Some l \<longrightarrow> g \<le> l \<and> g \<le> length (logb b))"

definition gc_inv :: "'b sync_state \<Rightarrow> bool" where
  "gc_inv st \<longleftrightarrow>
     inv (backend st) \<and> length (goals st) = length (spcs st) \<and>
     gc_synced (gcs st) = gc_committed (gcs st) \<and>
     held (backend st) (stable st) (gc_committed (gcs st)) \<and>
     one_leader (gcs st) (spcs st) \<and>
     (\<forall>t<length (spcs st).
        pc_ok (backend st) (stable st) (gc_committed (gcs st)) (goals st ! t) t (spcs st ! t) \<and>
        goal_ok (backend st) (goals st ! t) (spcs st ! t))"

subsection \<open>What other threads leave alone\<close>

lemma held_act:
  assumes "app t b b' \<or> fl t b b'" and "inv b" and "held b s n"
  shows "held b' s n"
proof -
  obtain x where "logb b' = logb b @ x" using act_log [OF assms(1,2)] by blast
  with assms(3) act_firm [OF assms(1,2)] firm_file [OF assms(2)] show ?thesis
    by (auto simp: held_def)
qed

lemma held_ret:
  assumes "ret t b r b'" and "inv b" and "held b s n"
  shows "held b' s n"
  using assms ret_log [OF assms(1,2)] ret_firm [OF assms(1,2)] by (simp add: held_def)

lemma held_lose:
  assumes "lose s e b b'" and "inv b" and "held b s n"
  shows "held b' s n"
  using assms lose_inv [OF assms(1,2)] lose_firm [OF assms(1,2)] by (simp add: held_def)

lemma held_sync:
  assumes "inv b" and "firm b n"
  shows "held b (content b) n"
  using firm_file [OF assms] assms(2) by (simp add: held_def)

lemma pc_ok_act:
  assumes "app t b b' \<or> fl t b b'" and "inv b" and "pc_ok b s c g u x"
    and "u \<noteq> t \<or> x = SyncIdle \<or> (\<exists>l. x = LeaderFlush l) \<and> fl t b b'"
  shows "pc_ok b' s c g u x"
  using assms act_rested [OF assms(1), of u] act_aims [of t b b' u g] act_drained [OF assms(1,2)]
    act_firm [OF assms(1,2)] held_act [OF assms(1,2)]
  by (cases x) auto

lemma goal_ok_act:
  assumes "app t b b' \<or> fl t b b'" and "inv b" and "goal_ok b g x"
  shows "goal_ok b' g x"
  using assms(3) act_log [OF assms(1,2)] by (auto simp: goal_ok_def)

lemma pc_ok_other:
  assumes "\<not> is_leader x" and "pc_ok b s c g u x" and "rested b u \<Longrightarrow> rested b' u" and "c \<le> c'"
  shows "pc_ok b' s' c' g u x"
  using assms by (cases x) auto

lemma pc_ok_wake: "pc_ok b s c g u x \<Longrightarrow> pc_ok b s c g u (wake x)"
  by (cases x) auto

lemma one_leader_others:
  "one_leader g ps \<Longrightarrow> t < length ps \<Longrightarrow> is_leader (ps ! t) \<Longrightarrow> u < length ps \<Longrightarrow> u \<noteq> t \<Longrightarrow> \<not> is_leader (ps ! u)"
  by (auto simp: one_leader_def)

subsection \<open>Every step keeps the invariant\<close>

text \<open>A step of one thread that leaves the file, what is durable and the frontier alone.\<close>

lemma gc_inv_move:
  assumes "gc_inv st" and "t < length (spcs st)" and "backend st' = backend st" "stable st' = stable st"
    and "gc_committed (gcs st') = gc_committed (gcs st)" "gc_synced (gcs st') = gc_synced (gcs st)"
    and "spcs st' = (spcs st)[t := x]" and "goals st' = goals st \<or> goals st' = (goals st)[t := g]"
    and "one_leader (gcs st') (spcs st')"
    and "pc_ok (backend st) (stable st) (gc_committed (gcs st)) (goals st' ! t) t x"
    and "goal_ok (backend st) (goals st' ! t) x"
  shows "gc_inv st'"
  using assms by (auto simp: gc_inv_def nth_list_update)

lemma gc_inv_act:
  assumes "gc_inv st" and "t < length (spcs st)" and "app t (backend st) b' \<or> fl t (backend st) b'"
    and "spcs st ! t = SyncIdle \<or> (\<exists>l. spcs st ! t = LeaderFlush l) \<and> fl t (backend st) b'"
  shows "gc_inv (st\<lparr>backend := b'\<rparr>)"
proof -
  have i: "inv (backend st)" using assms(1) by (simp add: gc_inv_def)
  have "pc_ok b' (stable st) (gc_committed (gcs st)) (goals st ! u) u (spcs st ! u) \<and>
      goal_ok b' (goals st ! u) (spcs st ! u)" if "u < length (spcs st)" for u
    using assms(1,4) that pc_ok_act [OF assms(3) i] goal_ok_act [OF assms(3) i] by (auto simp: gc_inv_def)
  then show ?thesis
    using assms(1) act_inv [OF assms(3) i] held_act [OF assms(3) i] by (simp add: gc_inv_def)
qed

text \<open>A step of the leader that changes the file or what is durable.\<close>

lemma gc_inv_leader:
  assumes "gc_inv st" and "t < length (spcs st)" and "is_leader (spcs st ! t)" and "is_leader x"
    and "asked x = asked (spcs st ! t)" and "inv b'" and "logb b' = logb (backend st)"
    and "\<And>u. rested (backend st) u \<Longrightarrow> rested b' u"
    and "held b' s' (gc_committed (gcs st))"
    and "pc_ok b' s' (gc_committed (gcs st)) (goals st ! t) t x"
  shows "gc_inv (set_pc t x (st\<lparr>backend := b', stable := s'\<rparr>))"
proof -
  have ol: "one_leader (gcs st) (spcs st)" and gi: "length (goals st) = length (spcs st)"
    "gc_synced (gcs st) = gc_committed (gcs st)"
    using assms(1) by (simp_all add: gc_inv_def)
  have parked: "\<not> is_parked x" using assms(4) by (cases x) auto
  have all: "pc_ok b' s' (gc_committed (gcs st)) (goals st ! u) u ((spcs st)[t := x] ! u) \<and>
      goal_ok b' (goals st ! u) ((spcs st)[t := x] ! u)" if "u < length (spcs st)" for u
  proof (cases "u = t")
    case True
    have "goal_ok (backend st) (goals st ! t) (spcs st ! t)" using assms(1,2) by (simp add: gc_inv_def)
    then have "goal_ok b' (goals st ! t) x" using assms(5,7) by (simp add: goal_ok_def)
    with True assms(2,10) show ?thesis by simp
  next
    case False
    from assms(1) that have old: "pc_ok (backend st) (stable st) (gc_committed (gcs st)) (goals st ! u) u (spcs st ! u)"
      "goal_ok (backend st) (goals st ! u) (spcs st ! u)" by (simp_all add: gc_inv_def)
    from pc_ok_other [OF one_leader_others [OF ol assms(2,3) that False] old(1) assms(8) order_refl] old(2) False
      assms(7)
    show ?thesis by (simp add: goal_ok_def)
  qed
  have "one_leader (gcs st) ((spcs st)[t := x])"
    using one_leader_move [OF ol assms(2), of x] assms(3,4) parked by simp
  with all gi assms(6,9) show ?thesis by (simp add: gc_inv_def set_pc_def)
qed

lemma gc_inv_drop:
  assumes "gc_inv st" and "t < length (spcs st)" and "spcs st ! t = LeaderDrop lsn r"
  shows "gc_inv (st\<lparr>gcs := leader_drop (frontier_of r) (gcs st),
      spcs := map wake ((spcs st)[t := SyncDone lsn (sync_outcome r)])\<rparr>)"
proof -
  let ?b = "backend st" and ?s = "stable st" and ?c = "gc_committed (gcs st)"
    and ?c' = "gc_committed (leader_drop (frontier_of r) (gcs st))" and ?x = "SyncDone lsn (sync_outcome r)"
  have pc: "pc_ok ?b ?s ?c (goals st ! t) t (LeaderDrop lsn r)" "goal_ok ?b (goals st ! t) (LeaderDrop lsn r)"
    and old: "held ?b ?s ?c" "one_leader (gcs st) (spcs st)"
    using assms by (auto simp: gc_inv_def)
  have c: "?c \<le> ?c'" by (cases r) (simp_all add: frontier_of_def)
  have held: "held ?b ?s ?c'" using pc(1) old(1) by (cases r) (simp_all add: frontier_of_def max_def)
  have x: "pc_ok ?b ?s ?c' (goals st ! t) t ?x" "goal_ok ?b (goals st ! t) ?x"
    using pc by (cases r; auto simp: frontier_of_def sync_outcome_def goal_ok_def max_def)+
  have "pc_ok ?b ?s ?c' (goals st ! u) u (wake ((spcs st)[t := ?x] ! u)) \<and>
      goal_ok ?b (goals st ! u) (wake ((spcs st)[t := ?x] ! u))" if u: "u < length (spcs st)" for u
  proof (cases "u = t")
    case True
    with x u show ?thesis using pc_ok_wake by (simp add: goal_ok_def)
  next
    case False
    have "\<not> is_leader (spcs st ! u)" using one_leader_others [OF old(2) assms(2) _ u False] assms(3) by simp
    moreover have "pc_ok ?b ?s ?c (goals st ! u) u (spcs st ! u)" "goal_ok ?b (goals st ! u) (spcs st ! u)"
      using assms(1) u by (simp_all add: gc_inv_def)
    ultimately show ?thesis
      using False pc_ok_wake pc_ok_other [of "spcs st ! u" ?b ?s ?c "goals st ! u" u ?b ?c' ?s] c
      by (auto simp: goal_ok_def)
  qed
  moreover have "one_leader (leader_drop (frontier_of r) (gcs st)) (map wake ((spcs st)[t := ?x]))"
    using one_leader_dropped [OF old(2) assms(2)] assms(3) by simp
  ultimately show ?thesis
    using assms(1) held leader_drop_synced [of "gcs st"] by (simp add: gc_inv_def)
qed

lemma gc_inv_pc:
  assumes "gc_inv st" and "t < length (spcs st)" and "spcs st ! t = x"
  shows "pc_ok (backend st) (stable st) (gc_committed (gcs st)) (goals st ! t) t x"
    "goal_ok (backend st) (goals st ! t) x"
  using assms by (auto simp: gc_inv_def)

lemma gc_inv_facts:
  assumes "gc_inv st"
  shows "inv (backend st)" "one_leader (gcs st) (spcs st)" "gc_synced (gcs st) = gc_committed (gcs st)"
    "held (backend st) (stable st) (gc_committed (gcs st))" "length (goals st) = length (spcs st)"
  using assms by (simp_all add: gc_inv_def)

lemma gc_inv_step: "step st st' \<Longrightarrow> gc_inv st \<Longrightarrow> gc_inv st'"
proof (induction rule: sync_step.induct)
  case (sync_append t st b')
  then show ?case using gc_inv_act [of st t b'] by simp
next
  case (sync_call t st lsn)
  note f = gc_inv_facts [OF sync_call(4)]
  from sync_call f(5) show ?case
    by (intro gc_inv_move [OF sync_call(4,1), where x = "SyncEnter lsn"
          and g = "min lsn (length (logb (backend st)))"])
      (auto simp: set_pc_def goal_ok_def intro!: one_leader_move [OF f(2)] split: if_splits)
next
  case (sync_fast t st lsn)
  note f = gc_inv_facts [OF sync_fast(3)] and pc = gc_inv_pc [OF sync_fast(3,1,2)]
  from sync_fast f(3) pc show ?case
    by (intro gc_inv_move [OF sync_fast(3,1)])
      (auto simp: set_pc_def goal_ok_def intro!: one_leader_move [OF f(2)] split: if_splits)
next
  case (sync_covered t st lsn)
  note f = gc_inv_facts [OF sync_covered(4)] and pc = gc_inv_pc [OF sync_covered(4,1,2)]
  from sync_covered f(3) pc elect_cases(1) [OF sync_covered(3)] show ?case
    by (intro gc_inv_move [OF sync_covered(4,1)])
      (auto simp: set_pc_def goal_ok_def intro!: one_leader_move [OF f(2)] split: if_splits)
next
  case (sync_refused t st lsn e)
  note f = gc_inv_facts [OF sync_refused(4)] and pc = gc_inv_pc [OF sync_refused(4,1,2)]
  from sync_refused pc show ?case
    by (intro gc_inv_move [OF sync_refused(4,1)])
      (auto simp: set_pc_def goal_ok_def intro!: one_leader_move [OF f(2)] split: if_splits)
next
  case (sync_lead t st lsn)
  note f = gc_inv_facts [OF sync_lead(4)] and pc = gc_inv_pc [OF sync_lead(4,1,2)]
  from sync_lead pc elect_cases(2) [OF sync_lead(3)] show ?case
    by (intro gc_inv_move [OF sync_lead(4,1)])
      (auto simp: set_pc_def goal_ok_def intro!: one_leader_elected [OF f(2)])
next
  case (sync_follow t st lsn)
  note f = gc_inv_facts [OF sync_follow(4)] and pc = gc_inv_pc [OF sync_follow(4,1,2)]
  from sync_follow pc elect_cases(3) [OF sync_follow(3)] show ?case
    by (intro gc_inv_move [OF sync_follow(4,1)])
      (auto simp: set_pc_def goal_ok_def intro!: one_leader_move [OF f(2)] split: if_splits)
next
  case (sync_woken t st lsn)
  note f = gc_inv_facts [OF sync_woken(3)] and pc = gc_inv_pc [OF sync_woken(3,1,2)]
  from sync_woken f(3) pc show ?case
    by (intro gc_inv_move [OF sync_woken(3,1)])
      (auto simp: set_pc_def goal_ok_def intro!: one_leader_move [OF f(2)] split: if_splits)
next
  case (sync_window t st lsn)
  note f = gc_inv_facts [OF sync_window(3)] and pc = gc_inv_pc [OF sync_window(3,1,2)]
  have "aims (backend st) t (goals st ! t)"
    using start_aims [OF f(1)] pc by (simp add: goal_ok_def)
  with sync_window pc show ?case
    by (intro gc_inv_move [OF sync_window(3,1)])
      (auto simp: set_pc_def goal_ok_def intro!: one_leader_move [OF f(2)] split: if_splits)
next
  case (sync_flush t st lsn b')
  then show ?case using gc_inv_act [of st t b'] by auto
next
  case (sync_flushed t st lsn r b')
  note f = gc_inv_facts [OF sync_flushed(4)] and pc = gc_inv_pc [OF sync_flushed(4,1,2)]
  have "gc_inv (set_pc t (case r of Inl e \<Rightarrow> LeaderDrop lsn (Inl e) | Inr f \<Rightarrow> LeaderCheck lsn f)
      (st\<lparr>backend := b', stable := stable st\<rparr>))"
    using sync_flushed(1,2) pc ret_inv [OF sync_flushed(3) f(1)] ret_log [OF sync_flushed(3) f(1)]
      held_ret [OF sync_flushed(3) f(1,4)] ret_rested [OF sync_flushed(3)]
      ret_frontier [of t "backend st" _ b'] ret_aims [of t "backend st" _ b'] sync_flushed(3) f(1)
    by (intro gc_inv_leader [OF sync_flushed(4,1)]) (auto split: sum.splits)
  then show ?case by simp
next
  case (sync_check t st lsn f)
  note fa = gc_inv_facts [OF sync_check(3)] and pc = gc_inv_pc [OF sync_check(3,1,2)]
  from sync_check pc drained_firm [OF fa(1)] show ?case
    by (intro gc_inv_move [OF sync_check(3,1)])
      (auto simp: set_pc_def goal_ok_def poison_check_def intro!: one_leader_move [OF fa(2)] split: if_splits)
next
  case (sync_ok t st lsn f)
  note fa = gc_inv_facts [OF sync_ok(3)] and pc = gc_inv_pc [OF sync_ok(3,1,2)]
  have "firm (backend st) (gc_committed (gcs st))" using fa(4) by (simp add: held_def)
  then have "gc_inv (set_pc t (LeaderDrop lsn (Inr f)) (st\<lparr>backend := backend st, stable := content (backend st)\<rparr>))"
    using sync_ok(1,2) pc fa held_sync [OF fa(1)]
    by (intro gc_inv_leader [OF sync_ok(3,1)]) auto
  then show ?case by simp
next
  case (sync_failed t st lsn f e b')
  note fa = gc_inv_facts [OF sync_failed(4)] and pc = gc_inv_pc [OF sync_failed(4,1,2)]
  have "gc_inv (set_pc t (LeaderDrop lsn (Inl e)) (st\<lparr>backend := b', stable := stable st\<rparr>))"
    using sync_failed(1,2) pc lose_inv [OF sync_failed(3) fa(1)] held_lose [OF sync_failed(3) fa(1,4)]
      lose_rested [OF sync_failed(3)]
    by (intro gc_inv_leader [OF sync_failed(4,1)]) auto
  then show ?case by simp
next
  case (sync_drop t st lsn r)
  then show ?case using gc_inv_drop [of st t lsn r] by simp
next
  case (sync_return t st lsn r)
  note f = gc_inv_facts [OF sync_return(3)]
  from sync_return show ?case
    by (intro gc_inv_move [OF sync_return(3,1)])
      (auto simp: set_pc_def goal_ok_def intro!: one_leader_move [OF f(2)] split: if_splits)
qed

lemma gc_inv_reachable:
  assumes "step\<^sup>*\<^sup>* st0 st" and "gc_inv st0"
  shows "gc_inv st"
  using assms by (induction rule: rtranclp_induct) (auto intro: gc_inv_step)

lemma gc_inv_start: "inv b \<Longrightarrow> held b s c \<Longrightarrow> gc_inv (sync_start n b s c)"
  by (simp add: gc_inv_def sync_start_def group_commit_new_def one_leader_def goal_ok_def)

text \<open>What every action on the backend keeps, every step of the protocol keeps.\<close>

lemma step_backend:
  assumes "step st st'" and "P (backend st)"
    and "\<And>t b b'. app t b b' \<or> fl t b b' \<Longrightarrow> P b \<Longrightarrow> P b'"
    and "\<And>t b r b'. ret t b r b' \<Longrightarrow> P b \<Longrightarrow> P b'"
    and "\<And>s e b b'. lose s e b b' \<Longrightarrow> P b \<Longrightarrow> P b'"
  shows "P (backend st')"
  using assms(1,2)
  by (cases rule: sync_step.cases)
    (auto simp: set_pc_def dest: assms(3) [OF disjI1] assms(3) [OF disjI2] assms(4,5))

lemma step_length: "step st st' \<Longrightarrow> length (spcs st') = length (spcs st)"
  by (erule sync_step.cases) (auto simp: set_pc_def)

lemma reachable_length: "step\<^sup>*\<^sup>* st st' \<Longrightarrow> length (spcs st') = length (spcs st)"
  by (induction rule: rtranclp_induct) (auto dest: step_length)

lemma reachable_backend:
  assumes "step\<^sup>*\<^sup>* st st'" and "P (backend st)"
    and "\<And>t b b'. app t b b' \<or> fl t b b' \<Longrightarrow> P b \<Longrightarrow> P b'"
    and "\<And>t b r b'. ret t b r b' \<Longrightarrow> P b \<Longrightarrow> P b'"
    and "\<And>s e b b'. lose s e b b' \<Longrightarrow> P b \<Longrightarrow> P b'"
  shows "P (backend st')"
  using assms(1,2)
proof (induction rule: rtranclp_induct)
  case (step st1 st2)
  then show ?case using step_backend [of st1 st2 P] assms(3-5) by blast
qed

subsection \<open>What a caller may rely on\<close>

lemma sync_ok_durable:
  assumes "gc_inv st" and "t < length (spcs st)" and "spcs st ! t = SyncDone lsn (Inr ())"
    and "crash_image (stable st) (content (backend st)) c"
  shows "take (goals st ! t) c = take (goals st ! t) (logb (backend st))"
proof -
  note f = gc_inv_facts [OF assms(1)] and pc = gc_inv_pc [OF assms(1-3)]
  let ?n = "gc_committed (gcs st)"
  have h: "held (backend st) (stable st) ?n" by (rule f(4))
  then have "take ?n c = take ?n (logb (backend st))"
    using assms(4) firm_file [OF f(1), of ?n] unfolding crash_image_def held_def by metis
  moreover have "goals st ! t \<le> ?n" using pc by simp
  ultimately show ?thesis by (metis min.absorb1 take_take)
qed

lemma committed_durable:
  assumes "gc_inv st" and "crash_image (stable st) (content (backend st)) c"
  shows "take (gc_committed (gcs st)) c = take (gc_committed (gcs st)) (logb (backend st)) \<and>
    gc_committed (gcs st) \<le> length (logb (backend st))"
proof -
  note f = gc_inv_facts [OF assms(1)]
  from f(4) assms(2) firm_file [OF f(1), of "gc_committed (gcs st)"] show ?thesis
    unfolding crash_image_def held_def by metis
qed

lemma parked_has_leader:
  assumes "gc_inv st" and "t < length (spcs st)" and "spcs st ! t = Parked lsn"
  shows "\<exists>u<length (spcs st). is_leader (spcs st ! u)"
proof -
  have "is_parked (spcs st ! t)" using assms(3) by simp
  with gc_inv_facts(2) [OF assms(1)] assms(2) show ?thesis unfolding one_leader_def by blast
qed

text \<open>
  Once the journal is poisoned nobody is elected any more, and the frontier moves only to that of a
  leader that was already past its check of the failure flag: \<open>T\<close> holds the threads that may lead,
  \<open>F\<close> the frontiers such leaders carry.
\<close>

definition settling :: "nat set \<Rightarrow> nat set \<Rightarrow> nat \<Rightarrow> 'b sync_state \<Rightarrow> bool" where
  "settling T F c st \<longleftrightarrow>
     is_set (pois (backend st)) \<and> gc_committed (gcs st) \<in> insert c F \<and>
     (\<forall>t<length (spcs st). (is_leader (spcs st ! t) \<longrightarrow> t \<in> T) \<and> carried (spcs st ! t) \<subseteq> F)"

lemma settling_move:
  assumes "settling T F c st" and "t < length (spcs st)" and "is_set (pois b)" and "gc_committed g \<in> insert c F"
    and "is_leader x \<longrightarrow> is_leader (spcs st ! t)" and "carried x \<subseteq> F"
  shows "settling T F c (set_pc t x (st\<lparr>backend := b, gcs := g\<rparr>))"
  using assms by (auto simp: settling_def set_pc_def nth_list_update)

lemma settling_pc:
  assumes "settling T F c st" and "t < length (spcs st)"
  shows "is_set (pois (backend st))" "gc_committed (gcs st) \<in> insert c F" "carried (spcs st ! t) \<subseteq> F"
  using assms by (auto simp: settling_def)

lemma settling_step:
  assumes "step st st'" and "settling T F c st"
  shows "settling T F c st'"
  using assms(1)
proof (cases rule: sync_step.cases)
  case (sync_append t b')
  with assms(2) act_poison [of t "backend st" b'] show ?thesis by (simp add: settling_def)
next
  case (sync_flush t lsn b')
  with assms(2) act_poison [of t "backend st" b'] show ?thesis by (simp add: settling_def)
next
  case (sync_lead t lsn)
  with assms(2) elect_cases(2) [OF sync_lead(4)] show ?thesis by (simp add: settling_def)
next
  case (sync_flushed t lsn r b')
  with assms(2) ret_poison [OF sync_flushed(4)] show ?thesis
    by (auto simp: settling_def set_pc_def nth_list_update split: sum.splits)
next
  case (sync_check t lsn f)
  have "is_set (pois (backend st))" using assms(2) by (simp add: settling_def)
  then obtain e where "poison_check (pois (backend st)) = Inl e" by (auto simp: poison_check_def)
  with assms(2) sync_check show ?thesis by (auto simp: settling_def set_pc_def nth_list_update)
next
  case (sync_failed t lsn f e b')
  then show ?thesis using assms(2) lose_poison [OF sync_failed(4)] by (auto simp: settling_def set_pc_def nth_list_update)
next
  case (sync_drop t lsn r)
  have c: "frontier_of r \<in> insert None (Some ` F)" using settling_pc(3) [OF assms(2), of t] sync_drop by (auto simp: frontier_of_def split: sum.splits)
  have w: "is_leader (wake x) = is_leader x" "carried (wake x) = carried x" for x by (cases x; simp)+
  have "gc_committed (leader_drop (frontier_of r) (gcs st)) \<in> insert c F"
    using c settling_pc(2) [OF assms(2)] sync_drop by (auto simp: leader_drop_def)
  with assms(2) sync_drop show ?thesis by (auto simp: settling_def nth_list_update w)
next
  case (sync_ok t lsn f)
  with settling_pc(3) [OF assms(2), of t] assms(2) show ?thesis by (auto simp: settling_def set_pc_def nth_list_update)
qed (use assms(2) in \<open>auto simp: settling_def set_pc_def nth_list_update\<close>)

lemma settling_reachable:
  assumes "step\<^sup>*\<^sup>* st0 st" and "settling T F c st0"
  shows "settling T F c st"
  using assms by (induction rule: rtranclp_induct) (auto intro: settling_step)

end

end
