(* ===== verification/Fsys_Buffered.thy ===== *)
theory Fsys_Buffered
  imports Fsys_Platform Fsys_Format Fsys_Gate Fsys_GroupCommit
begin

text \<open>
  The buffered mode of a journal (\<open>src/journal/mod.rs\<close>: \<open>append_inner\<close>, \<open>append_batch_inner\<close>,
  \<open>write_reserved\<close>, \<open>preallocate\<close>, and the drain of \<open>flush_and_sync\<close>): any number of threads encode
  a frame or a batch, register with the write gate, reserve a range of the log and write it at its
  offset, while others drain the gate or hold it closed. The theory provides the interface the
  group commit relies on.
\<close>

section \<open>Encoding before the reservation\<close>

definition STACK_FRAME_THRESHOLD :: nat where
  "STACK_FRAME_THRESHOLD = 2048"

definition encode_append :: "crc_crate \<Rightarrow> bytes \<Rightarrow> bytes result" where
  "encode_append C record =
     bind_ok (frame_len (length record)) (\<lambda>sz.
       if sz \<le> STACK_FRAME_THRESHOLD then
         bind_ok (encode_frame_into_uninit C record (replicate STACK_FRAME_THRESHOLD None))
           (\<lambda>(_, encoded). Inr (map the encoded))
       else encode_frame_owned C record)"

text \<open>The validation loop of a batch.\<close>

fun batch_size :: "bytes list \<Rightarrow> nat \<Rightarrow> nat result" where
  "batch_size [] sz = Inr sz"
| "batch_size (record # rs) sz =
     (if FRAME_MAX_PAYLOAD < length record then Inl payload_too_large
      else case checked_add (length record) FRAME_OVERHEAD of
          None \<Rightarrow> Inl (Io (IoError InvalidInput ''journal frame size overflow''))
        | Some frame_size \<Rightarrow>
            (case checked_add sz frame_size of
               None \<Rightarrow> Inl (Io (IoError InvalidInput ''journal append_batch total size overflow''))
             | Some sz1 \<Rightarrow> batch_size rs sz1))"

fun extend_frames :: "crc_crate \<Rightarrow> bytes list \<Rightarrow> bytes \<Rightarrow> bytes result" where
  "extend_frames C [] out = Inr out"
| "extend_frames C (record # rs) out =
     bind_ok (encode_frame_extend C record out) (\<lambda>(out1, _). extend_frames C rs out1)"

definition encode_append_batch :: "crc_crate \<Rightarrow> bytes list \<Rightarrow> bytes result" where
  "encode_append_batch C records =
     bind_ok (batch_size records 0) (\<lambda>_. extend_frames C records [])"

lemma batch_size_ok: "batch_size rs n = Inr m \<Longrightarrow> list_all record_ok rs \<and> m = n + length (frames C rs)"
proof (induction rs arbitrary: n)
  case (Cons r rs)
  then have "record_ok r" "batch_size rs (n + (length r + FRAME_OVERHEAD)) = Inr m"
    by (auto simp: record_ok_def checked_add_def split: if_splits option.splits)
  with Cons.IH show ?case by fastforce
qed simp

context crc_streaming
begin

lemma encode_append_eq:
  "encode_append C r = (if record_ok r then Inr (frame C r) else Inl payload_too_large)"
proof (cases "record_ok r \<and> length (frame C r) \<le> STACK_FRAME_THRESHOLD")
  case True
  have "encode_frame_into_uninit C r (replicate STACK_FRAME_THRESHOLD None) =
      (if record_ok r then
         Inr (map Some (frame C r) @ drop (length (frame C r)) (replicate STACK_FRAME_THRESHOLD None), map Some (frame C r))
       else Inl payload_too_large)"
    using True by (intro encode_frame_into_uninit_eq) simp
  with True show ?thesis by (simp add: encode_append_def frame_len_eq [of r C] comp_def)
next
  case False
  then show ?thesis by (auto simp: encode_append_def frame_len_eq [of r C] encode_frame_owned_eq)
qed

lemma extend_frames_ok: "list_all record_ok rs \<Longrightarrow> extend_frames C rs out = Inr (out @ frames C rs)"
  by (induction rs arbitrary: out) (simp_all add: encode_frame_extend_eq)

lemma encode_append_batch_ok:
  assumes "encode_append_batch C rs = Inr bs"
  shows "list_all record_ok rs \<and> bs = frames C rs"
proof -
  obtain m where m: "batch_size rs 0 = Inr m" using assms by (auto simp: encode_append_batch_def bind_ok_Inr_iff)
  from batch_size_ok [OF m, of C] extend_frames_ok [of rs "[]"] m assms show ?thesis
    by (auto simp: encode_append_batch_def)
qed

end

section \<open>Preallocation\<close>

text \<open>
  The results of the calls are arguments: the two \<open>metadata\<close> calls, the platform's preallocation
  (which may write zeros past the end) and the truncation.
\<close>

definition preallocate_keep_len ::
    "io_error option \<Rightarrow> nat \<Rightarrow> error option \<Rightarrow> io_error option \<Rightarrow> io_error option \<Rightarrow> bytes \<Rightarrow> bytes \<times> unit result" where
  "preallocate_keep_len stat1 grown plat stat2 trunc F =
     (case stat1 of
        Some e \<Rightarrow> (F, Inl (Io e))
      | None \<Rightarrow>
          let before = length F; F1 = F @ zeros grown
          in case plat of
               Some e \<Rightarrow> (F1, Inl e)
             | None \<Rightarrow>
                 (case stat2 of
                    Some e \<Rightarrow> (F1, Inl (Io e))
                  | None \<Rightarrow>
                      if before < length F1 then
                        (case trunc of Some e \<Rightarrow> (F1, Inl (Io e)) | None \<Rightarrow> (take before F1, Inr ()))
                      else (F1, Inr ())))"

lemma preallocate_keep_len_spec:
  assumes "preallocate_keep_len stat1 grown plat stat2 trunc F = (F', r)"
  shows "\<exists>k. F' = F @ zeros k" "r = Inr () \<Longrightarrow> F' = F"
  using assms
  by (auto simp: preallocate_keep_len_def Let_def split: option.splits if_splits intro: exI [of _ 0])

section \<open>The threads\<close>

datatype work = NoWork | Sending bytes | FailedWrite error

record buffered =
  bgate :: gate
  bpcs :: "pc list"
  bwork :: "work list"
  bdisk :: disk
  bpoison :: poison
  blog :: bytes

text \<open>
  A thread that appends or preallocates. \<open>append_begin\<close> and \<open>append_begin_batch\<close> are the poison
  check and the encoding; then the gate, the reservation, the write (\<open>write_reserved\<close>, with the
  poisoning after a failure) and the drop of the ticket.
\<close>

inductive append_act :: "crc_crate \<Rightarrow> nat \<Rightarrow> buffered \<Rightarrow> buffered \<Rightarrow> bool" for C t where
  append_begin: "t < length (bpcs b) \<Longrightarrow> bpcs b ! t = Idle \<Longrightarrow> bwork b ! t = NoWork \<Longrightarrow>
    poison_check (bpoison b) = Inr () \<Longrightarrow> encode_append C record = Inr bs \<Longrightarrow>
    append_act C t b (b\<lparr>bwork := (bwork b)[t := Sending bs]\<rparr>)"
| append_begin_batch: "t < length (bpcs b) \<Longrightarrow> bpcs b ! t = Idle \<Longrightarrow> bwork b ! t = NoWork \<Longrightarrow>
    poison_check (bpoison b) = Inr () \<Longrightarrow> records \<noteq> [] \<Longrightarrow> encode_append_batch C records = Inr bs \<Longrightarrow>
    append_act C t b (b\<lparr>bwork := (bwork b)[t := Sending bs]\<rparr>)"
| append_enter: "t < length (bpcs b) \<Longrightarrow> bwork b ! t = Sending bs \<Longrightarrow> try_enter (bgate b, bpcs b ! t) (g', x) \<Longrightarrow>
    append_act C t b (b\<lparr>bgate := g', bpcs := (bpcs b)[t := x]\<rparr>)"
| append_reserve: "t < length (bpcs b) \<Longrightarrow> bwork b ! t = Sending bs \<Longrightarrow> bpcs b ! t = Ticket p \<Longrightarrow>
    append_act C t b
      (b\<lparr>bgate := (bgate b)\<lparr>next_lsn := next_lsn (bgate b) + length bs\<rparr>,
         bpcs := (bpcs b)[t := Reserved p (next_lsn (bgate b)) (length bs)], blog := blog b @ bs\<rparr>)"
| append_written: "t < length (bpcs b) \<Longrightarrow> bwork b ! t = Sending bs \<Longrightarrow> bpcs b ! t = Reserved p l n \<Longrightarrow>
    write_at (bdisk b) l bs = (d', Inr ()) \<Longrightarrow>
    append_act C t b (b\<lparr>bdisk := d', bpcs := (bpcs b)[t := Written p]\<rparr>)"
| append_failed: "t < length (bpcs b) \<Longrightarrow> bwork b ! t = Sending bs \<Longrightarrow> bpcs b ! t = Reserved p l n \<Longrightarrow>
    write_at (bdisk b) l bs = (d', Inl e) \<Longrightarrow>
    append_act C t b (b\<lparr>bdisk := d', bwork := (bwork b)[t := FailedWrite e]\<rparr>)"
| append_poison: "t < length (bpcs b) \<Longrightarrow> bwork b ! t = FailedWrite e \<Longrightarrow> bpcs b ! t = Reserved p l n \<Longrightarrow>
    append_act C t b (b\<lparr>bpoison := poison_set e (bpoison b), bpcs := (bpcs b)[t := Written p]\<rparr>)"
| append_return: "t < length (bpcs b) \<Longrightarrow> bpcs b ! t = Written p \<Longrightarrow>
    append_act C t b (b\<lparr>bgate := leave p (bgate b), bpcs := (bpcs b)[t := Idle], bwork := (bwork b)[t := NoWork]\<rparr>)"
| prealloc_close: "t < length (bpcs b) \<Longrightarrow> bwork b ! t = NoWork \<Longrightarrow> close_gate (bgate b, bpcs b ! t) (g', x) \<Longrightarrow>
    append_act C t b (b\<lparr>bgate := g', bpcs := (bpcs b)[t := x]\<rparr>)"
| prealloc_run: "t < length (bpcs b) \<Longrightarrow> bwork b ! t = NoWork \<Longrightarrow> bpcs b ! t = Flipping \<Longrightarrow>
    flipper (bgate b) = ClosedHeld \<Longrightarrow>
    preallocate_keep_len stat1 grown plat stat2 trunc (contents (bdisk b)) = (F', r) \<Longrightarrow>
    append_act C t b (b\<lparr>bdisk := (bdisk b)\<lparr>contents := F'\<rparr>\<rparr>)"

text \<open>The leader's drain of the gate, and its return.\<close>

inductive drain_act :: "nat \<Rightarrow> buffered \<Rightarrow> buffered \<Rightarrow> bool" for t where
  drain_run: "t < length (bpcs b) \<Longrightarrow> bwork b ! t = NoWork \<Longrightarrow> drain_below (bgate b, bpcs b ! t) (g', x) \<Longrightarrow>
    \<forall>f. bpcs b ! t \<noteq> Drained f \<Longrightarrow>
    drain_act t b (b\<lparr>bgate := g', bpcs := (bpcs b)[t := x]\<rparr>)"

definition drain_return :: "nat \<Rightarrow> buffered \<Rightarrow> nat result \<Rightarrow> buffered \<Rightarrow> bool" where
  "drain_return t b r b' \<longleftrightarrow>
     t < length (bpcs b) \<and> bwork b ! t = NoWork \<and>
     (\<exists>f. bpcs b ! t = Drained f \<and> r = Inr f \<and> b' = b\<lparr>bpcs := (bpcs b)[t := Idle]\<rparr>)"

text \<open>
  A failed fsync poisons the journal, and the kernel may have dropped any of what was not yet durable:
  only the bytes up to where the file and its durable part agree are sure to stay.
\<close>

definition buffered_lose :: "bytes \<Rightarrow> error \<Rightarrow> buffered \<Rightarrow> buffered \<Rightarrow> bool" where
  "buffered_lose s e b b' \<longleftrightarrow>
     (\<exists>c. crash_image s (contents (bdisk b)) c \<and>
        b' = b\<lparr>bpoison := poison_set e (bpoison b), bdisk := (bdisk b)\<lparr>contents := c\<rparr>\<rparr>)"

definition buffered_rested :: "buffered \<Rightarrow> nat \<Rightarrow> bool" where
  "buffered_rested b t \<longleftrightarrow> t < length (bpcs b) \<and> bpcs b ! t = Idle \<and> bwork b ! t = NoWork"

section \<open>The invariant\<close>

text \<open>A byte of the log that is in the file, and a byte that some thread still has to write.\<close>

definition good :: "buffered \<Rightarrow> nat \<Rightarrow> bool" where
  "good b i \<longleftrightarrow> i < length (contents (bdisk b)) \<and> contents (bdisk b) ! i = blog b ! i"

fun owns :: "nat \<Rightarrow> pc \<Rightarrow> bool" where
  "owns i (Reserved p l n) = (l \<le> i \<and> i < l + n)"
| "owns i _ = False"

fun thread_ok :: "bytes \<Rightarrow> work \<Rightarrow> pc \<Rightarrow> bool" where
  "thread_ok log (Sending bs) (Reserved p l n) = (l + n \<le> length log \<and> n = length bs \<and> take n (drop l log) = bs)"
| "thread_ok log (FailedWrite e) (Reserved p l n) = (l + n \<le> length log)"
| "thread_ok log NoWork (Reserved p l n) = False"
| "thread_ok log _ _ = True"

definition apart :: "pc list \<Rightarrow> bool" where
  "apart ths \<longleftrightarrow> (\<forall>t<length ths. \<forall>u<length ths. \<forall>i. t \<noteq> u \<longrightarrow> owns i (ths ! t) \<longrightarrow> \<not> owns i (ths ! u))"

definition buffered_inv :: "buffered \<Rightarrow> bool" where
  "buffered_inv b \<longleftrightarrow>
     gate_inv (bgate b, bpcs b) \<and> one_flipper (bgate b) (bpcs b) \<and>
     length (bwork b) = length (bpcs b) \<and> next_lsn (bgate b) = length (blog b) \<and>
     (\<forall>t<length (bpcs b). thread_ok (blog b) (bwork b ! t) (bpcs b ! t)) \<and>
     apart (bpcs b) \<and>
     (is_set (bpoison b) \<or>
       (\<forall>i<length (blog b). (\<exists>t<length (bpcs b). owns i (bpcs b ! t)) \<or> good b i))"

text \<open>Nothing below \<open>n\<close> is still to be written; below \<open>n\<close> the file holds the log.\<close>

definition none_below :: "buffered \<Rightarrow> nat \<Rightarrow> bool" where
  "none_below b n \<longleftrightarrow> n \<le> length (blog b) \<and> (\<forall>t<length (bpcs b). \<forall>i<n. \<not> owns i (bpcs b ! t))"

definition buffered_firm :: "buffered \<Rightarrow> nat \<Rightarrow> bool" where
  "buffered_firm b n \<longleftrightarrow> none_below b n \<and> (\<forall>i<n. good b i)"

fun aims_at :: "gate \<Rightarrow> nat \<Rightarrow> pc \<Rightarrow> bool" where
  "aims_at g n Flipping =
     (case flipper g of DrainRead f \<Rightarrow> n \<le> f | DrainFlipped f _ \<Rightarrow> n \<le> f | _ \<Rightarrow> True)"
| "aims_at g n (Drained f) = (n \<le> f)"
| "aims_at g n _ = True"

definition buffered_aims :: "buffered \<Rightarrow> nat \<Rightarrow> nat \<Rightarrow> bool" where
  "buffered_aims b t n \<longleftrightarrow> t < length (bpcs b) \<and> n \<le> length (blog b) \<and> aims_at (bgate b) n (bpcs b ! t)"

lemma slice_nth:
  assumes "take (length bs) (drop l xs) = bs" and "l + length bs \<le> length xs" and "l \<le> i" and "i < l + length bs"
  shows "bs ! (i - l) = xs ! i"
proof -
  have "bs ! (i - l) = take (length bs) (drop l xs) ! (i - l)" using assms(1) by simp
  also have "\<dots> = drop l xs ! (i - l)" using assms(3,4) by (intro nth_take) simp
  also have "\<dots> = xs ! i" using assms(2,3) by (simp add: nth_drop)
  finally show ?thesis .
qed

text \<open>What a write of part of a range leaves of the bytes of the log that are in the file.\<close>

lemma good_write:
  assumes "contents d' = put_at l (take k bs) (contents (bdisk b))" and "k \<le> length bs"
    and "take (length bs) (drop l (blog b)) = bs" and "l + length bs \<le> length (blog b)" and "good b i"
  shows "good (b\<lparr>bdisk := d'\<rparr>) i"
proof -
  have i: "i < length (contents (bdisk b))" "contents (bdisk b) ! i = blog b ! i"
    using assms(5) by (simp_all add: good_def)
  have "length (contents (bdisk b)) \<le> length (contents d')"
    unfolding assms(1) by (rule length_put_at_le)
  moreover have "contents d' ! i = blog b ! i"
  proof (cases "l \<le> i \<and> i < l + k")
    case True
    then have "bs ! (i - l) = blog b ! i"
      using assms(2) by (intro slice_nth [OF assms(3,4)]) auto
    with True i assms(2) show ?thesis unfolding assms(1) by (subst nth_put_at) auto
  next
    case False
    with i assms(2) show ?thesis unfolding assms(1) by (subst nth_put_at) auto
  qed
  ultimately show ?thesis using i(1) by (simp add: good_def)
qed

lemma good_written:
  assumes "contents d' = put_at l bs (contents (bdisk b))"
    and "take (length bs) (drop l (blog b)) = bs" and "l + length bs \<le> length (blog b)"
    and "l \<le> i" and "i < l + length bs"
  shows "good (b\<lparr>bdisk := d'\<rparr>) i"
proof -
  have "bs \<noteq> []" using assms(4,5) by auto
  then have "i < length (contents d')" using assms(1,5) by (simp add: length_put_at)
  moreover have "bs ! (i - l) = blog b ! i"
    by (rule slice_nth [OF assms(2-5)])
  ultimately show ?thesis
    unfolding good_def using assms(1,4,5) by (simp add: nth_put_at)
qed

subsection \<open>Steps that reserve and write nothing\<close>

definition reserving :: "pc \<Rightarrow> bool" where
  "reserving x \<longleftrightarrow> (\<exists>p l n. x = Reserved p l n)"

lemma not_reserving [simp]: "\<not> reserving x \<Longrightarrow> \<not> owns i x" "\<not> reserving x \<Longrightarrow> thread_ok log w x"
  by (cases x; cases w; simp add: reserving_def)+

lemma try_enter_frame: "try_enter (g, y) (g', x) \<Longrightarrow> next_lsn g' = next_lsn g \<and> \<not> reserving y \<and> \<not> reserving x"
  by (erule try_enter.cases) (auto simp: reserving_def register_def leave_def)

lemma drain_below_frame:
  "drain_below (g, y) (g', x) \<Longrightarrow> next_lsn g' = next_lsn g \<and> \<not> reserving y \<and> \<not> reserving x"
  by (erule drain_below.cases) (auto simp: reserving_def)

lemma close_gate_frame:
  "close_gate (g, y) (g', x) \<Longrightarrow> next_lsn g' = next_lsn g \<and> \<not> reserving y \<and> \<not> reserving x"
  by (erule close_gate.cases) (auto simp: reserving_def)

lemma owns_update:
  assumes "t < length ths"
  shows "(\<exists>u<length (ths[t := x]). owns i (ths[t := x] ! u)) \<longleftrightarrow>
    owns i x \<or> (\<exists>u<length ths. u \<noteq> t \<and> owns i (ths ! u))"
  using assms by (auto simp: nth_list_update)

lemma owns_split:
  assumes "t < length ths"
  shows "(\<exists>u<length ths. owns i (ths ! u)) \<longleftrightarrow> owns i (ths ! t) \<or> (\<exists>u<length ths. u \<noteq> t \<and> owns i (ths ! u))"
  using assms by auto

lemma apart_update:
  assumes "apart ths" and "t < length ths" and "\<And>i u. owns i x \<Longrightarrow> u < length ths \<Longrightarrow> u \<noteq> t \<Longrightarrow> \<not> owns i (ths ! u)"
  shows "apart (ths[t := x])"
  unfolding apart_def
proof (intro allI impI)
  fix a u i
  assume h: "a < length (ths[t := x])" "u < length (ths[t := x])" "a \<noteq> u" "owns i (ths[t := x] ! a)"
  have old: "\<not> owns i (ths ! u)" if "owns i (ths ! a)"
    using assms(1) h(1-3) that by (simp add: apart_def)
  consider "a = t" | "u = t" "a \<noteq> t" | "a \<noteq> t" "u \<noteq> t" by blast
  then show "\<not> owns i (ths[t := x] ! u)"
  proof cases
    case 1
    then show ?thesis using h assms(2) assms(3) [of i u] by simp
  next
    case 2
    then show ?thesis using h assms(2) assms(3) [of i a] by auto
  next
    case 3
    then show ?thesis using h old by simp
  qed
qed

lemma gate_inv_thread:
  assumes "gate_inv (g, ths)" and "t < length ths" and "thread_step (g, ths ! t) (g', x)"
  shows "gate_inv (g', ths[t := x])"
  using gate_step_inv [OF gate_act [OF assms(2,3)] assms(1)] .

lemma buffered_inv_plain:
  assumes "buffered_inv b" and "t < length (bpcs b)" and "thread_step (bgate b, bpcs b ! t) (g', x)"
    and "next_lsn g' = next_lsn (bgate b) \<and> \<not> reserving (bpcs b ! t) \<and> \<not> reserving x"
    and "\<forall>u. u \<noteq> t \<longrightarrow> w ! u = bwork b ! u" and "length w = length (bwork b)"
  shows "buffered_inv (b\<lparr>bgate := g', bpcs := (bpcs b)[t := x], bwork := w\<rparr>)"
proof -
  have g: "gate_inv (g', (bpcs b)[t := x])" "one_flipper g' ((bpcs b)[t := x])"
    using assms(1-3) gate_inv_thread one_flipper_step by (auto simp: buffered_inv_def)
  have "apart ((bpcs b)[t := x])"
    using assms(1,2,4) by (intro apart_update) (auto simp: buffered_inv_def)
  moreover have "(\<exists>u<length (bpcs b). owns i ((bpcs b)[t := x] ! u)) = (\<exists>u<length (bpcs b). owns i (bpcs b ! u))" for i
    using owns_update [OF assms(2), where i = i and x = x] owns_split [OF assms(2), where i = i] assms(4) by simp
  moreover have "thread_ok (blog b) (w ! u) ((bpcs b)[t := x] ! u)" if "u < length (bpcs b)" for u
    using that assms(1,2,4,5) by (cases "u = t") (auto simp: buffered_inv_def)
  ultimately show ?thesis
    using assms(1,4,6) g unfolding buffered_inv_def by (simp add: good_def)
qed

lemma buffered_inv_work:
  assumes "buffered_inv b" and "t < length (bpcs b)" and "\<not> reserving (bpcs b ! t)"
  shows "buffered_inv (b\<lparr>bwork := (bwork b)[t := y]\<rparr>)"
proof -
  have "thread_ok (blog b) ((bwork b)[t := y] ! u) (bpcs b ! u)" if "u < length (bpcs b)" for u
    using that assms by (cases "u = t") (auto simp: buffered_inv_def)
  then show ?thesis using assms(1) unfolding buffered_inv_def by (simp add: good_def)
qed

subsection \<open>Reserving and writing\<close>

lemma reserve_inv:
  assumes "buffered_inv b" and "t < length (bpcs b)" and "bwork b ! t = Sending bs" and "bpcs b ! t = Ticket p"
  shows "buffered_inv (b\<lparr>bgate := (bgate b)\<lparr>next_lsn := next_lsn (bgate b) + length bs\<rparr>,
         bpcs := (bpcs b)[t := Reserved p (next_lsn (bgate b)) (length bs)], blog := blog b @ bs\<rparr>)"
proof -
  let ?x = "Reserved p (next_lsn (bgate b)) (length bs)" and ?g = "(bgate b)\<lparr>next_lsn := next_lsn (bgate b) + length bs\<rparr>"
  have n: "next_lsn (bgate b) = length (blog b)" using assms(1) by (simp add: buffered_inv_def)
  have step: "thread_step (bgate b, bpcs b ! t) (?g, ?x)"
    unfolding assms(4) by (intro thread_ticket ticket_reserve)
  have g: "gate_inv (?g, (bpcs b)[t := ?x])" "one_flipper ?g ((bpcs b)[t := ?x])"
    using assms(1,2) step gate_inv_thread one_flipper_step by (auto simp: buffered_inv_def)
  have ok: "thread_ok (blog b) (bwork b ! u) (bpcs b ! u)" if "u < length (bpcs b)" for u
    using assms(1) that by (simp add: buffered_inv_def)
  have low: "\<not> owns i (bpcs b ! u)" if "u < length (bpcs b)" "length (blog b) \<le> i" for u i
    using ok [OF that(1)] that(2) by (cases "bpcs b ! u"; cases "bwork b ! u") auto
  have ap: "apart ((bpcs b)[t := ?x])"
    using assms(1,2) low n by (intro apart_update) (auto simp: buffered_inv_def)
  have th: "thread_ok (blog b @ bs) (bwork b ! u) ((bpcs b)[t := ?x] ! u)" if "u < length (bpcs b)" for u
  proof (cases "u = t")
    case True
    then show ?thesis using assms(2,3) n by simp
  next
    case False
    with ok [OF that] show ?thesis by (cases "bpcs b ! u"; cases "bwork b ! u") auto
  qed
  have rest: "(\<exists>u<length (bpcs b). owns i ((bpcs b)[t := ?x] ! u)) \<or>
      good (b\<lparr>bgate := ?g, bpcs := (bpcs b)[t := ?x], blog := blog b @ bs\<rparr>) i"
    if "i < length (blog b @ bs)" "\<not> is_set (bpoison b)" for i
  proof (cases "i < length (blog b)")
    case True
    have "(\<exists>u<length (bpcs b). owns i (bpcs b ! u)) \<or> good b i"
      using assms(1) True that(2) by (simp add: buffered_inv_def)
    moreover have "\<not> owns i (bpcs b ! t)" by (simp add: assms(4))
    ultimately show ?thesis
      using True owns_split [OF assms(2), where i = i] owns_update [OF assms(2), where i = i and x = ?x]
      by (auto simp: good_def nth_append)
  next
    case False
    then show ?thesis using that(1) n assms(2) by (intro disjI1 exI [of _ t]) simp
  qed
  from rest have "is_set (bpoison b) \<or> (\<forall>i<length (blog b @ bs).
      (\<exists>u<length (bpcs b). owns i ((bpcs b)[t := ?x] ! u)) \<or>
      good (b\<lparr>bgate := ?g, bpcs := (bpcs b)[t := ?x], blog := blog b @ bs\<rparr>) i)"
    by blast
  with assms(1) g n ap th show ?thesis unfolding buffered_inv_def by simp
qed

text \<open>A thread that finishes its range: written, or poisoned.\<close>

lemma finish_inv:
  assumes "buffered_inv b" and "t < length (bpcs b)" and "bpcs b ! t = Reserved p l n"
    and "blog b' = blog b" "bgate b' = bgate b" "bwork b' = bwork b" "bpcs b' = (bpcs b)[t := Written p]"
    and "is_set (bpoison b) \<Longrightarrow> is_set (bpoison b')"
    and "\<not> is_set (bpoison b') \<Longrightarrow> (\<forall>i. good b i \<longrightarrow> good b' i) \<and> (\<forall>i. owns i (bpcs b ! t) \<longrightarrow> good b' i)"
  shows "buffered_inv b'"
proof -
  have step: "thread_step (bgate b, bpcs b ! t) (bgate b, Written p)"
    unfolding assms(3) by (intro thread_ticket ticket_written)
  have g: "gate_inv (bgate b, (bpcs b)[t := Written p])" "one_flipper (bgate b) ((bpcs b)[t := Written p])"
    using assms(1,2) step gate_inv_thread one_flipper_step by (auto simp: buffered_inv_def)
  have ap: "apart ((bpcs b)[t := Written p])"
    using assms(1,2) by (intro apart_update) (auto simp: buffered_inv_def)
  have th: "thread_ok (blog b) (bwork b ! u) ((bpcs b)[t := Written p] ! u)" if "u < length (bpcs b)" for u
    using that assms(1,2) by (cases "u = t") (auto simp: buffered_inv_def reserving_def)
  have rest: "(\<exists>u<length (bpcs b). owns i ((bpcs b)[t := Written p] ! u)) \<or> good b' i"
    if "i < length (blog b)" "\<not> is_set (bpoison b')" for i
  proof -
    have "(\<exists>u<length (bpcs b). owns i (bpcs b ! u)) \<or> good b i"
      using assms(1,8) that by (auto simp: buffered_inv_def)
    then show ?thesis
      using assms(9) [OF that(2)] owns_split [OF assms(2), where i = i] owns_update [OF assms(2), where i = i and x = "Written p"] by auto
  qed
  from rest have "is_set (bpoison b') \<or> (\<forall>i<length (blog b).
      (\<exists>u<length (bpcs b). owns i ((bpcs b)[t := Written p] ! u)) \<or> good b' i)"
    by blast
  with assms(1) g ap th show ?thesis unfolding buffered_inv_def assms(4-7) by simp
qed

lemma write_keeps_good:
  assumes "buffered_inv b" and "t < length (bpcs b)" and "bwork b ! t = Sending bs" and "bpcs b ! t = Reserved p l n"
    and "write_at (bdisk b) l bs = (d', r)"
  shows "good b i \<Longrightarrow> good (b\<lparr>bdisk := d'\<rparr>) i"
    "r = Inr () \<Longrightarrow> owns i (bpcs b ! t) \<Longrightarrow> good (b\<lparr>bdisk := d'\<rparr>) i"
proof -
  have ok: "l + length bs \<le> length (blog b)" "n = length bs" "take (length bs) (drop l (blog b)) = bs"
    using assms(1-4) unfolding buffered_inv_def by force+
  from write_at_effect [OF assms(5)] obtain k where
    k: "k \<le> length bs" "contents d' = put_at l (take k bs) (contents (bdisk b))" "r = Inr () \<longrightarrow> k = length bs"
    by blast
  show "good b i \<Longrightarrow> good (b\<lparr>bdisk := d'\<rparr>) i" by (rule good_write [OF k(2,1) ok(3,1)])
  assume "r = Inr ()" "owns i (bpcs b ! t)"
  with k assms(4) ok(2) good_written [OF _ ok(3,1), of d' i] show "good (b\<lparr>bdisk := d'\<rparr>) i" by simp
qed

section \<open>The interface of the group commit\<close>

lemma append_act_inv: "append_act C t b b' \<Longrightarrow> buffered_inv b \<Longrightarrow> buffered_inv b'"
proof (induction rule: append_act.induct)
  case (append_begin b r bs)
  then show ?case by (intro buffered_inv_work) (simp_all add: reserving_def)
next
  case (append_begin_batch b records bs)
  then show ?case by (intro buffered_inv_work) (simp_all add: reserving_def)
next
  case (append_enter b bs g' x)
  from buffered_inv_plain [OF append_enter(4,1) thread_enter [OF append_enter(3)] try_enter_frame [OF append_enter(3)],
      of "bwork b"]
  show ?case by simp
next
  case (append_reserve b bs p)
  from reserve_inv [OF append_reserve(4,1-3)] show ?case by simp
next
  case (append_written b bs p l n d')
  from write_keeps_good [OF append_written(5,1-4)] show ?case
    by (intro finish_inv [OF append_written(5,1,3)]) (auto simp: good_def)
next
  case (append_failed b bs p l n d' e)
  let ?b = "b\<lparr>bdisk := d', bwork := (bwork b)[t := FailedWrite e]\<rparr>"
  have good: "good ?b i" if "good b i" for i
    using write_keeps_good(1) [OF append_failed(5,1-4) that] by (simp add: good_def)
  have "thread_ok (blog b) ((bwork b)[t := FailedWrite e] ! u) (bpcs b ! u)" if "u < length (bpcs b)" for u
    using that append_failed(1,2,3,5) unfolding buffered_inv_def by (cases "u = t") force+
  with append_failed(5) good show ?case unfolding buffered_inv_def by auto
next
  case (append_poison b e p l n)
  then show ?case by (intro finish_inv [OF append_poison(4,1,3)]) auto
next
  case (append_return b p)
  have "thread_step (bgate b, bpcs b ! t) (leave p (bgate b), Idle)"
    unfolding append_return(2) by (intro thread_ticket ticket_drop)
  from buffered_inv_plain [OF append_return(3,1) this, of "(bwork b)[t := NoWork]"] append_return(2) show ?case
    by (simp add: reserving_def leave_def)
next
  case (prealloc_close b g' x)
  from buffered_inv_plain [OF prealloc_close(4,1) thread_close [OF prealloc_close(3)] close_gate_frame [OF prealloc_close(3)],
      of "bwork b"]
  show ?case by simp
next
  case (prealloc_run b stat1 grown plat stat2 trunc F' r)
  obtain k where "F' = contents (bdisk b) @ zeros k" using preallocate_keep_len_spec(1) [OF prealloc_run(5)] by blast
  then have "good b i \<Longrightarrow> good (b\<lparr>bdisk := (bdisk b)\<lparr>contents := F'\<rparr>\<rparr>) i" for i
    by (auto simp: good_def nth_append)
  with prealloc_run(6) show ?case unfolding buffered_inv_def by auto
qed

lemma drain_act_inv: "drain_act t b b' \<Longrightarrow> buffered_inv b \<Longrightarrow> buffered_inv b'"
proof (induction rule: drain_act.induct)
  case (drain_run b g' x)
  from buffered_inv_plain [OF drain_run(5,1) thread_drain [OF drain_run(3)] drain_below_frame [OF drain_run(3)],
      of "bwork b"]
  show ?case by simp
qed

text \<open>Every action of a thread is a step of the gate or leaves the gate alone.\<close>

lemma owns_updateD: "owns i (ths[t := x] ! u) \<Longrightarrow> owns i x \<or> owns i (ths ! u)"
  by (cases "u = t"; cases "t < length ths") (auto simp: list_update_beyond)

lemma act_gate:
  assumes "append_act C t b b' \<or> drain_act t b b'"
  shows "t < length (bpcs b) \<and> (\<exists>x. bpcs b' = (bpcs b)[t := x] \<and>
    (bgate b' = bgate b \<or> thread_step (bgate b, bpcs b ! t) (bgate b', x)))"
  using assms
proof
  have same: "\<exists>x. bpcs b = (bpcs b)[t := x]" by (metis list_update_id)
  assume "append_act C t b b'"
  then show ?thesis
  proof (cases rule: append_act.cases)
    case (append_reserve bs p)
    then show ?thesis by (auto intro: thread_ticket ticket_reserve)
  next
    case (append_return p)
    then show ?thesis by (auto intro: thread_ticket ticket_drop)
  qed (auto intro: thread_enter thread_close simp: same)
next
  assume "drain_act t b b'"
  then show ?thesis by (cases rule: drain_act.cases) (auto intro: thread_drain)
qed

lemma act_none_below:
  assumes "append_act C t b b' \<or> drain_act t b b'" and "buffered_inv b" and "none_below b n"
  shows "none_below b' n"
proof -
  have keep: "none_below b2 n"
    if "length (blog b) \<le> length (blog b2)" "bpcs b2 = (bpcs b)[t := x]" "\<forall>i<n. \<not> owns i x" for b2 x
    using that assms(3) unfolding none_below_def by (auto dest: owns_updateD)
  from assms(1) show ?thesis
  proof
    assume "append_act C t b b'"
    then show ?thesis
    proof (cases rule: append_act.cases)
      case (append_enter bs g' x)
      then show ?thesis using try_enter_frame [OF append_enter(4)] by (intro keep) auto
    next
      case (append_reserve bs p)
      moreover have "next_lsn (bgate b) = length (blog b)" "n \<le> length (blog b)"
        using assms(2,3) by (auto simp: buffered_inv_def none_below_def)
      ultimately show ?thesis by (intro keep) auto
    next
      case (prealloc_close g' x)
      then show ?thesis using close_gate_frame [OF prealloc_close(4)] by (intro keep) auto
    qed (use assms(3) in \<open>auto simp: none_below_def dest: owns_updateD\<close>)
  next
    assume "drain_act t b b'"
    then show ?thesis
    proof (cases rule: drain_act.cases)
      case (drain_run g' x)
      then show ?thesis using drain_below_frame [OF drain_run(4)] by (intro keep) auto
    qed
  qed
qed

lemma act_good:
  assumes "append_act C t b b' \<or> drain_act t b b'" and "buffered_inv b" and "good b i" and "i < length (blog b)"
  shows "good b' i"
  using assms(1)
proof
  assume "append_act C t b b'"
  then show ?thesis
  proof (cases rule: append_act.cases)
    case (append_written bs p l n d')
    with write_keeps_good(1) [OF assms(2) append_written(2-5) assms(3)] show ?thesis by (simp add: good_def)
  next
    case (append_failed bs p l n d' e)
    with write_keeps_good(1) [OF assms(2) append_failed(2-5) assms(3)] show ?thesis by (simp add: good_def)
  next
    case (prealloc_run stat1 grown plat stat2 trunc F' r)
    obtain k where "F' = contents (bdisk b) @ zeros k" using preallocate_keep_len_spec(1) [OF prealloc_run(6)] by blast
    with prealloc_run(1) assms(3) show ?thesis by (auto simp: good_def nth_append)
  qed (use assms(3,4) in \<open>auto simp: good_def nth_append\<close>)
next
  assume "drain_act t b b'"
  then show ?thesis using assms(3) by (cases rule: drain_act.cases) (auto simp: good_def)
qed

lemma act_log_extends:
  "append_act C t b b' \<or> drain_act t b b' \<Longrightarrow> \<exists>x. blog b' = blog b @ x"
  by (auto elim!: append_act.cases drain_act.cases intro: exI [of _ "[]"])

lemma act_aims:
  assumes "drain_act t b b' \<or> (append_act C t b b' \<and> t \<noteq> u)" and "buffered_inv b" and "buffered_aims b u n"
  shows "buffered_aims b' u n"
proof -
  have act: "append_act C t b b' \<or> drain_act t b b'" using assms(1) by blast
  obtain y where y: "blog b' = blog b @ y" using act_log_extends [OF act] by blast
  obtain x where t: "t < length (bpcs b)" "bpcs b' = (bpcs b)[t := x]"
    "bgate b' = bgate b \<or> thread_step (bgate b, bpcs b ! t) (bgate b', x)"
    using act_gate [OF act] by blast
  have of1: "one_flipper (bgate b) (bpcs b)" "next_lsn (bgate b) = length (blog b)"
    using assms(2) by (simp_all add: buffered_inv_def)
  have u: "u < length (bpcs b)" "n \<le> length (blog b)" "aims_at (bgate b) n (bpcs b ! u)"
    using assms(3) by (simp_all add: buffered_aims_def)
  have "aims_at (bgate b') n (bpcs b' ! u)"
  proof (cases "u = t")
    case True
    with assms(1) have "drain_act t b b'" by blast
    then show ?thesis
    proof (cases rule: drain_act.cases)
      case (drain_run g' z)
      from drain_run(4) show ?thesis
        using True t(1) u(2,3) of1(2) drain_run by (cases rule: drain_below.cases) auto
    qed
  next
    case False
    then have nth: "bpcs b' ! u = bpcs b ! u" using t(2) by simp
    show ?thesis
    proof (cases "bpcs b ! u = Flipping")
      case True
      have "flipper (bgate b') = flipper (bgate b)"
        using t(3) flipper_kept [OF of1(1) t(1) u(1) True not_sym [OF False]] by auto
      with nth u(3) True show ?thesis by simp
    next
      case other: False
      with nth u(3) show ?thesis by (cases "bpcs b ! u") auto
    qed
  qed
  with u y t(2) show ?thesis by (simp add: buffered_aims_def)
qed

text \<open>A frontier below which both counters were seen empty has nothing left to write below it.\<close>

lemma settled_none_below:
  assumes "buffered_inv b" and "f \<le> next_lsn (bgate b)" and "\<forall>x\<in>set (bpcs b). settled 0 f x \<and> settled 1 f x"
  shows "none_below (b\<lparr>bpcs := (bpcs b)[t := Idle]\<rparr>) f"
proof -
  have "\<not> owns i (bpcs b ! u)" if "u < length (bpcs b)" "i < f" for u i
  proof (cases "bpcs b ! u")
    case (Reserved p l n)
    have "p < 2" using assms(1) that(1) Reserved gate_inv_at [of "bgate b" "bpcs b" u] by (simp add: buffered_inv_def)
    moreover have "settled 0 f (Reserved p l n)" "settled 1 f (Reserved p l n)"
      using assms(3) that(1) Reserved nth_mem [OF that(1)] by auto
    ultimately have "f \<le> l" by (auto simp: settled_def less_2_cases_iff)
    with Reserved that(2) show ?thesis by simp
  qed simp_all
  with assms(1,2) show ?thesis by (auto simp: none_below_def buffered_inv_def dest: owns_updateD)
qed

lemma drain_return_none_below:
  assumes "drain_return t b (Inr f) b'" and "buffered_inv b"
  shows "none_below b' f"
proof -
  have d: "t < length (bpcs b)" "bpcs b ! t = Drained f" "b' = b\<lparr>bpcs := (bpcs b)[t := Idle]\<rparr>"
    using assms(1) by (auto simp: drain_return_def)
  have "local_ok (bgate b) (bpcs b) (Drained f)"
    using assms(2) d(1,2) gate_inv_at [of "bgate b" "bpcs b" t] by (simp add: buffered_inv_def)
  with settled_none_below [OF assms(2)] d(3) show ?thesis by simp
qed

lemma drain_return_inv:
  assumes "drain_return t b r b'" and "buffered_inv b"
  shows "buffered_inv b'"
proof -
  obtain f where d: "t < length (bpcs b)" "bpcs b ! t = Drained f" "b' = b\<lparr>bpcs := (bpcs b)[t := Idle]\<rparr>"
    using assms(1) by (auto simp: drain_return_def)
  have "thread_step (bgate b, bpcs b ! t) (bgate b, Idle)"
    unfolding d(2) by (intro thread_drain drain_below.drain_return)
  from buffered_inv_plain [OF assms(2) d(1) this, of "bwork b"] d(2,3) show ?thesis by (simp add: reserving_def)
qed

lemma take_eq_good:
  "n \<le> length (blog b) \<Longrightarrow> (\<forall>i<n. good b i) \<longleftrightarrow>
     n \<le> length (contents (bdisk b)) \<and> take n (contents (bdisk b)) = take n (blog b)"
proof
  assume n: "n \<le> length (blog b)" and g: "\<forall>i<n. good b i"
  have l: "n \<le> length (contents (bdisk b))"
    using g by (metis good_def linorder_not_le order_less_irrefl)
  moreover have "take n (contents (bdisk b)) = take n (blog b)"
    using l n g by (intro nth_equalityI) (auto simp: good_def)
  ultimately show "n \<le> length (contents (bdisk b)) \<and> take n (contents (bdisk b)) = take n (blog b)" by simp
next
  assume n: "n \<le> length (blog b)"
    and t: "n \<le> length (contents (bdisk b)) \<and> take n (contents (bdisk b)) = take n (blog b)"
  show "\<forall>i<n. good b i"
  proof (intro allI impI)
    fix i
    assume "i < n"
    with t have "take n (contents (bdisk b)) ! i = take n (blog b) ! i" "i < length (contents (bdisk b))" by auto
    with \<open>i < n\<close> show "good b i" by (simp add: good_def)
  qed
qed

interpretation buffered_commit: frontier_source "append_act C" drain_act drain_return bpoison "\<lambda>b. contents (bdisk b)" blog
    buffered_lose buffered_rested buffered_inv none_below buffered_firm buffered_aims for C
proof
  fix t b b' n
  assume a: "append_act C t b b' \<or> drain_act t b b'"
  show "is_set (bpoison b) \<Longrightarrow> is_set (bpoison b')"
    using a by (auto elim!: append_act.cases drain_act.cases)
  show "t \<noteq> u \<Longrightarrow> buffered_rested b u \<Longrightarrow> buffered_rested b' u" for u
    using a by (auto elim!: append_act.cases drain_act.cases simp: buffered_rested_def)
  assume i: "buffered_inv b"
  show "buffered_inv b'" using a i append_act_inv drain_act_inv by blast
  show "none_below b n \<Longrightarrow> none_below b' n" by (rule act_none_below [OF a i])
  show "\<exists>x. blog b' = blog b @ x" by (rule act_log_extends [OF a])
  show "buffered_firm b n \<Longrightarrow> buffered_firm b' n"
    using act_none_below [OF a i] act_good [OF a i] by (auto simp: buffered_firm_def none_below_def)
next
  fix t b b' u n
  assume "drain_act t b b' \<or> (append_act C t b b' \<and> t \<noteq> u)" "buffered_inv b" "buffered_aims b u n"
  then show "buffered_aims b' u n" by (rule act_aims)
next
  fix t b r b' n u
  assume r: "drain_return t b r b'"
  show "is_set (bpoison b) \<Longrightarrow> is_set (bpoison b')" using r by (auto simp: drain_return_def)
  show "buffered_rested b' t \<and> (buffered_rested b u \<longrightarrow> buffered_rested b' u)"
    using r by (auto simp: drain_return_def buffered_rested_def nth_list_update)
  assume i: "buffered_inv b"
  show "buffered_inv b'" by (rule drain_return_inv [OF r i])
  show "blog b' = blog b" using r by (auto simp: drain_return_def)
  have "\<not> owns i Idle" for i by simp
  then show "buffered_firm b n \<Longrightarrow> buffered_firm b' n"
    using r by (fastforce simp: drain_return_def buffered_firm_def none_below_def good_def dest: owns_updateD)
next
  fix t b f b' n
  assume r: "drain_return t b (Inr f) b'" and i: "buffered_inv b"
  show "none_below b' f" by (rule drain_return_none_below [OF r i])
  show "buffered_aims b t n \<Longrightarrow> n \<le> f" using r by (auto simp: drain_return_def buffered_aims_def)
next
  fix b t n
  assume "buffered_inv b" "buffered_rested b t" "n \<le> length (blog b)"
  then show "buffered_aims b t n" by (simp add: buffered_rested_def buffered_aims_def)
next
  fix b n
  assume "buffered_inv b" "none_below b n" "\<not> is_set (bpoison b)"
  then show "buffered_firm b n"
    unfolding buffered_inv_def buffered_firm_def none_below_def by (meson less_le_trans)
next
  fix b n
  assume "buffered_inv b" "buffered_firm b n"
  then show "n \<le> length (blog b) \<and> n \<le> length (contents (bdisk b)) \<and> take n (contents (bdisk b)) = take n (blog b)"
    using take_eq_good [of n b] by (auto simp: buffered_firm_def none_below_def)
next
  fix s e b b' n
  assume l: "buffered_lose s e b b'"
  show "buffered_rested b u \<Longrightarrow> buffered_rested b' u" for u
    using l by (auto simp: buffered_lose_def buffered_rested_def)
  show "is_set (bpoison b')" using l by (auto simp: buffered_lose_def)
  assume i: "buffered_inv b"
  show "buffered_inv b' \<and> blog b' = blog b" using l i by (auto simp: buffered_lose_def buffered_inv_def)
  assume f: "buffered_firm b n" and n: "n \<le> length s" "take n s = take n (blog b)"
  obtain c where c: "crash_image s (contents (bdisk b)) c"
    "b' = b\<lparr>bpoison := poison_set e (bpoison b), bdisk := (bdisk b)\<lparr>contents := c\<rparr>\<rparr>" using l by (auto simp: buffered_lose_def)
  have "n \<le> length (contents (bdisk b))" "take n (contents (bdisk b)) = take n (blog b)"
    using f take_eq_good [of n b] by (auto simp: buffered_firm_def none_below_def)
  with c(1) n have "take n c = take n (blog b)" unfolding crash_image_def by metis
  with f n c(2) show "buffered_firm b' n"
    using take_eq_good [of n b'] by (auto simp: buffered_firm_def none_below_def good_def)
qed

section \<open>The log is a sequence of frames\<close>

definition sends_frames :: "crc_crate \<Rightarrow> work \<Rightarrow> bool" where
  "sends_frames C w \<longleftrightarrow> (\<forall>bs. w = Sending bs \<longrightarrow> (\<exists>rs. list_all record_ok rs \<and> bs = frames C rs))"

lemma sends_frames_simps [simp]: "sends_frames C NoWork" "sends_frames C (FailedWrite e)"
  by (simp_all add: sends_frames_def)

definition frames_inv :: "crc_crate \<Rightarrow> bytes \<Rightarrow> buffered \<Rightarrow> bool" where
  "frames_inv C base b \<longleftrightarrow>
     length (bwork b) = length (bpcs b) \<and> (\<forall>t<length (bpcs b). sends_frames C (bwork b ! t)) \<and>
     (\<exists>ps. list_all record_ok ps \<and> blog b = base @ frames C ps)"

lemma sends_update:
  "\<forall>t<n. sends_frames C (w ! t) \<Longrightarrow> sends_frames C y \<Longrightarrow> u < n \<Longrightarrow> length w = n \<Longrightarrow> sends_frames C (w[t := y] ! u)"
  by (cases "u = t") auto

context crc_streaming
begin

lemma append_act_frames: "append_act C t b b' \<Longrightarrow> frames_inv C base b \<Longrightarrow> frames_inv C base b'"
proof (induction rule: append_act.induct)
  case (append_begin b r bs)
  then have "sends_frames C (Sending bs)"
    by (auto simp: sends_frames_def encode_append_eq split: if_splits intro: exI [of _ "[r]"])
  with append_begin show ?case by (auto simp: frames_inv_def intro: sends_update)
next
  case (append_begin_batch b records bs)
  then have "sends_frames C (Sending bs)" using encode_append_batch_ok by (auto simp: sends_frames_def)
  with append_begin_batch show ?case by (auto simp: frames_inv_def intro: sends_update)
next
  case (append_reserve b bs p)
  have "sends_frames C (Sending bs)" using append_reserve(1,2,4) by (metis frames_inv_def)
  then obtain rs where rs: "list_all record_ok rs" "bs = frames C rs" by (auto simp: sends_frames_def)
  obtain ps where "list_all record_ok ps" "blog b = base @ frames C ps"
    using append_reserve(4) by (auto simp: frames_inv_def)
  with rs append_reserve(4) show ?case
    by (auto simp: frames_inv_def intro: exI [of _ "ps @ rs"])
qed (auto simp: frames_inv_def intro: sends_update)

end

section \<open>Properties\<close>

text \<open>
  A journal that was just opened on the bytes of a file, for \<open>n\<close> threads, and its protocol: the
  group commit over the buffered mode.
\<close>

definition buffered_start :: "nat \<Rightarrow> disk \<Rightarrow> buffered" where
  "buffered_start n d =
     \<lparr>bgate = gate_new\<lparr>next_lsn := length (contents d)\<rparr>, bpcs = replicate n Idle, bwork = replicate n NoWork,
      bdisk = d, bpoison = poison_new, blog = contents d\<rparr>"

definition buffered_step :: "crc_crate \<Rightarrow> buffered sync_state \<Rightarrow> buffered sync_state \<Rightarrow> bool" where
  "buffered_step C =
     sync_step (append_act C) drain_act drain_return bpoison (\<lambda>b. contents (bdisk b)) blog buffered_lose buffered_rested"

definition buffered_init :: "nat \<Rightarrow> disk \<Rightarrow> buffered sync_state" where
  "buffered_init n d = sync_start n (buffered_start n d) (contents d) (length (contents d))"

lemma buffered_start_inv: "n < 2 ^ 64 \<Longrightarrow> buffered_inv (buffered_start n d)"
  by (auto simp: buffered_inv_def buffered_start_def gate_inv_def gate_new_def counters_ok_def one_flipper_def apart_def
      good_def filter_replicate nth_Cons' less_2_cases_iff)

lemma buffered_init_inv:
  assumes "n < 2 ^ 64"
  shows "buffered_commit.gc_inv (buffered_init n d)"
proof -
  have "buffered_commit.held (buffered_start n d) (contents d) (length (contents d))"
    by (simp add: buffered_commit.held_def buffered_firm_def none_below_def buffered_start_def good_def)
  with buffered_start_inv [OF assms] show ?thesis
    unfolding buffered_init_def by (rule buffered_commit.gc_inv_start)
qed

lemma buffered_reachable_inv:
  "(buffered_step C)\<^sup>*\<^sup>* (buffered_init n d) st \<Longrightarrow> n < 2 ^ 64 \<Longrightarrow> buffered_commit.gc_inv st"
  unfolding buffered_step_def using buffered_commit.gc_inv_reachable [OF _ buffered_init_inv] by blast

lemma buffered_reachable_frames:
  assumes "(buffered_step C)\<^sup>*\<^sup>* (buffered_init n d) st" and "crc_streaming_ok C"
  shows "\<exists>ps. list_all record_ok ps \<and> blog (backend st) = contents d @ frames C ps"
proof -
  let ?P = "frames_inv C (contents d)"
  note act = crc_streaming.append_act_frames [OF crc_streaming.intro [OF assms(2)]]
  have drain: "?P b'" if "drain_act t b b'" "?P b" for t b b'
    using that by (auto simp: frames_inv_def elim!: drain_act.cases)
  have start: "?P (backend (buffered_init n d))"
    by (auto simp: frames_inv_def buffered_init_def sync_start_def buffered_start_def intro: exI [of _ "[]"])
  have "?P (backend st)"
  proof (rule buffered_commit.reachable_backend [where P = ?P, OF assms(1) [unfolded buffered_step_def] start])
    show "?P b'" if "append_act C t b b' \<or> drain_act t b b'" "?P b" for t b b'
      using that act drain by blast
  qed (auto simp: frames_inv_def drain_return_def buffered_lose_def)
  then show ?thesis by (auto simp: frames_inv_def)
qed

text \<open>
  What \<open>sync_through\<close> promises, for any number of threads that append, batch, preallocate and
  sync, and whatever writes and fsyncs fail: when a call returns Ok, then after a crash at that
  moment the file holds, below the LSN asked for (or the end of the log when the call was made, if
  that is smaller), the bytes the journal was opened on followed by the whole frames that were
  appended, without gap or overlap.
\<close>

lemma buffered_sync_is_durable:
  assumes "(buffered_step C)\<^sup>*\<^sup>* (buffered_init n d) st" and "n < 2 ^ 64" and "crc_streaming_ok C"
    and "t < n" and "spcs st ! t = SyncDone lsn (Inr ())"
    and "crash_image (stable st) (contents (bdisk (backend st))) c"
  shows "\<exists>ps. list_all record_ok ps \<and> blog (backend st) = contents d @ frames C ps \<and>
    take (goals st ! t) c = take (goals st ! t) (contents d @ frames C ps)"
proof -
  have inv: "buffered_commit.gc_inv st" by (rule buffered_reachable_inv [OF assms(1,2)])
  have "length (spcs st) = n"
    using buffered_commit.reachable_length [OF assms(1) [unfolded buffered_step_def]]
    by (simp add: buffered_init_def sync_start_def)
  with buffered_commit.sync_ok_durable [OF inv _ assms(5,6)] buffered_reachable_frames [OF assms(1,3)] assms(4)
  show ?thesis by auto
qed

text \<open>
  C26: No lost wake-up: a follower is parked only while some thread leads, and when the leader's
  guard is dropped, after success, error or panic alike, the follower is woken.
\<close>

theorem parked_follower_is_woken:
  assumes "(buffered_step C)\<^sup>*\<^sup>* (buffered_init n d) st" and "n < 2 ^ 64" and "t < n" and "spcs st ! t = Parked lsn"
  shows "\<exists>u<n. is_leader (spcs st ! u) \<and>
    (\<forall>l r. spcs st ! u = LeaderDrop l r \<longrightarrow> (\<exists>st'. buffered_step C st st' \<and> spcs st' ! t = Woken lsn))"
proof -
  have inv: "buffered_commit.gc_inv st" by (rule buffered_reachable_inv [OF assms(1,2)])
  have n: "length (spcs st) = n"
    using buffered_commit.reachable_length [OF assms(1) [unfolded buffered_step_def]]
    by (simp add: buffered_init_def sync_start_def)
  obtain u where u: "u < n" "is_leader (spcs st ! u)"
    using buffered_commit.parked_has_leader [OF inv _ assms(4)] assms(3) n by auto
  then have ne: "u \<noteq> t" using assms(4) by auto
  have "\<exists>st'. buffered_step C st st' \<and> spcs st' ! t = Woken lsn" if "spcs st ! u = LeaderDrop l r" for l r
  proof -
    let ?st = "st\<lparr>gcs := leader_drop (frontier_of r) (gcs st),
         spcs := map wake ((spcs st)[u := SyncDone l (sync_outcome r)])\<rparr>"
    have "buffered_step C st ?st"
      unfolding buffered_step_def by (rule sync_drop) (use u n that in simp_all)
    moreover have "spcs ?st ! t = Woken lsn" using assms(3,4) n ne by simp
    ultimately show ?thesis by blast
  qed
  with u show ?thesis by blast
qed

text \<open>
  C35: A poisoned journal claims no more than what was already being claimed. From any state with the
  failure flag set, and whatever the threads do: nobody becomes a leader, so a failed fsync is never
  retried; and the durable frontier stays where it is, unless a leader had passed its check of the
  flag before, in which case it can only become the frontier that leader drained to.
\<close>

theorem poisoned_frontier_stays:
  assumes "(buffered_step C)\<^sup>*\<^sup>* st st'" and "is_set (bpoison (backend st))"
  shows "(\<forall>t<length (spcs st'). is_leader (spcs st' ! t) \<longrightarrow> is_leader (spcs st ! t)) \<and>
    (gc_committed (gcs st') = gc_committed (gcs st) \<or>
     (\<exists>t<length (spcs st). \<exists>l. spcs st ! t = LeaderSync l (gc_committed (gcs st')) \<or>
        spcs st ! t = LeaderDrop l (Inr (gc_committed (gcs st')))))"
proof -
  let ?T = "{t. is_leader (spcs st ! t)}" and ?F = "\<Union>t<length (spcs st). carried (spcs st ! t)"
  have "buffered_commit.settling ?T ?F (gc_committed (gcs st)) st"
    using assms(2) by (auto simp: buffered_commit.settling_def)
  from buffered_commit.settling_reachable [OF assms(1) [unfolded buffered_step_def] this]
  show ?thesis by (auto simp: buffered_commit.settling_def carried_iff)
qed

subsection \<open>Witnesses\<close>

text \<open>One thread appends a record and syncs it.\<close>

definition bat :: "u64 \<Rightarrow> u64 \<Rightarrow> u64 \<Rightarrow> flip_phase \<Rightarrow> nat \<Rightarrow> pc \<Rightarrow> work \<Rightarrow> bytes \<Rightarrow> bytes \<Rightarrow> buffered" where
  "bat e c0 c1 ph nx x w F log =
     \<lparr>bgate = \<lparr>epoch = e, in_flight = [c0, c1], flipper = ph, next_lsn = nx\<rparr>, bpcs = [x], bwork = [w],
      bdisk = \<lparr>contents = F, script = [], oom = False\<rparr>, bpoison = poison_new, blog = log\<rparr>"

definition sat :: "buffered \<Rightarrow> bool \<Rightarrow> nat \<Rightarrow> bytes \<Rightarrow> sync_pc \<Rightarrow> nat \<Rightarrow> buffered sync_state" where
  "sat b infl c s x g =
     \<lparr>backend = b, gcs = \<lparr>gc_in_flight = infl, gc_committed = c, gc_pending = 0, gc_synced = c\<rparr>, stable = s,
      spcs = [x], goals = [g]\<rparr>"

lemma sat_append:
  "append_act C 0 b b' \<Longrightarrow> buffered_step C (sat b i c s SyncIdle g) (sat b' i c s SyncIdle g)"
  using sync_append [of 0 "sat b i c s SyncIdle g" "append_act C" b'] by (simp add: buffered_step_def sat_def)

lemma sat_flush:
  "drain_act 0 b b' \<Longrightarrow> buffered_step C (sat b i c s (LeaderFlush l) g) (sat b' i c s (LeaderFlush l) g)"
  using sync_flush [of 0 "sat b i c s (LeaderFlush l) g" l drain_act b'] by (simp add: buffered_step_def sat_def)

lemmas bat_simps = bat_def sat_def set_pc_def register_def leave_def parity_bit CLOSED_def FLIP_def

lemma sample_append_run:
  defines "F \<equiv> frame rfc3720 [7]"
  shows "(buffered_step rfc3720)\<^sup>*\<^sup>* (sat (bat 0 0 0 Free 0 Idle NoWork [] []) False 0 [] SyncIdle 0)
    (sat (bat 0 0 0 Free 13 Idle NoWork F F) False 0 [] SyncIdle 0)"
proof -
  let ?st = "\<lambda>b. sat b False 0 [] SyncIdle 0"
  let ?run = "\<lambda>b. (buffered_step rfc3720)\<^sup>*\<^sup>* (?st (bat 0 0 0 Free 0 Idle NoWork [] [])) (?st b)"
  have len: "length F = 13" by (simp add: F_def FRAME_OVERHEAD_def)
  have enc: "encode_append rfc3720 [7] = Inr F"
    using crc_streaming.encode_append_eq [OF crc_streaming.intro [OF rfc3720_streaming], of "[7]"]
    by (simp add: F_def record_ok_def FRAME_MAX_PAYLOAD_def)
  have "\<exists>d. write_at \<lparr>contents = [], script = [], oom = False\<rparr> 0 F = (d, Inr ()) \<and> d = \<lparr>contents = F, script = [], oom = False\<rparr>"
    using len by (simp add: write_at_def write_at_loop.simps sys_pwrite_def as_i64_def put_at_def)
  then have wr: "write_at \<lparr>contents = [], script = [], oom = False\<rparr> 0 F = (\<lparr>contents = F, script = [], oom = False\<rparr>, Inr ())"
    by simp
  have go: "?run b'" if "?run b" "append_act rfc3720 0 b b'" for b b'
    using that(1) sat_append [OF that(2)] by (rule rtranclp.rtrancl_into_rtrancl)
  have "?run (bat 0 0 0 Free 0 Idle NoWork [] [])" by simp
  then have "?run (bat 0 0 0 Free 0 Idle (Sending F) [] [])"
    by (rule go) (use append_act.append_begin [OF _ _ _ _ enc, of 0 "bat 0 0 0 Free 0 Idle NoWork [] []"] in
      \<open>simp add: bat_simps\<close>)
  then have "?run (bat 0 0 0 Free 0 (Loaded 0) (Sending F) [] [])"
    by (rule go) (use append_act.append_enter [of 0 "bat 0 0 0 Free 0 Idle (Sending F) [] []" F] enter_load [of "bgate (bat 0 0 0 Free 0 Idle NoWork [] [])"] in
      \<open>simp add: bat_simps\<close>)
  then have "?run (bat 0 1 0 Free 0 (Counted 0) (Sending F) [] [])"
    by (rule go) (use append_act.append_enter [of 0 "bat 0 0 0 Free 0 (Loaded 0) (Sending F) [] []" F] enter_count [of "bgate (bat 0 0 0 Free 0 Idle NoWork [] [])" 0] in
      \<open>simp add: bat_simps\<close>)
  then have "?run (bat 0 1 0 Free 0 (Ticket 0) (Sending F) [] [])"
    by (rule go) (use append_act.append_enter [of 0 "bat 0 1 0 Free 0 (Counted 0) (Sending F) [] []" F] enter_confirm [of "bgate (bat 0 1 0 Free 0 Idle NoWork [] [])" 0] in
      \<open>simp add: bat_simps\<close>)
  then have "?run (bat 0 1 0 Free 13 (Reserved 0 0 13) (Sending F) [] F)"
    by (rule go) (use append_act.append_reserve [of 0 "bat 0 1 0 Free 0 (Ticket 0) (Sending F) [] []" F 0] len in
      \<open>simp add: bat_simps\<close>)
  then have "?run (bat 0 1 0 Free 13 (Written 0) (Sending F) F F)"
    by (rule go) (use append_act.append_written [of 0 "bat 0 1 0 Free 13 (Reserved 0 0 13) (Sending F) [] F" F 0 0 13] len wr in
      \<open>simp add: bat_simps\<close>)
  then show ?thesis
    by (rule go) (use append_act.append_return [of 0 "bat 0 1 0 Free 13 (Written 0) (Sending F) F F" 0] in
      \<open>simp add: bat_simps\<close>)
qed

lemma sample_sync_run:
  defines "F \<equiv> frame rfc3720 [7]"
  shows "(buffered_step rfc3720)\<^sup>*\<^sup>* (buffered_init 1 \<lparr>contents = [], script = [], oom = False\<rparr>)
    (sat (bat 2 0 0 Free 13 Idle NoWork F F) False 13 F (SyncDone 13 (Inr ())) 13)"
proof -
  let ?run = "\<lambda>st. (buffered_step rfc3720)\<^sup>*\<^sup>* (buffered_init 1 \<lparr>contents = [], script = [], oom = False\<rparr>) st"
  have len: "length F = 13" by (simp add: F_def FRAME_OVERHEAD_def)
  have init: "buffered_init 1 \<lparr>contents = [], script = [], oom = False\<rparr> =
      sat (bat 0 0 0 Free 0 Idle NoWork [] []) False 0 [] SyncIdle 0"
    by (simp add: buffered_init_def sync_start_def buffered_start_def group_commit_new_def gate_new_def bat_simps)
  have go: "?run st'" if "?run st" "buffered_step rfc3720 st st'" for st st'
    using that by (rule rtranclp.rtrancl_into_rtrancl)
  have "?run (sat (bat 0 0 0 Free 13 Idle NoWork F F) False 0 [] SyncIdle 0)"
    unfolding init F_def by (rule sample_append_run)
  then have "?run (sat (bat 0 0 0 Free 13 Idle NoWork F F) False 0 [] (SyncEnter 13) 13)"
    by (rule go) (use sync_call [where t = 0 and st = "sat (bat 0 0 0 Free 13 Idle NoWork F F) False 0 [] (SyncIdle) 0" and rested = buffered_rested and logb = blog and lsn = 13] len in
      \<open>simp add: buffered_step_def bat_simps elect_def buffered_rested_def drain_return_def leader_drop_def
        frontier_of_def sync_outcome_def\<close>)
  then have "?run (sat (bat 0 0 0 Free 13 Idle NoWork F F) False 0 [] (SyncLock 13) 13)"
    by (rule go) (use sync_fast [where t = 0 and st = "sat (bat 0 0 0 Free 13 Idle NoWork F F) False 0 [] (SyncEnter 13) 13" and lsn = 13] in
      \<open>simp add: buffered_step_def bat_simps elect_def buffered_rested_def drain_return_def leader_drop_def
        frontier_of_def sync_outcome_def\<close>)
  then have "?run (sat (bat 0 0 0 Free 13 Idle NoWork F F) True 0 [] (LeaderWait 13) 13)"
    by (rule go) (use sync_lead [where t = 0 and st = "sat (bat 0 0 0 Free 13 Idle NoWork F F) False 0 [] (SyncLock 13) 13" and lsn = 13 and pois = bpoison] in
      \<open>simp add: buffered_step_def bat_simps elect_def buffered_rested_def drain_return_def leader_drop_def
        frontier_of_def sync_outcome_def\<close>)
  then have "?run (sat (bat 0 0 0 Free 13 Idle NoWork F F) True 0 [] (LeaderFlush 13) 13)"
    by (rule go) (use sync_window [where t = 0 and st = "sat (bat 0 0 0 Free 13 Idle NoWork F F) True 0 [] (LeaderWait 13) 13" and lsn = 13] in
      \<open>simp add: buffered_step_def bat_simps elect_def buffered_rested_def drain_return_def leader_drop_def
        frontier_of_def sync_outcome_def\<close>)
  then have "?run (sat (bat 0 0 0 DrainLocked 13 Flipping NoWork F F) True 0 [] (LeaderFlush 13) 13)"
    by (rule go [OF _ sat_flush]) (use drain_act.drain_run [of 0 "bat 0 0 0 Free 13 Idle NoWork F F"] drain_lock [of "bgate (bat 0 0 0 Free 13 Idle NoWork F F)"] in \<open>simp_all add: bat_simps\<close>)
  then have "?run (sat (bat 0 0 0 (DrainRead 13) 13 Flipping NoWork F F) True 0 [] (LeaderFlush 13) 13)"
    by (rule go [OF _ sat_flush]) (use drain_act.drain_run [of 0 "bat 0 0 0 DrainLocked 13 Flipping NoWork F F"] drain_read [of "bgate (bat 0 0 0 DrainLocked 13 Flipping NoWork F F)"] in \<open>simp_all add: bat_simps\<close>)
  then have "?run (sat (bat 2 0 0 (DrainFlipped 13 0) 13 Flipping NoWork F F) True 0 [] (LeaderFlush 13) 13)"
    by (rule go [OF _ sat_flush]) (use drain_act.drain_run [of 0 "bat 0 0 0 (DrainRead 13) 13 Flipping NoWork F F"] drain_flip [of "bgate (bat 0 0 0 (DrainRead 13) 13 Flipping NoWork F F)" 13] in \<open>simp_all add: bat_simps\<close>)
  then have "?run (sat (bat 2 0 0 Free 13 (Drained 13) NoWork F F) True 0 [] (LeaderFlush 13) 13)"
    by (rule go [OF _ sat_flush]) (use drain_act.drain_run [of 0 "bat 2 0 0 (DrainFlipped 13 0) 13 Flipping NoWork F F"] drain_done [of "bgate (bat 2 0 0 (DrainFlipped 13 0) 13 Flipping NoWork F F)" 13 0] in \<open>simp_all add: bat_simps\<close>)
  then have "?run (sat (bat 2 0 0 Free 13 Idle NoWork F F) True 0 [] (LeaderCheck 13 13) 13)"
    by (rule go) (use sync_flushed [where t = 0 and st = "sat (bat 2 0 0 Free 13 (Drained 13) NoWork F F) True 0 [] (LeaderFlush 13) 13" and lsn = 13 and ret = drain_return and r = "Inr 13" and b' = "bat 2 0 0 Free 13 Idle NoWork F F"] in
      \<open>simp add: buffered_step_def bat_simps elect_def buffered_rested_def drain_return_def leader_drop_def
        frontier_of_def sync_outcome_def\<close>)
  then have "?run (sat (bat 2 0 0 Free 13 Idle NoWork F F) True 0 [] (LeaderSync 13 13) 13)"
    by (rule go) (use sync_check [where t = 0 and st = "sat (bat 2 0 0 Free 13 Idle NoWork F F) True 0 [] (LeaderCheck 13 13) 13" and lsn = 13 and f = 13 and pois = bpoison] in
      \<open>simp add: buffered_step_def bat_simps elect_def buffered_rested_def drain_return_def leader_drop_def
        frontier_of_def sync_outcome_def\<close>)
  then have "?run (sat (bat 2 0 0 Free 13 Idle NoWork F F) True 0 F (LeaderDrop 13 (Inr 13)) 13)"
    by (rule go) (use sync_ok [where t = 0 and st = "sat (bat 2 0 0 Free 13 Idle NoWork F F) True 0 [] (LeaderSync 13 13) 13" and lsn = 13 and f = 13 and content = "\<lambda>b. contents (bdisk b)"] in
      \<open>simp add: buffered_step_def bat_simps elect_def buffered_rested_def drain_return_def leader_drop_def
        frontier_of_def sync_outcome_def\<close>)
  then show ?thesis
    by (rule go) (use sync_drop [where t = 0 and st = "sat (bat 2 0 0 Free 13 Idle NoWork F F) True 0 F (LeaderDrop 13 (Inr 13)) 13" and lsn = 13 and r = "Inr 13"] in
      \<open>simp add: buffered_step_def bat_simps elect_def buffered_rested_def drain_return_def leader_drop_def
        frontier_of_def sync_outcome_def\<close>)
qed

lemma buffered_sample_run:
  "\<exists>st. (buffered_step rfc3720)\<^sup>*\<^sup>* (buffered_init 1 \<lparr>contents = [], script = [], oom = False\<rparr>) st \<and>
     spcs st ! 0 = SyncDone 13 (Inr ()) \<and> goals st ! 0 = 13 \<and> blog (backend st) = frame rfc3720 [7] \<and>
     crash_image (stable st) (contents (bdisk (backend st))) (frame rfc3720 [7] @ [9])"
proof -
  let ?F = "frame rfc3720 [7]"
  let ?st = "sat (bat 2 0 0 Free 13 Idle NoWork ?F ?F) False 13 ?F (SyncDone 13 (Inr ())) 13"
  have "crash_image (stable ?st) (contents (bdisk (backend ?st))) (?F @ [9])"
    by (auto simp: crash_image_def bat_simps)
  moreover have "spcs ?st ! 0 = SyncDone 13 (Inr ())" "goals ?st ! 0 = 13" "blog (backend ?st) = ?F" by (simp_all add: bat_simps)
  ultimately show ?thesis using sample_sync_run by blast
qed

text \<open>Two threads that sync: the second finds a leader and parks.\<close>

definition pat :: "bool \<Rightarrow> nat \<Rightarrow> sync_pc \<Rightarrow> sync_pc \<Rightarrow> buffered sync_state" where
  "pat i n x y =
     \<lparr>backend = buffered_start 2 \<lparr>contents = [], script = [], oom = False\<rparr>,
      gcs = \<lparr>gc_in_flight = i, gc_committed = 0, gc_pending = n, gc_synced = 0\<rparr>, stable = [],
      spcs = [x, y], goals = [0, 0]\<rparr>"

lemma parked_run:
  "(buffered_step rfc3720)\<^sup>*\<^sup>* (buffered_init 2 \<lparr>contents = [], script = [], oom = False\<rparr>)
     (pat True 1 (LeaderWait 5) (Parked 5))"
proof -
  let ?run = "(buffered_step rfc3720)\<^sup>*\<^sup>* (buffered_init 2 \<lparr>contents = [], script = [], oom = False\<rparr>)"
  let ?b = "buffered_start 2 \<lparr>contents = [], script = [], oom = False\<rparr>"
  have b: "blog ?b = []" "buffered_rested ?b 0" "buffered_rested ?b (Suc 0)" "bpoison ?b = poison_new"
    by (simp_all add: buffered_start_def buffered_rested_def)
  have go: "?run st'" if "?run st" "buffered_step rfc3720 st st'" for st st'
    using that by (rule rtranclp.rtrancl_into_rtrancl)
  have "?run (pat False 0 SyncIdle SyncIdle)"
    by (simp add: pat_def buffered_init_def sync_start_def group_commit_new_def numeral_2_eq_2)
  then have "?run (pat False 0 (SyncEnter 5) (SyncIdle))"
    by (rule go) (use sync_call [where t = 0 and st = "pat False 0 SyncIdle SyncIdle" and lsn = 5 and rested = buffered_rested and logb = blog] b in
      \<open>simp add: buffered_step_def set_pc_def pat_def elect_def\<close>)
  then have "?run (pat False 0 (SyncLock 5) (SyncIdle))"
    by (rule go) (use sync_fast [where t = 0 and st = "pat False 0 (SyncEnter 5) (SyncIdle)" and lsn = 5] b in
      \<open>simp add: buffered_step_def set_pc_def pat_def elect_def\<close>)
  then have "?run (pat True 0 (LeaderWait 5) (SyncIdle))"
    by (rule go) (use sync_lead [where t = 0 and st = "pat False 0 (SyncLock 5) (SyncIdle)" and lsn = 5 and pois = bpoison] b in
      \<open>simp add: buffered_step_def set_pc_def pat_def elect_def\<close>)
  then have "?run (pat True 0 (LeaderWait 5) (SyncEnter 5))"
    by (rule go) (use sync_call [where t = 1 and st = "pat True 0 (LeaderWait 5) (SyncIdle)" and lsn = 5 and rested = buffered_rested and logb = blog] b in
      \<open>simp add: buffered_step_def set_pc_def pat_def elect_def\<close>)
  then have "?run (pat True 0 (LeaderWait 5) (SyncLock 5))"
    by (rule go) (use sync_fast [where t = 1 and st = "pat True 0 (LeaderWait 5) (SyncEnter 5)" and lsn = 5] b in
      \<open>simp add: buffered_step_def set_pc_def pat_def elect_def\<close>)
  then show ?thesis
    by (rule go) (use sync_follow [where t = 1 and st = "pat True 0 (LeaderWait 5) (SyncLock 5)" and lsn = 5 and pois = bpoison] b in
      \<open>simp add: buffered_step_def set_pc_def pat_def elect_def\<close>)
qed

theorem parked_follower_is_woken_witness:
  "(buffered_step rfc3720)\<^sup>*\<^sup>* (buffered_init 2 \<lparr>contents = [], script = [], oom = False\<rparr>)
     (pat True 1 (LeaderWait 5) (Parked 5)) \<and>
   (\<exists>u<2. is_leader (spcs (pat True 1 (LeaderWait 5) (Parked 5)) ! u))"
  using parked_run parked_follower_is_woken [OF parked_run, of 1 5] by (auto simp: pat_def)

text \<open>A leader that finds the journal poisoned when it has drained the gate.\<close>

theorem poisoned_frontier_stays_witness:
  "let b = bat 0 0 0 Free 0 Idle NoWork [] []; p = b\<lparr>bpoison := poison_set payload_too_large poison_new\<rparr>;
       s = sat p True 0 [] (LeaderCheck 9 13) 0; s' = sat p True 0 [] (LeaderDrop 9 (Inl (poison_error (bpoison p)))) 0
   in buffered_step rfc3720 s s' \<and> is_set (bpoison (backend s)) \<and> gc_committed (gcs s') = gc_committed (gcs s)"
proof -
  let ?p = "(bat 0 0 0 Free 0 Idle NoWork [] [])\<lparr>bpoison := poison_set payload_too_large poison_new\<rparr>"
  let ?s = "sat ?p True 0 [] (LeaderCheck 9 13) 0" and ?s' = "sat ?p True 0 [] (LeaderDrop 9 (Inl (poison_error (bpoison ?p)))) 0"
  have h: "is_set (bpoison (backend ?s))" by (simp add: bat_simps)
  then have c: "poison_check (bpoison (backend ?s)) = Inl (poison_error (bpoison ?p))" by (simp add: poison_check_def bat_simps)
  have st: "buffered_step rfc3720 ?s ?s'"
    using sync_check [where t = 0 and st = ?s and lsn = 9 and f = 13 and pois = bpoison] c
    by (simp add: buffered_step_def bat_simps)
  from poisoned_frontier_stays [OF r_into_rtranclp [where r = "buffered_step rfc3720", OF st] h] st h
  show ?thesis by (simp add: Let_def bat_simps)
qed

end
