(* ===== verification/Fsys_Direct.thy ===== *)
theory Fsys_Direct
  imports Fsys_LogBuffer Fsys_GroupCommit
begin

text \<open>
  The Direct-IO mode of a journal under group commit (\<open>src/journal/mod.rs\<close>: the log-buffer
  branches of \<open>append_inner\<close>, \<open>append_batch_inner\<close>, \<open>flush_and_sync\<close>, \<open>close\<close> and \<open>Drop\<close>): the log
  buffer provides the interface the group commit relies on, with the partial flush of a sync
  point as the leader's flush. The functional part follows one thread through append, batch,
  sync, close and drop.
\<close>

section \<open>The log buffer as a source of frontiers\<close>

definition direct_append :: "crc_crate \<Rightarrow> nat \<Rightarrow> lb_state \<Rightarrow> lb_state \<Rightarrow> bool" where
  "direct_append C t b b' \<longleftrightarrow> lb_step C b b'"

definition direct_flush :: "nat \<Rightarrow> lb_state \<Rightarrow> lb_state \<Rightarrow> bool" where
  "direct_flush t b b' \<longleftrightarrow> False"

definition direct_return :: "nat \<Rightarrow> lb_state \<Rightarrow> nat result \<Rightarrow> lb_state \<Rightarrow> bool" where
  "direct_return t b r b' \<longleftrightarrow>
     (\<exists>d' p'. flush_partial (buf_of b) (disk_of b) (poison_of b) = Some (d', p', r) \<and>
        b' = b\<lparr>disk_of := d', poison_of := p'\<rparr>)"

definition direct_lose :: "bytes \<Rightarrow> error \<Rightarrow> lb_state \<Rightarrow> lb_state \<Rightarrow> bool" where
  "direct_lose s e b b' \<longleftrightarrow>
     (\<exists>c. crash_image s (contents (disk_of b)) c \<and>
        b' = b\<lparr>poison_of := poison_set e (poison_of b), disk_of := (disk_of b)\<lparr>contents := c\<rparr>\<rparr>)"

text \<open>
  The file holds the log below \<open>n\<close>, and a write that is still under way will not change that.
\<close>

definition direct_firm :: "lb_state \<Rightarrow> nat \<Rightarrow> bool" where
  "direct_firm b n \<longleftrightarrow>
     n \<le> length (log_of b) \<and> n \<le> length (contents (disk_of b)) \<and>
     take n (contents (disk_of b)) = take n (log_of b) \<and>
     (\<forall>j. work b = Some (j, None) \<longrightarrow> job_reaches (buf_of b) j (log_of b) n)"

definition direct_aims :: "lb_state \<Rightarrow> nat \<Rightarrow> nat \<Rightarrow> bool" where
  "direct_aims b t n \<longleftrightarrow> n \<le> length (log_of b)"

text \<open>Writing part of a stretch of the log over bytes of the log.\<close>

lemma put_covers:
  assumes "covers data pos log k" and "n \<le> pos + k" and "n \<le> length log" and "n \<le> length F"
    and "take n F = take n log" and "m \<le> length data"
  shows "n \<le> length (put_at pos (take m data) F) \<and> take n (put_at pos (take m data) F) = take n log"
proof -
  let ?P = "put_at pos (take m data) F"
  have cov: "pos + k \<le> length log" "k \<le> length data" "take k data = take k (drop pos log)"
    using assms(1) by (auto simp: covers_def dest: arg_cong [where f = "take k"])
  have len: "n \<le> length ?P" using assms(4) length_put_at_le [of F pos "take m data"] by linarith
  have "?P ! i = log ! i" if "i < n" for i
  proof -
    have F: "F ! i = log ! i" using assms(5) that by (metis nth_take)
    have P: "?P ! i = (if pos \<le> i \<and> i < pos + length (take m data) then take m data ! (i - pos) else F ! i)"
      using that assms(4) by (intro nth_put_at) simp
    show ?thesis
    proof (cases "pos \<le> i \<and> i < pos + length (take m data)")
      case True
      then have ik: "i - pos < k" using that assms(2) by linarith
      have "take k data ! (i - pos) = take k (drop pos log) ! (i - pos)" using cov(3) by simp
      then have "data ! (i - pos) = log ! i" using ik cov(1) True by (simp add: nth_drop)
      then show ?thesis using True P by auto
    next
      case False
      show ?thesis unfolding P F [symmetric] using False by (rule if_not_P)
    qed
  qed
  then have "take n ?P = take n log" using len assms(3) by (intro nth_equalityI) simp_all
  with len show ?thesis by simp
qed

lemma job_run_effect:
  assumes "job_run lb d j = (d', r)"
  shows "\<exists>m\<le>length (job_bytes lb j). contents d' = put_at (job_pos j) (take m (job_bytes lb j)) (contents d)"
proof (cases j)
  case (SlotJob i len w pos)
  with assms slot_flush.pw_effect [of lb d pos "take w (slots lb ! i)" d' r] show ?thesis
    by (auto simp: job_run_def job_bytes_def)
next
  case (ScratchJob scratch pos rec n)
  with assms linux_direct.pw_effect [of d pos scratch d' r] show ?thesis
    by (auto simp: job_run_def job_bytes_def)
qed

lemma flush_partial_effect:
  assumes "mem_ok lb log" and "flush_partial lb d p = Some (d', p', r)"
  shows "\<exists>data m. covers data (active_flush_pos lb) log (active_len lb) \<and> m \<le> length data \<and>
    contents d' = put_at (active_flush_pos lb) (take m data) (contents d)"
proof -
  let ?a = "round_up (active_len lb) (sector_size lb)" and ?p = "active_flush_pos lb"
  let ?data = "take ?a (active lb)"
  have g: "geometry lb" and len: "length log = ?p + active_len lb" "length (drop ?p log) = active_len lb"
    and act: "active lb = drop ?p log @ zeros (capacity lb - active_len lb)"
    using assms(1) by (simp_all add: mem_ok_def)
  have ru: "active_len lb \<le> ?a" "?a \<le> capacity lb"
    using g by (auto simp: geometry_def intro: round_up_slot [OF g])
  then have "?data = drop ?p log @ zeros (?a - active_len lb)"
    unfolding act using len(2) by (simp del: length_drop)
  then have cov: "covers ?data ?p log (active_len lb)" using len ru by (simp add: covers_def)
  have "contents d' = contents d \<or> (\<exists>r'. flush_slot_to_disk lb d ?p ?data = (d', r'))"
    using assms(2) by (auto simp: flush_partial_def Let_def split: if_splits sum.splits prod.splits)
  then show ?thesis
  proof
    assume "contents d' = contents d"
    with cov show ?thesis by (intro exI [of _ ?data] exI [of _ 0]) simp
  next
    assume "\<exists>r'. flush_slot_to_disk lb d ?p ?data = (d', r')"
    with slot_flush.pw_effect cov show ?thesis by blast
  qed
qed

lemma direct_flush_firm:
  assumes "lb_inv b" and "flush_partial (buf_of b) (disk_of b) (poison_of b) = Some (d', p', r)" and "direct_firm b n"
  shows "direct_firm (b\<lparr>disk_of := d', poison_of := p'\<rparr>) n"
proof -
  have m: "mem_ok (buf_of b) (log_of b)" using assms(1) by (simp add: lb_inv_def)
  from flush_partial_effect [OF m assms(2)] obtain data k where
    k: "covers data (active_flush_pos (buf_of b)) (log_of b) (active_len (buf_of b))" "k \<le> length data"
      "contents d' = put_at (active_flush_pos (buf_of b)) (take k data) (contents (disk_of b))" by blast
  have "n \<le> active_flush_pos (buf_of b) + active_len (buf_of b)"
    using assms(3) m by (simp add: direct_firm_def mem_ok_def)
  from put_covers [OF k(1) this _ _ _ k(2)] assms(3) k(3) show ?thesis by (simp add: direct_firm_def)
qed

text \<open>An append leaves the bytes below the end of the log, and the job, alone.\<close>

lemma firm_append:
  assumes "same_but_active lb' (buf_of b)" and "lb_inv b" and "direct_firm b n"
  shows "direct_firm (b\<lparr>buf_of := lb', log_of := log_of b @ x\<rparr>) n"
proof -
  have "job_reaches lb' j (log_of b @ x) n" if "work b = Some (j, None)" for j
  proof -
    from that assms(2) have "dormant_ok (buf_of b)" "job_ok (buf_of b) j (log_of b)"
      by (simp_all add: lb_inv_def work_ok_def)
    from same_but_active_bytes [OF assms(1) this] that assms(3) show ?thesis
      by (auto simp: direct_firm_def job_reaches_def dest: covers_append)
  qed
  with assms(3) show ?thesis by (simp add: direct_firm_def)
qed

lemma lb_step_firm: "lb_step C b b' \<Longrightarrow> lb_inv b \<Longrightarrow> direct_firm b n \<Longrightarrow> direct_firm b' n"
proof (induction rule: lb_step.induct)
  case (step_append st payload fs fr lb' s e)
  have "fs = length fr" using encode_ahead_Inr [OF step_append(1)] by (auto split: if_splits)
  with append_iter_ok [OF _ step_append(2) refl] step_append(3)
  have "same_but_active lb' (buf_of st)" by (auto simp: lb_inv_def)
  with step_append(3,4) show ?case by (auto intro: firm_append)
next
  case (step_batch rs st lb' s e)
  have "same_but_active lb' (buf_of st)"
    using batch_same [OF step_batch(2)] step_batch(3) by (simp add: lb_inv_def mem_ok_def geometry_def)
  with step_batch(3,4) show ?case by (auto intro: firm_append)
next
  case (step_rotate st payload fs enc lb' j)
  have idle: "flushing (buf_of st) = None"
    using append_iter_idle [of "buf_of st"] step_rotate(2) by auto
  from rotate_begin_ok [OF _ idle(1) _ step_rotate(3), of "log_of st"] step_rotate(4,5)
  show ?case by (auto simp: lb_inv_def direct_firm_def job_reaches_def)
next
  case (step_oversize st payload fs enc lb' j)
  have idle: "flushing (buf_of st) = None"
    using append_iter_idle [of "buf_of st"] step_oversize(2) by auto
  have "record_ok payload" "fs = length (frame C payload)" "enc = None \<or> enc = Some (frame C payload)"
    using encode_ahead_Inr [OF step_oversize(1)] by auto
  from oversize_begin_ok [OF _ idle(1) _ this step_oversize(3), of "log_of st"] step_oversize(4,5)
  show ?case by (auto simp: lb_inv_def direct_firm_def job_reaches_def)
next
  case (step_write st j d' res)
  from step_write(1,4) obtain k where
    k: "covers (job_bytes (buf_of st) j) (job_pos j) (log_of st) k" "n \<le> job_pos j + k"
    by (auto simp: direct_firm_def job_reaches_def)
  from job_run_effect [OF step_write(2)] obtain m where
    m: "m \<le> length (job_bytes (buf_of st) j)"
      "contents d' = put_at (job_pos j) (take m (job_bytes (buf_of st) j)) (contents (disk_of st))" by blast
  from put_covers [OF k(1,2) _ _ _ m(1)] step_write(4) m(2) show ?case by (simp add: direct_firm_def)
next
  case (step_end st j res lb' p')
  then show ?case by (simp add: direct_firm_def)
next
  case (step_flush st d' p' res)
  then show ?case by (intro direct_flush_firm)
next
  case (step_poison st e)
  then show ?case by (simp add: direct_firm_def)
qed

lemma lb_step_log: "lb_step C b b' \<Longrightarrow> \<exists>x. log_of b' = log_of b @ x"
  by (erule lb_step.cases) auto

lemma lb_step_poison: "lb_step C b b' \<Longrightarrow> is_set (poison_of b) \<Longrightarrow> is_set (poison_of b')"
proof (erule lb_step.cases)
  fix st j res lb' p'
  assume "b = st" "b' = st\<lparr>buf_of := lb', poison_of := p', work := None\<rparr>" "is_set (poison_of b)"
    "job_end (buf_of st) (poison_of st) j res = (lb', p')"
  then show ?thesis
    by (auto simp: job_end_def rotate_end_def oversize_end_def split: job.splits sum.splits)
next
  fix st d' p' res
  assume "b = st" "b' = st\<lparr>disk_of := d', poison_of := p'\<rparr>" "is_set (poison_of b)"
    "flush_partial (buf_of st) (disk_of st) (poison_of st) = Some (d', p', res)"
  with flush_partial_outcome(2) [of "buf_of st" "disk_of st" "poison_of st" d' p' res] show ?thesis by auto
qed auto

text \<open>A sync point that succeeds: everything appended so far is in the file.\<close>

lemma direct_return_frontier:
  assumes "direct_return t b (Inr f) b'" and "lb_inv b"
  shows "f = length (log_of b) \<and> direct_firm b' f"
proof -
  obtain d' p' where fl: "flush_partial (buf_of b) (disk_of b) (poison_of b) = Some (d', p', Inr f)"
    and b': "b' = b\<lparr>disk_of := d', poison_of := p'\<rparr>"
    using assms(1) by (auto simp: direct_return_def)
  have idle: "flushing (buf_of b) = None" "\<not> is_set (poison_of b)"
    using fl by (auto simp: flush_partial_def poison_check_def Let_def split: if_splits)
  with assms(2) have w: "work b = None" "mem_ok (buf_of b) (log_of b)"
    "disk_ok (disk_of b) (log_of b) (active_flush_pos (buf_of b))"
    using work_ok_idle [of b] by (auto simp: lb_inv_def work_ok_def)
  from flush_partial_ok [OF w(2,3) fl] have f: "f = length (log_of b)" "take f (contents d') = log_of b"
    by (auto simp: disk_ok_def)
  from f have "f \<le> length (contents d')" by (metis length_take min.absorb_iff2 min.commute)
  with f w(1) show ?thesis by (simp add: b' direct_firm_def)
qed

interpretation direct_commit: frontier_source "direct_append C" direct_flush direct_return poison_of
    "\<lambda>b. contents (disk_of b)" log_of direct_lose "\<lambda>b t. True" lb_inv direct_firm direct_firm direct_aims for C
proof
  fix t b b' n
  assume a: "direct_append C t b b' \<or> direct_flush t b b'"
  then have s: "lb_step C b b'" by (simp add: direct_append_def direct_flush_def)
  show "is_set (poison_of b) \<Longrightarrow> is_set (poison_of b')" by (rule lb_step_poison [OF s])
  assume i: "lb_inv b"
  show "lb_inv b'" by (rule lb_step_inv [OF s i])
  show "\<exists>x. log_of b' = log_of b @ x" by (rule lb_step_log [OF s])
  show "direct_firm b n \<Longrightarrow> direct_firm b' n" by (rule lb_step_firm [OF s i])
next
  fix t b b' u n
  assume "direct_flush t b b' \<or> (direct_append C t b b' \<and> t \<noteq> u)" "direct_aims b u n"
  then show "direct_aims b' u n"
    using lb_step_log by (fastforce simp: direct_flush_def direct_append_def direct_aims_def)
next
  fix t b r b' n
  assume r: "direct_return t b r b'"
  then obtain d' p' where fl: "flush_partial (buf_of b) (disk_of b) (poison_of b) = Some (d', p', r)"
    and b': "b' = b\<lparr>disk_of := d', poison_of := p'\<rparr>" by (auto simp: direct_return_def)
  show "is_set (poison_of b) \<Longrightarrow> is_set (poison_of b')"
    using flush_partial_outcome(2) [OF fl] by (auto simp: b')
  assume i: "lb_inv b"
  show "lb_inv b'" using lb_step_inv [OF lb_step.step_flush [OF fl] i] by (simp add: b')
  show "log_of b' = log_of b" by (simp add: b')
  show "direct_firm b n \<Longrightarrow> direct_firm b' n" unfolding b' by (rule direct_flush_firm [OF i fl])
next
  fix t b f b' n
  assume r: "direct_return t b (Inr f) b'" and i: "lb_inv b"
  show "direct_firm b' f" using direct_return_frontier [OF r i] by (rule conjunct2)
  show "direct_aims b t n \<Longrightarrow> n \<le> f" using direct_return_frontier [OF r i] by (simp add: direct_aims_def)
next
  fix b :: lb_state and t n
  assume "n \<le> length (log_of b)"
  then show "direct_aims b t n" by (simp add: direct_aims_def)
next
  fix b n
  assume "direct_firm b n"
  then show "n \<le> length (log_of b) \<and> n \<le> length (contents (disk_of b)) \<and> take n (contents (disk_of b)) = take n (log_of b)"
    by (simp add: direct_firm_def)
next
  fix s e b b' n
  assume l: "direct_lose s e b b'"
  show "is_set (poison_of b')" using l by (auto simp: direct_lose_def)
  assume i: "lb_inv b"
  show "lb_inv b' \<and> log_of b' = log_of b"
    using l i by (auto simp: direct_lose_def lb_inv_def work_ok_def split: option.splits prod.splits)
  assume f: "direct_firm b n" and n: "n \<le> length s" "take n s = take n (log_of b)"
  obtain c where c: "crash_image s (contents (disk_of b)) c"
    "b' = b\<lparr>poison_of := poison_set e (poison_of b), disk_of := (disk_of b)\<lparr>contents := c\<rparr>\<rparr>" using l by (auto simp: direct_lose_def)
  have e: "take n c = take n (log_of b)" using c(1) n f by (auto simp: crash_image_def direct_firm_def)
  have "n \<le> length c" using arg_cong [OF e, of length] f by (simp add: direct_firm_def)
  with e f c(2) show "direct_firm b' n" by (auto simp: direct_firm_def)
qed simp_all

section \<open>Properties\<close>

text \<open>
  A journal opened in Direct-IO mode on a file whose valid part is the log of its buffer, for \<open>n\<close>
  threads, and its protocol.
\<close>

definition direct_step :: "crc_crate \<Rightarrow> lb_state sync_state \<Rightarrow> lb_state sync_state \<Rightarrow> bool" where
  "direct_step C =
     sync_step (direct_append C) direct_flush direct_return poison_of (\<lambda>b. contents (disk_of b)) log_of direct_lose (\<lambda>b t. True)"

definition direct_init :: "nat \<Rightarrow> log_buffer \<Rightarrow> disk \<Rightarrow> bytes \<Rightarrow> lb_state sync_state" where
  "direct_init n lb d log =
     sync_start n \<lparr>buf_of = lb, disk_of = d, poison_of = poison_new, work = None, log_of = log\<rparr> (contents d) (length log)"

lemma direct_init_inv:
  assumes "at_rest lb d log" and "take (length log) (contents d) = log"
  shows "direct_commit.gc_inv (direct_init n lb d log)"
proof -
  let ?b = "\<lparr>buf_of = lb, disk_of = d, poison_of = poison_new, work = None, log_of = log\<rparr>"
  have "length log \<le> length (contents d)" using assms(2) by (metis length_take min.cobounded1)
  then have "direct_commit.held ?b (contents d) (length log)"
    using assms(2) by (simp add: direct_commit.held_def direct_firm_def)
  moreover have "lb_inv ?b" using assms(1) by (simp add: at_rest_def lb_inv_def work_ok_def)
  ultimately show ?thesis unfolding direct_init_def by (intro direct_commit.gc_inv_start)
qed

lemma lb_step_frames:
  assumes "lb_step C b b'"
  shows "\<exists>qs. list_all record_ok qs \<and> log_of b' = log_of b @ frames C qs"
  using lb_log_frames [OF r_into_rtranclp [of "lb_step C", OF assms]] .

lemma direct_reachable_frames:
  assumes "(direct_step C)\<^sup>*\<^sup>* (direct_init n lb d log) st"
  shows "\<exists>ps. list_all record_ok ps \<and> log_of (backend st) = log @ frames C ps"
proof (rule direct_commit.reachable_backend
    [where P = "\<lambda>b. \<exists>ps. list_all record_ok ps \<and> log_of b = log @ frames C ps", OF assms [unfolded direct_step_def]])
  show "\<exists>ps. list_all record_ok ps \<and> log_of (backend (direct_init n lb d log)) = log @ frames C ps"
    by (rule exI [of _ "[]"]) (simp add: direct_init_def sync_start_def)
next
  fix t b b'
  assume "direct_append C t b b' \<or> direct_flush t b b'" "\<exists>ps. list_all record_ok ps \<and> log_of b = log @ frames C ps"
  then obtain ps qs where "list_all record_ok ps" "log_of b = log @ frames C ps"
    "list_all record_ok qs" "log_of b' = log_of b @ frames C qs"
    using lb_step_frames [of C b b'] by (auto simp: direct_append_def direct_flush_def)
  then show "\<exists>ps. list_all record_ok ps \<and> log_of b' = log @ frames C ps"
    by (intro exI [of _ "ps @ qs"]) simp
qed (auto simp: direct_return_def direct_lose_def)

text \<open>
  The Direct-IO journal keeps the same promise as the buffered one, for any number of threads
  whose appends, batches, rotations and oversize records interleave with rounds of group commit,
  and whatever writes and fsyncs fail: when \<open>sync_through\<close> returns Ok, a crash at that moment leaves
  the file with the bytes the journal was opened on followed by the whole frames that were
  appended, below the LSN asked for (or the end of the log at the call, if that is smaller). The
  sector of the log that a sync wrote only in part, and that later writes go over again, is not
  lost either.
\<close>

lemma direct_sync_is_durable:
  assumes "(direct_step C)\<^sup>*\<^sup>* (direct_init n lb d log) st"
    and "at_rest lb d log" and "take (length log) (contents d) = log"
    and "t < n" and "spcs st ! t = SyncDone lsn (Inr ())"
    and "crash_image (stable st) (contents (disk_of (backend st))) c"
  shows "\<exists>ps. list_all record_ok ps \<and> log_of (backend st) = log @ frames C ps \<and>
    take (goals st ! t) c = take (goals st ! t) (log @ frames C ps)"
proof -
  note run = assms(1) [unfolded direct_step_def]
  have inv: "direct_commit.gc_inv st"
    by (rule direct_commit.gc_inv_reachable [OF run direct_init_inv [OF assms(2,3)]])
  have "length (spcs st) = n"
    using direct_commit.reachable_length [OF run] by (simp add: direct_init_def sync_start_def)
  with direct_commit.sync_ok_durable [OF inv _ assms(5,6)] direct_reachable_frames [OF assms(1)] assms(4)
  show ?thesis by auto
qed

subsection \<open>A lone caller\<close>

lemma sync_alone:
  fixes st :: "'b sync_state"
  assumes t: "t < length (spcs st)" "spcs st ! t = SyncIdle" "rested (backend st) t"
    and g: "gc_synced (gcs st) < lsn" "gc_committed (gcs st) < lsn" "\<not> gc_in_flight (gcs st)"
    and p: "\<not> is_set (pois (backend st))" "ret t (backend st) (Inr f) b'" "\<not> is_set (pois b')"
  shows "(sync_step app fl ret pois content logb lose rested)\<^sup>*\<^sup>* st
    (st\<lparr>backend := b', gcs := leader_drop (Some f) ((gcs st)\<lparr>gc_in_flight := True\<rparr>), stable := content b',
       spcs := map wake ((spcs st)[t := SyncDone lsn (Inr ())]),
       goals := (goals st)[t := min lsn (length (logb (backend st)))]\<rparr>)"
proof (cases st)
  case st: (fields b0 g0 s0 ps0 gs0)
  let ?step = "sync_step app fl ret pois content logb lose rested"
  let ?g = "(goals st)[t := min lsn (length (logb (backend st)))]"
  let ?l = "\<lambda>b s x. st\<lparr>backend := b, gcs := (gcs st)\<lparr>gc_in_flight := True\<rparr>, stable := s, spcs := (spcs st)[t := x], goals := ?g\<rparr>"
  let ?p = "\<lambda>x. st\<lparr>spcs := (spcs st)[t := x], goals := ?g\<rparr>"
  let ?b = "backend st"
  have lead: "elect lsn (pois (backend st)) (gcs st) = Lead" using g p(1) by (simp add: elect_def poison_check_def)
  have s1: "?step st (?p (SyncEnter lsn))"
    using sync_call [of t st rested app fl ret pois content logb lose lsn] t by (simp add: st set_pc_def)
  have s2: "?step (?p (SyncEnter lsn)) (?p (SyncLock lsn))"
    using sync_fast [of t "?p (SyncEnter lsn)" lsn app fl ret pois content logb lose rested] t g by (simp add: st set_pc_def)
  have s3: "?step (?p (SyncLock lsn)) (?l ?b (stable st) (LeaderWait lsn))"
    using sync_lead [of t "?p (SyncLock lsn)" lsn pois app fl ret content logb lose rested] t lead by (simp add: st set_pc_def)
  have s4: "?step (?l ?b (stable st) (LeaderWait lsn)) (?l ?b (stable st) (LeaderFlush lsn))"
    using sync_window [of t "?l ?b (stable st) (LeaderWait lsn)" lsn app fl ret pois content logb lose rested] t by (simp add: st set_pc_def)
  have s5: "?step (?l ?b (stable st) (LeaderFlush lsn)) (?l b' (stable st) (LeaderCheck lsn f))"
    using sync_flushed [of t "?l ?b (stable st) (LeaderFlush lsn)" lsn ret "Inr f" b' app fl pois content logb lose rested] t p(2) by (simp add: st set_pc_def)
  have s6: "?step (?l b' (stable st) (LeaderCheck lsn f)) (?l b' (stable st) (LeaderSync lsn f))"
    using sync_check [of t "?l b' (stable st) (LeaderCheck lsn f)" lsn f app fl ret pois content logb lose rested] t p(3)
    by (simp add: st set_pc_def poison_check_def)
  have s7: "?step (?l b' (stable st) (LeaderSync lsn f)) (?l b' (content b') (LeaderDrop lsn (Inr f)))"
    using sync_ok [of t "?l b' (stable st) (LeaderSync lsn f)" lsn f app fl ret pois content logb lose rested] t by (simp add: st set_pc_def)
  have s8: "?step (?l b' (content b') (LeaderDrop lsn (Inr f)))
    (st\<lparr>backend := b', gcs := leader_drop (Some f) ((gcs st)\<lparr>gc_in_flight := True\<rparr>), stable := content b',
       spcs := map wake ((spcs st)[t := SyncDone lsn (Inr ())]), goals := ?g\<rparr>)"
    using sync_drop [of t "?l b' (content b') (LeaderDrop lsn (Inr f))" lsn "Inr f" app fl ret pois content logb lose rested] t
    by (simp add: st set_pc_def frontier_of_def sync_outcome_def)
  note go = converse_rtranclp_into_rtranclp [of ?step]
  show ?thesis
    by (rule go [OF s1 go [OF s2 go [OF s3 go [OF s4 go [OF s5 go [OF s6 go [OF s7 r_into_rtranclp [of ?step, OF s8]]]]]]]])
qed

lemma direct_sample_run:
  "\<exists>st. (direct_step rfc3720)\<^sup>*\<^sup>* (direct_init 1 fresh_buffer fresh_disk []) st \<and>
     spcs st ! 0 = SyncDone 13 (Inr ()) \<and> goals st ! 0 = 13 \<and> log_of (backend st) = frame rfc3720 [7] \<and>
     crash_image (stable st) (contents (disk_of (backend st))) (contents (disk_of (backend st)) @ [9]) \<and>
     length (contents (disk_of (backend st))) \<le> 16"
proof -
  let ?f = "frame rfc3720 [7]"
  let ?init = "direct_init 1 fresh_buffer fresh_disk []"
  define lb where "lb = fresh_buffer\<lparr>slots := (slots fresh_buffer)[0 := copy_at 0 ?f (zeros 16)], active_len := 13\<rparr>"
  define b1 where "b1 = (backend ?init)\<lparr>buf_of := lb, log_of := ?f\<rparr>"
  have len: "length ?f = 13" by (simp add: FRAME_OVERHEAD_def)
  have ahead: "encode_ahead rfc3720 (buf_of (backend ?init)) [7] = Inr (13, Some ?f)"
    using small_record_ok [of "[7]"] len
    by (simp add: encode_ahead_def frame_len_def FRAME_MAX_PAYLOAD_def encode_frame_owned_eq direct_init_def sync_start_def fresh_buffer_def)
  have "append_iter (buf_of (backend ?init)) (poison_of (backend ?init)) (Some ?f) 13 = TurnDone lb (Inr (0, 13))"
    by (simp add: append_iter_def direct_init_def sync_start_def fresh_buffer_def lb_def Let_def active_def)
  from lb_step.step_append [OF ahead this] have "direct_append rfc3720 0 (backend ?init) b1"
    by (simp add: direct_append_def b1_def direct_init_def sync_start_def)
  then have a: "direct_step rfc3720 ?init (?init\<lparr>backend := b1\<rparr>)"
    unfolding direct_step_def by (intro sync_append [where t = 0]) (simp_all add: direct_init_def sync_start_def)
  have "round_up 13 16 = 16" using round_up_eq [OF power_of_two_16, of 13] by simp
  then obtain d' p' where fl: "flush_partial (buf_of b1) (disk_of b1) (poison_of b1) = Some (d', p', Inr 13)" "length (contents d') \<le> 16"
    using len
    by (simp add: flush_partial_def b1_def direct_init_def sync_start_def lb_def fresh_buffer_def fresh_disk_def Let_def active_def
        flush_slot_to_disk_def write_at_direct_def write_at_def write_at_loop.simps sys_pwrite_def as_i64_def copy_at_def put_at_def)
  have np: "\<not> is_set (poison_of b1)" by (simp add: b1_def direct_init_def sync_start_def is_set_def poison_new_def)
  with flush_partial_ok fl have np': "\<not> is_set p'"
    by (auto simp: flush_partial_def Let_def poison_check_def split: if_splits sum.splits prod.splits)
  let ?b2 = "b1\<lparr>disk_of := d', poison_of := p'\<rparr>"
  have dr: "direct_return 0 b1 (Inr 13) ?b2" using fl by (simp add: direct_return_def)
  let ?st = "?init\<lparr>backend := ?b2, gcs := leader_drop (Some 13) ((gcs ?init)\<lparr>gc_in_flight := True\<rparr>), stable := contents d',
         spcs := [SyncDone 13 (Inr ())], goals := [13]\<rparr>"
  have s: "(direct_step rfc3720)\<^sup>*\<^sup>* (?init\<lparr>backend := b1\<rparr>) ?st"
    using sync_alone [of 0 "?init\<lparr>backend := b1\<rparr>" "\<lambda>b t. True" 13 poison_of direct_return 13 ?b2
        "direct_append rfc3720" direct_flush "\<lambda>b. contents (disk_of b)" log_of direct_lose] dr np np' len
    by (simp add: direct_step_def direct_init_def sync_start_def group_commit_new_def b1_def FRAME_OVERHEAD_def)
  have run: "(direct_step rfc3720)\<^sup>*\<^sup>* ?init ?st"
    by (rule converse_rtranclp_into_rtranclp [of "direct_step rfc3720", OF a s])
  have c: "crash_image (stable ?st) (contents (disk_of (backend ?st))) (contents (disk_of (backend ?st)) @ [9])"
    by (simp add: crash_image_def)
  have lg: "log_of (backend ?st) = ?f" by (simp add: b1_def)
  with run c fl(2) show ?thesis by (intro exI [of _ ?st]) simp
qed

end
