(* ===== verification/Fsys_Method.thy ===== *)
theory Fsys_Method
  imports Fsys_Error
begin

text \<open>
  The durability method of a handle (\<open>src/method/mod.rs\<close>, \<open>src/method/auto.rs\<close>), the gate that
  decides whether a method may be selected (\<open>check_method_selectable\<close> of \<open>src/builder.rs\<close>), and the
  pair of configured and active method that a handle keeps in one atomic 16-bit word
  (\<open>src/handle.rs\<close>). The host (what the probes found) is an argument.
\<close>

section \<open>Methods\<close>

datatype meth = MSync | MData | MDirect | MMmap | MJournal | MAuto | MSpdk

definition method_to_u8 :: "meth \<Rightarrow> u8" where
  "method_to_u8 m =
     (case m of MSync \<Rightarrow> 0 | MData \<Rightarrow> 1 | MDirect \<Rightarrow> 2 | MMmap \<Rightarrow> 3 | MJournal \<Rightarrow> 4 | MAuto \<Rightarrow> 5 | MSpdk \<Rightarrow> 6)"

definition method_from_u8 :: "u8 \<Rightarrow> meth" where
  "method_from_u8 v =
     (if v = 0 then MSync else if v = 1 then MData else if v = 2 then MDirect else if v = 3 then MMmap
      else if v = 4 then MJournal else if v = 5 then MAuto else if v = 6 then MSpdk else MSync)"

definition method_is_reserved :: "meth \<Rightarrow> bool" where
  "method_is_reserved m \<longleftrightarrow> m = MJournal"

definition method_as_str :: "meth \<Rightarrow> string" where
  "method_as_str m =
     (case m of MSync \<Rightarrow> ''sync'' | MData \<Rightarrow> ''data'' | MDirect \<Rightarrow> ''direct'' | MMmap \<Rightarrow> ''mmap''
      | MJournal \<Rightarrow> ''journal'' | MAuto \<Rightarrow> ''auto'' | MSpdk \<Rightarrow> ''spdk'')"

datatype drive_kind = Nvme | SataSsd | Hdd | UnknownDrive

datatype target_os = Linux | MacOs | Windows | OtherOs

record host =
  os_of :: target_os
  drive :: drive_kind
  uring_available :: bool
  spdk_feature :: bool
  spdk_eligible :: bool
  spdk_skip_reasons :: "spdk_skip_reason list"

definition resolve_auto_inner :: "target_os \<Rightarrow> drive_kind \<Rightarrow> bool \<Rightarrow> meth" where
  "resolve_auto_inner os kind uring =
     (case os of
        Linux \<Rightarrow>
          (case kind of
             Nvme \<Rightarrow> if uring then MDirect else MData
           | SataSsd \<Rightarrow> MData
           | _ \<Rightarrow> MSync)
      | MacOs \<Rightarrow> (case kind of Nvme \<Rightarrow> MDirect | _ \<Rightarrow> MSync)
      | Windows \<Rightarrow> (case kind of Nvme \<Rightarrow> MDirect | SataSsd \<Rightarrow> MDirect | _ \<Rightarrow> MSync)
      | OtherOs \<Rightarrow> MSync)"

definition method_resolve :: "host \<Rightarrow> meth \<Rightarrow> meth" where
  "method_resolve h m = (if m \<noteq> MAuto then m else resolve_auto_inner (os_of h) (drive h) (uring_available h))"

definition check_method_selectable :: "host \<Rightarrow> meth \<Rightarrow> unit result" where
  "check_method_selectable h m =
     (if method_is_reserved m then Inl (UnsupportedMethod (method_as_str m))
      else if m = MSpdk then
        (if \<not> spdk_feature h then Inl (FeatureNotEnabled ''spdk'')
         else if \<not> spdk_eligible h then
           Inl (SpdkUnavailable (case spdk_skip_reasons h of [] \<Rightarrow> NotLinux | r # _ \<Rightarrow> r))
         else Inl (SpdkUnavailable SpdkLibraryNotFound))
      else Inr ())"

section \<open>The packed pair\<close>

type_synonym u16 = "16 word"

definition pack_methods :: "meth \<Rightarrow> meth \<Rightarrow> u16" where
  "pack_methods configured act = push_bit 8 (ucast (method_to_u8 configured)) OR ucast (method_to_u8 act)"

definition configured_method :: "u16 \<Rightarrow> meth" where
  "configured_method w = method_from_u8 (ucast (drop_bit 8 w))"

definition active_method :: "u16 \<Rightarrow> meth" where
  "active_method w = method_from_u8 (ucast (w AND 0xFF))"

definition update_active_method :: "meth \<Rightarrow> u16 \<Rightarrow> u16" where
  "update_active_method m w = (w AND 0xFF00) OR ucast (method_to_u8 m)"

definition set_method :: "host \<Rightarrow> meth \<Rightarrow> u16 \<Rightarrow> u16 \<times> unit result" where
  "set_method h m w =
     (case check_method_selectable h m of
        Inl e \<Rightarrow> (w, Inl e)
      | Inr _ \<Rightarrow> (pack_methods m (method_resolve h m), Inr ()))"

definition use_direct :: "u16 \<Rightarrow> bool" where
  "use_direct w \<longleftrightarrow> active_method w = MDirect"

lemma method_from_to_u8 [simp]: "method_from_u8 (method_to_u8 m) = m"
  by (cases m) (simp_all add: method_to_u8_def method_from_u8_def)

lemma unpack_methods [simp]:
  "configured_method (pack_methods c a) = c" "active_method (pack_methods c a) = a"
  by (cases c; cases a; simp add: pack_methods_def configured_method_def active_method_def method_to_u8_def
      method_from_u8_def)+

text \<open>The fallback replaces the low byte of a packed pair and keeps the high one.\<close>

lemma update_pack [simp]: "update_active_method m (pack_methods c a) = pack_methods c m"
  by (cases c; cases a; cases m; simp add: pack_methods_def update_active_method_def method_to_u8_def)

lemma resolve_auto_concrete: "resolve_auto_inner os kind uring \<in> {MSync, MData, MDirect}"
  by (cases os; cases kind; simp add: resolve_auto_inner_def)

lemma selectable_resolves:
  assumes "check_method_selectable h m = Inr ()"
  shows "method_resolve h m \<in> {MSync, MData, MDirect, MMmap}"
  using assms resolve_auto_concrete [of "os_of h" "drive h" "uring_available h"]
  by (cases m) (auto simp: check_method_selectable_def method_resolve_def method_is_reserved_def split: if_splits)

section \<open>Concurrent changes of the method\<close>

text \<open>
  Any thread may select a method (one atomic store) and any operation may fall back, to \<open>Data\<close> when
  Direct IO is refused and to \<open>Sync\<close> when a mapping does not suit (one successful compare-exchange).
  The ghost is the last method selected.
\<close>

inductive method_step :: "host \<Rightarrow> u16 \<times> meth \<Rightarrow> u16 \<times> meth \<Rightarrow> bool" for h where
  selected: "set_method h m w = (w', Inr ()) \<Longrightarrow> method_step h (w, c) (w', m)"
| refused: "set_method h m w = (w', Inl e) \<Longrightarrow> method_step h (w, c) (w', c)"
| fell_back: "m = MData \<or> m = MSync \<Longrightarrow> method_step h (w, c) (update_active_method m w, c)"

inductive_cases method_stepE: "method_step h (w, c) s"

definition methods_ok :: "host \<Rightarrow> u16 \<times> meth \<Rightarrow> bool" where
  "methods_ok h s \<longleftrightarrow>
     (case s of (w, c) \<Rightarrow>
        \<exists>a. w = pack_methods c a \<and> (a = method_resolve h c \<or> a = MData \<or> a = MSync) \<and>
          check_method_selectable h c = Inr ())"

lemma set_method_Inr:
  "set_method h m w = (w', Inr u) \<Longrightarrow> check_method_selectable h m = Inr () \<and> w' = pack_methods m (method_resolve h m)"
  by (cases "check_method_selectable h m") (auto simp: set_method_def)

lemma set_method_Inl: "set_method h m w = (w', Inl e) \<Longrightarrow> w' = w"
  by (cases "check_method_selectable h m") (auto simp: set_method_def)

lemma method_step_ok: "method_step h s s' \<Longrightarrow> methods_ok h s \<Longrightarrow> methods_ok h s'"
  by (induction rule: method_step.induct) (auto simp: methods_ok_def dest!: set_method_Inr set_method_Inl)

lemma methods_reachable_ok: "(method_step h)\<^sup>*\<^sup>* s s' \<Longrightarrow> methods_ok h s \<Longrightarrow> methods_ok h s'"
  by (induction rule: rtranclp_induct) (auto intro: method_step_ok)

section \<open>Properties\<close>

text \<open>
  C40: A handle built with a method that may be selected: whatever methods threads select afterwards
  and whichever operations fall back, the configured method always reads as the last one that was
  accepted, and the active method is concrete (one of Sync, Data, Direct and Mmap): never Auto, and
  never one of the methods that have no backend.
\<close>

theorem active_method_is_concrete:
  assumes "check_method_selectable h m = Inr ()"
    and "(method_step h)\<^sup>*\<^sup>* (pack_methods m (method_resolve h m), m) (w, c)"
  shows "configured_method w = c \<and> active_method w \<in> {MSync, MData, MDirect, MMmap}"
proof -
  have "methods_ok h (pack_methods m (method_resolve h m), m)" using assms(1) by (auto simp: methods_ok_def)
  from methods_reachable_ok [OF assms(2) this] obtain a where "w = pack_methods c a"
    "a = method_resolve h c \<or> a = MData \<or> a = MSync" "check_method_selectable h c = Inr ()"
    by (auto simp: methods_ok_def)
  with selectable_resolves [of h c] show ?thesis by auto
qed

definition plain_host :: host where
  "plain_host = \<lparr>os_of = Linux, drive = Nvme, uring_available = True, spdk_feature = False, spdk_eligible = False,
     spdk_skip_reasons = []\<rparr>"

theorem active_method_is_concrete_witness:
  "check_method_selectable plain_host MAuto = Inr () \<and>
   (\<exists>w. (method_step plain_host)\<^sup>*\<^sup>* (pack_methods MAuto MDirect, MAuto) (w, MAuto) \<and>
      configured_method w = MAuto \<and> active_method w = MData)"
proof -
  have s: "check_method_selectable plain_host MAuto = Inr ()" "method_resolve plain_host MAuto = MDirect"
    by (simp_all add: check_method_selectable_def method_is_reserved_def method_resolve_def resolve_auto_inner_def plain_host_def)
  have run: "(method_step plain_host)\<^sup>*\<^sup>* (pack_methods MAuto MDirect, MAuto) (update_active_method MData (pack_methods MAuto MDirect), MAuto)"
    by (rule r_into_rtranclp, rule method_step.fell_back) simp
  from active_method_is_concrete [OF s(1), unfolded s(2), OF run]
  have "configured_method (update_active_method MData (pack_methods MAuto MDirect)) = MAuto" by simp
  with s(1) run show ?thesis by (intro conjI exI [of _ "update_active_method MData (pack_methods MAuto MDirect)"]) simp_all
qed

end
