(* ===== verification/Fsys_Files.thy ===== *)
theory Fsys_Files
  imports Fsys_Open
begin

text \<open>
  Whole-file transfers of the platform layer (\<open>src/platform/linux.rs\<close>: \<open>write_all\<close>,
  \<open>write_all_direct\<close>; \<open>src/platform/mod.rs\<close>: \<open>zero_fill_by_writes\<close>, \<open>read_range_with\<close>;
  \<open>src/platform/linux_iouring.rs\<close>: \<open>write_at\<close>, \<open>write_at_linked_fsync\<close>), on the disk of
  \<open>Fsys_Platform\<close>: the bytes of one open file and the results the next calls will report.
\<close>

section \<open>Writing a whole file\<close>

text \<open>
  The loop of \<open>write_all\<close> and \<open>write_all_direct\<close> from the start of the file. They differ in what
  they do when a call transfers nothing: \<open>write_all\<close> has no guard and calls again.
\<close>

function write_loop :: "error option \<Rightarrow> disk \<Rightarrow> bytes \<Rightarrow> nat \<Rightarrow> disk \<times> unit result" where
  "write_loop zero d data written =
     (if length data \<le> written then (d, Inr ())
      else case sys_pwrite d (int written) (drop written data) of
          (d', SysErr e) \<Rightarrow>
            if io_kind e = Interrupted then write_loop zero d' data written else (d', Inl (Io e))
        | (d', SysN n) \<Rightarrow>
            if n = 0 \<and> zero \<noteq> None then (d', Inl (the zero)) else write_loop zero d' data (written + n))"
  by pat_completeness auto
termination
  by (relation "measure (\<lambda>(zero, d, data, written). length (script d) + (length data - written))")
    (auto simp: sys_pwrite_def Let_def split: if_splits list.splits sys_result.splits)

declare write_loop.simps [simp del]

definition write_all :: "disk \<Rightarrow> bytes \<Rightarrow> disk \<times> unit result" where
  "write_all d data = write_loop None d data 0"

definition write_all_direct :: "disk \<Rightarrow> bytes \<Rightarrow> nat \<Rightarrow> disk \<times> unit result" where
  "write_all_direct d data ss =
     (if data = [] then (d, Inr ())
      else case aligned_buf_new d (round_up (length data) ss) ss of
          Inl e \<Rightarrow> (d, Inl e)
        | Inr block \<Rightarrow>
            write_loop (Some (other_error ''pwrite returned 0 in write_all_direct (no progress)'')) d
              (copy_at 0 data block) 0)"

section \<open>Zero fill\<close>

definition ZERO_CHUNK :: nat where
  "ZERO_CHUNK = 8192"

function zero_fill_loop :: "disk \<Rightarrow> nat \<Rightarrow> nat \<Rightarrow> nat \<Rightarrow> disk \<times> unit result" where
  "zero_fill_loop d offset len written =
     (if len \<le> written then (d, Inr ())
      else let chunk = min (len - written) ZERO_CHUNK
       in case write_at d (offset + written) (zeros chunk) of
            (d', Inl e) \<Rightarrow> (d', Inl e)
          | (d', Inr _) \<Rightarrow> zero_fill_loop d' offset len (written + chunk))"
  by pat_completeness auto
termination
  by (relation "measure (\<lambda>(d, off, len, written). len - written)") (auto simp: ZERO_CHUNK_def)

declare zero_fill_loop.simps [simp del]

definition zero_fill_by_writes :: "disk \<Rightarrow> nat \<Rightarrow> nat \<Rightarrow> disk \<times> unit result" where
  "zero_fill_by_writes d offset len =
     (if len = 0 then (d, Inr ())
      else if checked_add offset len = None then
        (d, Inl (Io (IoError InvalidInput ''zero-fill range overflows u64'')))
      else zero_fill_loop d offset len 0)"

section \<open>Writing through the ring\<close>

definition ring_write_at :: "disk \<Rightarrow> bytes \<Rightarrow> nat \<Rightarrow> disk \<times> nat result" where
  "ring_write_at d bs offset = transfer_write d bs offset 0"

section \<open>What the loops write\<close>

lemma write_loop_effect:
  assumes "write_loop zero d data w = (d', r)" and "w \<le> length data"
  shows "\<exists>n\<le>length data - w. contents d' = put_at w (take n (drop w data)) (contents d) \<and>
    (r = Inr () \<longrightarrow> w + n = length data) \<and> oom d' = oom d"
  using assms
proof (induction zero d data w arbitrary: d' r rule: write_loop.induct)
  case (1 zero d data w)
  note unf = write_loop.simps [of zero d data w]
  show ?case
  proof (cases "length data \<le> w")
    case True
    with "1.prems" show ?thesis by (intro exI [of _ 0]) (simp add: unf)
  next
    case False
    obtain d1 sr where s: "sys_pwrite d (int w) (drop w data) = (d1, sr)" by fastforce
    show ?thesis
    proof (cases sr)
      case (SysErr e)
      note s = s [unfolded SysErr]
      have c: "contents d1 = contents d" "oom d1 = oom d"
        using sys_pwrite_SysErr [OF s] sys_pwrite_oom [OF s] by simp_all
      show ?thesis
      proof (cases "io_kind e = Interrupted")
        case True
        with "1.prems"(1) False s have "write_loop zero d1 data w = (d', r)" by (simp add: unf)
        from "1.IH"(1) [OF False s [symmetric] refl True this "1.prems"(2)] c show ?thesis by simp
      next
        case ne: False
        with "1.prems"(1) False s c show ?thesis by (intro exI [of _ 0]) (auto simp: unf)
      qed
    next
      case (SysN n)
      note s = s [unfolded SysN]
      from sys_pwrite_SysN [OF s] sys_pwrite_oom [OF s]
      have n: "n \<le> length data - w" "contents d1 = put_at w (take n (drop w data)) (contents d)" "oom d1 = oom d"
        by simp_all
      show ?thesis
      proof (cases "n = 0 \<and> zero \<noteq> None")
        case True
        with "1.prems"(1) False s have "d' = d1" "r = Inl (the zero)" by (simp_all add: unf)
        with True n show ?thesis by (intro exI [of _ 0]) simp
      next
        case go: False
        then have rec: "write_loop zero d1 data (w + n) = (d', r)"
          using "1.prems"(1) False s by (auto simp: unf)
        have wn: "w + n \<le> length data" using n(1) False by linarith
        from "1.IH"(2) [OF False s [symmetric] refl go rec wn]
        obtain k where k: "k \<le> length data - (w + n)"
          "contents d' = put_at (w + n) (take k (drop (w + n) data)) (contents d1)"
          "r = Inr () \<longrightarrow> w + n + k = length data" "oom d' = oom d1" by blast
        have tk: "take (n + k) (drop w data) = take n (drop w data) @ take k (drop (w + n) data)"
          unfolding take_add [of n k] by (simp add: add.commute)
        have "contents d' = put_at w (take (n + k) (drop w data)) (contents d)"
          unfolding tk using put_at_put_at [of w "take n (drop w data)" "take k (drop (w + n) data)" "contents d"] n(2) k(2) wn
          by simp
        with k n(3) wn show ?thesis by (intro exI [of _ "n + k"]) auto
      qed
    qed
  qed
qed

text \<open>Into a file that is not longer than the data, a successful write leaves exactly the data.\<close>

lemma put_at_whole: "length F \<le> length bs \<Longrightarrow> put_at 0 bs F = bs"
  by (auto simp: put_at_def)

lemma put_at_part: "length F \<le> m \<Longrightarrow> length bs \<le> m \<Longrightarrow> length (put_at 0 bs F) \<le> m"
  by (auto simp: put_at_def)

lemma write_all_effect:
  assumes "write_all d data = (d', r)" and "contents d = []"
  shows "r = Inr () \<Longrightarrow> contents d' = data"
  using write_loop_effect [of None d data 0 d' r] assms by (auto simp: write_all_def put_at_whole)

lemma aligned_buf_new_ok:
  assumes "aligned_buf_new d n a = Inr block"
  shows "block = zeros n" "is_power_of_two a" "n \<le> 2 ^ 63"
  using assms by (auto simp: aligned_buf_new_def split: if_splits)

text \<open>The padded length of a Direct write, as both code paths compute it.\<close>

definition padded_len :: "nat \<Rightarrow> nat \<Rightarrow> nat" where
  "padded_len n ss = (n + ss - 1) div ss * ss"

lemma padded_len_le:
  assumes "0 < ss"
  shows "n \<le> padded_len n ss"
proof -
  have "padded_len n ss + (n + ss - 1) mod ss = n + ss - 1"
    unfolding padded_len_def by (rule div_mult_mod_eq)
  moreover have "(n + ss - 1) mod ss < ss" using assms by simp
  ultimately show ?thesis using assms by linarith
qed

lemma padded_len_exact: "0 < ss \<Longrightarrow> n mod ss = 0 \<Longrightarrow> padded_len n ss = n"
proof -
  assume "0 < ss" "n mod ss = 0"
  then obtain k where "n = k * ss" by auto
  moreover have "(k * ss + ss - 1) div ss = k"
    using \<open>0 < ss\<close> by (intro div_nat_eqI) (simp_all add: algebra_simps)
  ultimately show ?thesis by (simp add: padded_len_def)
qed

lemma power_of_two_pos: "is_power_of_two a \<Longrightarrow> 0 < a"
  by (auto simp: is_power_of_two_def)

lemma round_up_padded:
  assumes "is_power_of_two a" and "n < 2 ^ 62" and "a \<le> 2 ^ 62"
  shows "round_up n a = padded_len n a"
  using assms(2,3) by (simp add: padded_len_def round_up_eq [OF assms(1)])

lemma write_all_direct_effect:
  assumes "write_all_direct d data ss = (d', r)" and "length data < 2 ^ 62" and "ss \<le> 2 ^ 62"
    and "length (contents d) \<le> padded_len (length data) ss"
  shows "length (contents d') \<le> max (length (contents d)) (padded_len (length data) ss)"
    and "r = Inr () \<Longrightarrow> data \<noteq> [] \<Longrightarrow> 0 < ss \<and> contents d' = data @ zeros (padded_len (length data) ss - length data)"
    and "r = Inr () \<Longrightarrow> data = [] \<Longrightarrow> contents d' = contents d"
proof -
  let ?n = "padded_len (length data) ss"
  consider (empty) "data = []" "d' = d" "r = Inr ()" | (err) "data \<noteq> []" "d' = d" "r \<noteq> Inr ()"
    | (go) block e where "data \<noteq> []" "aligned_buf_new d (round_up (length data) ss) ss = Inr block"
        "write_loop (Some e) d (copy_at 0 data block) 0 = (d', r)"
    using assms(1) by (auto simp: write_all_direct_def split: if_splits sum.splits)
  then have "length (contents d') \<le> max (length (contents d)) ?n \<and>
    (r = Inr () \<longrightarrow> data \<noteq> [] \<longrightarrow> 0 < ss \<and> contents d' = data @ zeros (?n - length data)) \<and>
    (r = Inr () \<longrightarrow> data = [] \<longrightarrow> contents d' = contents d)"
  proof cases
    case go
    note ok = aligned_buf_new_ok [OF go(2)]
    have ss: "0 < ss" using ok(2) by (rule power_of_two_pos)
    have ru: "round_up (length data) ss = ?n" by (rule round_up_padded [OF ok(2) assms(2,3)])
    have le: "length data \<le> ?n" by (rule padded_len_le [OF ss])
    have blk: "copy_at 0 data block = data @ zeros (?n - length data)"
      using le by (simp add: ok(1) ru copy_at_def drop_replicate)
    from write_loop_effect [OF go(3)] obtain k where
      k: "contents d' = put_at 0 (take k (data @ zeros (?n - length data))) (contents d)"
        "r = Inr () \<longrightarrow> k = ?n"
      unfolding blk using le by auto
    have "length (contents d') \<le> ?n"
      unfolding k(1) by (rule put_at_part [OF assms(4)]) (use le in simp)
    moreover have "contents d' = data @ zeros (?n - length data)" if "r = Inr ()"
      using k that le assms(4) by (simp add: put_at_whole)
    ultimately show ?thesis using ss go(1) by auto
  qed auto
  then show "length (contents d') \<le> max (length (contents d)) ?n"
    and "r = Inr () \<Longrightarrow> data \<noteq> [] \<Longrightarrow> 0 < ss \<and> contents d' = data @ zeros (?n - length data)"
    and "r = Inr () \<Longrightarrow> data = [] \<Longrightarrow> contents d' = contents d" by auto
qed

lemma ring_write_at_effect:
  assumes "ring_write_at d bs off = (d', r)"
  shows "\<exists>n\<le>length bs. contents d' = put_at off (take n bs) (contents d) \<and> (\<forall>m. r = Inr m \<longrightarrow> m = n)"
  using transfer_write_effect [of d bs off 0 d' r] assms by (simp add: ring_write_at_def)

lemma zero_fill_loop_effect:
  assumes "zero_fill_loop d off len w = (d', r)" and "w \<le> len"
  shows "\<exists>n\<le>len - w. contents d' = put_at (off + w) (zeros n) (contents d) \<and> (r = Inr () \<longrightarrow> w + n = len)"
  using assms
proof (induction d off len w arbitrary: d' r rule: zero_fill_loop.induct)
  case (1 d off len w)
  note unf = zero_fill_loop.simps [of d off len w]
  show ?case
  proof (cases "len \<le> w")
    case True
    with "1.prems" show ?thesis by (intro exI [of _ 0]) (simp add: unf)
  next
    case False
    let ?c = "min (len - w) ZERO_CHUNK"
    obtain d1 r1 where s: "write_at d (off + w) (zeros ?c) = (d1, r1)" by fastforce
    from linux.pw_effect [OF s] obtain k where
      k1: "k \<le> length (zeros ?c)" "contents d1 = put_at (off + w) (take k (zeros ?c)) (contents d)"
        "r1 = Inr () \<longrightarrow> k = length (zeros ?c)" by blast
    have "take k (zeros ?c) = zeros k" using k1(1) by (simp add: take_replicate)
    with k1 have k: "k \<le> ?c" "contents d1 = put_at (off + w) (zeros k) (contents d)" "r1 = Inr () \<longrightarrow> k = ?c"
      by simp_all
    show ?thesis
    proof (cases r1)
      case (Inl e)
      with "1.prems"(1) False s k show ?thesis by (intro exI [of _ k]) (auto simp: unf Let_def)
    next
      case (Inr u)
      then have rec: "zero_fill_loop d1 off len (w + ?c) = (d', r)" using "1.prems"(1) False s by (simp add: unf Let_def)
      have wc: "w + ?c \<le> len" using False by simp
      from "1.IH" [OF False refl s [unfolded Inr, symmetric] refl rec wc] obtain n where
        n: "n \<le> len - (w + ?c)" "contents d' = put_at (off + (w + ?c)) (zeros n) (contents d1)"
          "r = Inr () \<longrightarrow> w + ?c + n = len" by auto
      have "contents d' = put_at (off + w) (zeros (?c + n)) (contents d)"
        using put_at_put_at [of "off + w" "zeros ?c" "zeros n" "contents d"] n(2) k Inr
        by (simp add: zeros_append add.assoc)
      with n(1,3) wc show ?thesis by (intro exI [of _ "?c + n"]) auto
    qed
  qed
qed

text \<open>Filling a range with zeros changes nothing else, and all of the range when it succeeds.\<close>

lemma zero_fill_effect:
  assumes "zero_fill_by_writes d off len = (d', r)"
  shows "\<exists>n\<le>len. contents d' = put_at off (zeros n) (contents d) \<and> (r = Inr () \<longrightarrow> n = len)"
proof (cases "len = 0 \<or> checked_add off len = None")
  case True
  with assms show ?thesis by (intro exI [of _ 0]) (auto simp: zero_fill_by_writes_def split: if_splits)
next
  case False
  with assms zero_fill_loop_effect [of d off len 0 d' r] show ?thesis by (auto simp: zero_fill_by_writes_def)
qed

end
