(* ===== verification/Fsys_Replace.thy ===== *)
theory Fsys_Replace
  imports Fsys_Files Fsys_Method
begin

text \<open>
  Whole-file writes (\<open>src/crud/atomic.rs\<close>, the write path of \<open>src/crud/file.rs\<close>, the temp names of
  \<open>src/handle.rs\<close>, \<open>open_write_new\<close>, \<open>atomic_rename\<close> and \<open>sync_parent_dir\<close> of
  \<open>src/platform/linux.rs\<close>): a temp file next to the target, written, made durable, renamed over the
  target, and the directory synced.

  A \<open>store\<close> is what a power cut sees: the directory entries and, for each name, the entries a crash
  may leave (those since the last sync of its directory), and for each file its bytes and the bytes
  of its last successful fsync. A \<open>machine\<close> adds the fate of the next calls and every store the
  system went through, so that a statement about \<open>past\<close> is a statement about a crash at any moment.
  Where the handle has NVMe passthrough, a flush of the device takes the place of the fsync on the
  ring's Direct path. It makes the blocks durable and commits none of the file's metadata; whether a crash
  that keeps the renamed entry then keeps the file's length and extents is up to the file system
  (\<open>ordered_meta\<close>: a journal that commits metadata changes in their order, as ext4 and XFS have).
\<close>

section \<open>The machine\<close>

record store =
  names :: "path \<Rightarrow> nat option"
  names_crash :: "path \<Rightarrow> nat option set"
  data_of :: "nat \<Rightarrow> bytes"
  synced_data :: "nat \<Rightarrow> bytes option"
  flushed_data :: "nat \<Rightarrow> bytes option"
  ordered_meta :: bool
  next_ino :: nat

record machine =
  now :: store
  past :: "store list"
  calls :: "io_error option list"
  kernel :: "sys_result list"
  no_mem :: bool
  methods :: u16
  write_counter :: nat

definition put_store :: "store \<Rightarrow> machine \<Rightarrow> machine" where
  "put_store s m = m\<lparr>now := s, past := past m @ [s]\<rparr>"

definition next_call :: "machine \<Rightarrow> machine \<times> io_error option" where
  "next_call m = (case calls m of [] \<Rightarrow> (m, None) | c # cs \<Rightarrow> (m\<lparr>calls := cs\<rparr>, c))"

definition set_name :: "path \<Rightarrow> nat option \<Rightarrow> store \<Rightarrow> store" where
  "set_name p x s = s\<lparr>names := (names s)(p := x), names_crash := (names_crash s)(p := insert x (names_crash s p))\<rparr>"

definition sys_creat_excl :: "machine \<Rightarrow> path \<Rightarrow> machine \<times> (io_error + nat)" where
  "sys_creat_excl m p =
     (case next_call m of
        (m1, Some e) \<Rightarrow> (m1, Inl e)
      | (m1, None) \<Rightarrow>
          let s = now m1
          in if names s p \<noteq> None then (m1, Inl (IoError AlreadyExists ''File exists (os error 17)''))
             else (put_store
                 (set_name p (Some (next_ino s)) s\<lparr>data_of := (data_of s)(next_ino s := []),
                    synced_data := (synced_data s)(next_ino s := None), flushed_data := (flushed_data s)(next_ino s := None),
                    next_ino := Suc (next_ino s)\<rparr>) m1,
               Inr (next_ino s)))"

definition with_file :: "nat \<Rightarrow> (disk \<Rightarrow> disk \<times> 'a) \<Rightarrow> machine \<Rightarrow> machine \<times> 'a" where
  "with_file i f m =
     (case f \<lparr>contents = data_of (now m) i, script = kernel m, oom = no_mem m\<rparr> of
        (d, r) \<Rightarrow>
          (put_store ((now m)\<lparr>data_of := (data_of (now m))(i := contents d)\<rparr>) (m\<lparr>kernel := script d\<rparr>), r))"

definition sys_ftruncate :: "machine \<Rightarrow> nat \<Rightarrow> nat \<Rightarrow> machine \<times> unit result" where
  "sys_ftruncate m i n =
     (case next_call m of
        (m1, Some e) \<Rightarrow> (m1, Inl (Io e))
      | (m1, None) \<Rightarrow>
          (put_store ((now m1)\<lparr>data_of := (data_of (now m1))(i := resize n (data_of (now m1) i))\<rparr>) m1, Inr ()))"

definition sys_fsync :: "machine \<Rightarrow> nat \<Rightarrow> machine \<times> unit result" where
  "sys_fsync m i =
     (case next_call m of
        (m1, Some e) \<Rightarrow> (m1, Inl (Io e))
      | (m1, None) \<Rightarrow>
          (put_store ((now m1)\<lparr>synced_data := (synced_data (now m1))(i := Some (data_of (now m1) i))\<rparr>) m1, Inr ()))"

text \<open>
  \<open>NVME_IOCTL_IO_CMD\<close> with a FLUSH: the blocks written so far are on the medium; the metadata that
  says which they are is not committed.
\<close>

definition nvme_flush_ioctl :: "machine \<Rightarrow> nat \<Rightarrow> machine \<times> unit result" where
  "nvme_flush_ioctl m i =
     (case next_call m of
        (m1, Some e) \<Rightarrow> (m1, Inl (Io e))
      | (m1, None) \<Rightarrow>
          (put_store ((now m1)\<lparr>flushed_data := (flushed_data (now m1))(i := Some (data_of (now m1) i))\<rparr>) m1, Inr ()))"

definition sys_open_existing :: "machine \<Rightarrow> path \<Rightarrow> machine \<times> nat result" where
  "sys_open_existing m p =
     (case next_call m of
        (m1, Some e) \<Rightarrow> (m1, Inl (Io e))
      | (m1, None) \<Rightarrow>
          (case names (now m1) p of
             None \<Rightarrow> (m1, Inl (Io (IoError NotFound ''No such file or directory (os error 2)'')))
           | Some i \<Rightarrow> (m1, Inr i)))"

text \<open>
  A rename enters the journal of an ordered file system behind the metadata of the file it renames: a
  crash that keeps the new entry keeps the length and the extents, and the blocks if they were flushed.
\<close>

definition after_metadata :: "nat \<Rightarrow> store \<Rightarrow> store" where
  "after_metadata i s =
     (if ordered_meta s \<and> flushed_data s i = Some (data_of s i)
      then s\<lparr>synced_data := (synced_data s)(i := Some (data_of s i))\<rparr> else s)"

definition atomic_rename :: "machine \<Rightarrow> path \<Rightarrow> path \<Rightarrow> machine \<times> unit result" where
  "atomic_rename m a b =
     (case next_call m of
        (m1, Some e) \<Rightarrow> (m1, Inl (Io e))
      | (m1, None) \<Rightarrow>
          (case names (now m1) a of
             None \<Rightarrow> (m1, Inl (Io (IoError NotFound ''No such file or directory (os error 2)'')))
           | Some i \<Rightarrow> (put_store (after_metadata i (set_name b (Some i) (set_name a None (now m1)))) m1, Inr ())))"

text \<open>\<open>unlink(2)\<close> reports \<open>ENOENT\<close> only where there is no entry: such a fate is none for an existing file.\<close>

definition remove_file :: "machine \<Rightarrow> path \<Rightarrow> machine \<times> (io_error + unit)" where
  "remove_file m p =
     (case next_call m of
        (m1, c) \<Rightarrow>
          (case names (now m1) p of
             None \<Rightarrow>
               (m1, Inl (case c of Some e \<Rightarrow> e | None \<Rightarrow> IoError NotFound ''No such file or directory (os error 2)''))
           | Some _ \<Rightarrow>
               (case c of
                  Some e \<Rightarrow> if io_kind e = NotFound then (put_store (set_name p None (now m1)) m1, Inr ()) else (m1, Inl e)
                | None \<Rightarrow> (put_store (set_name p None (now m1)) m1, Inr ()))))"

definition parent_or_current_dir :: "path \<Rightarrow> string" where
  "parent_or_current_dir p = (if parent p = [] then ''.'' else parent p)"

text \<open>Opening the directory, and its fsync: every entry of it is settled.\<close>

definition sync_parent_dir :: "machine \<Rightarrow> path \<Rightarrow> machine \<times> unit result" where
  "sync_parent_dir m p =
     (case next_call m of
        (m1, Some e) \<Rightarrow> (m1, Inl (Io e))
      | (m1, None) \<Rightarrow>
          (case next_call m1 of
             (m2, Some e) \<Rightarrow> (m2, Inl (Io e))
           | (m2, None) \<Rightarrow>
               (put_store ((now m2)\<lparr>names_crash := (\<lambda>q.
                    if parent_or_current_dir q = parent_or_current_dir p then {names (now m2) q}
                    else names_crash (now m2) q)\<rparr>) m2,
                Inr ())))"

definition path_to_cstr :: "path \<Rightarrow> unit result" where
  "path_to_cstr p =
     (if CHR 0x00 \<in> set (path_text p) then Inl (InvalidPath (path_text p) ''path contains an interior NUL byte'')
      else Inr ())"

definition open_write_new :: "machine \<Rightarrow> path \<Rightarrow> bool \<Rightarrow> machine \<times> (nat \<times> bool) result" where
  "open_write_new m p want_direct =
     (case path_to_cstr p of
        Inl e \<Rightarrow> (m, Inl e)
      | Inr _ \<Rightarrow>
          (case sys_creat_excl m p of
             (m1, Inr i) \<Rightarrow> (m1, Inr (i, want_direct))
           | (m1, Inl e) \<Rightarrow>
               if want_direct \<and> e = einval then
                 (case sys_creat_excl m1 p of
                    (m2, Inr i) \<Rightarrow> (m2, Inr (i, False))
                  | (m2, Inl e2) \<Rightarrow> (m2, Inl (Io e2)))
               else (m1, Inl (Io e))))"

section \<open>Temp names\<close>

text \<open>
  The process id, the nonce drawn at each use of the counter and the standard library's hash of a
  name are arguments.
\<close>

record temp_env =
  pid :: nat
  nonce :: "nat \<Rightarrow> nat"
  name_hash :: "string \<Rightarrow> nat"

definition TEMP_PREFIX :: string where
  "TEMP_PREFIX = ''.fsys-tmp-''"

definition MAX_NAME_LEN :: nat where
  "MAX_NAME_LEN = 255"

definition hex_char :: "nat \<Rightarrow> char" where
  "hex_char n = (if n < 10 then digit_char n else char_of (87 + n))"

fun show_hex :: "nat \<Rightarrow> string" where
  "show_hex n = (if n < 16 then [hex_char n] else show_hex (n div 16) @ [hex_char (n mod 16)])"

declare show_hex.simps [simp del]

definition show_hex16 :: "nat \<Rightarrow> string" where
  "show_hex16 n = replicate (16 - length (show_hex n)) (CHR ''0'') @ show_hex n"

definition temp_name :: "temp_env \<Rightarrow> nat \<Rightarrow> string option \<Rightarrow> string" where
  "temp_name env counter fname =
     (let t = TEMP_PREFIX @ show_hex (pid env) @ ''-'' @ show_hex16 (nonce env counter) @ ''.''
      in case fname of
           None \<Rightarrow> t
         | Some n \<Rightarrow>
             if length t + length n \<le> MAX_NAME_LEN then t @ n else t @ show_hex16 (name_hash env n))"

text \<open>\<open>Path::parent\<close> where the path names a file; \<open>\<^verbatim>\<open>.\<close>\<close> stands in for the root, which has none.\<close>

definition gen_temp_path :: "temp_env \<Rightarrow> machine \<Rightarrow> path \<Rightarrow> machine \<times> path" where
  "gen_temp_path env m p =
     (m\<lparr>write_counter := Suc (write_counter m)\<rparr>,
      Path (case file_name p of None \<Rightarrow> ''.'' | Some _ \<Rightarrow> parent p)
        (Some (temp_name env (write_counter m) (file_name p))))"

definition TEMP_CREATE_ATTEMPTS :: nat where
  "TEMP_CREATE_ATTEMPTS = 8"

definition already_exists :: "error \<Rightarrow> bool" where
  "already_exists e \<longleftrightarrow> (case e of Io x \<Rightarrow> io_kind x = AlreadyExists | _ \<Rightarrow> False)"

text \<open>The loop, with the number of retries that are left.\<close>

primrec unique_temp ::
    "nat \<Rightarrow> temp_env \<Rightarrow> path \<Rightarrow> (machine \<Rightarrow> path \<Rightarrow> machine \<times> 'a result) \<Rightarrow> machine \<Rightarrow> machine \<times> (path \<times> 'a) result" where
  "unique_temp 0 env p op m =
     (case gen_temp_path env m p of (m1, temp) \<Rightarrow>
        (case op m1 temp of (m2, Inr v) \<Rightarrow> (m2, Inr (temp, v)) | (m2, Inl e) \<Rightarrow> (m2, Inl e)))"
| "unique_temp (Suc k) env p op m =
     (case gen_temp_path env m p of (m1, temp) \<Rightarrow>
        (case op m1 temp of
           (m2, Inr v) \<Rightarrow> (m2, Inr (temp, v))
         | (m2, Inl e) \<Rightarrow> if already_exists e then unique_temp k env p op m2 else (m2, Inl e)))"

definition with_unique_temp ::
    "temp_env \<Rightarrow> path \<Rightarrow> (machine \<Rightarrow> path \<Rightarrow> machine \<times> 'a result) \<Rightarrow> machine \<Rightarrow> machine \<times> (path \<times> 'a) result" where
  "with_unique_temp = unique_temp (TEMP_CREATE_ATTEMPTS - 1)"

section \<open>The steps\<close>

type_synonym step_result = "(string \<times> error) + unit"

definition at_step :: "string \<Rightarrow> machine \<times> unit result \<Rightarrow> machine \<times> step_result" where
  "at_step s x = (case x of (m, Inl e) \<Rightarrow> (m, Inl (s, e)) | (m, Inr _) \<Rightarrow> (m, Inr ()))"

definition and_then :: "machine \<times> step_result \<Rightarrow> (machine \<Rightarrow> machine \<times> step_result) \<Rightarrow> machine \<times> step_result" where
  "and_then x f = (case x of (m, Inl e) \<Rightarrow> (m, Inl e) | (m, Inr _) \<Rightarrow> f m)"

datatype buffered_flush = FlushData | FlushFull

definition flush_for_method :: "meth \<Rightarrow> buffered_flush" where
  "flush_for_method m = (if m = MData \<or> m = MDirect then FlushData else FlushFull)"

definition flush_run :: "buffered_flush \<Rightarrow> machine \<Rightarrow> nat \<Rightarrow> machine \<times> unit result" where
  "flush_run f m i = (case f of FlushData \<Rightarrow> sys_fsync m i | FlushFull \<Rightarrow> sys_fsync m i)"

record replace_plan =
  plan_direct :: bool
  plan_flush :: buffered_flush
  plan_sync_parent :: bool

text \<open>
  The callers' hooks: the group lane's, the solo lane's (is there a ring, has the handle passthrough
  access to the device of the file) and \<open>write_copy\<close>'s (did the target exist).
\<close>

datatype replace_hooks = PlatformHooks nat | SoloHooks bool bool nat | WriteCopyHooks bool bool nat bool

definition needs_trim :: "nat \<Rightarrow> nat \<Rightarrow> bool" where
  "needs_trim len ss \<longleftrightarrow> len mod max ss 1 \<noteq> 0"

definition trim_to :: "machine \<Rightarrow> nat \<Rightarrow> bytes \<Rightarrow> nat \<Rightarrow> machine \<times> step_result" where
  "trim_to m i data ss =
     (if needs_trim (length data) ss then at_step ''truncate'' (sys_ftruncate m i (length data)) else (m, Inr ()))"

definition write_direct_durable_platform :: "machine \<Rightarrow> nat \<Rightarrow> bytes \<Rightarrow> nat \<Rightarrow> machine \<times> step_result" where
  "write_direct_durable_platform m i data ss =
     and_then (at_step ''write'' (with_file i (\<lambda>d. write_all_direct d data ss) m)) (\<lambda>m1.
       and_then (trim_to m1 i data ss) (\<lambda>m2. at_step ''flush'' (sys_fsync m2 i)))"

text \<open>The linked write and fsync, with the kernel's cancellation of the fsync after a short write.\<close>

definition then_fdatasync :: "nat \<Rightarrow> machine \<times> nat result \<Rightarrow> machine \<times> nat result" where
  "then_fdatasync i x =
     (case x of
        (m, Inl e) \<Rightarrow> (m, Inl e)
      | (m, Inr n) \<Rightarrow> (case sys_fsync m i of (m1, Inl e) \<Rightarrow> (m1, Inl e) | (m1, Inr _) \<Rightarrow> (m1, Inr n)))"

definition write_at_linked_fsync :: "machine \<Rightarrow> nat \<Rightarrow> bytes \<Rightarrow> machine \<times> nat result" where
  "write_at_linked_fsync m i bs =
     (if MAX_SQE_LEN < length bs then then_fdatasync i (with_file i (\<lambda>d. ring_write_at d bs 0) m)
      else
        case with_file i (\<lambda>d. write_fixed_step d bs 0 (length bs) 0) m of
          (m1, Inl e) \<Rightarrow> (m1, Inl e)
        | (m1, Inr n) \<Rightarrow>
            if length bs \<le> n then then_fdatasync i (m1, Inr n)
            else
              (case advance 0 n of
                 Inl e \<Rightarrow> (m1, Inl e)
               | Inr off \<Rightarrow>
                   then_fdatasync i
                     (case with_file i (\<lambda>d. ring_write_at d (drop n bs) off) m1 of
                        (m2, Inl e) \<Rightarrow> (m2, Inl e)
                      | (m2, Inr rest) \<Rightarrow> (m2, Inr (n + rest)))))"

definition iouring_fence :: "machine \<Rightarrow> nat \<Rightarrow> bool \<Rightarrow> machine \<times> unit result" where
  "iouring_fence m i nvme = (if nvme then nvme_flush_ioctl m i else sys_fsync m i)"

text \<open>A fence of its own after the write, when one is asked for: whether it ran.\<close>

definition fenced_if :: "bool \<Rightarrow> machine \<Rightarrow> nat \<Rightarrow> bool \<Rightarrow> machine \<times> bool result" where
  "fenced_if fuse_fence m i nvme =
     (if fuse_fence then
        (case iouring_fence m i nvme of (m1, Inl e) \<Rightarrow> (m1, Inl e) | (m1, Inr _) \<Rightarrow> (m1, Inr True))
      else (m, Inr False))"

definition iouring_write_direct :: "machine \<Rightarrow> nat \<Rightarrow> bytes \<Rightarrow> nat \<Rightarrow> bool \<Rightarrow> bool \<Rightarrow> machine \<times> bool result" where
  "iouring_write_direct m i data ss nvme fuse_fence =
     (if data = [] then fenced_if fuse_fence m i nvme
      else
        let aligned_len = padded_len (length data) ss
        in case aligned_buf_new \<lparr>contents = [], script = kernel m, oom = no_mem m\<rparr> aligned_len ss of
             Inl e \<Rightarrow> (m, Inl e)
           | Inr block \<Rightarrow>
               if fuse_fence \<and> \<not> nvme then
                 (case write_at_linked_fsync m i (copy_at 0 data block) of
                    (m1, Inl e) \<Rightarrow> (m1, Inl e)
                  | (m1, Inr n) \<Rightarrow>
                      if n \<noteq> aligned_len then
                        (m1, Inl (other_error ''io_uring short write on Direct path (linked write+fsync)''))
                      else (m1, Inr True))
               else
                 (case with_file i (\<lambda>d. ring_write_at d (copy_at 0 data block) 0) m of
                    (m1, Inl e) \<Rightarrow> (m1, Inl e)
                  | (m1, Inr n) \<Rightarrow>
                      if n \<noteq> aligned_len then (m1, Inl (other_error ''io_uring short write on Direct path''))
                      else fenced_if fuse_fence m1 i nvme))"

definition direct_write_durable :: "machine \<Rightarrow> nat \<Rightarrow> bytes \<Rightarrow> bool \<Rightarrow> bool \<Rightarrow> nat \<Rightarrow> machine \<times> step_result" where
  "direct_write_durable m i data ring nvme ss =
     (if ring then
        (case iouring_write_direct m i data ss nvme (\<not> needs_trim (length data) ss) of
           (m1, Inr fenced) \<Rightarrow>
             and_then (trim_to m1 i data ss) (\<lambda>m2.
               if fenced then (m2, Inr ()) else at_step ''flush'' (iouring_fence m2 i nvme))
         | (m1, Inl _) \<Rightarrow> write_direct_durable_platform m1 i data ss)
      else write_direct_durable_platform m i data ss)"

definition hook_write_direct :: "replace_hooks \<Rightarrow> machine \<Rightarrow> nat \<Rightarrow> bytes \<Rightarrow> machine \<times> step_result" where
  "hook_write_direct h m i data =
     (case h of
        PlatformHooks ss \<Rightarrow> write_direct_durable_platform m i data ss
      | SoloHooks ring nvme ss \<Rightarrow> direct_write_durable m i data ring nvme ss
      | WriteCopyHooks ring nvme ss _ \<Rightarrow> direct_write_durable m i data ring nvme ss)"

definition direct_refused :: "replace_hooks \<Rightarrow> machine \<Rightarrow> machine" where
  "direct_refused h m =
     (case h of PlatformHooks _ \<Rightarrow> m | _ \<Rightarrow> m\<lparr>methods := update_active_method MData (methods m)\<rparr>)"

text \<open>
  \<open>write_copy\<close> copies owner, mode and times onto the temp file (best effort, and no part of the
  store) and makes them durable.
\<close>

definition before_rename :: "replace_hooks \<Rightarrow> machine \<Rightarrow> path \<Rightarrow> machine \<times> step_result" where
  "before_rename h m temp =
     (case h of
        WriteCopyHooks _ _ _ True \<Rightarrow>
          (case sys_open_existing m temp of
             (m1, Inl e) \<Rightarrow> (m1, Inl (''flush'', e))
           | (m1, Inr i) \<Rightarrow> at_step ''flush'' (sys_fsync m1 i))
      | _ \<Rightarrow> (m, Inr ()))"

definition write_temp :: "replace_hooks \<Rightarrow> replace_plan \<Rightarrow> machine \<Rightarrow> nat \<Rightarrow> bool \<Rightarrow> bytes \<Rightarrow> machine \<times> step_result" where
  "write_temp h pl m i direct_ok data =
     (let m1 = (if plan_direct pl \<and> \<not> direct_ok then direct_refused h m else m)
      in if direct_ok then hook_write_direct h m1 i data
         else and_then (at_step ''write'' (with_file i (\<lambda>d. write_all d data) m1))
           (\<lambda>m2. at_step ''flush'' (flush_run (plan_flush pl) m2 i)))"

definition as_io_error :: "error \<Rightarrow> io_error" where
  "as_io_error e = (case e of Io x \<Rightarrow> x | _ \<Rightarrow> IoError OtherKind (error_display e))"

definition step_err :: "string \<Rightarrow> error \<Rightarrow> error" where
  "step_err s e = AtomicReplaceFailed s (as_io_error e)"

text \<open>The guard removes the temp file on every failure; the result of the removal is ignored.\<close>

definition drop_guard :: "machine \<Rightarrow> path \<Rightarrow> machine" where
  "drop_guard m temp = fst (remove_file m temp)"

definition atomic_replace ::
    "temp_env \<Rightarrow> replace_hooks \<Rightarrow> replace_plan \<Rightarrow> machine \<Rightarrow> path \<Rightarrow> bytes \<Rightarrow> machine \<times> unit result" where
  "atomic_replace env h pl m target data =
     (case with_unique_temp env target (\<lambda>m p. open_write_new m p (plan_direct pl)) m of
        (m1, Inl e) \<Rightarrow> (m1, Inl (step_err ''open_temp'' e))
      | (m1, Inr (temp, i, direct_ok)) \<Rightarrow>
          (case and_then (write_temp h pl m1 i direct_ok data) (\<lambda>m2. before_rename h m2 temp) of
             (m3, Inl (s, e)) \<Rightarrow> (drop_guard m3 temp, Inl (step_err s e))
           | (m3, Inr _) \<Rightarrow>
               (case atomic_rename m3 temp target of
                  (m4, Inl e) \<Rightarrow> (drop_guard m4 temp, Inl (step_err ''rename'' e))
                | (m4, Inr _) \<Rightarrow>
                    (if plan_sync_parent pl then fst (sync_parent_dir m4 target) else m4, Inr ()))))"

section \<open>What the steps may touch\<close>

text \<open>Only one file differs: its bytes and what of them is durable.\<close>

definition same_but :: "nat \<Rightarrow> store \<Rightarrow> store \<Rightarrow> bool" where
  "same_but i s s' \<longleftrightarrow>
     names s' = names s \<and> names_crash s' = names_crash s \<and> next_ino s' = next_ino s \<and> ordered_meta s' = ordered_meta s \<and>
     (\<forall>j. j \<noteq> i \<longrightarrow> data_of s' j = data_of s j \<and> synced_data s' j = synced_data s j)"

definition goes :: "(store \<Rightarrow> store \<Rightarrow> bool) \<Rightarrow> machine \<Rightarrow> machine \<Rightarrow> bool" where
  "goes R m m' \<longleftrightarrow> R (now m) (now m') \<and> (\<exists>xs. past m' = past m @ xs \<and> (\<forall>s\<in>set xs. R (now m) s)) \<and>
     (calls m = [] \<longrightarrow> calls m' = [])"

abbreviation touches :: "nat \<Rightarrow> machine \<Rightarrow> machine \<Rightarrow> bool" where
  "touches i \<equiv> goes (same_but i)"

lemma same_but_refl [simp]: "same_but i s s"
  by (simp add: same_but_def)

lemma same_but_trans: "same_but i s1 s2 \<Longrightarrow> same_but i s2 s3 \<Longrightarrow> same_but i s1 s3"
  by (simp add: same_but_def)

lemma goes_trans:
  assumes "goes R m1 m2" and "goes R m2 m3" and "\<And>a b c. R a b \<Longrightarrow> R b c \<Longrightarrow> R a c"
  shows "goes R m1 m3"
proof -
  obtain xs ys where x: "past m2 = past m1 @ xs" "\<forall>s\<in>set xs. R (now m1) s"
    "past m3 = past m2 @ ys" "\<forall>s\<in>set ys. R (now m2) s"
    using assms(1,2) by (auto simp: goes_def)
  have r: "R (now m1) (now m2)" "R (now m2) (now m3)" "calls m1 = [] \<longrightarrow> calls m3 = []"
    using assms(1,2) by (auto simp: goes_def)
  have "R (now m1) (now m3)" by (rule assms(3) [OF r(1,2)])
  moreover have "past m3 = past m1 @ (xs @ ys)" using x(1,3) by simp
  moreover have "R (now m1) s" if "s \<in> set (xs @ ys)" for s using that x(2,4) assms(3) [OF r(1), of s] by auto
  ultimately show ?thesis using r(3) unfolding goes_def by blast
qed

lemma touches_trans: "touches i m1 m2 \<Longrightarrow> touches i m2 m3 \<Longrightarrow> touches i m1 m3"
  by (rule goes_trans [where R = "same_but i"]) (auto intro: same_but_trans)

lemma goes_same:
  assumes "R (now m) (now m)" and "now m' = now m" and "past m' = past m" and "calls m = [] \<Longrightarrow> calls m' = []"
  shows "goes R m m'"
  using assms by (simp add: goes_def)

lemma goes_put: "R (now m) s \<Longrightarrow> now m1 = now m \<Longrightarrow> past m1 = past m \<Longrightarrow> (calls m = [] \<Longrightarrow> calls m1 = []) \<Longrightarrow>
    goes R m (put_store s m1)"
  by (simp add: goes_def put_store_def)

lemma next_call_keeps:
  assumes "next_call m = (m1, c)"
  shows "now m1 = now m" "past m1 = past m" "kernel m1 = kernel m" "no_mem m1 = no_mem m"
    "calls m = [] \<Longrightarrow> m1 = m \<and> c = None"
  using assms by (auto simp: next_call_def split: list.splits)

lemma put_store_simps [simp]:
  "now (put_store s m) = s" "past (put_store s m) = past m @ [s]" "kernel (put_store s m) = kernel m"
  "no_mem (put_store s m) = no_mem m" "calls (put_store s m) = calls m"
  by (simp_all add: put_store_def)

lemma with_file_cases:
  assumes "with_file i f m = (m', r)"
  obtains d where "f \<lparr>contents = data_of (now m) i, script = kernel m, oom = no_mem m\<rparr> = (d, r)"
    "data_of (now m') i = contents d" "synced_data (now m') i = synced_data (now m) i" "touches i m m'"
    "calls m' = calls m" "kernel m' = script d" "no_mem m' = no_mem m"
proof -
  obtain d r' where f: "f \<lparr>contents = data_of (now m) i, script = kernel m, oom = no_mem m\<rparr> = (d, r')" by fastforce
  with assms have "r' = r"
    "m' = put_store ((now m)\<lparr>data_of := (data_of (now m))(i := contents d)\<rparr>) (m\<lparr>kernel := script d\<rparr>)"
    by (simp_all add: with_file_def)
  with f show ?thesis by (intro that [of d]) (auto simp: same_but_def intro!: goes_put)
qed

lemma sys_ftruncate_effect:
  assumes "sys_ftruncate m i n = (m', r)"
  shows "touches i m m'" "r = Inr () \<Longrightarrow> data_of (now m') i = resize n (data_of (now m) i)"
    "r = Inr () \<Longrightarrow> synced_data (now m') i = synced_data (now m) i"
proof -
  obtain m1 c where c: "next_call m = (m1, c)" by fastforce
  note k = next_call_keeps [OF c]
  show "touches i m m'" "r = Inr () \<Longrightarrow> data_of (now m') i = resize n (data_of (now m) i)"
    "r = Inr () \<Longrightarrow> synced_data (now m') i = synced_data (now m) i"
    using assms c k
    by (auto simp: sys_ftruncate_def same_but_def split: option.splits intro: goes_same intro!: goes_put)
qed

lemma sys_fsync_effect:
  assumes "sys_fsync m i = (m', r)"
  shows "touches i m m'" "data_of (now m') i = data_of (now m) i"
    "r = Inr () \<Longrightarrow> synced_data (now m') i = Some (data_of (now m) i)"
proof -
  obtain m1 c where c: "next_call m = (m1, c)" by fastforce
  note k = next_call_keeps [OF c]
  show "touches i m m'" "data_of (now m') i = data_of (now m) i"
    "r = Inr () \<Longrightarrow> synced_data (now m') i = Some (data_of (now m) i)"
    using assms c k
    by (auto simp: sys_fsync_def same_but_def split: option.splits intro: goes_same intro!: goes_put)
qed

lemma at_step_cases:
  assumes "at_step s x = (m, r)"
  obtains e where "x = (m, Inl e)" "r = Inl (s, e)" | "x = (m, Inr ())" "r = Inr ()"
  using assms by (cases x; cases "snd x") (auto simp: at_step_def)

lemma and_then_cases:
  assumes "and_then x f = (m, r)"
  obtains e where "x = (m, Inl e)" "r = Inl e" | m1 where "x = (m1, Inr ())" "f m1 = (m, r)"
  using assms by (cases x; cases "snd x") (auto simp: and_then_def)

lemma nvme_flush_effect:
  assumes "nvme_flush_ioctl m i = (m', r)"
  shows "touches i m m'" "data_of (now m') i = data_of (now m) i"
    "r = Inr () \<Longrightarrow> flushed_data (now m') i = Some (data_of (now m) i)" "synced_data (now m') i = synced_data (now m) i"
proof -
  obtain m1 c where c: "next_call m = (m1, c)" by fastforce
  note k = next_call_keeps [OF c]
  show "touches i m m'" "data_of (now m') i = data_of (now m) i"
    "r = Inr () \<Longrightarrow> flushed_data (now m') i = Some (data_of (now m) i)" "synced_data (now m') i = synced_data (now m) i"
    using assms c k
    by (auto simp: nvme_flush_ioctl_def same_but_def split: option.splits intro: goes_same intro!: goes_put)
qed

text \<open>
  Written and durable: the file holds the data, and so does what a crash leaves of it. With passthrough
  the data may be held by the device alone.
\<close>

definition durable_as :: "machine \<Rightarrow> nat \<Rightarrow> bytes \<Rightarrow> bool" where
  "durable_as m i data \<longleftrightarrow> data_of (now m) i = data \<and> synced_data (now m) i = Some data"

definition held_as :: "bool \<Rightarrow> machine \<Rightarrow> nat \<Rightarrow> bytes \<Rightarrow> bool" where
  "held_as nvme m i data \<longleftrightarrow>
     data_of (now m) i = data \<and> (synced_data (now m) i = Some data \<or> nvme \<and> flushed_data (now m) i = Some data)"

lemma durable_held: "durable_as m i data \<Longrightarrow> held_as nvme m i data"
  by (simp add: durable_as_def held_as_def)

lemma sys_fsync_held: "sys_fsync m i = (m', r) \<Longrightarrow> held_as nvme m i data \<Longrightarrow> held_as nvme m' i data"
  using next_call_keeps(1) [of m] by (auto simp: sys_fsync_def held_as_def split: prod.splits option.splits)

lemma iouring_fence_effect:
  assumes "iouring_fence m i nvme = (m', r)"
  shows "touches i m m'" "data_of (now m') i = data_of (now m) i" "r = Inr () \<Longrightarrow> held_as nvme m' i (data_of (now m) i)"
  using assms sys_fsync_effect [of m i m' r] nvme_flush_effect [of m i m' r]
  by (auto simp: iouring_fence_def held_as_def split: if_splits)

lemma fenced_if_effect:
  assumes "fenced_if fuse m i nvme = (m', r)"
  shows "touches i m m' \<and> data_of (now m') i = data_of (now m) i \<and>
    (\<forall>f. r = Inr f \<longrightarrow> f = fuse \<and> (f \<longrightarrow> held_as nvme m' i (data_of (now m) i)))"
proof (cases fuse)
  case True
  obtain m1 r1 where "iouring_fence m i nvme = (m1, r1)" by fastforce
  with True assms iouring_fence_effect [OF this] show ?thesis by (auto simp: fenced_if_def split: sum.splits)
next
  case False
  with assms show ?thesis by (auto simp: fenced_if_def intro: goes_same)
qed

text \<open>The padding is what \<open>trim_to\<close> removes.\<close>

lemma trim_to_effect:
  assumes "trim_to m i data ss = (m', r)"
  shows "touches i m m'"
    and "r = Inr () \<Longrightarrow> 0 < ss \<Longrightarrow> data_of (now m) i = data @ zeros (padded_len (length data) ss - length data) \<Longrightarrow>
      data_of (now m') i = data"
    and "\<not> needs_trim (length data) ss \<Longrightarrow> m' = m \<and> r = Inr ()"
proof -
  show "touches i m m'"
    using assms sys_ftruncate_effect(1)
    by (auto simp: trim_to_def intro: goes_same split: if_splits elim!: at_step_cases)
  show "\<not> needs_trim (length data) ss \<Longrightarrow> m' = m \<and> r = Inr ()" using assms by (simp add: trim_to_def)
  assume h: "r = Inr ()" "0 < ss" "data_of (now m) i = data @ zeros (padded_len (length data) ss - length data)"
  show "data_of (now m') i = data"
  proof (cases "needs_trim (length data) ss")
    case True
    with assms h(1) have "sys_ftruncate m i (length data) = (m', Inr ())"
      by (auto simp: trim_to_def elim!: at_step_cases)
    from sys_ftruncate_effect(2) [OF this] h(3) show ?thesis by (simp add: resize_def)
  next
    case False
    have "max ss 1 = ss" using h(2) by simp
    with False h(2) have "padded_len (length data) ss = length data"
      by (intro padded_len_exact) (simp_all add: needs_trim_def)
    with False assms h(3) show ?thesis by (simp add: trim_to_def)
  qed
qed

lemma platform_write_effect:
  assumes "write_direct_durable_platform m i data ss = (m', r)" and "length data < 2 ^ 62" and "ss \<le> 2 ^ 62"
    and "length (data_of (now m) i) \<le> padded_len (length data) ss"
  shows "touches i m m'" and "r = Inr () \<Longrightarrow> durable_as m' i data"
proof -
  let ?w = "at_step ''write'' (with_file i (\<lambda>d. write_all_direct d data ss) m)"
  let ?t = "\<lambda>m1. and_then (trim_to m1 i data ss) (\<lambda>m2. at_step ''flush'' (sys_fsync m2 i))"
  have all: "and_then ?w ?t = (m', r)" using assms(1) by (simp add: write_direct_durable_platform_def)
  have "touches i m m' \<and> (r = Inr () \<longrightarrow> durable_as m' i data)"
  proof (cases rule: and_then_cases [OF all])
    case (1 e)
    then obtain r' where "with_file i (\<lambda>d. write_all_direct d data ss) m = (m', r')"
      by (auto elim!: at_step_cases)
    with 1 show ?thesis by (auto elim!: with_file_cases)
  next
    case (2 m1)
    then have "with_file i (\<lambda>d. write_all_direct d data ss) m = (m1, Inr ())" by (auto elim!: at_step_cases)
    then obtain d where d: "write_all_direct \<lparr>contents = data_of (now m) i, script = kernel m, oom = no_mem m\<rparr> data ss = (d, Inr ())"
      "data_of (now m1) i = contents d" "touches i m m1" by (rule with_file_cases)
    note eff = write_all_direct_effect [OF d(1) assms(2,3)]
    show ?thesis
    proof (cases rule: and_then_cases [OF 2(2)])
      case (1 e)
      with trim_to_effect(1) touches_trans [OF d(3)] show ?thesis by blast
    next
      case t: (2 m2)
      note te = trim_to_effect [OF t(1)]
      obtain r' where f: "sys_fsync m2 i = (m', r')" "r = Inr () \<longrightarrow> r' = Inr ()"
        using t(2) by (auto elim!: at_step_cases)
      note fe = sys_fsync_effect [OF f(1)]
      have "touches i m m'" using touches_trans [OF touches_trans [OF d(3) te(1)] fe(1)] .
      moreover have "data_of (now m2) i = data"
      proof (cases "data = []")
        case True
        then have "data_of (now m1) i = data_of (now m) i" using eff(3) assms(4) d(2) by simp
        moreover have "padded_len 0 ss = 0" by (cases "ss = 0") (simp_all add: padded_len_def)
        ultimately have "data_of (now m1) i = []" using assms(4) True by simp
        moreover have "\<not> needs_trim (length data) ss" using True by (simp add: needs_trim_def)
        ultimately show ?thesis using te(3) True by simp
      next
        case False
        with eff(2) assms(4) d(2) te(2) show ?thesis by simp
      qed
      ultimately show ?thesis using fe(2,3) f(2) by (simp add: durable_as_def)
    qed
  qed
  then show "touches i m m'" "r = Inr () \<Longrightarrow> durable_as m' i data" by auto
qed

text \<open>A write through the ring puts a prefix of the block at the start of the file.\<close>

definition wrote :: "nat \<Rightarrow> bytes \<Rightarrow> machine \<Rightarrow> machine \<times> nat result \<Rightarrow> bool" where
  "wrote i bs m x \<longleftrightarrow>
     (case x of (m', r) \<Rightarrow>
        touches i m m' \<and>
        (\<exists>n\<le>length bs. data_of (now m') i = put_at 0 (take n bs) (data_of (now m) i) \<and> (\<forall>k. r = Inr k \<longrightarrow> k = n)))"

lemma ring_write_file:
  assumes "with_file i (\<lambda>d. ring_write_at d bs off) m = (m', r)"
  shows "touches i m m' \<and>
    (\<exists>n\<le>length bs. data_of (now m') i = put_at off (take n bs) (data_of (now m) i) \<and> (\<forall>k. r = Inr k \<longrightarrow> k = n))"
proof -
  from assms obtain d where d: "ring_write_at \<lparr>contents = data_of (now m) i, script = kernel m, oom = no_mem m\<rparr> bs off = (d, r)"
    "data_of (now m') i = contents d" "touches i m m'" by (rule with_file_cases)
  from ring_write_at_effect [OF d(1)] d show ?thesis by simp
qed

lemma wrote_ring: "with_file i (\<lambda>d. ring_write_at d bs 0) m = x \<Longrightarrow> wrote i bs m x"
  by (cases x) (auto simp: wrote_def dest: ring_write_file)

lemma wrote_step:
  assumes "with_file i (\<lambda>d. write_fixed_step d bs 0 (length bs) 0) m = x"
  shows "wrote i bs m x"
proof (cases x)
  case (Pair m1 r1)
  with assms have "with_file i (\<lambda>d. write_fixed_step d bs 0 (length bs) 0) m = (m1, r1)" by simp
  then obtain d where d: "write_fixed_step \<lparr>contents = data_of (now m) i, script = kernel m, oom = no_mem m\<rparr> bs 0 (length bs) 0 = (d, r1)"
    "data_of (now m1) i = contents d" "touches i m m1" by (rule with_file_cases)
  from write_fixed_step_effect [OF d(1)] show ?thesis
  proof
    assume "\<exists>e. r1 = Inl e \<and> contents d = contents \<lparr>contents = data_of (now m) i, script = kernel m, oom = no_mem m\<rparr>"
    with d Pair show ?thesis by (auto simp: wrote_def intro!: exI [of _ 0])
  qed (use d Pair in \<open>auto simp: wrote_def\<close>)
qed

lemma wrote_rest:
  assumes "wrote i bs m (m1, Inr n)" and "with_file i (\<lambda>d. ring_write_at d (drop n bs) n) m1 = (m2, r)"
  shows "wrote i bs m (m2, case r of Inl e \<Rightarrow> Inl e | Inr rest \<Rightarrow> Inr (n + rest))"
proof -
  from assms(1) have n: "n \<le> length bs" "data_of (now m1) i = put_at 0 (take n bs) (data_of (now m) i)" "touches i m m1"
    by (auto simp: wrote_def)
  from ring_write_file [OF assms(2)] obtain k where k: "touches i m1 m2" "k \<le> length (drop n bs)"
    "data_of (now m2) i = put_at n (take k (drop n bs)) (data_of (now m1) i)" "\<forall>j. r = Inr j \<longrightarrow> j = k" by blast
  have "data_of (now m2) i = put_at 0 (take n bs @ take k (drop n bs)) (data_of (now m) i)"
    using put_at_put_at [of 0 "take n bs" "take k (drop n bs)" "data_of (now m) i"] n k(3) by simp
  then have "data_of (now m2) i = put_at 0 (take (n + k) bs) (data_of (now m) i)" by (simp only: take_add)
  with touches_trans [OF n(3) k(1)] n(1) k(2,4) show ?thesis
    unfolding wrote_def prod.case by (intro conjI exI [of _ "n + k"]) (auto split: sum.splits)
qed

lemma wrote_length:
  "wrote i bs m (m', r) \<Longrightarrow> length (data_of (now m) i) \<le> length bs \<Longrightarrow> length (data_of (now m') i) \<le> length bs"
  by (auto simp: wrote_def put_at_part)

text \<open>What the ring leaves: at most the block, and all of it durable when it says so.\<close>

definition ring_wrote :: "nat \<Rightarrow> bytes \<Rightarrow> machine \<Rightarrow> machine \<Rightarrow> bool \<Rightarrow> bool" where
  "ring_wrote i bs m m' full \<longleftrightarrow>
     touches i m m' \<and> length (data_of (now m') i) \<le> length bs \<and> (full \<longrightarrow> durable_as m' i bs)"

lemma then_fdatasync_effect:
  assumes "then_fdatasync i x = (m', r)" and "wrote i bs m x" and "length (data_of (now m) i) \<le> length bs"
  shows "ring_wrote i bs m m' (r = Inr (length bs))"
proof -
  obtain m1 r1 where x: "x = (m1, r1)" by fastforce
  have w: "touches i m m1" "length (data_of (now m1) i) \<le> length bs"
    using assms(2,3) wrote_length [of i bs m m1 r1] by (auto simp: x wrote_def)
  show ?thesis
  proof (cases r1)
    case (Inl e)
    with assms(1) x w show ?thesis by (auto simp: then_fdatasync_def ring_wrote_def)
  next
    case (Inr k)
    obtain m2 r2 where f: "sys_fsync m1 i = (m2, r2)" by fastforce
    note fe = sys_fsync_effect [OF f]
    have e: "m' = m2" "r = (case r2 of Inl e \<Rightarrow> Inl e | Inr _ \<Rightarrow> Inr k)"
      using assms(1) x Inr f by (auto simp: then_fdatasync_def split: sum.splits)
    have "durable_as m' i bs" if "r = Inr (length bs)"
    proof -
      from that e have "r2 = Inr ()" "k = length bs" by (auto split: sum.splits)
      with assms(2,3) x Inr fe e(1) show ?thesis by (auto simp: durable_as_def wrote_def put_at_whole)
    qed
    with touches_trans [OF w(1) fe(1)] w(2) fe(2) e(1) show ?thesis by (simp add: ring_wrote_def)
  qed
qed

lemma linked_fsync_effect:
  assumes "write_at_linked_fsync m i bs = (m', r)" and "length (data_of (now m) i) \<le> length bs"
  shows "ring_wrote i bs m m' (r = Inr (length bs))"
proof (cases "MAX_SQE_LEN < length bs")
  case True
  with assms(1) then_fdatasync_effect [OF _ wrote_ring [OF refl] assms(2)] show ?thesis
    by (simp add: write_at_linked_fsync_def)
next
  case False
  obtain m1 r1 where w: "with_file i (\<lambda>d. write_fixed_step d bs 0 (length bs) 0) m = (m1, r1)" by fastforce
  note st = wrote_step [OF w]
  have part: "ring_wrote i bs m m1 False"
    using st wrote_length [OF st assms(2)] by (simp add: ring_wrote_def wrote_def)
  show ?thesis
  proof (cases r1)
    case (Inl e)
    with assms(1) False w part show ?thesis by (auto simp: write_at_linked_fsync_def ring_wrote_def)
  next
    case (Inr n)
    show ?thesis
    proof (cases "length bs \<le> n \<or> (\<exists>e. advance 0 n = Inl e)")
      case True
      with assms(1) False w Inr part then_fdatasync_effect [OF _ st [unfolded Inr] assms(2)] show ?thesis
        by (auto simp: write_at_linked_fsync_def ring_wrote_def split: if_splits)
    next
      case short: False
      then have adv: "advance 0 n = Inr n" by (auto simp: advance_def split: option.splits)
      obtain m2 r2 where w2: "with_file i (\<lambda>d. ring_write_at d (drop n bs) n) m1 = (m2, r2)" by fastforce
      have "then_fdatasync i (m2, case r2 of Inl e \<Rightarrow> Inl e | Inr rest \<Rightarrow> Inr (n + rest)) = (m', r)"
        using assms(1) False w Inr short adv w2 by (auto simp: write_at_linked_fsync_def split: sum.splits)
      from then_fdatasync_effect [OF this wrote_rest [OF st [unfolded Inr] w2] assms(2)] show ?thesis .
    qed
  qed
qed

text \<open>The block of a Direct write is the data and its padding.\<close>

definition padded :: "bytes \<Rightarrow> nat \<Rightarrow> bytes" where
  "padded data ss = data @ zeros (padded_len (length data) ss - length data)"

lemma length_padded: "0 < ss \<Longrightarrow> length (padded data ss) = padded_len (length data) ss"
  using padded_len_le [of ss "length data"] by (simp add: padded_def)

lemma padded_block:
  assumes "aligned_buf_new d (padded_len (length data) ss) ss = Inr block"
  shows "copy_at 0 data block = padded data ss" "0 < ss"
proof -
  note b = aligned_buf_new_ok [OF assms]
  show "0 < ss" using b(2) by (rule power_of_two_pos)
  then show "copy_at 0 data block = padded data ss"
    using padded_len_le [of ss "length data"] by (simp add: b(1) padded_def copy_at_def drop_replicate)
qed

lemma iouring_write_effect:
  assumes "iouring_write_direct m i data ss nvme fuse = (m', r)"
    and "length (data_of (now m) i) \<le> padded_len (length data) ss"
  shows "touches i m m' \<and> length (data_of (now m') i) \<le> padded_len (length data) ss \<and>
    (\<forall>f. r = Inr f \<longrightarrow> f = fuse \<and>
       (if data = [] then data_of (now m') i = data_of (now m) i \<and> (f \<longrightarrow> held_as nvme m' i (data_of (now m) i))
        else 0 < ss \<and> data_of (now m') i = padded data ss \<and> (f \<longrightarrow> held_as nvme m' i (padded data ss))))"
proof (cases "data = []")
  case True
  with assms fenced_if_effect [of fuse m i nvme m' r] show ?thesis by (simp add: iouring_write_direct_def)
next
  case False
  show ?thesis
  proof (cases "aligned_buf_new \<lparr>contents = [], script = kernel m, oom = no_mem m\<rparr> (padded_len (length data) ss) ss")
    case (Inl e)
    with False assms show ?thesis by (auto simp: iouring_write_direct_def intro: goes_same)
  next
    case (Inr block)
    note b = padded_block [OF Inr]
    let ?bs = "padded data ss"
    have len: "length (data_of (now m) i) \<le> length ?bs" using assms(2) b(2) by (simp add: length_padded)
    show ?thesis
    proof (cases "fuse \<and> \<not> nvme")
      case True
      obtain m1 r1 where w: "write_at_linked_fsync m i ?bs = (m1, r1)" by fastforce
      have "m' = m1" "\<And>f. r = Inr f \<Longrightarrow> f \<and> r1 = Inr (length ?bs)"
        using assms(1) False Inr w b True
        by (auto simp: iouring_write_direct_def Let_def length_padded split: sum.splits if_splits)
      with linked_fsync_effect [OF w len] False True b(2) show ?thesis
        by (auto simp: ring_wrote_def durable_as_def held_as_def length_padded)
    next
      case nf: False
      obtain m1 r1 where w: "with_file i (\<lambda>d. ring_write_at d ?bs 0) m = (m1, r1)" by fastforce
      have wr: "wrote i ?bs m (m1, r1)" by (rule wrote_ring [OF w])
      have t1: "touches i m m1" "length (data_of (now m1) i) \<le> length ?bs"
        using wr wrote_length [OF wr len] by (simp_all add: wrote_def)
      show ?thesis
      proof (cases "r1 = Inr (length ?bs)")
        case True
        then have d: "data_of (now m1) i = ?bs" using wr len by (auto simp: wrote_def put_at_whole)
        have "fenced_if fuse m1 i nvme = (m', r)"
          using assms(1) False Inr w b nf True by (auto simp: iouring_write_direct_def Let_def length_padded)
        from fenced_if_effect [OF this] touches_trans [OF t1(1), of m'] d False b(2) show ?thesis by (auto simp: length_padded)
      next
        case short: False
        then have "m' = m1" "\<nexists>f. r = Inr f"
          using assms(1) False Inr w b nf
          by (auto simp: iouring_write_direct_def Let_def length_padded split: sum.splits if_splits)
        with t1 b(2) show ?thesis by (auto simp: length_padded)
      qed
    qed
  qed
qed

lemma direct_write_effect:
  assumes "direct_write_durable m i data ring nvme ss = (m', r)" and "length data < 2 ^ 62" and "ss \<le> 2 ^ 62"
    and "data_of (now m) i = []"
  shows "touches i m m' \<and> (r = Inr () \<longrightarrow> held_as nvme m' i data)"
proof (cases ring)
  case False
  with assms platform_write_effect [of m i data ss m' r] show ?thesis
    by (auto simp: direct_write_durable_def intro: durable_held)
next
  case True
  let ?fuse = "\<not> needs_trim (length data) ss"
  obtain m1 r1 where w: "iouring_write_direct m i data ss nvme ?fuse = (m1, r1)" by fastforce
  have e0: "length (data_of (now m) i) \<le> padded_len (length data) ss" using assms(4) by simp
  note we = iouring_write_effect [OF w e0]
  show ?thesis
  proof (cases r1)
    case (Inl e)
    with True assms(1) w have p: "write_direct_durable_platform m1 i data ss = (m', r)"
      by (simp add: direct_write_durable_def)
    from we have "length (data_of (now m1) i) \<le> padded_len (length data) ss" "touches i m m1" by simp_all
    with platform_write_effect [OF p assms(2,3)] touches_trans durable_held show ?thesis by blast
  next
    case (Inr fenced)
    note we = we [unfolded Inr]
    have f: "fenced = ?fuse" "touches i m m1" using we by simp_all
    have "and_then (trim_to m1 i data ss) (\<lambda>m2. if fenced then (m2, Inr ()) else at_step ''flush'' (iouring_fence m2 i nvme)) = (m', r)"
      using True assms(1) w Inr by (simp add: direct_write_durable_def)
    then show ?thesis
    proof (cases rule: and_then_cases)
      case (1 e)
      with trim_to_effect(1) touches_trans [OF f(2)] show ?thesis by blast
    next
      case (2 m2)
      note te = trim_to_effect [OF 2(1)]
      have t: "touches i m m2" by (rule touches_trans [OF f(2) te(1)])
      have d: "data_of (now m2) i = data"
      proof (cases "data = []")
        case True
        then have "\<not> needs_trim (length data) ss" by (simp add: needs_trim_def)
        with te(3) we True assms(4) show ?thesis by simp
      next
        case False
        with we te(2) show ?thesis by (simp add: padded_def)
      qed
      show ?thesis
      proof (cases fenced)
        case True
        with f(1) te(3) have "m2 = m1" by blast
        then have "held_as nvme m2 i data"
          using we d True assms(4) by (cases "data = []") (auto simp: held_as_def)
        with True 2(2) t show ?thesis by simp
      next
        case False
        with 2(2) obtain r' where "iouring_fence m2 i nvme = (m', r')" "r = Inr () \<longrightarrow> r' = Inr ()"
          by (auto elim!: at_step_cases)
        with iouring_fence_effect [of m2 i nvme m' r'] touches_trans [OF t, of m'] d show ?thesis by auto
      qed
    qed
  qed
qed

section \<open>Temp names\<close>

lemma length_show_hex: "n < 16 ^ Suc k \<Longrightarrow> length (show_hex n) \<le> Suc k"
proof (induction k arbitrary: n)
  case 0
  then show ?case by (simp add: show_hex.simps [of n])
next
  case (Suc k)
  then have "n div 16 < 16 ^ Suc k" by (simp add: div_less_iff_less_mult)
  from Suc.IH [OF this] show ?case by (subst show_hex.simps) simp
qed

lemma length_show_hex16: "n < 2 ^ 64 \<Longrightarrow> length (show_hex16 n) = 16"
  using length_show_hex [of n 15] by (simp add: show_hex16_def)

definition temp_env_ok :: "temp_env \<Rightarrow> bool" where
  "temp_env_ok env \<longleftrightarrow> pid env < 2 ^ 32 \<and> (\<forall>n. nonce env n < 2 ^ 64) \<and> (\<forall>n. name_hash env n < 2 ^ 64)"

lemma temp_name_differs:
  assumes "temp_env_ok env"
  shows "temp_name env k (Some n) \<noteq> n" "length n \<le> MAX_NAME_LEN \<Longrightarrow> length (temp_name env k (Some n)) \<le> MAX_NAME_LEN"
proof -
  let ?t = "TEMP_PREFIX @ show_hex (pid env) @ ''-'' @ show_hex16 (nonce env k) @ ''.''"
  have p: "length (show_hex (pid env)) \<le> 8" using assms length_show_hex [of "pid env" 7] by (simp add: temp_env_ok_def)
  have h: "length (show_hex16 (nonce env k)) = 16" "length (show_hex16 (name_hash env n)) = 16"
    using assms by (simp_all add: temp_env_ok_def length_show_hex16)
  have t: "28 \<le> length ?t" "length ?t \<le> 36" using p h by (simp_all add: TEMP_PREFIX_def)
  have "length (temp_name env k (Some n)) \<noteq> length n"
  proof (cases "length ?t + length n \<le> MAX_NAME_LEN")
    case True
    then have "temp_name env k (Some n) = ?t @ n" by (simp add: temp_name_def Let_def)
    with t show ?thesis by simp
  next
    case False
    then have "temp_name env k (Some n) = ?t @ show_hex16 (name_hash env n)" by (simp add: temp_name_def Let_def)
    with t h False show ?thesis by (simp add: MAX_NAME_LEN_def)
  qed
  then show "temp_name env k (Some n) \<noteq> n" by metis
  show "length (temp_name env k (Some n)) \<le> MAX_NAME_LEN"
    using t h by (auto simp: temp_name_def Let_def MAX_NAME_LEN_def)
qed

lemma gen_temp_path_differs:
  assumes "temp_env_ok env" and "gen_temp_path env m p = (m', t)"
  shows "t \<noteq> p" "now m' = now m" "past m' = past m" "calls m' = calls m"
    "file_name p \<noteq> None \<Longrightarrow> parent t = parent p"
  using assms(2) temp_name_differs(1) [OF assms(1), of "write_counter m"]
  by (cases p; auto simp: gen_temp_path_def split: option.splits)+

definition is_temp :: "path \<Rightarrow> bool" where
  "is_temp p \<longleftrightarrow> (case file_name p of None \<Rightarrow> False | Some n \<Rightarrow> take (length TEMP_PREFIX) n = TEMP_PREFIX)"

lemma temp_name_prefix: "\<exists>r. temp_name env k n = TEMP_PREFIX @ r"
  by (auto simp: temp_name_def Let_def split: option.splits)

lemma gen_temp_path_is_temp: "gen_temp_path env m p = (m', t) \<Longrightarrow> is_temp t"
  using temp_name_prefix [of env "write_counter m" "file_name p"] by (auto simp: gen_temp_path_def is_temp_def)

section \<open>The temp file\<close>

text \<open>A store is well formed when the present entry is one a crash may leave and every inode is allocated.\<close>

definition wf_store :: "store \<Rightarrow> bool" where
  "wf_store s \<longleftrightarrow> (\<forall>p. names s p \<in> names_crash s p \<and> (\<forall>i. Some i \<in> names_crash s p \<longrightarrow> i < next_ino s))"

text \<open>Nothing differs but the entry of one name and files that did not exist.\<close>

definition besides :: "path \<Rightarrow> store \<Rightarrow> store \<Rightarrow> bool" where
  "besides t s0 s \<longleftrightarrow>
     (\<forall>p. p \<noteq> t \<longrightarrow> names s p = names s0 p \<and> names_crash s p = names_crash s0 p) \<and>
     (\<forall>j<next_ino s0. data_of s j = data_of s0 j \<and> synced_data s j = synced_data s0 j) \<and>
     ordered_meta s = ordered_meta s0 \<and> (wf_store s0 \<longrightarrow> wf_store s)"

lemma besides_refl [simp]: "besides t s s"
  by (simp add: besides_def)

lemma wf_store_set_name: "wf_store s \<Longrightarrow> (\<And>i. x = Some i \<Longrightarrow> i < next_ino s) \<Longrightarrow> wf_store (set_name p x s)"
  by (auto simp: wf_store_def set_name_def)

lemma wf_store_cong:
  assumes "wf_store s" and "names s' = names s" and "names_crash s' = names_crash s" and "next_ino s \<le> next_ino s'"
  shows "wf_store s'"
  using assms by (fastforce simp: wf_store_def)

lemma besides_same_but: "besides t s0 s \<Longrightarrow> same_but i s s' \<Longrightarrow> next_ino s0 \<le> i \<Longrightarrow> besides t s0 s'"
  using wf_store_cong [of s s'] by (auto simp: besides_def same_but_def)

text \<open>Creating it: nothing happens before the create that succeeds.\<close>

lemma sys_creat_excl_cases:
  assumes "sys_creat_excl m p = (m', r)"
  shows "(\<exists>e. r = Inl e \<and> now m' = now m \<and> past m' = past m \<and> (calls m = [] \<longrightarrow> calls m' = [])) \<or>
    (r = Inr (next_ino (now m)) \<and> names (now m) p = None \<and> besides p (now m) (now m') \<and>
     names (now m') p = Some (next_ino (now m)) \<and> data_of (now m') (next_ino (now m)) = [] \<and>
     past m' = past m @ [now m'] \<and> (calls m = [] \<longrightarrow> calls m' = []))"
proof -
  obtain m1 c where c: "next_call m = (m1, c)" by fastforce
  let ?n = "next_ino (now m)"
  let ?s = "set_name p (Some ?n) (now m)\<lparr>data_of := (data_of (now m))(?n := []),
    synced_data := (synced_data (now m))(?n := None), flushed_data := (flushed_data (now m))(?n := None), next_ino := Suc ?n\<rparr>"
  have "wf_store ?s" if "wf_store (now m)"
    using that by (auto simp: wf_store_def set_name_def intro: less_SucI)
  then have "besides p (now m) ?s" by (auto simp: besides_def set_name_def)
  moreover have "names ?s p = Some ?n" "data_of ?s ?n = []" by (simp_all add: set_name_def)
  ultimately show ?thesis
    using assms c next_call_keeps [OF c]
    by (auto simp: sys_creat_excl_def Let_def split: option.splits if_splits)
qed

definition created :: "machine \<Rightarrow> path \<Rightarrow> nat \<Rightarrow> machine \<Rightarrow> bool" where
  "created m t i m' \<longleftrightarrow>
     i = next_ino (now m) \<and> names (now m) t = None \<and> besides t (now m) (now m') \<and> names (now m') t = Some i \<and>
     data_of (now m') i = [] \<and> past m' = past m @ [now m'] \<and> (calls m = [] \<longrightarrow> calls m' = [])"

lemma open_write_new_cases:
  assumes "open_write_new m p want = (m', r)"
  shows "(\<exists>e. r = Inl e \<and> now m' = now m \<and> past m' = past m \<and> (calls m = [] \<longrightarrow> calls m' = [])) \<or>
    (\<exists>i ok. r = Inr (i, ok) \<and> created m p i m')"
proof -
  obtain m1 r1 where c1: "sys_creat_excl m p = (m1, r1)" by fastforce
  obtain m2 r2 where c2: "sys_creat_excl m1 p = (m2, r2)" by fastforce
  from sys_creat_excl_cases [OF c1] sys_creat_excl_cases [OF c2] assms c1 c2 show ?thesis
    by (auto simp: open_write_new_def created_def split: sum.splits if_splits)
qed

text \<open>
  Any way to create the temp file, with the inode of what it opened: it fails and changes nothing, or
  the file is there and empty.
\<close>

definition creates :: "(machine \<Rightarrow> path \<Rightarrow> machine \<times> 'a result) \<Rightarrow> ('a \<Rightarrow> nat) \<Rightarrow> bool" where
  "creates op ino \<longleftrightarrow>
     (\<forall>m q m' r. op m q = (m', r) \<longrightarrow>
        (\<exists>e. r = Inl e \<and> now m' = now m \<and> past m' = past m \<and> (calls m = [] \<longrightarrow> calls m' = [])) \<or>
        (\<exists>v. r = Inr v \<and> created m q (ino v) m'))"

lemma open_write_new_creates: "creates (\<lambda>m q. open_write_new m q want) fst"
  using open_write_new_cases unfolding creates_def by (metis fst_conv)

lemma unique_temp_cases:
  assumes "temp_env_ok env" and "unique_temp k env p op m = (m', r)" and "creates op ino"
  shows "(\<exists>e. r = Inl e \<and> now m' = now m \<and> past m' = past m \<and> (calls m = [] \<longrightarrow> calls m' = [])) \<or>
    (\<exists>t v. r = Inr (t, v) \<and> t \<noteq> p \<and> is_temp t \<and> created m t (ino v) m')"
  using assms(2)
proof (induction k arbitrary: m)
  case 0
  obtain m1 t where g: "gen_temp_path env m p = (m1, t)" by fastforce
  obtain m2 r2 where o: "op m1 t = (m2, r2)" by fastforce
  note gt = gen_temp_path_differs [OF assms(1) g] gen_temp_path_is_temp [OF g]
  from assms(3) o consider e where "r2 = Inl e" "now m2 = now m1" "past m2 = past m1" "calls m1 = [] \<longrightarrow> calls m2 = []"
    | v where "r2 = Inr v" "created m1 t (ino v) m2" unfolding creates_def by blast
  then show ?case using 0 g o gt by cases (auto simp: created_def)
next
  case (Suc k)
  obtain m1 t where g: "gen_temp_path env m p = (m1, t)" by fastforce
  obtain m2 r2 where o: "op m1 t = (m2, r2)" by fastforce
  note gt = gen_temp_path_differs [OF assms(1) g] gen_temp_path_is_temp [OF g]
  from assms(3) o consider e where "r2 = Inl e" "now m2 = now m1" "past m2 = past m1" "calls m1 = [] \<longrightarrow> calls m2 = []"
    | v where "r2 = Inr v" "created m1 t (ino v) m2" unfolding creates_def by blast
  then show ?case
  proof cases
    case (1 e)
    with Suc.IH [of m2] Suc.prems g o gt show ?thesis
      by (cases "already_exists e") (auto simp: created_def)
  next
    case (2 v)
    with Suc.prems g o gt show ?thesis by (auto simp: created_def)
  qed
qed

lemma flush_run_fsync: "flush_run f m i = sys_fsync m i"
  by (cases f) (simp_all add: flush_run_def)

fun hook_sector :: "replace_hooks \<Rightarrow> nat" where
  "hook_sector (PlatformHooks ss) = ss"
| "hook_sector (SoloHooks _ _ ss) = ss"
| "hook_sector (WriteCopyHooks _ _ ss _) = ss"

fun hook_nvme :: "replace_hooks \<Rightarrow> bool" where
  "hook_nvme (PlatformHooks _) = False"
| "hook_nvme (SoloHooks _ nvme _) = nvme"
| "hook_nvme (WriteCopyHooks _ nvme _ _) = nvme"

lemma hook_write_effect:
  assumes "hook_write_direct h m i data = (m', r)" and "data_of (now m) i = []"
    and "length data < 2 ^ 62" and "hook_sector h \<le> 2 ^ 62"
  shows "touches i m m' \<and> (r = Inr () \<longrightarrow> held_as (hook_nvme h) m' i data)"
  using assms platform_write_effect [of m i data "hook_sector h" m' r] direct_write_effect [of m i data _ "hook_nvme h" "hook_sector h" m' r]
  by (cases h) (auto simp: hook_write_direct_def intro: durable_held)

lemma write_temp_effect:
  assumes "write_temp h pl m i direct_ok data = (m', r)" and "data_of (now m) i = []"
    and "length data < 2 ^ 62" and "hook_sector h \<le> 2 ^ 62"
  shows "touches i m m' \<and> (r = Inr () \<longrightarrow> held_as (hook_nvme h) m' i data)"
proof -
  define m1 where "m1 = (if plan_direct pl \<and> \<not> direct_ok then direct_refused h m else m)"
  have n: "now m1 = now m" "past m1 = past m" "calls m1 = calls m" by (simp_all add: m1_def direct_refused_def split: replace_hooks.splits)
  have "touches i m1 m' \<and> (r = Inr () \<longrightarrow> held_as (hook_nvme h) m' i data)"
  proof (cases direct_ok)
    case True
    with assms(1) have "hook_write_direct h m1 i data = (m', r)" by (simp add: write_temp_def Let_def m1_def)
    from hook_write_effect [OF this] assms(2-4) n show ?thesis by simp
  next
    case False
    with assms(1) have "and_then (at_step ''write'' (with_file i (\<lambda>d. write_all d data) m1))
        (\<lambda>m2. at_step ''flush'' (sys_fsync m2 i)) = (m', r)"
      by (simp add: write_temp_def Let_def m1_def flush_run_fsync)
    then show ?thesis
    proof (cases rule: and_then_cases)
      case (1 e)
      then obtain r' where "with_file i (\<lambda>d. write_all d data) m1 = (m', r')" by (auto elim!: at_step_cases)
      then have "touches i m1 m'" by (rule with_file_cases)
      with 1 show ?thesis by simp
    next
      case (2 m2)
      then have "with_file i (\<lambda>d. write_all d data) m1 = (m2, Inr ())" by (auto elim!: at_step_cases)
      then obtain d where d: "write_all \<lparr>contents = data_of (now m1) i, script = kernel m1, oom = no_mem m1\<rparr> data = (d, Inr ())"
        "data_of (now m2) i = contents d" "touches i m1 m2" by (rule with_file_cases)
      from write_all_effect [OF d(1)] assms(2) n d(2) have "data_of (now m2) i = data" by simp
      moreover obtain r' where f: "sys_fsync m2 i = (m', r')" "r = Inr () \<longrightarrow> r' = Inr ()"
        using 2(2) by (auto elim!: at_step_cases)
      ultimately show ?thesis
        using sys_fsync_effect [OF f(1)] touches_trans [OF d(3), of m'] by (auto simp: held_as_def)
    qed
  qed
  with n show ?thesis by (simp add: goes_def)
qed

lemma before_rename_effect:
  assumes "before_rename h m t = (m', r)" and "names (now m) t = Some i"
  shows "touches i m m' \<and> (held_as nvme m i data \<longrightarrow> held_as nvme m' i data)"
proof (cases "\<exists>x n y. h = WriteCopyHooks x n y True")
  case False
  with assms(1) have "m' = m"
    by (auto simp: before_rename_def split: replace_hooks.splits bool.splits)
  then show ?thesis by (simp add: goes_same)
next
  case True
  obtain m1 c where c: "next_call m = (m1, c)" by fastforce
  note k = next_call_keeps [OF c]
  obtain m2 r2 where f: "sys_fsync m1 i = (m2, r2)" by fastforce
  have "m' = m1 \<or> m' = m2"
    using True assms c k(1) f
    by (auto simp: before_rename_def sys_open_existing_def at_step_def split: option.splits sum.splits)
  moreover have "touches i m m1" using k by (intro goes_same) simp_all
  moreover have "held_as nvme m i data \<longrightarrow> held_as nvme m1 i data \<and> held_as nvme m2 i data"
    using sys_fsync_held [OF f, of nvme data] k(1) by (auto simp: held_as_def)
  ultimately show ?thesis using touches_trans [OF _ sys_fsync_effect(1) [OF f]] by blast
qed

section \<open>Crashes\<close>

text \<open>
  What a name may hold after a power cut: one of the entries its directory may have kept, with the
  bytes of the last fsync if nothing changed since, and otherwise anything.
\<close>

fun entry_crash :: "store \<Rightarrow> nat option \<Rightarrow> bytes option \<Rightarrow> bool" where
  "entry_crash s None c \<longleftrightarrow> c = None"
| "entry_crash s (Some i) c \<longleftrightarrow> (\<exists>b. c = Some b \<and> (synced_data s i = Some (data_of s i) \<longrightarrow> b = data_of s i))"

definition after_crash :: "store \<Rightarrow> path \<Rightarrow> bytes option \<Rightarrow> bool" where
  "after_crash s p c \<longleftrightarrow> (\<exists>e\<in>names_crash s p. entry_crash s e c)"

lemma entry_crash_same:
  "(\<And>i. e = Some i \<Longrightarrow> data_of s i = data_of s0 i \<and> synced_data s i = synced_data s0 i) \<Longrightarrow>
     entry_crash s e c = entry_crash s0 e c"
  by (cases e) simp_all

lemma besides_crash:
  assumes "besides t s0 s" and "wf_store s0" and "p \<noteq> t"
  shows "after_crash s p = after_crash s0 p"
proof -
  have n: "names_crash s p = names_crash s0 p" using assms(1,3) by (simp add: besides_def)
  have "entry_crash s e c = entry_crash s0 e c" if "e \<in> names_crash s0 p" for e c
    using that assms(1,2) by (intro entry_crash_same) (auto simp: besides_def wf_store_def)
  with n show ?thesis unfolding after_crash_def fun_eq_iff by (auto intro: bex_cong)
qed

text \<open>The target holds what it may have held at the start, or the new data, whole.\<close>

definition old_or_new :: "store \<Rightarrow> path \<Rightarrow> bytes \<Rightarrow> store \<Rightarrow> bool" where
  "old_or_new s0 p data s \<longleftrightarrow> (\<forall>c. after_crash s p c \<longrightarrow> after_crash s0 p c \<or> c = Some data)"

lemma besides_old_or_new: "besides t s0 s \<Longrightarrow> wf_store s0 \<Longrightarrow> p \<noteq> t \<Longrightarrow> old_or_new s0 p data s"
  using besides_crash [of t s0 s p] by (simp add: old_or_new_def)

lemma touches_besides:
  assumes "touches i m m'" and "besides t s0 (now m)" and "next_ino s0 \<le> i"
  shows "besides t s0 (now m')" "\<exists>xs. past m' = past m @ xs \<and> (\<forall>s\<in>set xs. besides t s0 s)"
    "calls m = [] \<longrightarrow> calls m' = []"
  using assms besides_same_but [OF assms(2) _ assms(3)] by (auto simp: goes_def)

lemma remove_file_besides:
  assumes "besides t s0 (now m)"
  shows "besides t s0 (now (drop_guard m t))"
    "\<exists>xs. past (drop_guard m t) = past m @ xs \<and> (\<forall>s\<in>set xs. besides t s0 s)"
    "calls m = [] \<longrightarrow> calls (drop_guard m t) = []"
proof -
  obtain m1 c where c: "next_call m = (m1, c)" by fastforce
  note k = next_call_keeps [OF c]
  have "besides t s0 (set_name t None (now m))"
    using assms wf_store_set_name [of "now m" None t] by (auto simp: besides_def set_name_def)
  then show "besides t s0 (now (drop_guard m t))"
    "\<exists>xs. past (drop_guard m t) = past m @ xs \<and> (\<forall>s\<in>set xs. besides t s0 s)"
    "calls m = [] \<longrightarrow> calls (drop_guard m t) = []"
    using c k assms by (auto simp: drop_guard_def remove_file_def split: option.splits if_splits)
qed

text \<open>
  The rename publishes the data, which are durable if \<open>sf\<close>; the sync of the directory then settles the
  entry.
\<close>

definition published_if :: "bool \<Rightarrow> store \<Rightarrow> path \<Rightarrow> path \<Rightarrow> nat \<Rightarrow> bytes \<Rightarrow> store \<Rightarrow> bool" where
  "published_if sf s0 t p i data s \<longleftrightarrow>
     names s p = Some i \<and> names s t = None \<and> names_crash s p \<subseteq> insert (Some i) (names_crash s0 p) \<and>
     data_of s i = data \<and> (sf \<longrightarrow> synced_data s i = Some data) \<and>
     (\<forall>q. q \<noteq> t \<longrightarrow> q \<noteq> p \<longrightarrow> names s q = names s0 q \<and> names_crash s q \<subseteq> names_crash s0 q) \<and>
     (\<forall>j<next_ino s0. data_of s j = data_of s0 j \<and> synced_data s j = synced_data s0 j) \<and>
     (wf_store s0 \<longrightarrow> wf_store s)"

abbreviation published :: "store \<Rightarrow> path \<Rightarrow> path \<Rightarrow> nat \<Rightarrow> bytes \<Rightarrow> store \<Rightarrow> bool" where
  "published \<equiv> published_if True"

lemma published_old_or_new:
  assumes "published s0 t p i data s" and "wf_store s0"
  shows "old_or_new s0 p data s"
  unfolding old_or_new_def
proof (intro allI impI)
  fix c
  assume "after_crash s p c"
  then obtain e where e: "e \<in> names_crash s p" "entry_crash s e c" by (auto simp: after_crash_def)
  show "after_crash s0 p c \<or> c = Some data"
  proof (cases "e = Some i")
    case True
    with e assms(1) show ?thesis by (auto simp: published_if_def)
  next
    case False
    then have e0: "e \<in> names_crash s0 p" using e(1) assms(1) by (auto simp: published_if_def)
    then have "entry_crash s e c = entry_crash s0 e c"
      using assms by (intro entry_crash_same) (auto simp: published_if_def wf_store_def)
    with e(2) e0 show ?thesis by (auto simp: after_crash_def)
  qed
qed

lemma after_metadata_simps [simp]:
  "names (after_metadata i s) = names s" "names_crash (after_metadata i s) = names_crash s" "data_of (after_metadata i s) = data_of s"
  "next_ino (after_metadata i s) = next_ino s" "ordered_meta (after_metadata i s) = ordered_meta s"
  "j \<noteq> i \<Longrightarrow> synced_data (after_metadata i s) j = synced_data s j"
  by (simp_all add: after_metadata_def)

lemma after_metadata_synced:
  assumes "synced_data s i = Some (data_of s i) \<or> ordered_meta s \<and> flushed_data s i = Some (data_of s i)"
  shows "synced_data (after_metadata i s) i = Some (data_of s i)"
  using assms by (auto simp: after_metadata_def)

lemma rename_published:
  assumes "atomic_rename m t p = (m', r)" and "besides t s0 (now m)" and "names (now m) t = Some i"
    and "held_as nvme m i data" and "t \<noteq> p" and "next_ino s0 \<le> i" and "sf \<longrightarrow> nvme \<longrightarrow> ordered_meta s0"
  shows "(r \<noteq> Inr () \<longrightarrow> now m' = now m \<and> past m' = past m) \<and>
    (r = Inr () \<longrightarrow> published_if sf s0 t p i data (now m') \<and> past m' = past m @ [now m']) \<and>
    (calls m = [] \<longrightarrow> calls m' = [])"
proof -
  obtain m1 c where c: "next_call m = (m1, c)" by fastforce
  note k = next_call_keeps [OF c]
  let ?s = "set_name p (Some i) (set_name t None (now m))"
  have "wf_store (after_metadata i ?s)" if w: "wf_store s0"
  proof -
    have wf: "wf_store (now m)" using w assms(2) by (simp add: besides_def)
    then have "i < next_ino (now m)" using assms(3) by (metis wf_store_def)
    with wf have "wf_store ?s" by (intro wf_store_set_name) (simp_all add: set_name_def)
    then show ?thesis by (simp add: wf_store_def)
  qed
  moreover have "sf \<longrightarrow> synced_data (after_metadata i ?s) i = Some data"
    using assms(2,4,7) after_metadata_synced [of ?s i] by (auto simp: besides_def set_name_def held_as_def)
  moreover have "\<forall>j<next_ino s0. synced_data (after_metadata i ?s) j = synced_data s0 j"
    using assms(2,6) by (auto simp: besides_def set_name_def)
  ultimately have "published_if sf s0 t p i data (after_metadata i ?s)"
    using assms(2,4,5) by (auto simp: set_name_def besides_def held_as_def published_if_def)
  then show ?thesis
    using assms(1,3) c k by (auto simp: atomic_rename_def split: option.splits)
qed

text \<open>Every entry of the directory of a path is settled.\<close>

definition dir_settled :: "path \<Rightarrow> store \<Rightarrow> bool" where
  "dir_settled p s \<longleftrightarrow>
     (\<forall>q. parent_or_current_dir q = parent_or_current_dir p \<longrightarrow> names_crash s q = {names s q})"

lemma settle_published:
  assumes "published_if sf s0 t p i data s" and "wf_store s0" and "P p"
  shows "published_if sf s0 t p i data (s\<lparr>names_crash := \<lambda>q. if P q then {names s q} else names_crash s q\<rparr>)"
proof -
  let ?s = "s\<lparr>names_crash := \<lambda>q. if P q then {names s q} else names_crash s q\<rparr>"
  have "names s0 q \<in> names_crash s0 q" for q using assms(2) by (simp add: wf_store_def)
  moreover have "wf_store s" using assms(1,2) by (simp add: published_if_def)
  then have "wf_store ?s" by (auto simp: wf_store_def) metis
  ultimately show ?thesis using assms(1,3) by (auto simp: published_if_def)
qed

lemma sync_parent_published:
  assumes "sync_parent_dir m p = (m', r)" and "published_if sf s0 t p i data (now m)" and "wf_store s0"
  shows "published_if sf s0 t p i data (now m') \<and> (\<exists>xs. past m' = past m @ xs \<and> (\<forall>s\<in>set xs. published_if sf s0 t p i data s)) \<and>
    (r = Inr () \<longrightarrow> names_crash (now m') p = {Some i}) \<and>
    (calls m = [] \<longrightarrow> calls m' = [] \<and> dir_settled p (now m'))"
proof -
  obtain m1 c1 where c1: "next_call m = (m1, c1)" by fastforce
  obtain m2 c2 where c2: "next_call m1 = (m2, c2)" by fastforce
  have k: "now m2 = now m" "past m2 = past m" "now m1 = now m" "past m1 = past m"
    "calls m = [] \<Longrightarrow> m1 = m \<and> m2 = m \<and> c1 = None \<and> c2 = None"
    using next_call_keeps [OF c1] next_call_keeps [OF c2] by auto
  note settled = settle_published [OF assms(2,3), of "\<lambda>q. parent_or_current_dir q = parent_or_current_dir p"]
  have "names (now m) p = Some i" using assms(2) by (simp add: published_if_def)
  with assms(1,2) settled k show ?thesis
    by (cases c1; cases c2) (auto simp: sync_parent_dir_def c1 c2 dir_settled_def cong del: if_weak_cong)
qed

section \<open>The whole replace\<close>

text \<open>
  How a replace can go: the temp file is never made; or it is made, written, perhaps renamed, and
  removed again; or it is published. \<open>xs\<close> are the stores up to the rename, \<open>ys\<close> those after it.
\<close>

definition replaced_if :: "bool \<Rightarrow> (path \<Rightarrow> bool) \<Rightarrow> bool \<Rightarrow> machine \<Rightarrow> path \<Rightarrow> bytes \<Rightarrow> machine \<Rightarrow> bool \<Rightarrow> bool" where
  "replaced_if sf T sync m p data m' ok \<longleftrightarrow> (\<exists>t i xs ys.
     t \<noteq> p \<and> T t \<and> past m' = past m @ xs @ ys \<and> (\<forall>s\<in>set xs. besides t (now m) s) \<and>
     (\<forall>s\<in>set ys. published_if sf (now m) t p i data s) \<and>
     (names (now m) t = None \<or> now m' = now m \<and> xs = [] \<and> ys = []) \<and>
     (calls m = [] \<longrightarrow> calls m' = []) \<and>
     (if ok then published_if sf (now m) t p i data (now m') \<and> names (now m) t = None \<and>
          (calls m = [] \<and> sync \<longrightarrow> dir_settled p (now m'))
      else ys = [] \<and> besides t (now m) (now m')))"

abbreviation replaced_by :: "(path \<Rightarrow> bool) \<Rightarrow> bool \<Rightarrow> machine \<Rightarrow> path \<Rightarrow> bytes \<Rightarrow> machine \<Rightarrow> bool \<Rightarrow> bool" where
  "replaced_by \<equiv> replaced_if True"

abbreviation replaced :: "bool \<Rightarrow> machine \<Rightarrow> path \<Rightarrow> bytes \<Rightarrow> machine \<Rightarrow> bool \<Rightarrow> bool" where
  "replaced \<equiv> replaced_by is_temp"

lemma replaced_never:
  assumes "q \<noteq> p" and "T q" and "now m' = now m" and "past m' = past m" and "calls m = [] \<longrightarrow> calls m' = []"
  shows "replaced_if sf T sync m p data m' False"
  using assms unfolding replaced_if_def by (intro exI [of _ q] exI [of _ 0] exI [of _ "[]"]) auto

lemma replaced_unborn:
  assumes "temp_env_ok env" and "now m' = now m" and "past m' = past m" and "calls m = [] \<longrightarrow> calls m' = []"
  shows "replaced_if sf is_temp sync m p data m' False"
proof -
  obtain q :: path where "q \<noteq> p" "is_temp q"
    using gen_temp_path_differs(1) [OF assms(1)] gen_temp_path_is_temp by (metis surj_pair)
  from replaced_never [where T = is_temp, OF this assms(2-4)] show ?thesis .
qed

lemma replaced_filled:
  assumes "created m t i m1" and "touches i m1 m3"
  shows "names (now m3) t = Some i" "besides t (now m) (now m3)" "calls m = [] \<longrightarrow> calls m3 = []"
    "\<exists>xs. past m3 = past m @ xs \<and> (\<forall>s\<in>set xs. besides t (now m) s)"
proof -
  have i: "next_ino (now m) \<le> i" "besides t (now m) (now m1)" "past m1 = past m @ [now m1]"
    "names (now m1) t = Some i" "calls m = [] \<longrightarrow> calls m1 = []" using assms(1) by (auto simp: created_def)
  show "names (now m3) t = Some i" using i(4) assms(2) by (simp add: goes_def same_but_def)
  note b = touches_besides [OF assms(2) i(2,1)]
  show "besides t (now m) (now m3)" "calls m = [] \<longrightarrow> calls m3 = []" using b i(5) by auto
  from b(2) obtain xs where "past m3 = past m1 @ xs" "\<forall>s\<in>set xs. besides t (now m) s" by blast
  with i show "\<exists>xs. past m3 = past m @ xs \<and> (\<forall>s\<in>set xs. besides t (now m) s)"
    by (intro exI [of _ "now m1 # xs"]) simp
qed

lemma replaced_dropped:
  assumes "created m t i m1" and "touches i m1 m3" and "t \<noteq> p" and "T t"
    and "now mx = now m3" and "past mx = past m3" and "calls m3 = [] \<longrightarrow> calls mx = []"
  shows "replaced_if sf T sync m p data (drop_guard mx t) False"
proof -
  note f = replaced_filled [OF assms(1,2)]
  have b: "besides t (now m) (now mx)" using f(2) assms(5) by simp
  note rb = remove_file_besides [OF b]
  from f(4) rb(2) obtain xs ys where x: "past m3 = past m @ xs" "\<forall>s\<in>set xs. besides t (now m) s"
    "past (drop_guard mx t) = past mx @ ys" "\<forall>s\<in>set ys. besides t (now m) s" by blast
  have "names (now m) t = None" using assms(1) by (simp add: created_def)
  with x rb(1,3) f(3) assms(3,4,6,7) show ?thesis
    unfolding replaced_if_def by (intro exI [of _ t] exI [of _ i] exI [of _ "xs @ ys"] exI [of _ "[]"]) auto
qed

lemma replaced_rename_failed:
  assumes "created m t i m1" and "touches i m1 m3" and "t \<noteq> p" and "T t" and "held_as nvme m3 i data"
    and "atomic_rename m3 t p = (m4, Inl e)"
  shows "replaced_if sf T sync m p data (drop_guard m4 t) False"
  using rename_published [OF assms(6) replaced_filled(2,1) [OF assms(1,2)] assms(5,3), of False] assms(1)
  by (intro replaced_dropped [where T = T, OF assms(1-4)]) (auto simp: created_def)

lemma replaced_published:
  assumes "created m t i m1" and "touches i m1 m3" and "t \<noteq> p" and "T t" and "held_as nvme m3 i data"
    and "atomic_rename m3 t p = (m4, Inr ())" and "wf_store (now m)" and "sf \<longrightarrow> nvme \<longrightarrow> ordered_meta (now m)"
  shows "replaced_if sf T sync m p data (if sync then fst (sync_parent_dir m4 p) else m4) True"
proof -
  note f = replaced_filled [OF assms(1,2)]
  have pub: "published_if sf (now m) t p i data (now m4)" "past m4 = past m3 @ [now m4]" "calls m = [] \<longrightarrow> calls m4 = []"
    using rename_published [OF assms(6) f(2,1) assms(5,3) _ assms(8)] f(3) assms(1) by (auto simp: created_def)
  obtain m5 r5 where sp: "sync_parent_dir m4 p = (m5, r5)" by fastforce
  from sync_parent_published [OF sp pub(1) assms(7)] obtain zs where
    z: "published_if sf (now m) t p i data (now m5)" "past m5 = past m4 @ zs" "\<forall>s\<in>set zs. published_if sf (now m) t p i data s"
      "calls m4 = [] \<longrightarrow> calls m5 = [] \<and> dir_settled p (now m5)" by blast
  from f(4) obtain xs where x: "past m3 = past m @ xs" "\<forall>s\<in>set xs. besides t (now m) s" by blast
  have "names (now m) t = None" using assms(1) by (simp add: created_def)
  with x z pub assms(3,4) sp show ?thesis
    unfolding replaced_if_def
    by (intro exI [of _ t] exI [of _ i] exI [of _ xs] exI [of _ "now m4 # (if sync then zs else [])"]) auto
qed

lemma atomic_replace_run:
  assumes "atomic_replace env h pl m p data = (m', r)" and "temp_env_ok env" and "wf_store (now m)"
    and "length data < 2 ^ 62" and "hook_sector h \<le> 2 ^ 62" and "sf \<longrightarrow> hook_nvme h \<longrightarrow> ordered_meta (now m)"
  shows "replaced_if sf is_temp (plan_sync_parent pl) m p data m' (r = Inr ())"
proof -
  let ?op = "\<lambda>m q. open_write_new m q (plan_direct pl)"
  obtain m1 r1 where c: "with_unique_temp env p ?op m = (m1, r1)" by fastforce
  from unique_temp_cases [OF assms(2) c [unfolded with_unique_temp_def] open_write_new_creates] show ?thesis
  proof (elim disjE exE conjE)
    fix e assume "r1 = Inl e" "now m1 = now m" "past m1 = past m" "calls m = [] \<longrightarrow> calls m1 = []"
    with assms(1) c replaced_unborn [OF assms(2), of m1 m] show ?thesis by (auto simp: atomic_replace_def)
  next
    fix t v assume r1: "r1 = Inr (t, v)" and ne: "t \<noteq> p" and tm: "is_temp t" and cr: "created m t (fst v) m1"
    obtain i ok where v: "v = (i, ok)" by fastforce
    have cr: "created m t i m1" using cr v by simp
    then have i: "data_of (now m1) i = []" "names (now m1) t = Some i" by (auto simp: created_def)
    let ?w = "and_then (write_temp h pl m1 i ok data) (\<lambda>m2. before_rename h m2 t)"
    obtain m3 r3 where w: "?w = (m3, r3)" by fastforce
    have w3: "touches i m1 m3 \<and> (r3 = Inr () \<longrightarrow> held_as (hook_nvme h) m3 i data)"
    proof (cases rule: and_then_cases [OF w])
      case (1 e)
      with write_temp_effect [OF 1(1) i(1) assms(4,5)] show ?thesis by simp
    next
      case (2 m2)
      note we = write_temp_effect [OF 2(1) i(1) assms(4,5)]
      then have "names (now m2) t = Some i" using i(2) by (simp add: goes_def same_but_def)
      from before_rename_effect [OF 2(2) this, of "hook_nvme h" data] we touches_trans [of i m1 m2 m3] show ?thesis by blast
    qed
    note fill = cr conjunct1 [OF w3] ne tm
    obtain m4 r4 where rn: "atomic_rename m3 t p = (m4, r4)" by fastforce
    show ?thesis
    proof (cases r3)
      case (Inl se)
      then have "m' = drop_guard m3 t" "r \<noteq> Inr ()"
        using assms(1) c r1 v w by (auto simp: atomic_replace_def split: prod.splits)
      with replaced_dropped [where T = is_temp, OF fill, of m3] show ?thesis by simp
    next
      case (Inr u)
      with w3 have d: "held_as (hook_nvme h) m3 i data" by simp
      show ?thesis
        using assms(1) c r1 v w Inr rn replaced_rename_failed [where T = is_temp, OF fill d] replaced_published [where T = is_temp, OF fill d _ assms(3,6)]
        by (cases r4) (auto simp: atomic_replace_def)
    qed
  qed
qed

lemma atomic_replace_error:
  "atomic_replace env h pl m p data = (m', Inl e) \<Longrightarrow> \<exists>s x. e = AtomicReplaceFailed s x"
  by (auto simp: atomic_replace_def step_err_def split: prod.splits sum.splits)

text \<open>Nothing fails on a machine with no fault ahead, for a write through the page cache.\<close>

lemma next_call_no_fault: "calls m = [] \<Longrightarrow> next_call m = (m, None)"
  by (simp add: next_call_def)

lemma write_all_no_fault:
  assumes "script d = []"
  shows "\<exists>d'. write_all d data = (d', Inr ()) \<and> script d' = []"
proof -
  obtain d1 where d1: "sys_pwrite d 0 data = (d1, SysN (length data))" "script d1 = []"
    using assms by (simp add: sys_pwrite_def)
  then have "write_loop None d1 data (length data) = (d1, Inr ())" by (simp add: write_loop.simps)
  with d1 assms show ?thesis
    unfolding write_all_def by (subst write_loop.simps) simp
qed

lemma buffered_temp_no_fault:
  assumes "calls m = []" and "kernel m = []"
  shows "\<exists>m'. write_temp h pl m i False data = (m', Inr ()) \<and> calls m' = []"
proof -
  let ?m = "if plan_direct pl then direct_refused h m else m"
  have k: "calls ?m = []" "kernel ?m = []"
    using assms by (simp_all add: direct_refused_def split: replace_hooks.splits)
  let ?d = "\<lparr>contents = data_of (now ?m) i, script = kernel ?m, oom = no_mem ?m\<rparr>"
  obtain d' where "write_all ?d data = (d', Inr ())" using write_all_no_fault [of ?d data] k(2) by auto
  then obtain m1 where "with_file i (\<lambda>d. write_all d data) ?m = (m1, Inr ())" "calls m1 = []"
    using k(1) by (simp add: with_file_def)
  then show ?thesis
    by (simp add: write_temp_def Let_def at_step_def and_then_def flush_run_fsync sys_fsync_def next_call_no_fault)
qed

lemma unique_temp_no_fault:
  assumes "gen_temp_path env m p = (m0, t)" and "calls m = []" and "names (now m) t = None"
    and "CHR 0x00 \<notin> set (path_text t)"
  shows "\<exists>m' i. with_unique_temp env p (\<lambda>m q. open_write_new m q want) m = (m', Inr (t, i, want)) \<and>
    calls m' = [] \<and> kernel m' = kernel m \<and> no_mem m' = no_mem m \<and> created m t i m' \<and> synced_data (now m') i = None"
proof -
  have m0: "now m0 = now m" "calls m0 = []" "past m0 = past m" "kernel m0 = kernel m" "no_mem m0 = no_mem m"
    using assms(1,2) by (auto simp: gen_temp_path_def)
  have e: "\<exists>m'. sys_creat_excl m0 t = (m', Inr (next_ino (now m))) \<and> calls m' = [] \<and> kernel m' = kernel m \<and>
      no_mem m' = no_mem m \<and> synced_data (now m') (next_ino (now m)) = None"
    using m0 assms(3) by (simp add: sys_creat_excl_def next_call_no_fault Let_def set_name_def)
  then obtain m' where cr: "sys_creat_excl m0 t = (m', Inr (next_ino (now m)))" "calls m' = []" "kernel m' = kernel m"
    "no_mem m' = no_mem m" "synced_data (now m') (next_ino (now m)) = None" by blast
  have "created m t (next_ino (now m)) m'"
    using sys_creat_excl_cases [OF cr(1)] m0 by (auto simp: created_def)
  moreover have "with_unique_temp env p (\<lambda>m q. open_write_new m q want) m = (m', Inr (t, next_ino (now m), want))"
    using cr assms(1,4)
    by (simp add: with_unique_temp_def TEMP_CREATE_ATTEMPTS_def open_write_new_def path_to_cstr_def eval_nat_numeral)
  ultimately show ?thesis using cr by blast
qed

lemma buffered_replace_no_fault:
  assumes "gen_temp_path env m p = (m0, t)" and "calls m = []" and "kernel m = []" and "names (now m) t = None"
    and "CHR 0x00 \<notin> set (path_text t)" and "\<not> plan_direct pl" and "length data < 2 ^ 62" and "hook_sector h \<le> 2 ^ 62"
  shows "\<exists>m'. atomic_replace env h pl m p data = (m', Inr ()) \<and>
    (plan_sync_parent pl \<longrightarrow> names_crash (now m') p = {names (now m') p})"
proof -
  obtain m1 i where u: "with_unique_temp env p (\<lambda>m q. open_write_new m q False) m = (m1, Inr (t, i, False))"
    "calls m1 = []" "kernel m1 = []" "created m t i m1"
    using unique_temp_no_fault [OF assms(1,2,4,5), of False] assms(3) by auto
  obtain m2 where w: "write_temp h pl m1 i False data = (m2, Inr ())" "calls m2 = []"
    using buffered_temp_no_fault [OF u(2,3)] by blast
  have n2: "names (now m2) t = Some i"
    using write_temp_effect [OF w(1) _ assms(7,8)] u(4) by (auto simp: created_def goes_def same_but_def)
  have "\<exists>m3. before_rename h m2 t = (m3, Inr ()) \<and> calls m3 = [] \<and> names (now m3) t = Some i"
    using w(2) n2
    by (auto simp: before_rename_def sys_open_existing_def sys_fsync_def next_call_no_fault at_step_def
        split: replace_hooks.splits bool.splits)
  then obtain m3 where b: "before_rename h m2 t = (m3, Inr ())" "calls m3 = []" "names (now m3) t = Some i" by blast
  obtain m4 where r: "atomic_rename m3 t p = (m4, Inr ())" "calls m4 = []"
    using b by (simp add: atomic_rename_def next_call_no_fault)
  obtain m5 where s: "sync_parent_dir m4 p = (m5, Inr ())" "names_crash (now m5) p = {names (now m5) p}"
    using r(2) by (simp add: sync_parent_dir_def next_call_no_fault)
  have "atomic_replace env h pl m p data = (if plan_sync_parent pl then m5 else m4, Inr ())"
    using u w b r s assms(6) by (simp add: atomic_replace_def and_then_def)
  with s show ?thesis by auto
qed

section \<open>Passthrough on a file system that does not order its metadata\<close>

lemma ring_write_no_fault:
  assumes "script d = []" and "bs \<noteq> []" and "length bs \<le> MAX_SQE_LEN"
  shows "ring_write_at d bs 0 = (d\<lparr>contents := put_at 0 bs (contents d)\<rparr>, Inr (length bs))"
proof -
  let ?d = "d\<lparr>contents := put_at 0 bs (contents d)\<rparr>"
  have a: "advance 0 0 = Inr 0" by (simp add: advance_def checked_add_def)
  have "write_fixed_step d bs 0 (length bs) 0 = (?d, Inr (length bs))"
    using assms(1) by (simp add: write_fixed_step_def slice_def)
  moreover have "transfer_write ?d bs 0 (length bs) = (?d, Inr (length bs))" by (simp add: transfer_write.simps)
  ultimately show ?thesis
    using assms(2,3) a by (simp add: ring_write_at_def transfer_write.simps [of d bs 0 0] Let_def min_absorb1)
qed

text \<open>A run in which no call fails leaves nothing of the new file durable but in the device.\<close>

definition unsynced_run :: "nat \<Rightarrow> machine \<Rightarrow> machine \<Rightarrow> bool" where
  "unsynced_run i m m' \<longleftrightarrow> touches i m m' \<and> calls m' = [] \<and> synced_data (now m') i = synced_data (now m) i"

lemma unsynced_run_trans: "unsynced_run i m m1 \<Longrightarrow> unsynced_run i m1 m2 \<Longrightarrow> unsynced_run i m m2"
  using touches_trans by (auto simp: unsynced_run_def)

lemma unsynced_refl: "calls m = [] \<Longrightarrow> unsynced_run i m m"
  by (simp add: unsynced_run_def goes_same)

lemma flush_unsynced:
  assumes "calls m = []"
  obtains m' where "iouring_fence m i True = (m', Inr ())" "unsynced_run i m m'"
proof -
  obtain m' where f: "nvme_flush_ioctl m i = (m', Inr ())" "calls m' = []"
    using assms by (simp add: nvme_flush_ioctl_def next_call_no_fault)
  with that nvme_flush_effect [OF f(1)] show ?thesis by (simp add: iouring_fence_def unsynced_run_def)
qed

lemma trim_unsynced:
  assumes "calls m = []"
  obtains m' where "trim_to m i data ss = (m', Inr ())" "unsynced_run i m m'"
proof (cases "needs_trim (length data) ss")
  case True
  obtain m' where f: "sys_ftruncate m i (length data) = (m', Inr ())" "calls m' = []"
    using assms by (simp add: sys_ftruncate_def next_call_no_fault)
  with that True sys_ftruncate_effect [OF f(1)] show ?thesis by (simp add: trim_to_def at_step_def unsynced_run_def)
next
  case False
  with that [of m] assms show ?thesis by (simp add: trim_to_def unsynced_refl)
qed

lemma ring_write_unsynced:
  assumes "calls m = []" and "kernel m = []" and "bs \<noteq> []" and "length bs \<le> MAX_SQE_LEN"
  obtains m' where "with_file i (\<lambda>d. ring_write_at d bs 0) m = (m', Inr (length bs))" "unsynced_run i m m'"
proof -
  obtain m' r where w: "with_file i (\<lambda>d. ring_write_at d bs 0) m = (m', r)" by fastforce
  then obtain d where "ring_write_at \<lparr>contents = data_of (now m) i, script = kernel m, oom = no_mem m\<rparr> bs 0 = (d, r)"
    "synced_data (now m') i = synced_data (now m) i" "touches i m m'" "calls m' = calls m" by (rule with_file_cases)
  with that w ring_write_no_fault [OF _ assms(3,4)] assms(1,2) show ?thesis by (auto simp: unsynced_run_def)
qed

lemma passthrough_write_unsynced:
  assumes "calls m = []" and "kernel m = []" and "\<not> no_mem m" and "data \<noteq> []" and "is_power_of_two ss"
    and "padded_len (length data) ss \<le> MAX_SQE_LEN"
  shows "\<exists>m'. direct_write_durable m i data True True ss = (m', Inr ()) \<and> unsynced_run i m m'"
proof -
  let ?n = "padded_len (length data) ss" and ?fuse = "\<not> needs_trim (length data) ss"
  have ss: "0 < ss" using assms(5) by (rule power_of_two_pos)
  have n: "length data \<le> ?n" "?n \<noteq> 0"
    using padded_len_le [OF ss, of "length data"] assms(4) by (simp_all flip: length_greater_0_conv)
  have "ss \<le> ?n" using n(2) by (cases "(length data + ss - 1) div ss") (simp_all add: padded_len_def)
  then have buf: "aligned_buf_new \<lparr>contents = [], script = kernel m, oom = no_mem m\<rparr> ?n ss = Inr (zeros ?n)"
    using assms(3,5,6) n by (simp add: aligned_buf_new_def MAX_SQE_LEN_def)
  note b = padded_block [OF buf]
  have bs: "length (padded data ss) \<le> MAX_SQE_LEN" "padded data ss \<noteq> []"
    using assms(6) length_padded [OF ss, of data] assms(4) by (simp, simp add: padded_def)
  obtain m1 where w: "with_file i (\<lambda>d. ring_write_at d (padded data ss) 0) m = (m1, Inr (length (padded data ss)))" "unsynced_run i m m1"
    using ring_write_unsynced [OF assms(1,2) bs(2,1)] by blast
  have c1: "calls m1 = []" using w(2) by (simp add: unsynced_run_def)
  obtain mf where f: "iouring_fence m1 i True = (mf, Inr ())" "unsynced_run i m1 mf" using flush_unsynced [OF c1] by blast
  define m2 where "m2 = (if ?fuse then mf else m1)"
  have m2: "iouring_write_direct m i data ss True ?fuse = (m2, Inr ?fuse)" "unsynced_run i m m2"
    using w f assms(4) buf b ss unsynced_run_trans [OF w(2) f(2)]
    by (auto simp: iouring_write_direct_def Let_def length_padded fenced_if_def m2_def)
  have c2: "calls m2 = []" using m2(2) by (simp add: unsynced_run_def)
  obtain m3 where t: "trim_to m2 i data ss = (m3, Inr ())" "unsynced_run i m2 m3" using trim_unsynced [OF c2] by blast
  have c3: "calls m3 = []" using t(2) by (simp add: unsynced_run_def)
  obtain m4 where g: "iouring_fence m3 i True = (m4, Inr ())" "unsynced_run i m3 m4" using flush_unsynced [OF c3] by blast
  have "direct_write_durable m i data True True ss = (if ?fuse then m3 else m4, Inr ())"
    using m2(1) t(1) g(1) by (simp add: direct_write_durable_def and_then_def at_step_def)
  with unsynced_run_trans [OF unsynced_run_trans [OF m2(2) t(2)]] unsynced_run_trans [OF m2(2) t(2)] g(2) show ?thesis by auto
qed

text \<open>
  C33: Where the atomic replace has no promise. A Direct write through the ring of a handle with NVMe
  passthrough flushes the device and not the file. On a file system that promises no order between
  the metadata of a file and the entry made for it, and although no call fails and the write reports
  success, there is a moment, after the rename, at which a crash may leave any bytes at the target.
\<close>

theorem passthrough_replace_may_tear:
  assumes "gen_temp_path env m p = (m0, t)" and "calls m = []" and "kernel m = []" and "\<not> no_mem m"
    and "names (now m) t = None" and "CHR 0x00 \<notin> set (path_text t)" and "plan_direct pl" and "\<not> ordered_meta (now m)"
    and "data \<noteq> []" and "is_power_of_two ss" and "padded_len (length data) ss \<le> MAX_SQE_LEN" and "t \<noteq> p"
  shows "\<exists>m'. atomic_replace env (SoloHooks True True ss) pl m p data = (m', Inr ()) \<and>
    (\<exists>s\<in>set (past m'). \<forall>b. after_crash s p (Some b))"
proof -
  obtain m1 i where u: "with_unique_temp env p (\<lambda>m q. open_write_new m q True) m = (m1, Inr (t, i, True))"
    "calls m1 = []" "kernel m1 = []" "\<not> no_mem m1" "created m t i m1" "synced_data (now m1) i = None"
    using unique_temp_no_fault [OF assms(1,2,5,6), of True] assms(3,4) by auto
  obtain m2 where w: "direct_write_durable m1 i data True True ss = (m2, Inr ())" "unsynced_run i m1 m2"
    using passthrough_write_unsynced [OF u(2-4) assms(9-11)] by blast
  have n2: "names (now m2) t = Some i" "\<not> ordered_meta (now m2)" "synced_data (now m2) i = None" "calls m2 = []"
    using w(2) u(5,6) assms(8) by (auto simp: unsynced_run_def goes_def same_but_def created_def besides_def)
  let ?s = "after_metadata i (set_name p (Some i) (set_name t None (now m2)))"
  have r: "atomic_rename m2 t p = (put_store ?s m2, Inr ())"
    using n2 by (simp add: atomic_rename_def next_call_no_fault)
  let ?m5 = "if plan_sync_parent pl then fst (sync_parent_dir (put_store ?s m2) p) else put_store ?s m2"
  have e: "atomic_replace env (SoloHooks True True ss) pl m p data = (?m5, Inr ())"
    using u(1) w(1) r assms(7) by (simp add: atomic_replace_def write_temp_def hook_write_direct_def before_rename_def and_then_def)
  have "?s \<in> set (past ?m5)" using n2(4) by (simp add: sync_parent_dir_def next_call_no_fault)
  moreover have "synced_data ?s i = None" "Some i \<in> names_crash ?s p" using n2 by (simp_all add: after_metadata_def set_name_def)
  then have "after_crash ?s p (Some b)" for b by (auto simp: after_crash_def intro!: bexI [of _ "Some i"])
  ultimately show ?thesis using e by blast
qed

section \<open>What the program sees\<close>

definition file_at :: "store \<Rightarrow> path \<Rightarrow> bytes option" where
  "file_at s p = map_option (data_of s) (names s p)"

lemma besides_file_at:
  assumes "besides t s0 s" and "wf_store s0" and "p \<noteq> t"
  shows "file_at s p = file_at s0 p"
proof -
  have "i < next_ino s0" if "names s0 p = Some i" for i using that assms(2) by (metis wf_store_def)
  with assms(1,3) show ?thesis by (cases "names s0 p") (auto simp: besides_def file_at_def)
qed

lemma published_others:
  assumes "published_if sf s0 t p i data s" and "wf_store s0" and "q \<noteq> t" and "q \<noteq> p"
  shows "file_at s q = file_at s0 q" "after_crash s q c \<Longrightarrow> after_crash s0 q c"
proof -
  have n: "names s q = names s0 q" "names_crash s q \<subseteq> names_crash s0 q" using assms by (auto simp: published_if_def)
  have b: "names s0 q = Some j \<Longrightarrow> j < next_ino s0" "Some j \<in> names_crash s0 q \<Longrightarrow> j < next_ino s0" for j
    using assms(2) by (metis wf_store_def)+
  show "file_at s q = file_at s0 q"
    using n(1) b(1) assms(1) by (cases "names s0 q") (auto simp: file_at_def published_if_def)
  have e: "entry_crash s e c = entry_crash s0 e c" if "e \<in> names_crash s0 q" for e
    using that assms(1) b(2) by (intro entry_crash_same) (auto simp: published_if_def)
  then show "after_crash s q c \<Longrightarrow> after_crash s0 q c" using n(2) by (auto simp: after_crash_def)
qed

text \<open>
  A power cut during a replace: in every store the system goes through, a crash leaves at the target
  what it could have left there before, or exactly the new data, and other files as they were.
\<close>

lemma replaced_crash_atomic:
  assumes "replaced_by T sync m p data m' ok" and "wf_store (now m)"
  shows "\<exists>xs. past m' = past m @ xs \<and> (\<forall>s\<in>set xs.
    (\<forall>c. after_crash s p c \<longrightarrow> after_crash (now m) p c \<or> c = Some data) \<and>
    (\<forall>q c. q \<noteq> p \<longrightarrow> names (now m) q \<noteq> None \<longrightarrow> after_crash s q c \<longrightarrow> after_crash (now m) q c))"
proof -
  from assms(1) obtain t i xs ys where
    t: "t \<noteq> p" "past m' = past m @ xs @ ys" "\<forall>s\<in>set xs. besides t (now m) s"
      "\<forall>s\<in>set ys. published (now m) t p i data s" "names (now m) t = None \<or> xs = [] \<and> ys = []"
    unfolding replaced_if_def by blast
  have "old_or_new (now m) p data s" "names (now m) q \<noteq> None \<Longrightarrow> q \<noteq> p \<Longrightarrow> after_crash s q c \<Longrightarrow> after_crash (now m) q c"
    if s: "s \<in> set (xs @ ys)" for s q c
  proof -
    have n: "names (now m) t = None" using t(5) s by auto
    from s t(3,4) have bp: "besides t (now m) s \<or> published (now m) t p i data s" by auto
    then show "old_or_new (now m) p data s"
      using t(1) assms(2) by (auto dest: besides_old_or_new published_old_or_new)
    show "names (now m) q \<noteq> None \<Longrightarrow> q \<noteq> p \<Longrightarrow> after_crash s q c \<Longrightarrow> after_crash (now m) q c"
      using bp n assms(2) besides_crash [of t "now m" s q] published_others(2) [of True "now m" t p i data s q c]
      by (cases "q = t") auto
  qed
  with t(2) show ?thesis unfolding old_or_new_def by blast
qed

lemma replaced_ok:
  assumes "replaced_if sf T sync m p data m' True"
  shows "\<exists>t i. T t \<and> t \<noteq> p \<and> names (now m) t = None \<and> published_if sf (now m) t p i data (now m') \<and>
    (calls m = [] \<longrightarrow> calls m' = [] \<and> (sync \<longrightarrow> dir_settled p (now m')))"
  using assms unfolding replaced_if_def by auto

lemma replaced_failed:
  assumes "replaced_if sf T sync m p data m' False"
  shows "\<exists>t. T t \<and> t \<noteq> p \<and> (names (now m) t = None \<or> now m' = now m) \<and> besides t (now m) (now m') \<and>
    (calls m = [] \<longrightarrow> calls m' = [])"
  using assms unfolding replaced_if_def by auto

section \<open>A concrete machine\<close>

text \<open>Two settled files in one directory, and no fault ahead.\<close>

definition demo_env :: temp_env where
  "demo_env = \<lparr>pid = 4660, nonce = (\<lambda>_. 7), name_hash = (\<lambda>_. 0)\<rparr>"

definition demo_path :: path where
  "demo_path = Path ''/d'' (Some ''f'')"

definition demo_other :: path where
  "demo_other = Path ''/d'' (Some ''g'')"

definition demo_store :: store where
  "demo_store =
     \<lparr>names = (\<lambda>_. None)(demo_path := Some 0, demo_other := Some 1),
      names_crash = (\<lambda>_. {None})(demo_path := {Some 0}, demo_other := {Some 1}),
      data_of = (\<lambda>_. [9]), synced_data = (\<lambda>_. Some [9]), flushed_data = (\<lambda>_. None),
      ordered_meta = False, next_ino = 2\<rparr>"

definition demo_machine :: machine where
  "demo_machine =
     \<lparr>now = demo_store, past = [], calls = [], kernel = [], no_mem = False, methods = 0, write_counter = 0\<rparr>"

definition demo_plan :: replace_plan where
  "demo_plan = \<lparr>plan_direct = False, plan_flush = FlushFull, plan_sync_parent = True\<rparr>"

definition demo_temp :: path where
  "demo_temp = Path ''/d'' (Some ''.fsys-tmp-1234-0000000000000007.f'')"

lemma demo_facts:
  "temp_env_ok demo_env" "wf_store (now demo_machine)" "calls demo_machine = []" "kernel demo_machine = []"
  "past demo_machine = []" "\<not> plan_direct demo_plan" "plan_sync_parent demo_plan"
  "after_crash (now demo_machine) demo_path c \<longleftrightarrow> c = Some [9]" "file_at (now demo_machine) demo_other = Some [9]"
  "demo_other \<noteq> demo_path" "names (now demo_machine) demo_other \<noteq> None"
  by (auto simp: temp_env_ok_def demo_env_def wf_store_def demo_machine_def demo_store_def demo_plan_def after_crash_def
      demo_path_def demo_other_def file_at_def)

lemma demo_gen_temp: "\<exists>m0. gen_temp_path demo_env demo_machine demo_path = (m0, demo_temp)"
proof -
  have "show_hex 4660 = ''1234''" "show_hex16 7 = ''0000000000000007''" by code_simp+
  then show ?thesis
    by (simp add: gen_temp_path_def demo_path_def demo_machine_def demo_env_def temp_name_def TEMP_PREFIX_def
        MAX_NAME_LEN_def demo_temp_def)
qed

lemma demo_temp_free: "names (now demo_machine) demo_temp = None" "CHR 0x00 \<notin> set (path_text demo_temp)"
  by (simp_all add: demo_machine_def demo_store_def demo_temp_def demo_path_def demo_other_def path_text_def)

lemma demo_replace:
  "\<exists>m'. atomic_replace demo_env (SoloHooks True False 512) demo_plan demo_machine demo_path [1, 2] = (m', Inr ())"
proof -
  obtain m0 where "gen_temp_path demo_env demo_machine demo_path = (m0, demo_temp)" using demo_gen_temp by blast
  from buffered_replace_no_fault [OF this demo_facts(3,4) demo_temp_free demo_facts(6), of "[1, 2]" "SoloHooks True False 512"]
  show ?thesis by auto
qed

text \<open>The same file system under a handle with passthrough: the replaced file may hold any bytes.\<close>

theorem passthrough_replace_may_tear_witness:
  "\<exists>m'. atomic_replace demo_env (SoloHooks True True 512) (demo_plan\<lparr>plan_direct := True\<rparr>) demo_machine demo_path [1, 2] = (m', Inr ()) \<and>
    (\<exists>s\<in>set (past m'). after_crash s demo_path (Some [3]))"
proof -
  obtain m0 where g: "gen_temp_path demo_env demo_machine demo_path = (m0, demo_temp)" using demo_gen_temp by blast
  have "\<not> no_mem demo_machine" "\<not> ordered_meta (now demo_machine)" "plan_direct (demo_plan\<lparr>plan_direct := True\<rparr>)"
    "demo_temp \<noteq> demo_path" by (simp_all add: demo_machine_def demo_store_def demo_temp_def demo_path_def)
  moreover have "is_power_of_two 512" by (auto simp: is_power_of_two_def intro: exI [of _ 9])
  moreover have "padded_len (length ([1, 2] :: bytes)) 512 \<le> MAX_SQE_LEN" by (simp add: padded_len_def MAX_SQE_LEN_def)
  ultimately show ?thesis
    using passthrough_replace_may_tear [OF g demo_facts(3,4) _ demo_temp_free, of "demo_plan\<lparr>plan_direct := True\<rparr>" "[1, 2]" 512] by auto
qed

text \<open>
  A replace through the page cache on a machine with no fault ahead succeeds, for every plan that
  does not ask for Direct IO, and with the directory sync a crash afterwards leaves exactly the new
  data.
\<close>

lemma replace_is_durable:
  assumes "gen_temp_path env m p = (m0, t)" and "calls m = []" and "kernel m = []" and "names (now m) t = None"
    and "CHR 0x00 \<notin> set (path_text t)" and "\<not> plan_direct pl" and "plan_sync_parent pl"
    and "length data < 2 ^ 62" and "hook_sector h \<le> 2 ^ 62" and "temp_env_ok env" and "wf_store (now m)"
    and "hook_nvme h \<longrightarrow> ordered_meta (now m)"
  shows "\<exists>m'. atomic_replace env h pl m p data = (m', Inr ()) \<and> (\<forall>c. after_crash (now m') p c \<longleftrightarrow> c = Some data)"
proof -
  from buffered_replace_no_fault [OF assms(1-6,8,9)] assms(7) obtain m' where
    m': "atomic_replace env h pl m p data = (m', Inr ())" "names_crash (now m') p = {names (now m') p}" by blast
  have "replaced (plan_sync_parent pl) m p data m' True"
    using atomic_replace_run [OF m'(1) assms(10,11,8,9), of True] assms(12) by simp
  from replaced_ok [OF this] obtain i where
    "names (now m') p = Some i" "data_of (now m') i = data" "synced_data (now m') i = Some data"
    by (auto simp: published_if_def)
  with m' show ?thesis by (auto simp: after_crash_def)
qed

end
