(* ===== verification/Fsys_Batch.thy ===== *)
theory Fsys_Batch
  imports Fsys_Replace "HOL-Library.List_Lexorder" "HOL-Library.Char_ord"
begin

text \<open>
  The group lane (\<open>src/pipeline/group.rs\<close>, \<open>src/pipeline/mod.rs\<close>, \<open>src/batch.rs\<close>, the batch calls of
  \<open>src/handle.rs\<close>). A batch is resolved, queued and executed by the dispatcher thread, op by op in
  submission order; the first failure ends it. The store is that of \<open>Fsys_Replace\<close>; the handle's
  path resolution is an argument. A panic inside an op, which the dispatcher catches, is an outcome
  of the executor.
\<close>

section \<open>Operations\<close>

datatype batch_op = OpWrite path bytes | OpDelete path | OpCopy path path

record handle_snapshot =
  snap_method :: meth
  snap_sector :: nat
  snap_direct :: bool

definition snapshot :: "machine \<Rightarrow> nat \<Rightarrow> handle_snapshot" where
  "snapshot m ss = \<lparr>snap_method = active_method (methods m), snap_sector = ss, snap_direct = use_direct (methods m)\<rparr>"

definition execute_write ::
    "temp_env \<Rightarrow> machine \<Rightarrow> path \<Rightarrow> bytes \<Rightarrow> handle_snapshot \<Rightarrow> bool \<Rightarrow> machine \<times> unit result" where
  "execute_write env m p data sn grouped =
     atomic_replace env (PlatformHooks (snap_sector sn))
       \<lparr>plan_direct = snap_direct sn, plan_flush = flush_for_method (snap_method sn), plan_sync_parent = \<not> grouped\<rparr>
       m p data"

definition execute_delete :: "machine \<Rightarrow> path \<Rightarrow> bool \<Rightarrow> machine \<times> unit result" where
  "execute_delete m p grouped =
     (case remove_file m p of
        (m1, Inr _) \<Rightarrow> (if grouped then m1 else fst (sync_parent_dir m1 p), Inr ())
      | (m1, Inl e) \<Rightarrow> if io_kind e = NotFound then (m1, Inr ()) else (m1, Inl (Io e)))"

text \<open>\<open>std::fs::read\<close>.\<close>

definition std_fs_read :: "machine \<Rightarrow> path \<Rightarrow> machine \<times> bytes result" where
  "std_fs_read m p =
     (case sys_open_existing m p of
        (m1, Inl e) \<Rightarrow> (m1, Inl e)
      | (m1, Inr i) \<Rightarrow>
          (case next_call m1 of
             (m2, Some e) \<Rightarrow> (m2, Inl (Io e))
           | (m2, None) \<Rightarrow> (m2, Inr (data_of (now m2) i))))"

definition execute_copy ::
    "temp_env \<Rightarrow> machine \<Rightarrow> path \<Rightarrow> path \<Rightarrow> handle_snapshot \<Rightarrow> bool \<Rightarrow> machine \<times> unit result" where
  "execute_copy env m src dst sn grouped =
     (case std_fs_read m src of
        (m1, Inl e) \<Rightarrow> (m1, Inl e)
      | (m1, Inr data) \<Rightarrow> execute_write env m1 dst data sn grouped)"

definition execute_op ::
    "temp_env \<Rightarrow> machine \<Rightarrow> batch_op \<Rightarrow> handle_snapshot \<Rightarrow> bool \<Rightarrow> machine \<times> unit result" where
  "execute_op env m op sn grouped =
     (case op of
        OpWrite p data \<Rightarrow> execute_write env m p data sn grouped
      | OpDelete p \<Rightarrow> execute_delete m p grouped
      | OpCopy src dst \<Rightarrow> execute_copy env m src dst sn grouped)"

section \<open>One job\<close>

record batch_job =
  job_ops :: "batch_op list"
  job_snapshot :: handle_snapshot
  job_grouped :: bool

datatype op_outcome = Returned "unit result" | Panicked

type_synonym executor = "machine \<Rightarrow> batch_op \<Rightarrow> handle_snapshot \<Rightarrow> bool \<Rightarrow> machine \<times> op_outcome"

definition op_target :: "batch_op \<Rightarrow> path" where
  "op_target op = (case op of OpWrite p _ \<Rightarrow> p | OpDelete p \<Rightarrow> p | OpCopy _ d \<Rightarrow> d)"

text \<open>A path without a file name is the root, which has no parent.\<close>

definition parent_repr :: "batch_op \<Rightarrow> (string \<times> path) option" where
  "parent_repr op =
     (let p = op_target op in if file_name p = None then None else Some (parent p, p))"

text \<open>The ordered map of directories: paths compare component by component, the first entry stays.\<close>

fun components_from :: "string \<Rightarrow> string \<Rightarrow> string list" where
  "components_from acc [] = [rev acc]"
| "components_from acc (c # cs) =
     (if c = CHR ''/'' then rev acc # components_from [] cs else components_from (c # acc) cs)"

definition dir_less :: "string \<Rightarrow> string \<Rightarrow> bool" where
  "dir_less a b \<longleftrightarrow> components_from [] a < components_from [] b"

fun entry_or_insert :: "string \<Rightarrow> path \<Rightarrow> (string \<times> path) list \<Rightarrow> (string \<times> path) list" where
  "entry_or_insert d p [] = [(d, p)]"
| "entry_or_insert d p ((d', p') # r) =
     (if d = d' then (d', p') # r
      else if dir_less d d' then (d, p) # (d', p') # r
      else (d', p') # entry_or_insert d p r)"

definition note_parent :: "bool \<Rightarrow> batch_op \<Rightarrow> (string \<times> path) list \<Rightarrow> (string \<times> path) list" where
  "note_parent grouped op gp =
     (if grouped then (case parent_repr op of None \<Rightarrow> gp | Some (d, p) \<Rightarrow> entry_or_insert d p gp) else gp)"

fun run_ops ::
    "executor \<Rightarrow> handle_snapshot \<Rightarrow> bool \<Rightarrow> nat \<Rightarrow> nat \<Rightarrow> (string \<times> path) list \<Rightarrow> machine \<Rightarrow> batch_op list \<Rightarrow>
       machine \<times> nat \<times> (nat \<times> error) option \<times> (string \<times> path) list" where
  "run_ops ex sn grouped idx ok gp m [] = (m, ok, None, gp)"
| "run_ops ex sn grouped idx ok gp m (op # ops) =
     (case ex m op sn grouped of
        (m1, Returned (Inr _)) \<Rightarrow> run_ops ex sn grouped (Suc idx) (Suc ok) (note_parent grouped op gp) m1 ops
      | (m1, Returned (Inl e)) \<Rightarrow> (m1, ok, Some (idx, e), gp)
      | (m1, Panicked) \<Rightarrow> (m1, ok, Some (idx, other_error ''batch op panicked''), gp))"

fun sync_parents :: "machine \<Rightarrow> (string \<times> path) list \<Rightarrow> machine" where
  "sync_parents m [] = m"
| "sync_parents m ((d, p) # r) = sync_parents (fst (sync_parent_dir m p)) r"

definition process_job :: "executor \<Rightarrow> machine \<Rightarrow> batch_job \<Rightarrow> machine \<times> (batch_error + unit)" where
  "process_job ex m job =
     (case run_ops ex (job_snapshot job) (job_grouped job) 0 0 [] m (job_ops job) of
        (m1, ok, failure, gp) \<Rightarrow>
          (if job_grouped job then sync_parents m1 gp else m1,
           case failure of
             None \<Rightarrow> Inr ()
           | Some (i, e) \<Rightarrow> Inl \<lparr>failed_at = i, completed = ok, batch_source = e\<rparr>))"

text \<open>The response of each job, in order.\<close>

fun process_jobs_with :: "executor \<Rightarrow> machine \<Rightarrow> batch_job list \<Rightarrow> machine \<times> (batch_error + unit) list" where
  "process_jobs_with ex m [] = (m, [])"
| "process_jobs_with ex m (job # jobs) =
     (case process_job ex m job of (m1, r) \<Rightarrow>
        (case process_jobs_with ex m1 jobs of (m2, rs) \<Rightarrow> (m2, r # rs)))"

definition production_executor :: "temp_env \<Rightarrow> executor" where
  "production_executor env m op sn grouped =
     (case execute_op env m op sn grouped of (m1, r) \<Rightarrow> (m1, Returned r))"

definition process_jobs :: "temp_env \<Rightarrow> machine \<Rightarrow> batch_job list \<Rightarrow> machine \<times> (batch_error + unit) list" where
  "process_jobs env = process_jobs_with (production_executor env)"

section \<open>Submitting\<close>

definition pre_submit_err :: "nat \<Rightarrow> error \<Rightarrow> batch_error" where
  "pre_submit_err i e = \<lparr>failed_at = i, completed = 0, batch_source = e\<rparr>"

definition shutdown_err :: batch_error where
  "shutdown_err = \<lparr>failed_at = 0, completed = 0, batch_source = ShutdownInProgress\<rparr>"

definition resolve_op :: "(path \<Rightarrow> path result) \<Rightarrow> batch_op \<Rightarrow> batch_op result" where
  "resolve_op res op =
     (case op of
        OpWrite p data \<Rightarrow> (case res p of Inl e \<Rightarrow> Inl e | Inr q \<Rightarrow> Inr (OpWrite q data))
      | OpDelete p \<Rightarrow> (case res p of Inl e \<Rightarrow> Inl e | Inr q \<Rightarrow> Inr (OpDelete q))
      | OpCopy src dst \<Rightarrow>
          (case res src of
             Inl e \<Rightarrow> Inl e
           | Inr s \<Rightarrow> (case res dst of Inl e \<Rightarrow> Inl e | Inr d \<Rightarrow> Inr (OpCopy s d))))"

fun resolve_from :: "(path \<Rightarrow> path result) \<Rightarrow> nat \<Rightarrow> batch_op list \<Rightarrow> batch_error + batch_op list" where
  "resolve_from res i [] = Inr []"
| "resolve_from res i (op # ops) =
     (case resolve_op res op of
        Inl e \<Rightarrow> Inl (pre_submit_err i e)
      | Inr op' \<Rightarrow>
          (case resolve_from res (Suc i) ops of Inl e \<Rightarrow> Inl e | Inr r \<Rightarrow> Inr (op' # r)))"

definition resolve_ops :: "(path \<Rightarrow> path result) \<Rightarrow> batch_op list \<Rightarrow> batch_error + batch_op list" where
  "resolve_ops res = resolve_from res 0"

text \<open>The convenience calls and the builder's commit: the job they hand to the pipeline.\<close>

definition submit_batch :: "machine \<Rightarrow> nat \<Rightarrow> batch_op list \<Rightarrow> batch_job" where
  "submit_batch m ss ops = \<lparr>job_ops = ops, job_snapshot = snapshot m ss, job_grouped = False\<rparr>"

definition submit_batch_grouped :: "machine \<Rightarrow> nat \<Rightarrow> batch_op list \<Rightarrow> batch_job" where
  "submit_batch_grouped m ss ops = \<lparr>job_ops = ops, job_snapshot = snapshot m ss, job_grouped = True\<rparr>"

definition commit :: "(path \<Rightarrow> path result) \<Rightarrow> machine \<Rightarrow> nat \<Rightarrow> batch_op list \<Rightarrow> batch_error + batch_job" where
  "commit res m ss ops =
     (case resolve_ops res ops of Inl e \<Rightarrow> Inl e | Inr r \<Rightarrow> Inr (submit_batch m ss r))"

definition commit_grouped :: "(path \<Rightarrow> path result) \<Rightarrow> machine \<Rightarrow> nat \<Rightarrow> batch_op list \<Rightarrow> batch_error + batch_job" where
  "commit_grouped res m ss ops =
     (case resolve_ops res ops of Inl e \<Rightarrow> Inl e | Inr r \<Rightarrow> Inr (submit_batch_grouped m ss r))"

definition write_batch :: "(path \<Rightarrow> path result) \<Rightarrow> machine \<Rightarrow> nat \<Rightarrow> (path \<times> bytes) list \<Rightarrow> batch_error + batch_job" where
  "write_batch res m ss batch = commit res m ss (map (\<lambda>(p, d). OpWrite p d) batch)"

definition delete_batch :: "(path \<Rightarrow> path result) \<Rightarrow> machine \<Rightarrow> nat \<Rightarrow> path list \<Rightarrow> batch_error + batch_job" where
  "delete_batch res m ss batch = commit res m ss (map OpDelete batch)"

definition copy_batch :: "(path \<Rightarrow> path result) \<Rightarrow> machine \<Rightarrow> nat \<Rightarrow> (path \<times> path) list \<Rightarrow> batch_error + batch_job" where
  "copy_batch res m ss batch = commit res m ss (map (\<lambda>(s, d). OpCopy s d) batch)"

text \<open>The standard library's hash of a path is an argument.\<close>

definition pick_shard :: "(path \<Rightarrow> nat) \<Rightarrow> batch_op list \<Rightarrow> nat \<Rightarrow> nat" where
  "pick_shard hash ops n =
     (if n \<le> 1 then 0
      else case ops of
          [] \<Rightarrow> 0
        | op # _ \<Rightarrow> hash (case op of OpWrite p _ \<Rightarrow> p | OpDelete p \<Rightarrow> p | OpCopy src _ \<Rightarrow> src) mod n)"

text \<open>The shard always exists, so a submit never misses its dispatcher for want of one.\<close>

lemma pick_shard_in_fleet: "pick_shard hash ops n < max n 1"
  by (auto simp: pick_shard_def split: list.splits)

section \<open>The dispatcher\<close>

record pipeline_config =
  batch_size_max :: nat
  batch_queue_max :: nat

text \<open>The jobs already queued that a round takes, and those it leaves.\<close>

fun scoop :: "nat \<Rightarrow> nat \<Rightarrow> batch_job list \<Rightarrow> batch_job list \<times> batch_job list" where
  "scoop mx n [] = ([], [])"
| "scoop mx n (j # q) =
     (if n < mx then
        (case scoop mx (min (n + length (job_ops j)) (2 ^ 64 - 1)) q of (a, b) \<Rightarrow> (j # a, b))
      else ([], j # q))"

text \<open>
  The queue, the jobs of the current round, the answers with the store before and after each job,
  whether shutdown was signalled (the pipeline is being dropped, so nobody submits any more), and
  whether the thread has drained and ended.
\<close>

record dispatcher =
  fs :: machine
  queue :: "batch_job list"
  round :: "batch_job list"
  answers :: "(batch_job \<times> machine \<times> machine \<times> (batch_error + unit)) list"
  submitted :: "batch_job list"
  closing :: bool
  draining :: bool
  ended :: bool

definition dispatcher_init :: "machine \<Rightarrow> dispatcher" where
  "dispatcher_init m =
     \<lparr>fs = m, queue = [], round = [], answers = [], submitted = [], closing = False, draining = False, ended = False\<rparr>"

text \<open>
  A producer queues a job when there is room; the dispatcher waits for a first job, takes what else
  is there, answers the jobs of the round one by one, and on the shutdown signal takes everything
  that is left. Between jobs other threads may change the files.
\<close>

inductive dispatch_step :: "executor \<Rightarrow> pipeline_config \<Rightarrow> dispatcher \<Rightarrow> dispatcher \<Rightarrow> bool" for ex cfg where
  send: "\<not> closing st \<Longrightarrow> length (queue st) < batch_queue_max cfg \<Longrightarrow>
    dispatch_step ex cfg st (st\<lparr>queue := queue st @ [j], submitted := submitted st @ [j]\<rparr>)"
| take_round: "round st = [] \<Longrightarrow> \<not> draining st \<Longrightarrow> queue st = j # q \<Longrightarrow>
    scoop (batch_size_max cfg) (length (job_ops j)) q = (a, b) \<Longrightarrow>
    dispatch_step ex cfg st (st\<lparr>round := j # a, queue := b\<rparr>)"
| answer: "round st = j # r \<Longrightarrow> process_job ex (fs st) j = (m, res) \<Longrightarrow>
    dispatch_step ex cfg st (st\<lparr>fs := m, round := r, answers := answers st @ [(j, fs st, m, res)]\<rparr>)"
| signal: "dispatch_step ex cfg st (st\<lparr>closing := True\<rparr>)"
| drain: "closing st \<Longrightarrow> \<not> draining st \<Longrightarrow> round st = [] \<Longrightarrow>
    dispatch_step ex cfg st (st\<lparr>round := queue st, queue := [], draining := True\<rparr>)"
| finish: "draining st \<Longrightarrow> round st = [] \<Longrightarrow> dispatch_step ex cfg st (st\<lparr>ended := True\<rparr>)"
| other: "dispatch_step ex cfg st (st\<lparr>fs := m\<rparr>)"

inductive_cases dispatch_step_cases: "dispatch_step ex cfg st st'"

lemma scoop_split: "scoop mx n q = (a, b) \<Longrightarrow> a @ b = q"
  by (induction mx n q arbitrary: a b rule: scoop.induct) (auto split: if_splits prod.splits)

definition dispatcher_inv :: "executor \<Rightarrow> dispatcher \<Rightarrow> bool" where
  "dispatcher_inv ex st \<longleftrightarrow>
     map fst (answers st) @ round st @ queue st = submitted st \<and>
     (\<forall>(j, m, m', r) \<in> set (answers st). process_job ex m j = (m', r)) \<and>
     (draining st \<longrightarrow> closing st \<and> queue st = []) \<and> (ended st \<longrightarrow> draining st \<and> round st = [])"

lemma dispatcher_inv_step:
  assumes "dispatch_step ex cfg st st'" and "dispatcher_inv ex st"
  shows "dispatcher_inv ex st'"
  using assms
proof (cases rule: dispatch_step.cases)
  case (take_round j q a b)
  then show ?thesis using assms(2) scoop_split [OF take_round(5)] by (auto simp: dispatcher_inv_def)
qed (auto simp: dispatcher_inv_def)

lemma dispatcher_inv_reach:
  assumes "(dispatch_step ex cfg)\<^sup>*\<^sup>* (dispatcher_init m) st"
  shows "dispatcher_inv ex st"
  using assms
proof (induction rule: rtranclp_induct)
  case base
  show ?case by (simp add: dispatcher_inv_def dispatcher_init_def)
next
  case (step st st')
  then show ?case using dispatcher_inv_step by blast
qed

section \<open>What an operation does to the files\<close>

text \<open>The specification: operations on a map from paths to contents.\<close>

definition apply_op :: "batch_op \<Rightarrow> (path \<Rightarrow> bytes option) \<Rightarrow> path \<Rightarrow> bytes option" where
  "apply_op op f =
     (case op of OpWrite p data \<Rightarrow> f(p := Some data) | OpDelete p \<Rightarrow> f(p := None) | OpCopy src dst \<Rightarrow> f(dst := f src))"

definition data_safe :: "store \<Rightarrow> path \<Rightarrow> bool" where
  "data_safe s q \<longleftrightarrow> (\<forall>i. names s q = Some i \<longrightarrow> synced_data s i = Some (data_of s i))"

definition settled :: "store \<Rightarrow> path \<Rightarrow> bool" where
  "settled s q \<longleftrightarrow> names_crash s q = {names s q}"

definition same_at :: "store \<Rightarrow> store \<Rightarrow> path \<Rightarrow> bool" where
  "same_at s0 s q \<longleftrightarrow>
     file_at s q = file_at s0 q \<and> (settled s0 q \<longrightarrow> settled s q) \<and> (data_safe s0 q \<longrightarrow> data_safe s q)"

lemma same_at_refl [simp]: "same_at s s q"
  by (simp add: same_at_def)


lemma same_atI:
  assumes "names s q = names s0 q" and "names_crash s q \<subseteq> names_crash s0 q" and "wf_store s"
    and "\<And>i. names s0 q = Some i \<Longrightarrow> data_of s i = data_of s0 i \<and> synced_data s i = synced_data s0 i"
  shows "same_at s0 s q"
proof -
  have "names s q \<in> names_crash s q" using assms(3) by (simp add: wf_store_def)
  then have "settled s0 q \<longrightarrow> settled s q" using assms(1,2) by (auto simp: settled_def)
  moreover have "file_at s q = file_at s0 q" using assms(1,4) by (cases "names s0 q") (auto simp: file_at_def)
  ultimately show ?thesis using assms(1,4) by (auto simp: same_at_def data_safe_def)
qed

lemma wf_store_named: "wf_store s \<Longrightarrow> names s q = Some i \<Longrightarrow> i < next_ino s"
  by (metis wf_store_def)

lemma besides_same_at: "besides t s0 s \<Longrightarrow> wf_store s0 \<Longrightarrow> q \<noteq> t \<Longrightarrow> same_at s0 s q"
  using wf_store_named [of s0 q] by (intro same_atI) (auto simp: besides_def)

lemma published_same_at: "published s0 t p i data s \<Longrightarrow> wf_store s0 \<Longrightarrow> q \<noteq> t \<Longrightarrow> q \<noteq> p \<Longrightarrow> same_at s0 s q"
  using wf_store_named [of s0 q] by (intro same_atI) (auto simp: published_if_def)

fun is_delete :: "batch_op \<Rightarrow> bool" where
  "is_delete (OpDelete _) = True"
| "is_delete _ = False"

text \<open>
  What a batch op may do: on failure nothing a program sees changes; on success only its target does,
  which is safe, and settled unless the directory sync is left for later or, the file to delete being
  absent already, there is none.
\<close>

definition op_effect :: "batch_op \<Rightarrow> bool \<Rightarrow> machine \<Rightarrow> machine \<Rightarrow> unit result \<Rightarrow> bool" where
  "op_effect op grouped m m' r \<longleftrightarrow>
     wf_store (now m') \<and> (calls m = [] \<longrightarrow> calls m' = []) \<and>
     (\<forall>q. \<not> is_temp q \<longrightarrow> (r = Inr () \<longrightarrow> q \<noteq> op_target op) \<longrightarrow> same_at (now m) (now m') q) \<and>
     (r = Inr () \<longrightarrow>
        file_at (now m') (op_target op) = apply_op op (file_at (now m)) (op_target op) \<and>
        data_safe (now m') (op_target op) \<and>
        (calls m = [] \<and> \<not> grouped \<and> (settled (now m) (op_target op) \<or> \<not> is_delete op) \<longrightarrow> settled (now m') (op_target op)))"

lemma replaced_effect:
  assumes "replaced (\<not> grouped) m p data m' (r = Inr ())" and "wf_store (now m)" and "\<not> is_temp p"
  shows "op_effect (OpWrite p data) grouped m m' r"
proof (cases "r = Inr ()")
  case False
  with assms(1) obtain t where b: "is_temp t" "besides t (now m) (now m')" "calls m = [] \<longrightarrow> calls m' = []"
    using replaced_failed by force
  then have "same_at (now m) (now m') q" if "\<not> is_temp q" for q
    using that assms(2) by (intro besides_same_at [of t]) auto
  moreover have "wf_store (now m')" using b assms(2) by (simp add: besides_def)
  ultimately show ?thesis using False b(3) by (simp add: op_effect_def)
next
  case True
  with assms(1) obtain t i where b: "is_temp t" "published (now m) t p i data (now m')"
    "calls m = [] \<longrightarrow> calls m' = [] \<and> (\<not> grouped \<longrightarrow> dir_settled p (now m'))"
    using replaced_ok by force
  then have "same_at (now m) (now m') q" if "\<not> is_temp q" "q \<noteq> p" for q
    using that assms(2) by (intro published_same_at [of _ t p i data]) auto
  moreover have "wf_store (now m')" using b assms(2) by (simp add: published_if_def)
  moreover have "file_at (now m') p = Some data" "data_safe (now m') p" "calls m = [] \<and> \<not> grouped \<longrightarrow> settled (now m') p"
    using b by (auto simp: published_if_def file_at_def data_safe_def dir_settled_def settled_def)
  ultimately show ?thesis using True b(3) by (simp add: op_effect_def op_target_def apply_op_def)
qed

lemma execute_write_effect:
  assumes "execute_write env m p data sn grouped = (m', r)" and "temp_env_ok env" and "wf_store (now m)"
    and "length data < 2 ^ 62" and "snap_sector sn \<le> 2 ^ 62" and "\<not> is_temp p"
  shows "op_effect (OpWrite p data) grouped m m' r"
proof -
  have "hook_sector (PlatformHooks (snap_sector sn)) \<le> 2 ^ 62" using assms(5) by simp
  from atomic_replace_run [OF assms(1) [unfolded execute_write_def] assms(2-4) this, of True] assms(3,6)
  show ?thesis by (intro replaced_effect) simp_all
qed

lemma sync_parent_dir_effect:
  assumes "sync_parent_dir m p = (m', r)" and "wf_store (now m)"
  shows "wf_store (now m') \<and> (\<forall>q. same_at (now m) (now m') q) \<and>
    (calls m = [] \<longrightarrow> calls m' = [] \<and> dir_settled p (now m'))"
proof -
  obtain m1 c1 where c1: "next_call m = (m1, c1)" by fastforce
  obtain m2 c2 where c2: "next_call m1 = (m2, c2)" by fastforce
  have k: "now m2 = now m" "now m1 = now m"
    "calls m = [] \<Longrightarrow> m1 = m \<and> m2 = m \<and> c1 = None \<and> c2 = None"
    using next_call_keeps [OF c1] next_call_keeps [OF c2] by auto
  let ?s = "(now m)\<lparr>names_crash := \<lambda>q. if parent_or_current_dir q = parent_or_current_dir p then {names (now m) q}
    else names_crash (now m) q\<rparr>"
  have wf: "wf_store ?s" using assms(2) wf_store_named [OF assms(2)] by (auto simp: wf_store_def)
  have "same_at (now m) ?s q" for q
    using assms(2) wf by (intro same_atI) (auto simp: wf_store_def)
  with assms wf k show ?thesis
    by (cases c1; cases c2) (auto simp: sync_parent_dir_def c1 c2 dir_settled_def cong del: if_weak_cong)
qed

lemma set_name_same_at: "q \<noteq> p \<Longrightarrow> same_at s (set_name p x s) q"
  by (simp add: same_at_def file_at_def set_name_def settled_def data_safe_def)

lemma remove_file_effect:
  assumes "remove_file m p = (m', r)" and "wf_store (now m)"
  shows "wf_store (now m') \<and> (calls m = [] \<longrightarrow> calls m' = []) \<and>
    (\<forall>e. r = Inl e \<longrightarrow> now m' = now m \<and> (io_kind e = NotFound \<longrightarrow> names (now m) p = None)) \<and>
    (r = Inr () \<longrightarrow> now m' = set_name p None (now m))"
proof -
  obtain m1 c where c: "next_call m = (m1, c)" by fastforce
  with next_call_keeps [OF c] assms wf_store_set_name [OF assms(2), of None p] show ?thesis
    by (auto simp: remove_file_def split: option.splits if_splits)
qed

lemma execute_delete_effect:
  assumes "execute_delete m p grouped = (m', r)" and "wf_store (now m)"
  shows "op_effect (OpDelete p) grouped m m' r"
proof -
  obtain m1 r1 where rm: "remove_file m p = (m1, r1)" by fastforce
  note re = remove_file_effect [OF rm assms(2)]
  obtain m2 r2 where sp: "sync_parent_dir m1 p = (m2, r2)" by fastforce
  note se = sync_parent_dir_effect [OF sp]
  show ?thesis
  proof (cases r1)
    case (Inl e)
    with assms(1) rm re have m': "now m' = now m" "calls m = [] \<longrightarrow> calls m' = []" "r = Inr () \<Longrightarrow> io_kind e = NotFound"
      by (auto simp: execute_delete_def split: if_splits)
    with re Inl have "r = Inr () \<Longrightarrow> names (now m) p = None" by simp
    with m' assms(2) show ?thesis
      by (auto simp: op_effect_def op_target_def apply_op_def file_at_def data_safe_def)
  next
    case (Inr u)
    let ?s = "set_name p None (now m)"
    have s: "now m1 = ?s" "wf_store ?s" "calls m = [] \<longrightarrow> calls m1 = []" using re Inr by auto
    have p: "file_at ?s p = None" "names ?s p = None" by (simp_all add: file_at_def set_name_def)
    have m': "m' = (if grouped then m1 else m2)" "r = Inr ()"
      using assms(1) rm sp Inr by (auto simp: execute_delete_def)
    show ?thesis
    proof (cases grouped)
      case True
      with m' s p show ?thesis
        by (auto simp: op_effect_def op_target_def apply_op_def data_safe_def intro: set_name_same_at)
    next
      case False
      have se: "wf_store (now m2)" "same_at ?s (now m2) q" "calls m = [] \<longrightarrow> calls m2 = [] \<and> dir_settled p (now m2)" for q
        using se s by auto
      have "same_at (now m) (now m2) q" if "q \<noteq> p" for q
        using se(2) [of q] set_name_same_at [OF that, of "now m" None] by (simp add: same_at_def)
      moreover have "file_at (now m2) p = None" using se(2) [of p] p by (simp add: same_at_def)
      then have "file_at (now m2) p = None" "data_safe (now m2) p" by (auto simp: file_at_def data_safe_def)
      ultimately show ?thesis
        using m' False se(1,3) by (auto simp: op_effect_def op_target_def apply_op_def dir_settled_def settled_def)
    qed
  qed
qed

lemma std_fs_read_effect:
  assumes "std_fs_read m p = (m', r)"
  shows "now m' = now m" "calls m = [] \<longrightarrow> calls m' = []" "\<And>data. r = Inr data \<Longrightarrow> file_at (now m) p = Some data"
proof -
  obtain m1 c1 where c1: "next_call m = (m1, c1)" by fastforce
  obtain m2 c2 where c2: "next_call m1 = (m2, c2)" by fastforce
  note k = next_call_keeps [OF c1] next_call_keeps [OF c2]
  show "now m' = now m" "calls m = [] \<longrightarrow> calls m' = []" "\<And>data. r = Inr data \<Longrightarrow> file_at (now m) p = Some data"
    using assms c1 c2 k
    by (auto simp: std_fs_read_def sys_open_existing_def file_at_def split: option.splits)
qed

text \<open>
  Paths a caller may use: not the crate's temp names, and naming a file. Contents have to be small
  enough for the sector padding not to wrap.
\<close>

definition op_ok :: "batch_op \<Rightarrow> bool" where
  "op_ok op \<longleftrightarrow>
     \<not> is_temp (op_target op) \<and> file_name (op_target op) \<noteq> None \<and>
     (case op of OpWrite _ data \<Rightarrow> length data < 2 ^ 62 | OpDelete _ \<Rightarrow> True | OpCopy src _ \<Rightarrow> \<not> is_temp src)"

definition small_files :: "(path \<Rightarrow> bytes option) \<Rightarrow> bool" where
  "small_files f \<longleftrightarrow> (\<forall>q data. \<not> is_temp q \<longrightarrow> f q = Some data \<longrightarrow> length data < 2 ^ 62)"

lemma small_files_apply: "small_files f \<Longrightarrow> op_ok op \<Longrightarrow> small_files (apply_op op f)"
  by (auto simp: small_files_def op_ok_def apply_op_def split: batch_op.splits)

lemma execute_op_effect:
  assumes "execute_op env m op sn grouped = (m', r)" and "temp_env_ok env" and "wf_store (now m)"
    and "snap_sector sn \<le> 2 ^ 62" and "op_ok op" and "small_files (file_at (now m))"
  shows "op_effect op grouped m m' r"
proof (cases op)
  case (OpWrite p data)
  with assms have "execute_write env m p data sn grouped = (m', r)" "length data < 2 ^ 62" "\<not> is_temp p"
    by (simp_all add: execute_op_def op_ok_def op_target_def)
  from execute_write_effect [OF this(1) assms(2,3) this(2) assms(4) this(3)] OpWrite show ?thesis by simp
next
  case (OpDelete p)
  with assms show ?thesis by (auto simp: execute_op_def intro: execute_delete_effect)
next
  case (OpCopy src dst)
  obtain m1 r1 where rd: "std_fs_read m src = (m1, r1)" by fastforce
  note re = std_fs_read_effect [OF rd]
  show ?thesis
  proof (cases r1)
    case (Inl e)
    with assms(1) OpCopy rd have "m' = m1" "r = Inl e" by (simp_all add: execute_op_def execute_copy_def)
    with re assms(3) show ?thesis by (simp add: op_effect_def)
  next
    case (Inr data)
    then have w: "execute_write env m1 dst data sn grouped = (m', r)"
      using assms(1) OpCopy rd by (simp add: execute_op_def execute_copy_def)
    have f: "file_at (now m) src = Some data" using re(3) Inr by simp
    with assms(5,6) OpCopy have "length data < 2 ^ 62" "\<not> is_temp dst"
      by (auto simp: small_files_def op_ok_def op_target_def)
    from execute_write_effect [OF w assms(2) _ this(1) assms(4) this(2)] re f assms(3) show ?thesis
      using OpCopy by (auto simp: op_effect_def op_target_def apply_op_def)
  qed
qed

section \<open>What a job does\<close>

lemma entry_or_insert_set: "set (entry_or_insert d p gp) \<subseteq> insert (d, p) (set gp)" "set gp \<subseteq> set (entry_or_insert d p gp)"
    "d \<in> fst ` set (entry_or_insert d p gp)"
  by (induction d p gp rule: entry_or_insert.induct) auto

text \<open>What the grouped sync still has to settle: the directories noted so far.\<close>

definition noted :: "(string \<times> path) list \<Rightarrow> path \<Rightarrow> bool" where
  "noted gp q \<longleftrightarrow> (\<exists>(d, p) \<in> set gp. parent_or_current_dir q = parent_or_current_dir p)"

text \<open>
  At one path: its entry is settled or will be (\<open>St\<close>), its data is safe (\<open>Sa\<close>).
\<close>

definition batch_inv :: "path \<Rightarrow> bool \<Rightarrow> bool \<Rightarrow> (string \<times> path) list \<Rightarrow> store \<Rightarrow> bool" where
  "batch_inv q St Sa gp s \<longleftrightarrow> (\<forall>(d, p) \<in> set gp. parent p = d) \<and>
     (St \<longrightarrow> settled s q \<or> noted gp q) \<and> (Sa \<longrightarrow> data_safe s q)"

text \<open>The operations that make sure of the entry of a path.\<close>

definition settles :: "bool \<Rightarrow> path \<Rightarrow> batch_op \<Rightarrow> bool" where
  "settles g q op \<longleftrightarrow> op_target op = q \<and> (g \<or> \<not> is_delete op)"

lemma note_parent_noted:
  assumes "\<forall>(d, p) \<in> set gp. parent p = d" and "op_ok op"
  shows "\<forall>(d, p) \<in> set (note_parent g op gp). parent p = d" "noted gp q \<Longrightarrow> noted (note_parent g op gp) q"
    "g \<Longrightarrow> noted (note_parent g op gp) (op_target op)"
proof -
  define d where "d = parent (op_target op)"
  have n: "note_parent g op gp = (if g then entry_or_insert d (op_target op) gp else gp)"
    using assms(2) by (auto simp: note_parent_def parent_repr_def Let_def op_ok_def d_def)
  note es = entry_or_insert_set [where d = d and p = "op_target op" and gp = gp]
  show a: "\<forall>(d, p) \<in> set (note_parent g op gp). parent p = d" using n es(1) assms(1) d_def by auto
  show "noted gp q \<Longrightarrow> noted (note_parent g op gp) q" using n es(2) by (auto simp: noted_def)
  assume g
  with n es(3) obtain p where p: "(d, p) \<in> set (note_parent g op gp)" by auto
  with a have "parent p = d" by auto
  with p show "noted (note_parent g op gp) (op_target op)"
    unfolding noted_def d_def by (intro bexI [of _ "(parent (op_target op), p)"]) (auto simp: parent_or_current_dir_def)
qed

lemma batch_inv_step:
  assumes "op_effect op g m m' r" and "op_ok op" and "batch_inv q St Sa gp (now m)" and "calls m = []" and "\<not> is_temp q"
  shows "r = Inr () \<Longrightarrow> batch_inv q (St \<or> settles g q op) (Sa \<or> op_target op = q) (note_parent g op gp) (now m')"
    "r \<noteq> Inr () \<Longrightarrow> batch_inv q St Sa gp (now m')"
proof -
  have gp: "\<forall>(d, p) \<in> set gp. parent p = d" using assms(3) by (simp add: batch_inv_def)
  note np = note_parent_noted [OF gp assms(2), where g = g]
  show "r \<noteq> Inr () \<Longrightarrow> batch_inv q St Sa gp (now m')"
    using assms(1,3,5) gp by (auto simp: batch_inv_def op_effect_def same_at_def)
  assume r: "r = Inr ()"
  show "batch_inv q (St \<or> settles g q op) (Sa \<or> op_target op = q) (note_parent g op gp) (now m')"
  proof (cases "q = op_target op")
    case True
    with assms(1,4) r have "data_safe (now m') q" "\<not> g \<and> (settled (now m) q \<or> \<not> is_delete op) \<longrightarrow> settled (now m') q"
      by (auto simp: op_effect_def)
    with True np assms(3) show ?thesis unfolding batch_inv_def settles_def by blast
  next
    case False
    with assms(1,5) have "same_at (now m) (now m') q" by (auto simp: op_effect_def)
    with False assms(3) np show ?thesis unfolding batch_inv_def settles_def same_at_def by blast
  qed
qed

definition agree :: "(path \<Rightarrow> bytes option) \<Rightarrow> (path \<Rightarrow> bytes option) \<Rightarrow> bool" where
  "agree f g \<longleftrightarrow> (\<forall>q. \<not> is_temp q \<longrightarrow> f q = g q)"

lemma apply_op_agree: "agree f g \<Longrightarrow> op_ok op \<Longrightarrow> agree (apply_op op f) (apply_op op g)"
  by (auto simp: agree_def apply_op_def op_ok_def split: batch_op.splits)

lemma fold_apply_agree: "agree f g \<Longrightarrow> list_all op_ok ops \<Longrightarrow> agree (fold apply_op ops f) (fold apply_op ops g)"
  by (induction ops arbitrary: f g) (auto intro: apply_op_agree)

lemma small_files_agree: "agree f g \<Longrightarrow> small_files f \<Longrightarrow> small_files g"
  by (auto simp: agree_def small_files_def)

lemma agree_trans: "agree f g \<Longrightarrow> agree g h \<Longrightarrow> agree f h"
  by (simp add: agree_def)

lemma same_at_agree: "(\<And>q. \<not> is_temp q \<Longrightarrow> same_at s s' q) \<Longrightarrow> agree (file_at s') (file_at s)"
  by (simp add: agree_def same_at_def)

lemma op_effect_agree:
  assumes "op_effect op g m m' r"
  shows "r = Inr () \<Longrightarrow> agree (file_at (now m')) (apply_op op (file_at (now m)))"
    "r \<noteq> Inr () \<Longrightarrow> agree (file_at (now m')) (file_at (now m))"
proof -
  show "r \<noteq> Inr () \<Longrightarrow> agree (file_at (now m')) (file_at (now m))"
    using assms by (intro same_at_agree) (auto simp: op_effect_def)
  assume "r = Inr ()"
  moreover have "apply_op op f q = f q" if "q \<noteq> op_target op" for f q
    using that by (auto simp: apply_op_def op_target_def split: batch_op.splits)
  ultimately show "agree (file_at (now m')) (apply_op op (file_at (now m)))"
    using assms unfolding agree_def op_effect_def same_at_def by metis
qed

definition ran :: "nat \<Rightarrow> batch_op list \<Rightarrow> machine \<Rightarrow> machine \<Rightarrow> bool" where
  "ran k ops m m' \<longleftrightarrow>
     k \<le> length ops \<and> wf_store (now m') \<and> (calls m = [] \<longrightarrow> calls m' = []) \<and>
     agree (file_at (now m')) (fold apply_op (take k ops) (file_at (now m)))"

lemma production_executor_eq:
  "execute_op env m op sn g = (m1, r) \<Longrightarrow> production_executor env m op sn g = (m1, Returned r)"
  by (simp add: production_executor_def)

lemma run_ops_ungrouped: "run_ops ex sn False idx ok gp m ops = (m', ok', fl, gp') \<Longrightarrow> gp' = gp"
  by (induction ops arbitrary: idx ok m) (auto simp: note_parent_def split: prod.splits op_outcome.splits sum.splits)

lemma run_ops_effect:
  assumes "run_ops (production_executor env) sn g idx ok gp m ops = (m', ok', fl, gp')"
    and "list_all op_ok ops" and "wf_store (now m)" and "small_files (file_at (now m))"
    and "temp_env_ok env" and "snap_sector sn \<le> 2 ^ 62"
  shows "\<exists>k. ok' = ok + k \<and> ran k ops m m' \<and>
    (case fl of None \<Rightarrow> k = length ops | Some (i, e) \<Rightarrow> i = idx + k \<and> k < length ops) \<and>
    (calls m = [] \<and> \<not> is_temp q \<and> batch_inv q St Sa gp (now m) \<longrightarrow>
       batch_inv q (St \<or> list_ex (settles g q) (take k ops)) (Sa \<or> list_ex (\<lambda>op. op_target op = q) (take k ops)) gp' (now m'))"
  using assms(1-4)
proof (induction ops arbitrary: idx ok gp m St Sa)
  case Nil
  then show ?case by (intro exI [of _ 0]) (auto simp: ran_def agree_def)
next
  case (Cons op ops)
  obtain m1 r where e: "execute_op env m op sn g = (m1, r)" by fastforce
  have op: "op_ok op" "list_all op_ok ops" using Cons.prems(2) by simp_all
  note eff = execute_op_effect [OF e assms(5) Cons.prems(3) assms(6) op(1) Cons.prems(4)]
  note inv = batch_inv_step [OF eff op(1), where q = q and St = St and Sa = Sa and gp = gp]
  have wf: "wf_store (now m1)" "calls m = [] \<longrightarrow> calls m1 = []" using eff by (simp_all add: op_effect_def)
  show ?case
  proof (cases r)
    case (Inl x)
    with Cons.prems(1) e have eq: "m' = m1" "ok' = ok" "fl = Some (idx, x)" "gp' = gp"
      by (simp_all add: production_executor_eq)
    with Inl wf op_effect_agree(2) [OF eff] inv(2) show ?thesis
      by (intro exI [of _ 0]) (auto simp: ran_def)
  next
    case (Inr u)
    with Cons.prems(1) e
    have next_op: "run_ops (production_executor env) sn g (Suc idx) (Suc ok) (note_parent g op gp) m1 ops = (m', ok', fl, gp')"
      by (simp add: production_executor_eq)
    have ag: "agree (file_at (now m1)) (apply_op op (file_at (now m)))" using op_effect_agree(1) [OF eff] Inr by simp
    have "small_files (apply_op op (file_at (now m)))" by (rule small_files_apply [OF Cons.prems(4) op(1)])
    then have sm: "small_files (file_at (now m1))" using ag small_files_agree by (auto simp: agree_def small_files_def)
    from Cons.IH [OF next_op op(2) wf(1) sm, of "St \<or> settles g q op" "Sa \<or> op_target op = q"] obtain k where
      k: "ok' = Suc ok + k" "ran k ops m1 m'"
        "case fl of None \<Rightarrow> k = length ops | Some (i, e) \<Rightarrow> i = Suc idx + k \<and> k < length ops"
        "calls m1 = [] \<and> \<not> is_temp q \<and> batch_inv q (St \<or> settles g q op) (Sa \<or> op_target op = q) (note_parent g op gp) (now m1) \<longrightarrow>
          batch_inv q ((St \<or> settles g q op) \<or> list_ex (settles g q) (take k ops))
            ((Sa \<or> op_target op = q) \<or> list_ex (\<lambda>op. op_target op = q) (take k ops)) gp' (now m')" by blast
    have "list_all op_ok (take k ops)" using op(2) by (auto simp: list_all_iff dest: in_set_takeD)
    from fold_apply_agree [OF ag this] k(2) wf have "ran (Suc k) (op # ops) m m'"
      by (auto simp: ran_def intro: agree_trans)
    moreover have "calls m = [] \<and> \<not> is_temp q \<and> batch_inv q St Sa gp (now m) \<longrightarrow>
        batch_inv q (St \<or> list_ex (settles g q) (take (Suc k) (op # ops)))
          (Sa \<or> list_ex (\<lambda>op. op_target op = q) (take (Suc k) (op # ops))) gp' (now m')"
      using k(4) wf(2) inv(1) Inr by (simp add: disj_assoc)
    moreover have "case fl of None \<Rightarrow> Suc k = length (op # ops) | Some (i, e) \<Rightarrow> i = idx + Suc k \<and> Suc k < length (op # ops)"
      using k(3) by (auto split: option.splits)
    ultimately show ?thesis using k(1) by (intro exI [of _ "Suc k"]) simp
  qed
qed

lemma sync_parents_effect:
  assumes "wf_store (now m)"
  shows "wf_store (now (sync_parents m gp)) \<and> (\<forall>q. same_at (now m) (now (sync_parents m gp)) q) \<and>
    (calls m = [] \<longrightarrow> calls (sync_parents m gp) = [] \<and> (\<forall>q. noted gp q \<longrightarrow> settled (now (sync_parents m gp)) q))"
  using assms
proof (induction m gp rule: sync_parents.induct)
  case (1 m)
  then show ?case by (simp add: noted_def)
next
  case (2 m d p r)
  obtain m1 x where s: "sync_parent_dir m p = (m1, x)" by fastforce
  note e = sync_parent_dir_effect [OF s 2(2)]
  note ih = 2(1) [unfolded s fst_conv, OF conjunct1 [OF e]]
  let ?m = "sync_parents m1 r"
  have "same_at (now m) (now ?m) q" for q using e ih by (auto simp: same_at_def)
  moreover have "settled (now ?m) q" if "noted ((d, p) # r) q" "calls m = []" for q
  proof (cases "parent_or_current_dir q = parent_or_current_dir p")
    case True
    with e that(2) have "settled (now m1) q" by (simp add: dir_settled_def settled_def)
    with ih show ?thesis by (simp add: same_at_def)
  next
    case False
    with that(1) have "noted r q" by (simp add: noted_def)
    with ih e that(2) show ?thesis by simp
  qed
  ultimately show ?case using e ih by (simp add: s)
qed

lemma process_job_effect:
  assumes "process_job (production_executor env) m job = (m', r)"
    and "list_all op_ok (job_ops job)" and "wf_store (now m)" and "small_files (file_at (now m))"
    and "temp_env_ok env" and "snap_sector (job_snapshot job) \<le> 2 ^ 62"
  shows "\<exists>k. ran k (job_ops job) m m' \<and>
    (case r of Inr _ \<Rightarrow> k = length (job_ops job) | Inl e \<Rightarrow> failed_at e = k \<and> completed e = k \<and> k < length (job_ops job)) \<and>
    (calls m = [] \<and> \<not> is_temp q \<longrightarrow>
       (settled (now m) q \<or> list_ex (settles (job_grouped job) q) (take k (job_ops job)) \<longrightarrow> settled (now m') q) \<and>
       (data_safe (now m) q \<or> list_ex (\<lambda>op. op_target op = q) (take k (job_ops job)) \<longrightarrow> data_safe (now m') q))"
proof -
  let ?g = "job_grouped job"
  obtain m1 ok fl gp where ro: "run_ops (production_executor env) (job_snapshot job) ?g 0 0 [] m (job_ops job) = (m1, ok, fl, gp)"
    by (metis prod_cases4)
  have eq: "m' = (if ?g then sync_parents m1 gp else m1)"
    "r = (case fl of None \<Rightarrow> Inr () | Some (i, e) \<Rightarrow> Inl \<lparr>failed_at = i, completed = ok, batch_source = e\<rparr>)"
    using assms(1) ro by (auto simp: process_job_def)
  from run_ops_effect [OF ro assms(2-6), unfolded add_0, of q "settled (now m) q" "data_safe (now m) q"] obtain k where
    k: "ok = k" "ran k (job_ops job) m m1"
      "case fl of None \<Rightarrow> k = length (job_ops job) | Some (i, e) \<Rightarrow> i = k \<and> k < length (job_ops job)"
      "calls m = [] \<and> \<not> is_temp q \<and> batch_inv q (settled (now m) q) (data_safe (now m) q) [] (now m) \<longrightarrow>
        batch_inv q (settled (now m) q \<or> list_ex (settles ?g q) (take k (job_ops job)))
          (data_safe (now m) q \<or> list_ex (\<lambda>op. op_target op = q) (take k (job_ops job))) gp (now m1)" by blast
  have wf: "wf_store (now m1)" "calls m = [] \<longrightarrow> calls m1 = []" using k(2) by (simp_all add: ran_def)
  note se = sync_parents_effect [OF wf(1), of gp]
  have "agree (file_at (now (sync_parents m1 gp))) (file_at (now m1))" using se by (intro same_at_agree) simp
  then have "ran k (job_ops job) m m'"
    using eq(1) k(2) se wf(2) by (auto simp: ran_def intro: agree_trans)
  moreover have "(settled (now m) q \<or> list_ex (settles ?g q) (take k (job_ops job)) \<longrightarrow> settled (now m') q) \<and>
      (data_safe (now m) q \<or> list_ex (\<lambda>op. op_target op = q) (take k (job_ops job)) \<longrightarrow> data_safe (now m') q)"
    if h: "calls m = []" "\<not> is_temp q"
  proof (cases ?g)
    case True
    with h k(4) wf(2) se eq(1) show ?thesis by (auto simp: batch_inv_def same_at_def)
  next
    case False
    have "gp = []" using ro False run_ops_ungrouped by metis
    with h k(4) eq(1) False show ?thesis by (auto simp: batch_inv_def noted_def)
  qed
  moreover have "case r of Inr _ \<Rightarrow> k = length (job_ops job) | Inl e \<Rightarrow> failed_at e = k \<and> completed e = k \<and> k < length (job_ops job)"
    using eq(2) k(1,3) by (auto split: option.splits)
  ultimately show ?thesis by blast
qed

section \<open>A concrete job\<close>

text \<open>A delete, and a copy of the deleted file, which fails.\<close>

definition demo_job :: batch_job where
  "demo_job = \<lparr>job_ops = [OpDelete demo_other, OpCopy demo_other demo_path],
     job_snapshot = \<lparr>snap_method = MSync, snap_sector = 512, snap_direct = False\<rparr>, job_grouped = True\<rparr>"

lemma demo_job_facts:
  "list_all op_ok (job_ops demo_job)" "small_files (file_at (now demo_machine))" "snap_sector (job_snapshot demo_job) \<le> 2 ^ 62"
  "settled (now demo_machine) q" "data_safe (now demo_machine) q" "\<not> is_temp demo_other" "\<not> is_temp demo_path"
  by (auto simp: demo_job_def op_ok_def op_target_def demo_path_def demo_other_def is_temp_def TEMP_PREFIX_def small_files_def
      file_at_def demo_machine_def demo_store_def settled_def data_safe_def split: if_splits)

lemma demo_job_result:
  "\<exists>m' x. process_job (production_executor demo_env) demo_machine demo_job =
     (m', Inl \<lparr>failed_at = 1, completed = 1, batch_source = x\<rparr>)"
  by (simp add: process_job_def demo_job_def production_executor_def execute_op_def execute_delete_def remove_file_def
      next_call_no_fault demo_machine_def demo_store_def demo_path_def demo_other_def execute_copy_def std_fs_read_def
      sys_open_existing_def set_name_def next_call_def put_store_def)

section \<open>The properties\<close>

text \<open>
  C4: A batch runs in order and stops at its first failure: the files a program sees afterwards are
  those that the completed operations, applied one after the other, give; the operation that failed
  and those after it changed nothing; and the error names the position and the number of completed
  operations. This holds whichever calls fail, grouped or not.
\<close>

theorem batch_applies_completed_prefix:
  assumes "process_job (production_executor env) m job = (m', r)" and "list_all op_ok (job_ops job)"
    and "wf_store (now m)" and "small_files (file_at (now m))" and "temp_env_ok env"
    and "snap_sector (job_snapshot job) \<le> 2 ^ 62"
  shows "\<exists>k. (case r of Inr _ \<Rightarrow> k = length (job_ops job)
      | Inl e \<Rightarrow> failed_at e = k \<and> completed e = k \<and> k < length (job_ops job)) \<and>
    (\<forall>q. \<not> is_temp q \<longrightarrow> file_at (now m') q = fold apply_op (take k (job_ops job)) (file_at (now m)) q)"
  using process_job_effect [OF assms] by (auto simp: ran_def agree_def)

theorem batch_applies_completed_prefix_witness:
  "\<exists>m' x. process_job (production_executor demo_env) demo_machine demo_job =
       (m', Inl \<lparr>failed_at = 1, completed = 1, batch_source = x\<rparr>) \<and>
     file_at (now m') demo_other = None \<and> file_at (now m') demo_path = file_at (now demo_machine) demo_path"
proof -
  obtain m' x where j: "process_job (production_executor demo_env) demo_machine demo_job =
      (m', Inl \<lparr>failed_at = 1, completed = 1, batch_source = x\<rparr>)" using demo_job_result by blast
  have t: "take (Suc 0) (job_ops demo_job) = [OpDelete demo_other]" by (simp add: demo_job_def)
  from batch_applies_completed_prefix [OF j demo_job_facts(1) demo_facts(2) demo_job_facts(2) demo_facts(1) demo_job_facts(3)]
  show ?thesis using j demo_job_facts(6,7) demo_facts(10) by (auto simp: t apply_op_def)
qed



text \<open>
  C28: The dispatcher answers the submitted jobs in the order of submission, each exactly once and with
  the result of running it on the files as they were at that moment, whatever other threads do in
  between; and when it has ended no submitted job is without an answer.
\<close>

theorem batches_answered_in_order:
  assumes "(dispatch_step ex cfg)\<^sup>*\<^sup>* (dispatcher_init m) st"
  shows "\<exists>waiting. map fst (answers st) @ waiting = submitted st \<and> (ended st \<longrightarrow> waiting = []) \<and>
    (\<forall>(j, m1, m2, r) \<in> set (answers st). process_job ex m1 j = (m2, r))"
  using dispatcher_inv_reach [OF assms] by (auto simp: dispatcher_inv_def)

theorem batches_answered_in_order_witness:
  "\<exists>st waiting. (dispatch_step (production_executor demo_env) \<lparr>batch_size_max = 128, batch_queue_max = 1024\<rparr>)\<^sup>*\<^sup>*
       (dispatcher_init demo_machine) st \<and> submitted st = [demo_job] \<and> map fst (answers st) @ waiting = submitted st"
proof -
  let ?R = "dispatch_step (production_executor demo_env) \<lparr>batch_size_max = 128, batch_queue_max = 1024\<rparr>"
  let ?st = "(dispatcher_init demo_machine)\<lparr>queue := [demo_job], submitted := [demo_job]\<rparr>"
  have "?R (dispatcher_init demo_machine) ?st"
    using send [of "dispatcher_init demo_machine" "\<lparr>batch_size_max = 128, batch_queue_max = 1024\<rparr>" "production_executor demo_env" demo_job]
    by (simp add: dispatcher_init_def)
  then have r: "?R\<^sup>*\<^sup>* (dispatcher_init demo_machine) ?st" by blast
  from batches_answered_in_order [OF r] obtain waiting where "map fst (answers ?st) @ waiting = submitted ?st" by blast
  with r show ?thesis by (intro exI [of _ ?st] exI [of _ waiting]) simp
qed

lemma rounds_run: "\<exists>st'. (dispatch_step ex cfg)\<^sup>*\<^sup>* st st' \<and> round st' = [] \<and> queue st' = queue st \<and>
    submitted st' = submitted st \<and> closing st' = closing st \<and> draining st' = draining st"
proof (induction "round st" arbitrary: st)
  case Nil
  then show ?case by (intro exI [of _ st]) simp
next
  case (Cons j r)
  obtain m res where p: "process_job ex (fs st) j = (m, res)" by fastforce
  let ?st = "st\<lparr>fs := m, round := r, answers := answers st @ [(j, fs st, m, res)]\<rparr>"
  have s: "dispatch_step ex cfg st ?st" using Cons(2) p by (intro answer) simp_all
  from Cons(1) [of ?st] obtain st' where "(dispatch_step ex cfg)\<^sup>*\<^sup>* ?st st'" "round st' = []" "queue st' = queue st"
    "submitted st' = submitted st" "closing st' = closing st" "draining st' = draining st" by auto
  with converse_rtranclp_into_rtranclp [of "dispatch_step ex cfg", OF s] show ?case by blast
qed

text \<open>
  C29: Shutdown loses no job: once it is signalled, the dispatcher can go on to its end on its own, and
  there every job submitted has been answered.
\<close>

theorem shutdown_answers_every_job:
  assumes "(dispatch_step ex cfg)\<^sup>*\<^sup>* (dispatcher_init m) st" and "closing st"
  shows "\<exists>st'. (dispatch_step ex cfg)\<^sup>*\<^sup>* st st' \<and> ended st' \<and> map fst (answers st') = submitted st"
proof -
  let ?R = "(dispatch_step ex cfg)\<^sup>*\<^sup>*"
  obtain s1 where s1: "?R st s1" "round s1 = []" "submitted s1 = submitted st" "closing s1" "draining s1 = draining st"
    using rounds_run [of ex cfg st] assms(2) by auto
  obtain s2 where s2: "?R s1 s2" "round s2 = []" "submitted s2 = submitted st" "draining s2"
  proof (cases "draining s1")
    case True
    with s1 that [of s1] show ?thesis by simp
  next
    case False
    let ?d = "s1\<lparr>round := queue s1, queue := [], draining := True\<rparr>"
    have "dispatch_step ex cfg s1 ?d" using s1 False by (intro drain) simp_all
    moreover obtain s2 where "?R ?d s2" "round s2 = []" "submitted s2 = submitted s1" "draining s2"
      using rounds_run [of ex cfg ?d] by auto
    ultimately show ?thesis using that [of s2] s1(3) by (simp add: converse_rtranclp_into_rtranclp [of "dispatch_step ex cfg"])
  qed
  let ?e = "s2\<lparr>ended := True\<rparr>"
  have "dispatch_step ex cfg s2 ?e" using s2 by (intro finish) simp_all
  then have run: "?R st ?e" using s1(1) s2(1) by (meson rtranclp.rtrancl_into_rtrancl rtranclp_trans)
  have "dispatcher_inv ex ?e" by (rule dispatcher_inv_reach [OF rtranclp_trans [OF assms(1) run]])
  then have "map fst (answers ?e) = submitted st" using s2 by (auto simp: dispatcher_inv_def)
  with run show ?thesis by (intro exI [of _ ?e]) simp
qed

theorem shutdown_answers_every_job_witness:
  "\<exists>st. (dispatch_step (production_executor demo_env) \<lparr>batch_size_max = 128, batch_queue_max = 1024\<rparr>)\<^sup>*\<^sup>*
       (dispatcher_init demo_machine) st \<and> ended st \<and> map fst (answers st) = [demo_job]"
proof -
  let ?cfg = "\<lparr>batch_size_max = 128, batch_queue_max = 1024\<rparr> :: pipeline_config"
  let ?R = "dispatch_step (production_executor demo_env) ?cfg"
  let ?s1 = "(dispatcher_init demo_machine)\<lparr>queue := [demo_job], submitted := [demo_job]\<rparr>"
  let ?st = "?s1\<lparr>closing := True\<rparr>"
  have "?R (dispatcher_init demo_machine) ?s1"
    using send [of "dispatcher_init demo_machine" ?cfg "production_executor demo_env" demo_job]
    by (simp add: dispatcher_init_def)
  moreover have "?R ?s1 ?st" by (rule signal)
  ultimately have r: "?R\<^sup>*\<^sup>* (dispatcher_init demo_machine) ?st" by (meson r_into_rtranclp rtranclp.rtrancl_into_rtrancl)
  from shutdown_answers_every_job [OF r] obtain st where "?R\<^sup>*\<^sup>* ?st st" "ended st" "map fst (answers st) = [demo_job]"
    by (auto simp: dispatcher_init_def)
  with r show ?thesis by (meson rtranclp_trans)
qed

end
