(* ===== verification/Fsys_Jail.thy ===== *)
theory Fsys_Jail
  imports Fsys_Replace "HOL-Library.Sublist"
begin

text \<open>
  The root jail of a handle (\<open>resolve_path\<close> of \<open>src/handle.rs\<close>): a path given by the caller is
  normalised, checked against the root, and its existing part is canonicalised, so that no symbolic
  link leads out of the root. The file system is a map from absolute paths to nodes with symbolic
  links and directories that may not be searched; the kernel's walk over it, with its limit on
  links, is the meaning of \<open>canonicalize\<close>, \<open>symlink_metadata\<close> and of an open that creates. Unix
  paths only. Another process changing links between the check and the open is the gap the code
  documents and is not covered.
\<close>

section \<open>Paths\<close>

datatype component = RootDir | CurDir | ParentDir | Normal string

type_synonym apath = "string list"

fun split_slash :: "string \<Rightarrow> string \<Rightarrow> string list" where
  "split_slash acc [] = [rev acc]"
| "split_slash acc (c # cs) =
     (if c = CHR ''/'' then rev acc # split_slash [] cs else split_slash (c # acc) cs)"

definition is_absolute :: "string \<Rightarrow> bool" where
  "is_absolute s \<longleftrightarrow> s \<noteq> [] \<and> hd s = CHR ''/''"

text \<open>\<open>Path::components\<close>: separators collapse and \<open>\<^verbatim>\<open>.\<close>\<close> counts only at the start of a relative path.\<close>

definition component_of :: "string \<Rightarrow> component" where
  "component_of n = (if n = ''..'' then ParentDir else Normal n)"

definition components :: "string \<Rightarrow> component list" where
  "components s =
     (let parts = filter (\<lambda>n. n \<noteq> []) (split_slash [] s)
      in (if is_absolute s then [RootDir]
          else if parts \<noteq> [] \<and> hd parts = ''.'' then [CurDir] else [])
         @ map component_of (filter (\<lambda>n. n \<noteq> ''.'') parts))"

definition absolute :: "apath \<Rightarrow> component list" where
  "absolute p = RootDir # map Normal p"

section \<open>The kernel's walk\<close>

datatype node = RegularFile | Directory | Symlink "component list"

record jail_fs =
  node_at :: "apath \<Rightarrow> node option"
  no_search :: "apath \<Rightarrow> bool"
  max_links :: nat

datatype walk_error = ENOENT | ENOTDIR | EACCES | ELOOP

text \<open>What happens at the last component: resolve it, report it itself, or let it be created.\<close>

datatype walk_mode = Resolve | NoFollow | Create

function walk ::
    "jail_fs \<Rightarrow> walk_mode \<Rightarrow> nat \<Rightarrow> apath \<Rightarrow> component list \<Rightarrow> walk_error + apath" where
  "walk fs md n cur [] = Inr cur"
| "walk fs md n cur (RootDir # r) = walk fs md n [] r"
| "walk fs md n cur (CurDir # r) = walk fs md n cur r"
| "walk fs md n cur (ParentDir # r) = walk fs md n (butlast cur) r"
| "walk fs md n cur (Normal x # r) =
     (if no_search fs cur then Inl EACCES
      else case node_at fs (cur @ [x]) of
          None \<Rightarrow> if r = [] \<and> md = Create then Inr (cur @ [x]) else Inl ENOENT
        | Some Directory \<Rightarrow> walk fs md n (cur @ [x]) r
        | Some RegularFile \<Rightarrow> if r = [] then Inr (cur @ [x]) else Inl ENOTDIR
        | Some (Symlink t) \<Rightarrow>
            if r = [] \<and> md = NoFollow then Inr (cur @ [x])
            else (case n of 0 \<Rightarrow> Inl ELOOP | Suc k \<Rightarrow> walk fs md k cur (t @ r)))"
  by pat_completeness auto
termination
  by (relation "measures [\<lambda>(fs, md, n, cur, cs). n, \<lambda>(fs, md, n, cur, cs). length cs]") auto

definition canonicalize :: "jail_fs \<Rightarrow> apath \<Rightarrow> walk_error + apath" where
  "canonicalize fs p = walk fs Resolve (max_links fs) [] (absolute p)"

definition symlink_metadata :: "jail_fs \<Rightarrow> apath \<Rightarrow> walk_error + node" where
  "symlink_metadata fs p =
     (case walk fs NoFollow (max_links fs) [] (absolute p) of
        Inl e \<Rightarrow> Inl e
      | Inr q \<Rightarrow> (case node_at fs q of None \<Rightarrow> Inl ENOENT | Some nd \<Rightarrow> Inr nd))"

text \<open>Where an open with \<open>O_CREAT\<close> ends up.\<close>

definition opens_at :: "jail_fs \<Rightarrow> component list \<Rightarrow> walk_error + apath" where
  "opens_at fs q = walk fs Create (max_links fs) [] q"

section \<open>Resolving a path\<close>

definition is_symlink :: "node \<Rightarrow> bool" where
  "is_symlink nd \<longleftrightarrow> (case nd of Symlink _ \<Rightarrow> True | _ \<Rightarrow> False)"

text \<open>Lexical normalisation: a \<open>\<^verbatim>\<open>..\<close>\<close> that has nothing to pop fails.\<close>

fun normalize :: "apath \<Rightarrow> component list \<Rightarrow> apath option" where
  "normalize acc [] = Some acc"
| "normalize acc (RootDir # r) = normalize [] r"
| "normalize acc (CurDir # r) = normalize acc r"
| "normalize acc (ParentDir # r) = (if acc = [] then None else normalize (butlast acc) r)"
| "normalize acc (Normal x # r) = normalize (acc @ [x]) r"

text \<open>The walk up to the longest existing prefix, whose missing tail is attached again.\<close>

function existing_prefix :: "jail_fs \<Rightarrow> apath \<Rightarrow> string \<Rightarrow> bool \<Rightarrow> apath \<Rightarrow> apath \<Rightarrow> apath result" where
  "existing_prefix fs root path inside ex missing =
     (case canonicalize fs ex of
        Inr canon \<Rightarrow>
          if prefix root canon then Inr (canon @ missing)
          else Inl (InvalidPath path ''path escapes the handle root via symlink (canonical-prefix check)'')
      | Inl _ \<Rightarrow>
          (case symlink_metadata fs ex of
             Inr nd \<Rightarrow>
               Inl (InvalidPath path
                 (if is_symlink nd
                  then ''path contains a symlink that cannot be resolved inside the handle root (dangling or looping link)''
                  else ''path component exists but cannot be canonicalised for the root check''))
           | Inl e \<Rightarrow>
               if e \<noteq> ENOENT then
                 Inl (InvalidPath path ''path component exists but cannot be canonicalised for the root check'')
               else if ex = [] then Inl (InvalidPath path ''path has no canonical existing ancestor'')
               else if inside \<and> \<not> prefix root (butlast ex) then
                 Inl (InvalidPath path ''no canonical ancestor lies within the handle root'')
               else existing_prefix fs root path inside (butlast ex) (last ex # missing)))"
  by pat_completeness auto
termination
  by (relation "measure (\<lambda>(fs, root, path, inside, ex, missing). length ex)") auto

declare existing_prefix.simps [simp del]

definition resolve_path :: "jail_fs \<Rightarrow> apath option \<Rightarrow> string \<Rightarrow> component list result" where
  "resolve_path fs handle_root path =
     (case handle_root of
        None \<Rightarrow> Inr (components path)
      | Some root \<Rightarrow>
          let candidate = (if is_absolute path then components path else absolute root @ components path)
          in (case normalize [] candidate of
                None \<Rightarrow> Inl (InvalidPath path ''path escapes the handle root'')
              | Some resolved \<Rightarrow>
                  let inside = prefix root resolved
                  in if \<not> inside \<and> \<not> is_absolute path then
                       Inl (InvalidPath path ''path escapes the handle root (lexical)'')
                     else if inside \<and> resolved \<noteq> [] \<and> butlast resolved = root \<and>
                         (case symlink_metadata fs resolved of Inl e \<Rightarrow> e = ENOENT | Inr nd \<Rightarrow> \<not> is_symlink nd) then
                       Inr (absolute resolved)
                     else
                       (case existing_prefix fs root path inside resolved [] of
                          Inl e \<Rightarrow> Inl e
                        | Inr q \<Rightarrow> Inr (absolute q))))"

section \<open>Facts about the walk\<close>

text \<open>A canonical directory: every prefix is a directory.\<close>

definition dirs :: "jail_fs \<Rightarrow> apath \<Rightarrow> bool" where
  "dirs fs p \<longleftrightarrow> (\<forall>q. prefix q p \<longrightarrow> node_at fs q = Some Directory)"

lemma dirs_snoc: "dirs fs (p @ [x]) \<longleftrightarrow> dirs fs p \<and> node_at fs (p @ [x]) = Some Directory"
  by (auto simp: dirs_def prefix_snoc)

lemma dirs_butlast: "dirs fs p \<Longrightarrow> dirs fs (butlast p)"
  by (auto simp: dirs_def dest: prefix_order.trans [OF _ prefixeq_butlast])

lemma dirs_prefix: "dirs fs (p @ q) \<Longrightarrow> dirs fs p"
  by (simp add: dirs_def)

lemma walk_dirs:
  "dirs fs (cur @ p) \<Longrightarrow>
     walk fs md n cur (map Normal p @ r) = Inl EACCES \<or> walk fs md n cur (map Normal p @ r) = walk fs md n (cur @ p) r"
proof (induction p arbitrary: cur)
  case (Cons x p)
  from Cons.prems dirs_prefix [of fs "cur @ [x]" p] have "node_at fs (cur @ [x]) = Some Directory"
    by (simp add: dirs_def)
  with Cons.IH [of "cur @ [x]"] Cons.prems show ?case by auto
qed simp

text \<open>A resolved path is canonical: directories, then a directory or a file.\<close>

definition plain :: "jail_fs \<Rightarrow> apath \<Rightarrow> bool" where
  "plain fs p \<longleftrightarrow> dirs fs p \<or> p \<noteq> [] \<and> dirs fs (butlast p) \<and> node_at fs p = Some RegularFile"

lemma walk_plain:
  assumes "walk fs Resolve n cur cs = Inr q" and "dirs fs cur"
  shows "plain fs q"
  using assms
proof (induction fs "Resolve" n cur cs rule: walk.induct)
  case (5 fs n cur x r)
  then show ?case
    by (auto simp: dirs_snoc plain_def dest: dirs_prefix split: if_splits option.splits node.splits nat.splits)
next
  case (2 fs n cur r)
  then show ?case by (auto simp: dirs_def)
qed (auto simp: plain_def dirs_butlast)

text \<open>Walking on from where a resolution ended.\<close>

lemma walk_append:
  assumes "walk fs Resolve n cur cs = Inr q" and "dirs fs cur" and "r \<noteq> []"
  shows "dirs fs q \<and> (\<exists>k. walk fs md n cur (cs @ r) = walk fs md k q r) \<or> walk fs md n cur (cs @ r) = Inl ENOTDIR"
  using assms
proof (induction fs "Resolve" n cur cs rule: walk.induct)
  case (5 fs n cur x r')
  then show ?case
    by (auto simp: dirs_snoc split: if_splits option.splits node.splits nat.splits)
next
  case (2 fs n cur r)
  then show ?case by (auto simp: dirs_def)
qed (auto simp: dirs_butlast)

lemma walk_absolute_dirs:
  assumes "dirs fs p"
  shows "walk fs md n cur (absolute p @ r) = Inl EACCES \<or> walk fs md n cur (absolute p @ r) = walk fs md n p r"
  using walk_dirs [of fs "[]" p md n r] assms by (simp add: absolute_def)

lemma walk_absolute_plain:
  assumes "plain fs p"
  shows "walk fs md n cur (absolute p) = Inl EACCES \<or> walk fs md n cur (absolute p) = Inr p"
proof (cases "dirs fs p")
  case True
  from walk_absolute_dirs [OF this, of md n cur "[]"] show ?thesis by simp
next
  case False
  with assms have p: "p \<noteq> []" "dirs fs (butlast p)" "node_at fs p = Some RegularFile" by (auto simp: plain_def)
  then obtain b x where bx: "p = b @ [x]" by (metis append_butlast_last_id)
  have a: "absolute (b @ [x]) = absolute b @ [Normal x]" by (simp add: absolute_def)
  have d: "dirs fs b" using p(2) bx by simp
  from walk_absolute_dirs [OF d, of md n cur "[Normal x]"] p(3) show ?thesis
    unfolding bx a by (cases "no_search fs b") simp_all
qed

lemma missing_entry:
  assumes "symlink_metadata fs (ex @ [x]) = Inl ENOENT" and "canonicalize fs ex = Inr canon" and "node_at fs [] = Some Directory"
  shows "dirs fs canon \<and> node_at fs (canon @ [x]) = None"
proof -
  have c: "walk fs Resolve (max_links fs) [] (absolute ex) = Inr canon" using assms(2) by (simp add: canonicalize_def)
  have a: "absolute (ex @ [x]) = absolute ex @ [Normal x]" by (simp add: absolute_def)
  have d: "dirs fs []" using assms(3) by (simp add: dirs_def)
  from walk_append [OF c d, of "[Normal x]" NoFollow] assms(1) obtain k where
    "dirs fs canon" "walk fs NoFollow (max_links fs) [] (absolute (ex @ [x])) = walk fs NoFollow k canon [Normal x]"
    by (auto simp: symlink_metadata_def a)
  with assms(1) show ?thesis
    by (auto simp: symlink_metadata_def split: if_splits option.splits node.splits nat.splits)
qed

lemma existing_prefix_result:
  assumes "existing_prefix fs root path inside ex missing = Inr q" and "node_at fs [] = Some Directory"
    and "missing = [] \<or> symlink_metadata fs (ex @ [hd missing]) = Inl ENOENT"
  shows "\<exists>canon rest. q = canon @ rest \<and> prefix root canon \<and> plain fs canon \<and>
    (rest = [] \<or> dirs fs canon \<and> node_at fs (canon @ [hd rest]) = None)"
  using assms
proof (induction fs root path inside ex missing rule: existing_prefix.induct)
  case (1 fs root path inside ex missing)
  note unf = existing_prefix.simps [of fs root path inside ex missing]
  show ?case
  proof (cases "canonicalize fs ex")
    case (Inr canon)
    with "1.prems"(1) have q: "q = canon @ missing" "prefix root canon" by (auto simp: unf split: if_splits)
    have "plain fs canon"
      using walk_plain [of fs "max_links fs" "[]" "absolute ex" canon] Inr "1.prems"(2) by (simp add: canonicalize_def dirs_def)
    with q missing_entry [OF _ Inr "1.prems"(2)] "1.prems"(3) show ?thesis by blast
  next
    case (Inl e)
    with "1.prems"(1) have s: "symlink_metadata fs ex = Inl ENOENT" "ex \<noteq> []" "\<not> (inside \<and> \<not> prefix root (butlast ex))"
      "existing_prefix fs root path inside (butlast ex) (last ex # missing) = Inr q"
      by (auto simp: unf split: sum.splits if_splits)
    then have "symlink_metadata fs (butlast ex @ [hd (last ex # missing)]) = Inl ENOENT" by simp
    with "1.IH" [OF Inl s(1) _ s(2,3,4) "1.prems"(2)] show ?thesis by simp
  qed
qed

lemma opens_inside:
  assumes "prefix root canon" and "plain fs canon" and "rest = [] \<or> dirs fs canon \<and> node_at fs (canon @ [hd rest]) = None"
    and "opens_at fs (absolute (canon @ rest)) = Inr loc"
  shows "prefix root loc"
proof (cases rest)
  case Nil
  with walk_absolute_plain [OF assms(2), of Create "max_links fs" "[]"] assms(1,4) show ?thesis by (auto simp: opens_at_def)
next
  case (Cons x r)
  have a: "absolute (canon @ rest) = absolute canon @ Normal x # map Normal r" by (simp add: absolute_def Cons)
  have d: "dirs fs canon" "node_at fs (canon @ [x]) = None" using assms(3) Cons by auto
  from walk_absolute_dirs [OF d(1), of Create "max_links fs" "[]" "Normal x # map Normal r"] assms(4) d(2)
  have "loc = canon @ [x]" by (auto simp: opens_at_def a split: if_splits)
  with assms(1) show ?thesis by simp
qed

text \<open>Whether a path gets by without the slow check, and that it may.\<close>

lemma fast_path_plain:
  assumes "dirs fs root" and "case symlink_metadata fs (root @ [x]) of Inl e \<Rightarrow> e = ENOENT | Inr nd \<Rightarrow> \<not> is_symlink nd"
  shows "plain fs (root @ [x]) \<or> node_at fs (root @ [x]) = None"
proof -
  have a: "absolute (root @ [x]) = absolute root @ [Normal x]" by (simp add: absolute_def)
  have "node_at fs (root @ [x]) \<noteq> Some (Symlink t)" for t
    using walk_absolute_dirs [OF assms(1), of NoFollow "max_links fs" "[]" "[Normal x]"] assms(2)
    by (auto simp: symlink_metadata_def a is_symlink_def split: if_splits sum.splits)
  with assms(1) show ?thesis
    by (cases "node_at fs (root @ [x])") (auto simp: plain_def dirs_snoc intro: node.exhaust)
qed

text \<open>A path the jail accepts: a canonical part inside the root, and a part that does not exist.\<close>

lemma resolve_path_shape:
  assumes "resolve_path fs (Some root) path = Inr q" and "dirs fs root"
  shows "\<exists>canon rest. q = absolute (canon @ rest) \<and> prefix root canon \<and> plain fs canon \<and>
    (rest = [] \<or> dirs fs canon \<and> node_at fs (canon @ [hd rest]) = None)"
proof -
  have root: "node_at fs [] = Some Directory" using assms(2) by (simp add: dirs_def)
  let ?cand = "if is_absolute path then components path else absolute root @ components path"
  obtain resolved where nm: "normalize [] ?cand = Some resolved"
    using assms(1) by (cases "normalize [] ?cand") (auto simp: resolve_path_def Let_def)
  let ?fast = "prefix root resolved \<and> resolved \<noteq> [] \<and> butlast resolved = root \<and>
      (case symlink_metadata fs resolved of Inl e \<Rightarrow> e = ENOENT | Inr nd \<Rightarrow> \<not> is_symlink nd)"
  have "?fast \<and> q = absolute resolved \<or>
      (\<exists>inside out. existing_prefix fs root path inside resolved [] = Inr out \<and> q = absolute out)"
    using assms(1) nm by (cases ?fast; cases "existing_prefix fs root path (prefix root resolved) resolved []")
      (auto simp: resolve_path_def Let_def split: if_splits)
  then show ?thesis
  proof (elim disjE conjE exE)
    assume f: "q = absolute resolved" "butlast resolved = root" "resolved \<noteq> []"
      "case symlink_metadata fs resolved of Inl e \<Rightarrow> e = ENOENT | Inr nd \<Rightarrow> \<not> is_symlink nd"
    then obtain x where x: "resolved = root @ [x]" by (metis append_butlast_last_id)
    with f fast_path_plain [OF assms(2), of x] have "plain fs (root @ [x]) \<or> node_at fs (root @ [x]) = None" by simp
    moreover have "plain fs root" using assms(2) by (simp add: plain_def)
    ultimately have "plain fs (root @ [x]) \<and> q = absolute ((root @ [x]) @ []) \<or>
        plain fs root \<and> node_at fs (root @ [hd [x]]) = None \<and> q = absolute (root @ [x])" using f(1) x by auto
    with assms(2) show ?thesis by (metis prefixI prefix_order.refl)
  next
    fix inside out
    assume e: "existing_prefix fs root path inside resolved [] = Inr out" and q: "q = absolute out"
    from existing_prefix_result [OF e root] q show ?thesis by auto
  qed
qed

text \<open>
  C3: The jail holds. Whatever path a caller gives, absolute or relative, with any \<open>\<^verbatim>\<open>..\<close>\<close> in it and
  through any symbolic links in the file system, when the handle accepts it, an open of the resolved
  path, which follows links and may create the file, ends inside the root.
\<close>

theorem resolved_path_stays_in_root:
  assumes "resolve_path fs (Some root) path = Inr q" and "dirs fs root" and "opens_at fs q = Inr loc"
  shows "prefix root loc"
  using resolve_path_shape [OF assms(1,2)] opens_inside assms(3) by blast

section \<open>A concrete file system\<close>

text \<open>The root \<open>\<^verbatim>\<open>/r\<close>\<close> holds a link to \<open>\<^verbatim>\<open>d\<close>\<close>, a directory in it, and one to \<open>\<^verbatim>\<open>/\<close>\<close>.\<close>

definition demo_fs :: jail_fs where
  "demo_fs = \<lparr>node_at = (\<lambda>_. None)([] := Some Directory, [''r''] := Some Directory, [''r'', ''d''] := Some Directory,
       [''r'', ''l''] := Some (Symlink [Normal ''d'']), [''r'', ''out''] := Some (Symlink [RootDir])),
     no_search = (\<lambda>_. False), max_links = 40\<rparr>"

lemma demo_fs_root: "dirs demo_fs [''r'']"
  by (auto simp: dirs_def demo_fs_def prefix_Cons)

lemma demo_resolves: "resolve_path demo_fs (Some [''r'']) ''l/new'' = Inr (absolute [''r'', ''d'', ''new''])"
  by (simp add: resolve_path_def existing_prefix.simps canonicalize_def symlink_metadata_def demo_fs_def absolute_def components_def
      is_absolute_def component_of_def Let_def is_symlink_def)

text \<open>An escape through the other link is refused.\<close>

lemma demo_refused: "\<exists>e. resolve_path demo_fs (Some [''r'']) ''out/etc'' = Inl e"
  by (simp add: resolve_path_def existing_prefix.simps canonicalize_def symlink_metadata_def demo_fs_def absolute_def components_def
      is_absolute_def component_of_def Let_def is_symlink_def)

theorem resolved_path_stays_in_root_witness:
  "\<exists>loc. opens_at demo_fs (absolute [''r'', ''d'', ''new'']) = Inr loc \<and> prefix [''r''] loc"
proof -
  have o: "opens_at demo_fs (absolute [''r'', ''d'', ''new'']) = Inr [''r'', ''d'', ''new'']"
    by (simp add: opens_at_def demo_fs_def absolute_def)
  from resolved_path_stays_in_root [OF demo_resolves demo_fs_root o] o show ?thesis by blast
qed

section \<open>The root itself\<close>

text \<open>
  The root is accepted as a path of its own, and the temp file of a write is made next to its target:
  a write to \<open>\<^verbatim>\<open>.\<close>\<close> creates a file outside the root.
\<close>

lemma write_to_root_leaves_jail:
  assumes "dirs fs root" and "root \<noteq> []" and "\<And>p. \<not> no_search fs p" and "temp_env_ok env"
  shows "resolve_path fs (Some root) ''.'' = Inr (absolute root) \<and>
    \<not> prefix root (butlast root @ [temp_name env k (Some (last root))])"
proof -
  have n: "normalize acc (map Normal p @ [CurDir]) = Some (acc @ p)" for acc p
    by (induction p arbitrary: acc) simp_all
  have c: "components ''.'' = [CurDir]" by (simp add: components_def is_absolute_def)
  have ne: "butlast root \<noteq> root" using assms(2) by (metis append_butlast_last_id append_self_conv not_Cons_self2)
  have w: "walk fs Resolve n' cur (map Normal p) = Inr (cur @ p)" if "dirs fs (cur @ p)" for cur p n'
    using that
  proof (induction p arbitrary: cur)
    case (Cons x p)
    from Cons.prems dirs_prefix [of fs "cur @ [x]" p] have "node_at fs (cur @ [x]) = Some Directory" by (simp add: dirs_def)
    with Cons.IH [of "cur @ [x]"] Cons.prems assms(3) show ?case by simp
  qed simp
  have "canonicalize fs root = Inr root" using w [of "[]" root] assms(1) by (simp add: canonicalize_def absolute_def)
  then have "resolve_path fs (Some root) ''.'' = Inr (absolute root)"
    by (simp add: resolve_path_def c absolute_def n is_absolute_def Let_def ne existing_prefix.simps)
  moreover have "\<not> prefix root (butlast root @ [temp_name env k (Some (last root))])"
  proof
    let ?t = "temp_name env k (Some (last root))"
    assume "prefix root (butlast root @ [?t])"
    moreover have "\<not> prefix root (butlast root)" using assms(2) by (cases root rule: rev_cases) (auto dest!: prefix_length_le)
    ultimately have "root = butlast root @ [?t]" by (simp add: prefix_snoc)
    then have "last root = ?t" by (metis last_snoc)
    with temp_name_differs(1) [OF assms(4), of k "last root"] show False by simp
  qed
  ultimately show ?thesis by simp
qed

end
