(* ===== verification/Fsys_Reads.thy ===== *)
theory Fsys_Reads
  imports Fsys_Files "HOL-Library.Sublist"
begin

text \<open>
  Reads of the platform layer: \<open>read_all_direct\<close> and \<open>read_range\<close> of \<open>src/platform/linux.rs\<close>, the shared
  loop \<open>read_range_with\<close> of \<open>src/platform/mod.rs\<close> for regular files, and the ring's \<open>read_at\<close> with its
  chunking (\<open>src/platform/linux_iouring.rs\<close>). The results of the next calls come from the script of
  the disk; a read transfers nothing only at the end of the file.
\<close>

section \<open>Definitions\<close>

definition sys_pread :: "disk \<Rightarrow> int \<Rightarrow> nat \<Rightarrow> disk \<times> (io_error + bytes)" where
  "sys_pread d off len =
     (if off < 0 then (d, Inl (IoError InvalidInput ''Invalid argument (os error 22)''))
      else let bs = take len (drop (nat off) (contents d))
       in case script d of
            [] \<Rightarrow> (d, Inr bs)
          | SysErr e # s \<Rightarrow> (d\<lparr>script := s\<rparr>, Inl e)
          | SysN n # s \<Rightarrow> (d\<lparr>script := s\<rparr>, Inr (take (max 1 n) bs)))"

text \<open>
  The loop of both: retry when interrupted, go on after a short read, stop at the end of the file or
  when the buffer is full. \<open>pos\<close> is how the position of the next read is computed.
\<close>

function pread_loop ::
    "(nat \<Rightarrow> io_error + int) \<Rightarrow> disk \<Rightarrow> nat \<Rightarrow> bytes \<Rightarrow> disk \<times> bytes result" where
  "pread_loop pos d want acc =
     (if want \<le> length acc then (d, Inr acc)
      else case pos (length acc) of
          Inl e \<Rightarrow> (d, Inl (Io e))
        | Inr off \<Rightarrow>
            (case sys_pread d off (want - length acc) of
               (d', Inl e) \<Rightarrow>
                 if io_kind e = Interrupted then pread_loop pos d' want acc else (d', Inl (Io e))
             | (d', Inr bs) \<Rightarrow> if bs = [] then (d', Inr acc) else pread_loop pos d' want (acc @ bs)))"
  by pat_completeness auto
termination
  by (relation "measure (\<lambda>(pos, d, want, acc). length (script d) + (want - length acc))")
    (auto simp: sys_pread_def Let_def split: if_splits list.splits sys_result.splits)

declare pread_loop.simps [simp del]

definition read_all_direct :: "disk \<Rightarrow> nat \<Rightarrow> nat \<Rightarrow> disk \<times> bytes result" where
  "read_all_direct d fsize ss =
     (if fsize = 0 then (d, Inr [])
      else let aligned_len = round_up fsize ss
       in case aligned_buf_new d aligned_len ss of
            Inl e \<Rightarrow> (d, Inl e)
          | Inr _ \<Rightarrow>
              (case pread_loop (\<lambda>n. Inr (int n)) d aligned_len [] of
                 (d', Inl e) \<Rightarrow> (d', Inl e)
               | (d', Inr bs) \<Rightarrow> (d', Inr (take fsize bs))))"

definition RANGE_READ_GROW_STEP :: nat where
  "RANGE_READ_GROW_STEP = 65536"

text \<open>The position of a range read, with the overflow of the offset and its limit as an \<open>off_t\<close>.\<close>

definition range_pos :: "nat \<Rightarrow> nat \<Rightarrow> io_error + int" where
  "range_pos offset total_read =
     (case checked_add offset total_read of
        None \<Rightarrow> Inl (IoError InvalidInput ''read_range: offset overflow'')
      | Some p \<Rightarrow>
          if 2 ^ 63 \<le> p then Inl (IoError InvalidInput ''read_range: offset exceeds off_t'') else Inr (int p))"

text \<open>The buffer of a regular file: what it holds past the offset, rounded up.\<close>

definition range_buffer :: "nat \<Rightarrow> nat \<Rightarrow> nat \<Rightarrow> nat" where
  "range_buffer fsize offset len =
     (let available = fsize - offset
      in min len (case checked_add available (RANGE_READ_GROW_STEP - 1) of
                    None \<Rightarrow> u64_max
                  | Some v \<Rightarrow> v div RANGE_READ_GROW_STEP * RANGE_READ_GROW_STEP))"

definition read_range :: "disk \<Rightarrow> nat \<Rightarrow> nat \<Rightarrow> disk \<times> bytes result" where
  "read_range d offset len =
     pread_loop (range_pos offset) d (range_buffer (length (contents d)) offset len) []"

text \<open>One read of the ring, and the transfer over chunks; a failed read is an error of the transfer.\<close>

definition ring_read_step :: "disk \<Rightarrow> nat \<Rightarrow> nat \<Rightarrow> disk \<times> bytes result" where
  "ring_read_step d len off =
     (case sys_pread d (int off) len of (d', Inl e) \<Rightarrow> (d', Inl (Io e)) | (d', Inr bs) \<Rightarrow> (d', Inr bs))"

function transfer_read :: "disk \<Rightarrow> nat \<Rightarrow> nat \<Rightarrow> bytes \<Rightarrow> disk \<times> bytes result" where
  "transfer_read d want offset acc =
     (if want \<le> length acc then (d, Inr acc)
      else case advance offset (length acc) of
          Inl e \<Rightarrow> (d, Inl e)
        | Inr off \<Rightarrow>
            (case ring_read_step d (min (want - length acc) MAX_SQE_LEN) off of
               (d', Inl e) \<Rightarrow> (d', Inl e)
             | (d', Inr bs) \<Rightarrow> if bs = [] then (d', Inr acc) else transfer_read d' want offset (acc @ bs)))"
  by pat_completeness auto
termination
  by (relation "measure (\<lambda>(d, want, off, acc). want - length acc)") (auto intro!: diff_less_mono2)

declare transfer_read.simps [simp del]

definition ring_read_at :: "disk \<Rightarrow> nat \<Rightarrow> nat \<Rightarrow> disk \<times> bytes result" where
  "ring_read_at d len offset = transfer_read d len offset []"

definition iouring_read_direct :: "disk \<Rightarrow> nat \<Rightarrow> nat \<Rightarrow> disk \<times> bytes result" where
  "iouring_read_direct d fsize ss =
     (if fsize = 0 then (d, Inr [])
      else let aligned_len = padded_len fsize ss
       in case aligned_buf_new d aligned_len ss of
            Inl e \<Rightarrow> (d, Inl e)
          | Inr _ \<Rightarrow>
              (case ring_read_at d aligned_len 0 of
                 (d', Inl e) \<Rightarrow> (d', Inl e)
               | (d', Inr bs) \<Rightarrow>
                   if length bs < fsize then (d', Inl (other_error ''io_uring short read on Direct path''))
                   else (d', Inr (take fsize bs))))"

text \<open>The handle's Direct read: the ring when there is one, and the plain reads when it fails.\<close>

definition direct_read :: "disk \<Rightarrow> bool \<Rightarrow> nat \<Rightarrow> nat \<Rightarrow> disk \<times> bytes result" where
  "direct_read d ring fsize ss =
     (if ring then
        (case iouring_read_direct d fsize ss of
           (d', Inr bs) \<Rightarrow> (d', Inr bs)
         | (d', Inl _) \<Rightarrow> read_all_direct d' fsize ss)
      else read_all_direct d fsize ss)"

section \<open>What a read returns\<close>

lemma sys_pread_contents: "sys_pread d off len = (d', r) \<Longrightarrow> contents d' = contents d"
  by (auto simp: sys_pread_def Let_def split: if_splits list.splits sys_result.splits)

lemma sys_pread_data:
  assumes "sys_pread d (int off) len = (d', Inr bs)" and "0 < len"
  shows "prefix bs (drop off (contents d))" "length bs \<le> len" "bs = [] \<longleftrightarrow> length (contents d) \<le> off"
proof -
  obtain k where k: "bs = take k (take len (drop off (contents d)))" "0 < k"
    using assms by (auto simp: sys_pread_def Let_def split: if_splits list.splits sys_result.splits
        intro: that [of len] that [of "max 1 _"])
  then show "prefix bs (drop off (contents d))" "length bs \<le> len" by (simp_all add: take_is_prefix)
  show "bs = [] \<longleftrightarrow> length (contents d) \<le> off" using k assms(2) by auto
qed

lemma prefix_extend:
  assumes "prefix a (drop off xs)" and "prefix b (drop (off + length a) xs)"
  shows "prefix (a @ b) (drop off xs)"
proof -
  obtain c where c: "drop off xs = a @ c" using assms(1) by (auto simp: prefix_def)
  then have "drop (off + length a) xs = c" by (metis add.commute append_eq_conv_conj drop_drop)
  with assms(2) c show ?thesis by simp
qed

text \<open>A loop that returns has the bytes from its offset, and fewer than asked only at the end of the file.\<close>

definition reads_from :: "bytes \<Rightarrow> nat \<Rightarrow> nat \<Rightarrow> bytes \<Rightarrow> bool" where
  "reads_from F off want bs \<longleftrightarrow> bs = take want (drop off F)"

lemma reads_from_done:
  assumes "prefix acc (drop off F)" and "length acc \<le> want" and "length acc = want \<or> length F \<le> off + length acc"
  shows "acc = take want (drop off F)"
proof -
  obtain c where c: "drop off F = acc @ c" using assms(1) by (auto simp: prefix_def)
  have "length F - off = length acc + length c" using arg_cong [OF c, of length] by simp
  with assms(3) have "length acc = want \<or> c = []" by (cases c) auto
  with c assms(2) show ?thesis by auto
qed

lemma pread_loop_data:
  assumes "pread_loop pos d want acc = (d', Inr bs)" and "prefix acc (drop off (contents d))" and "length acc \<le> want"
    and "\<And>n p. pos n = Inr p \<Longrightarrow> p = int (off + n)"
  shows "bs = take want (drop off (contents d)) \<and> contents d' = contents d"
  using assms
proof (induction pos d want acc arbitrary: d' rule: pread_loop.induct)
  case (1 pos d want acc)
  note unf = pread_loop.simps [of pos d want acc]
  show ?case
  proof (cases "want \<le> length acc")
    case True
    with "1.prems"(1) have "bs = acc" "d' = d" by (simp_all add: unf)
    with reads_from_done [OF "1.prems"(2,3)] True "1.prems"(3) show ?thesis by simp
  next
    case False
    then obtain p where p: "pos (length acc) = Inr p" using "1.prems"(1) by (cases "pos (length acc)") (simp_all add: unf)
    then have po: "p = int (off + length acc)" using "1.prems"(4) by blast
    obtain d1 r1 where s: "sys_pread d p (want - length acc) = (d1, r1)" by fastforce
    have c: "contents d1 = contents d" by (rule sys_pread_contents [OF s])
    show ?thesis
    proof (cases r1)
      case (Inl e)
      with "1.prems"(1) False p s have "io_kind e = Interrupted" "pread_loop pos d1 want acc = (d', Inr bs)"
        by (auto simp: unf split: if_splits)
      with "1.IH"(1) [OF False p s [symmetric] Inl _ _ _ "1.prems"(3,4)] "1.prems"(2) c show ?thesis by simp
    next
      case (Inr b)
      have s': "sys_pread d (int (off + length acc)) (want - length acc) = (d1, Inr b)" using s po Inr by simp
      note sd = sys_pread_data [OF s']
      have ln: "0 < want - length acc" using False by simp
      show ?thesis
      proof (cases "b = []")
        case True
        with "1.prems"(1) False p s Inr have "bs = acc" "d' = d1" by (simp_all add: unf)
        moreover have "length (contents d) \<le> off + length acc" using sd(3) [OF ln] True by simp
        ultimately show ?thesis using reads_from_done [OF "1.prems"(2,3)] c by simp
      next
        case ne: False
        with "1.prems"(1) False p s Inr have n: "pread_loop pos d1 want (acc @ b) = (d', Inr bs)" by (simp add: unf)
        have pre: "prefix (acc @ b) (drop off (contents d1))"
          using prefix_extend [OF "1.prems"(2)] sd(1) [OF ln] c by simp
        have "length (acc @ b) \<le> want" using sd(2) [OF ln] False by simp
        from "1.IH"(2) [OF False p s [symmetric] Inr ne n pre this "1.prems"(4)] c show ?thesis by simp
      qed
    qed
  qed
qed

lemma transfer_read_data:
  assumes "transfer_read d want off acc = (d', r)" and "prefix acc (drop off (contents d))" and "length acc \<le> want"
  shows "contents d' = contents d \<and> (\<forall>bs. r = Inr bs \<longrightarrow> bs = take want (drop off (contents d)))"
  using assms
proof (induction d want off acc arbitrary: d' rule: transfer_read.induct)
  case (1 d want off acc)
  note unf = transfer_read.simps [of d want off acc]
  show ?case
  proof (cases "want \<le> length acc \<or> u64_max < off + length acc")
    case True
    with "1.prems" reads_from_done [OF "1.prems"(2,3)] show ?thesis
      by (cases "want \<le> length acc") (auto simp: unf advance_def split: option.splits)
  next
    case False
    then have f: "\<not> want \<le> length acc" and a: "advance off (length acc) = Inr (off + length acc)"
      using advance_ok [of off "length acc"] by auto
    let ?len = "min (want - length acc) MAX_SQE_LEN"
    have ln: "0 < ?len" "?len \<le> want - length acc" using f by (simp_all add: MAX_SQE_LEN_def)
    obtain d1 r1 where s: "ring_read_step d ?len (off + length acc) = (d1, r1)" by fastforce
    then obtain r0 where p: "sys_pread d (int (off + length acc)) ?len = (d1, r0)"
      "r1 = (case r0 of Inl e \<Rightarrow> Inl (Io e) | Inr bs \<Rightarrow> Inr bs)"
      by (auto simp: ring_read_step_def split: prod.splits sum.splits)
    have c: "contents d1 = contents d" by (rule sys_pread_contents [OF p(1)])
    show ?thesis
    proof (cases r1)
      case (Inl e)
      with "1.prems"(1) f a s have "d' = d1" "r = Inl e" by (simp_all add: unf)
      with c show ?thesis by simp
    next
      case (Inr b)
      then have p': "sys_pread d (int (off + length acc)) ?len = (d1, Inr b)" using p by (auto split: sum.splits)
      note sd = sys_pread_data [OF p' ln(1)]
      show ?thesis
      proof (cases "b = []")
        case True
        with "1.prems"(1) f a s Inr have "r = Inr acc" "d' = d1" by (simp_all add: unf)
        moreover have "length (contents d) \<le> off + length acc" using sd(3) True by simp
        ultimately show ?thesis using reads_from_done [OF "1.prems"(2,3)] c by simp
      next
        case ne: False
        with "1.prems"(1) f a s Inr have n: "transfer_read d1 want off (acc @ b) = (d', r)" by (simp add: unf)
        have pre: "prefix (acc @ b) (drop off (contents d1))" using prefix_extend [OF "1.prems"(2) sd(1)] c by simp
        have "length (acc @ b) \<le> want" using le_trans [OF sd(2) ln(2)] f by simp
        from "1.IH" [OF f a s [symmetric] Inr ne n pre this] c show ?thesis by simp
      qed
    qed
  qed
qed

lemma read_all_direct_data:
  assumes "read_all_direct d (length (contents d)) ss = (d', Inr bs)" and "length (contents d) < 2 ^ 62" and "ss \<le> 2 ^ 62"
  shows "bs = contents d"
proof (cases "contents d = []")
  case True
  with assms(1) show ?thesis by (simp add: read_all_direct_def)
next
  case False
  let ?n = "length (contents d)"
  obtain block where b: "aligned_buf_new d (round_up ?n ss) ss = Inr block"
    using assms(1) False by (auto simp: read_all_direct_def Let_def split: sum.splits)
  then have ss: "is_power_of_two ss" by (simp add: aligned_buf_new_def split: if_splits)
  then have "?n \<le> round_up ?n ss"
    using padded_len_le [of ss ?n] by (simp add: round_up_padded [OF ss assms(2,3)] is_power_of_two_def) fastforce
  moreover obtain bs0 where "pread_loop (\<lambda>n. Inr (int n)) d (round_up ?n ss) [] = (d', Inr bs0)" "bs = take ?n bs0"
    using assms(1) False b by (auto simp: read_all_direct_def Let_def split: prod.splits sum.splits)
  ultimately show ?thesis
    using pread_loop_data [of "\<lambda>n. Inr (int n)" d "round_up ?n ss" "[]" d' bs0 0] by simp
qed

lemma iouring_read_direct_data:
  assumes "iouring_read_direct d (length (contents d)) ss = (d', r)"
  shows "contents d' = contents d" "\<And>bs. r = Inr bs \<Longrightarrow> bs = contents d"
proof -
  let ?n = "length (contents d)"
  obtain d1 r1 where t: "ring_read_at d (padded_len ?n ss) 0 = (d1, r1)" by fastforce
  have td: "contents d1 = contents d" "\<And>b. r1 = Inr b \<Longrightarrow> b = take (padded_len ?n ss) (contents d)"
    using transfer_read_data [OF t [unfolded ring_read_at_def]] by auto
  show "contents d' = contents d" "\<And>bs. r = Inr bs \<Longrightarrow> bs = contents d"
    using assms t td
    by (auto simp: iouring_read_direct_def Let_def split: if_splits sum.splits)
qed

lemma direct_read_data:
  assumes "direct_read d ring (length (contents d)) ss = (d', Inr bs)" and "length (contents d) < 2 ^ 62" and "ss \<le> 2 ^ 62"
  shows "bs = contents d"
proof -
  obtain d1 r1 where u: "iouring_read_direct d (length (contents d)) ss = (d1, r1)" by fastforce
  note ud = iouring_read_direct_data [OF u]
  from assms(1) consider "read_all_direct d (length (contents d)) ss = (d', Inr bs)"
    | "r1 = Inr bs" | "read_all_direct d1 (length (contents d1)) ss = (d', Inr bs)"
    using u ud(1) by (auto simp: direct_read_def split: if_splits sum.splits)
  then show ?thesis
    using read_all_direct_data [of d ss d' bs] read_all_direct_data [of d1 ss d' bs] ud assms(2,3) by cases simp_all
qed

lemma range_buffer_enough:
  assumes "n \<le> u64_max"
  shows "min len (n - off) \<le> range_buffer n off len" "range_buffer n off len \<le> len"
proof -
  let ?a = "n - off"
  have "?a \<le> (?a + 65535) div 65536 * 65536"
  proof -
    have "?a + 65535 = (?a + 65535) div 65536 * 65536 + (?a + 65535) mod 65536" by simp
    moreover have "(?a + 65535) mod 65536 \<le> 65535" by (simp add: less_Suc_eq_le [symmetric])
    ultimately show ?thesis by linarith
  qed
  with assms show "min len ?a \<le> range_buffer n off len"
    by (auto simp: range_buffer_def Let_def RANGE_READ_GROW_STEP_def checked_add_def)
  show "range_buffer n off len \<le> len" by (simp add: range_buffer_def Let_def)
qed

lemma range_pos_Inr: "range_pos off n = Inr p \<Longrightarrow> p = int (off + n)"
  by (auto simp: range_pos_def split: option.splits if_splits)

lemma read_range_data:
  assumes "read_range d off len = (d', Inr bs)" and "length (contents d) \<le> u64_max"
  shows "bs = take len (drop off (contents d))"
proof -
  let ?w = "range_buffer (length (contents d)) off len"
  have "bs = take ?w (drop off (contents d))"
    using pread_loop_data [OF assms(1) [unfolded read_range_def], of off] range_pos_Inr by simp
  moreover have "take ?w (drop off (contents d)) = take len (drop off (contents d))"
  proof (cases "?w = len")
    case False
    with range_buffer_enough [OF assms(2), where len = len and off = off]
    have "length (drop off (contents d)) \<le> ?w" "length (drop off (contents d)) \<le> len" by simp_all
    then show ?thesis by simp
  qed simp
  ultimately show ?thesis by simp
qed

end
