(* ===== verification/Fsys_Crud.thy ===== *)
theory Fsys_Crud
  imports Fsys_Batch Fsys_Reads
begin

text \<open>
  The file operations of a handle (\<open>src/crud/file.rs\<close>, the solo lane) and the memory-mapped write and
  read of \<open>src/method/mmap.rs\<close>, over the store of \<open>Fsys_Replace\<close>. What path resolution answers, the
  sector and page size and whether there is a ring are the handle's configuration. The mapping crate
  is known by its contract only: a mapping is made or refused, a store through it lands in the file,
  and its flush succeeds or fails. Files are regular files; metadata other than the size is not
  modelled.
\<close>

section \<open>The handle\<close>

record handle =
  resolve :: "path \<Rightarrow> path result"
  h_sector :: nat
  h_ring :: bool
  h_nvme :: bool
  page_size :: nat

definition replace_plan_of :: "machine \<Rightarrow> replace_plan" where
  "replace_plan_of m =
     \<lparr>plan_direct = use_direct (methods m), plan_flush = flush_for_method (active_method (methods m)),
      plan_sync_parent = True\<rparr>"

definition fall_back :: "meth \<Rightarrow> machine \<Rightarrow> machine" where
  "fall_back a m = m\<lparr>methods := update_active_method a (methods m)\<rparr>"

section \<open>Writing through a mapping\<close>

definition is_suitable_for_write :: "handle \<Rightarrow> nat \<Rightarrow> bool" where
  "is_suitable_for_write h n \<longleftrightarrow> n \<noteq> 0 \<and> page_size h \<le> n"

text \<open>An exclusive create through the standard library.\<close>

definition std_create_new :: "machine \<Rightarrow> path \<Rightarrow> machine \<times> nat result" where
  "std_create_new m p =
     (if CHR 0x00 \<in> set (path_text p) then
        (m, Inl (Io (IoError InvalidInput ''file name contained an unexpected NUL byte'')))
      else case sys_creat_excl m p of (m1, Inl e) \<Rightarrow> (m1, Inl (Io e)) | (m1, Inr i) \<Rightarrow> (m1, Inr i))"

definition mmap_failed :: "string \<Rightarrow> io_error \<Rightarrow> error" where
  "mmap_failed s e = MmapFailed (s @ (case e of IoError _ t \<Rightarrow> t))"

text \<open>Storing the data through the mapping, which is as long as the file.\<close>

definition map_store :: "nat \<Rightarrow> bytes \<Rightarrow> machine \<Rightarrow> machine" where
  "map_store i data m =
     put_store ((now m)\<lparr>data_of := (data_of (now m))(i := copy_at 0 data (data_of (now m) i))\<rparr>) m"

text \<open>Sizing the temp file, mapping it, storing, flushing the mapping, and the fsync for the size.\<close>

definition mmap_fill :: "machine \<Rightarrow> nat \<Rightarrow> bytes \<Rightarrow> machine \<times> unit result" where
  "mmap_fill m i data =
     (case sys_ftruncate m i (length data) of
        (m1, Inl e) \<Rightarrow> (m1, Inl (AtomicReplaceFailed ''set_len'' (as_io_error e)))
      | (m1, Inr _) \<Rightarrow>
          (case next_call m1 of
             (m2, Some e) \<Rightarrow> (m2, Inl (mmap_failed ''RawMmapMut::map_mut failed for temp: '' e))
           | (m2, None) \<Rightarrow>
               (case next_call (map_store i data m2) of
                  (m3, Some e) \<Rightarrow> (m3, Inl (mmap_failed ''RawMmapMut::flush (msync/FlushViewOfFile) failed: '' e))
                | (m3, None) \<Rightarrow>
                    (case sys_fsync m3 i of
                       (m4, Inl e) \<Rightarrow> (m4, Inl (mmap_failed ''fsync of mmap temp file failed: '' (as_io_error e)))
                     | (m4, Inr _) \<Rightarrow> (m4, Inr ())))))"

definition mmap_write :: "temp_env \<Rightarrow> handle \<Rightarrow> machine \<Rightarrow> path \<Rightarrow> bytes \<Rightarrow> machine \<times> unit result" where
  "mmap_write env h m p data =
     (if \<not> is_suitable_for_write h (length data) then
        (m, Inl (MmapFailed (''payload of '' @ show_nat (length data) @
           '' bytes is below page size; caller should fall back to Sync'')))
      else case with_unique_temp env p std_create_new m of
          (m1, Inl e) \<Rightarrow> (m1, Inl (step_err ''open_temp'' e))
        | (m1, Inr (temp, i)) \<Rightarrow>
            (case mmap_fill m1 i data of
               (m2, Inl e) \<Rightarrow> (drop_guard m2 temp, Inl e)
             | (m2, Inr _) \<Rightarrow>
                 (case atomic_rename m2 temp p of
                    (m3, Inl e) \<Rightarrow> (drop_guard m3 temp, Inl (step_err ''rename'' e))
                  | (m3, Inr _) \<Rightarrow> (fst (sync_parent_dir m3 p), Inr ()))))"

section \<open>Writing\<close>

definition write_unobserved :: "temp_env \<Rightarrow> handle \<Rightarrow> machine \<Rightarrow> path \<Rightarrow> bytes \<Rightarrow> machine \<times> unit result" where
  "write_unobserved env h m path data =
     (case resolve h path of
        Inl e \<Rightarrow> (m, Inl e)
      | Inr p \<Rightarrow>
          if active_method (methods m) = MMmap \<and> is_suitable_for_write h (length data) then mmap_write env h m p data
          else
            let m1 = (if active_method (methods m) = MMmap then fall_back MSync m else m)
            in atomic_replace env (SoloHooks (h_ring h) (h_nvme h) (h_sector h)) (replace_plan_of m1) m1 p data)"

definition write_copy :: "temp_env \<Rightarrow> handle \<Rightarrow> machine \<Rightarrow> path \<Rightarrow> bytes \<Rightarrow> machine \<times> unit result" where
  "write_copy env h m path data =
     (case resolve h path of
        Inl e \<Rightarrow> (m, Inl e)
      | Inr p \<Rightarrow>
          (case next_call m of
             (m1, c) \<Rightarrow>
               atomic_replace env (WriteCopyHooks (h_ring h) (h_nvme h) (h_sector h) (c = None \<and> names (now m1) p \<noteq> None))
                 (replace_plan_of m1) m1 p data))"

text \<open>An open that creates a missing file and keeps an existing one.\<close>

definition open_create :: "machine \<Rightarrow> path \<Rightarrow> machine \<times> nat result" where
  "open_create m p =
     (if CHR 0x00 \<in> set (path_text p) then
        (m, Inl (Io (IoError InvalidInput ''file name contained an unexpected NUL byte'')))
      else case names (now m) p of
          Some i \<Rightarrow> (case next_call m of (m1, Some e) \<Rightarrow> (m1, Inl (Io e)) | (m1, None) \<Rightarrow> (m1, Inr i))
        | None \<Rightarrow> (case sys_creat_excl m p of (m1, Inl e) \<Rightarrow> (m1, Inl (Io e)) | (m1, Inr i) \<Rightarrow> (m1, Inr i)))"

text \<open>\<open>write_all\<close> of the standard library on a file opened for appending.\<close>

function append_loop :: "disk \<Rightarrow> bytes \<Rightarrow> disk \<times> unit result" where
  "append_loop d data =
     (if data = [] then (d, Inr ())
      else case sys_pwrite d (int (length (contents d))) data of
          (d', SysErr e) \<Rightarrow> if io_kind e = Interrupted then append_loop d' data else (d', Inl (Io e))
        | (d', SysN n) \<Rightarrow>
            if n = 0 then (d', Inl (Io (IoError WriteZero ''failed to write whole buffer'')))
            else append_loop d' (drop n data))"
  by pat_completeness auto
termination
  by (relation "measure (\<lambda>(d, data). length (script d) + length data)")
    (auto simp: sys_pwrite_def Let_def split: if_splits list.splits sys_result.splits)

declare append_loop.simps [simp del]

definition append_op :: "handle \<Rightarrow> machine \<Rightarrow> path \<Rightarrow> bytes \<Rightarrow> machine \<times> unit result" where
  "append_op h m path data =
     (case resolve h path of
        Inl e \<Rightarrow> (m, Inl e)
      | Inr p \<Rightarrow>
          (case open_create m p of
             (m1, Inl e) \<Rightarrow> (m1, Inl e)
           | (m1, Inr i) \<Rightarrow> with_file i (\<lambda>d. append_loop d data) m1))"

definition write_at_op :: "handle \<Rightarrow> machine \<Rightarrow> path \<Rightarrow> nat \<Rightarrow> bytes \<Rightarrow> machine \<times> unit result" where
  "write_at_op h m path offset data =
     (case resolve h path of
        Inl e \<Rightarrow> (m, Inl e)
      | Inr p \<Rightarrow>
          (case open_create m p of
             (m1, Inl e) \<Rightarrow> (m1, Inl e)
           | (m1, Inr i) \<Rightarrow> with_file i (\<lambda>d. write_at d offset data) m1))"

section \<open>Reading\<close>

definition with_reader :: "nat \<Rightarrow> (disk \<Rightarrow> disk \<times> 'a) \<Rightarrow> machine \<Rightarrow> machine \<times> 'a" where
  "with_reader i f m =
     (case f \<lparr>contents = data_of (now m) i, script = kernel m, oom = no_mem m\<rparr> of (d, r) \<Rightarrow> (m\<lparr>kernel := script d\<rparr>, r))"

definition open_read :: "machine \<Rightarrow> path \<Rightarrow> bool \<Rightarrow> machine \<times> (nat \<times> bool) result" where
  "open_read m p want_direct =
     (case path_to_cstr p of
        Inl e \<Rightarrow> (m, Inl e)
      | Inr _ \<Rightarrow>
          (case sys_open_existing m p of
             (m1, Inr i) \<Rightarrow> (m1, Inr (i, want_direct))
           | (m1, Inl e) \<Rightarrow>
               if want_direct \<and> e = Io einval then
                 (case sys_open_existing m1 p of
                    (m2, Inr i) \<Rightarrow> (m2, Inr (i, False))
                  | (m2, Inl e2) \<Rightarrow> (m2, Inl e2))
               else (m1, Inl e)))"

text \<open>\<open>read_to_end\<close>, and the copy out of a read-only mapping.\<close>

definition read_all :: "machine \<Rightarrow> nat \<Rightarrow> machine \<times> bytes result" where
  "read_all m i =
     (case next_call m of (m1, Some e) \<Rightarrow> (m1, Inl (Io e)) | (m1, None) \<Rightarrow> (m1, Inr (data_of (now m1) i)))"

definition metadata_len :: "machine \<Rightarrow> path \<Rightarrow> machine \<times> (io_error + nat)" where
  "metadata_len m p =
     (case next_call m of
        (m1, Some e) \<Rightarrow> (m1, Inl e)
      | (m1, None) \<Rightarrow>
          (case names (now m1) p of
             None \<Rightarrow> (m1, Inl (IoError NotFound ''No such file or directory (os error 2)''))
           | Some i \<Rightarrow> (m1, Inr (length (data_of (now m1) i)))))"

definition file_len :: "machine \<Rightarrow> nat \<Rightarrow> machine \<times> nat result" where
  "file_len m i =
     (case next_call m of (m1, Some e) \<Rightarrow> (m1, Inl (Io e)) | (m1, None) \<Rightarrow> (m1, Inr (length (data_of (now m1) i))))"

definition mmap_read :: "handle \<Rightarrow> machine \<Rightarrow> path \<Rightarrow> machine \<times> bytes result" where
  "mmap_read h m p =
     (case sys_open_existing m p of
        (m1, Inl e) \<Rightarrow> (m1, Inl e)
      | (m1, Inr i) \<Rightarrow>
          (case file_len m1 i of
             (m2, Inl e) \<Rightarrow> (m2, Inl e)
           | (m2, Inr n) \<Rightarrow>
               if \<not> is_suitable_for_write h n then
                 (m2, Inl (MmapFailed (''file is unsuitable for mmap (size='' @ show_nat n @
                    '', is_file=true); caller should fall back to Sync'')))
               else
                 (case next_call m2 of
                    (m3, Some e) \<Rightarrow> (m3, Inl (mmap_failed ''RawMmap::map failed: '' e))
                  | (m3, None) \<Rightarrow> (m3, Inr (data_of (now m3) i)))))"

definition plain_read :: "handle \<Rightarrow> machine \<Rightarrow> path \<Rightarrow> machine \<times> bytes result" where
  "plain_read h m p =
     (case open_read m p (use_direct (methods m)) of
        (m1, Inl e) \<Rightarrow> (m1, Inl e)
      | (m1, Inr (i, direct_ok)) \<Rightarrow>
          let m2 = (if use_direct (methods m1) \<and> \<not> direct_ok then fall_back MData m1 else m1)
          in if direct_ok then
               (case file_len m2 i of
                  (m3, Inl e) \<Rightarrow> (m3, Inl e)
                | (m3, Inr n) \<Rightarrow> with_reader i (\<lambda>d. direct_read d (h_ring h) n (h_sector h)) m3)
             else read_all m2 i)"

definition read_unobserved :: "handle \<Rightarrow> machine \<Rightarrow> path \<Rightarrow> machine \<times> bytes result" where
  "read_unobserved h m path =
     (case resolve h path of
        Inl e \<Rightarrow> (m, Inl e)
      | Inr p \<Rightarrow>
          if active_method (methods m) = MMmap then
            (case metadata_len m p of
               (m1, r) \<Rightarrow>
                 if (case r of Inl _ \<Rightarrow> False | Inr n \<Rightarrow> is_suitable_for_write h n) then mmap_read h m1 p
                 else plain_read h (fall_back MSync m1) p)
          else plain_read h m p)"

definition read_at_op :: "handle \<Rightarrow> machine \<Rightarrow> path \<Rightarrow> nat \<Rightarrow> nat \<Rightarrow> machine \<times> bytes result" where
  "read_at_op h m path offset len =
     (case resolve h path of
        Inl e \<Rightarrow> (m, Inl e)
      | Inr p \<Rightarrow>
          (case open_read m p False of
             (m1, Inl e) \<Rightarrow> (m1, Inl e)
           | (m1, Inr (i, _)) \<Rightarrow>
               (case file_len m1 i of
                  (m2, Inl e) \<Rightarrow> (m2, Inl e)
                | (m2, Inr n) \<Rightarrow>
                    let clamped = min len (n - offset)
                    in if clamped = 0 then (m2, Inr [])
                       else with_reader i (\<lambda>d. read_range d offset clamped) m2)))"

section \<open>Names and sizes\<close>

definition delete_op :: "handle \<Rightarrow> machine \<Rightarrow> path \<Rightarrow> machine \<times> unit result" where
  "delete_op h m path =
     (case resolve h path of
        Inl e \<Rightarrow> (m, Inl e)
      | Inr p \<Rightarrow>
          (case remove_file m p of
             (m1, Inr _) \<Rightarrow> (fst (sync_parent_dir m1 p), Inr ())
           | (m1, Inl e) \<Rightarrow> if io_kind e = NotFound then (m1, Inr ()) else (m1, Inl (Io e))))"

definition exists_op :: "handle \<Rightarrow> machine \<Rightarrow> path \<Rightarrow> machine \<times> bool result" where
  "exists_op h m path =
     (case resolve h path of
        Inl e \<Rightarrow> (m, Inl e)
      | Inr p \<Rightarrow>
          (case metadata_len m p of
             (m1, Inr _) \<Rightarrow> (m1, Inr True)
           | (m1, Inl e) \<Rightarrow> if io_kind e = NotFound then (m1, Inr False) else (m1, Inl (Io e))))"

definition size_op :: "handle \<Rightarrow> machine \<Rightarrow> path \<Rightarrow> machine \<times> nat result" where
  "size_op h m path =
     (case resolve h path of
        Inl e \<Rightarrow> (m, Inl e)
      | Inr p \<Rightarrow> (case metadata_len m p of (m1, Inr n) \<Rightarrow> (m1, Inr n) | (m1, Inl e) \<Rightarrow> (m1, Inl (Io e))))"

definition truncate_op :: "handle \<Rightarrow> machine \<Rightarrow> path \<Rightarrow> nat \<Rightarrow> machine \<times> unit result" where
  "truncate_op h m path new_size =
     (case resolve h path of
        Inl e \<Rightarrow> (m, Inl e)
      | Inr p \<Rightarrow>
          (case sys_open_existing m p of
             (m1, Inl e) \<Rightarrow> (m1, Inl e)
           | (m1, Inr i) \<Rightarrow>
               if 2 ^ 63 \<le> new_size then
                 (m1, Inl (Io (IoError InvalidInput ''out of range integral type conversion attempted'')))
               else sys_ftruncate m1 i new_size))"

definition rename_op :: "handle \<Rightarrow> machine \<Rightarrow> path \<Rightarrow> path \<Rightarrow> machine \<times> unit result" where
  "rename_op h m old new =
     (case resolve h old of
        Inl e \<Rightarrow> (m, Inl e)
      | Inr a \<Rightarrow> (case resolve h new of Inl e \<Rightarrow> (m, Inl e) | Inr b \<Rightarrow> atomic_rename m a b))"

definition sync_op :: "handle \<Rightarrow> machine \<Rightarrow> path \<Rightarrow> machine \<times> unit result" where
  "sync_op h m path =
     (case resolve h path of
        Inl e \<Rightarrow> (m, Inl e)
      | Inr p \<Rightarrow> (case sys_open_existing m p of (m1, Inl e) \<Rightarrow> (m1, Inl e) | (m1, Inr i) \<Rightarrow> sys_fsync m1 i))"

text \<open>
  \<open>std::fs::copy\<close> opens the source, creates or truncates the destination, and copies in pieces: what
  the source holds after the truncation, which is nothing when both are one file.
\<close>

definition copy_op :: "handle \<Rightarrow> machine \<Rightarrow> path \<Rightarrow> path \<Rightarrow> machine \<times> nat result" where
  "copy_op h m src dst =
     (case resolve h src of
        Inl e \<Rightarrow> (m, Inl e)
      | Inr s \<Rightarrow>
          (case resolve h dst of
             Inl e \<Rightarrow> (m, Inl e)
           | Inr d \<Rightarrow>
               (case sys_open_existing m s of
                  (m1, Inl e) \<Rightarrow> (m1, Inl e)
                | (m1, Inr i) \<Rightarrow>
                    (case open_create m1 d of
                       (m2, Inl e) \<Rightarrow> (m2, Inl e)
                     | (m2, Inr j) \<Rightarrow>
                         let m3 = put_store ((now m2)\<lparr>data_of := (data_of (now m2))(j := [])\<rparr>) m2;
                             data = data_of (now m3) i
                         in (case with_file j (\<lambda>f. append_loop f data) m3 of
                               (m4, Inl e) \<Rightarrow> (m4, Inl e)
                             | (m4, Inr _) \<Rightarrow> (m4, Inr (length data)))))))"

section \<open>The mapped write replaces atomically too\<close>

lemma std_create_new_creates: "creates std_create_new (\<lambda>i. i)"
  unfolding creates_def
proof (intro allI impI)
  fix m q m' and r :: "nat result"
  assume o: "std_create_new m q = (m', r)"
  obtain m1 r1 where c: "sys_creat_excl m q = (m1, r1)" by fastforce
  from sys_creat_excl_cases [OF c] o c
  show "(\<exists>e. r = Inl e \<and> now m' = now m \<and> past m' = past m \<and> (calls m = [] \<longrightarrow> calls m' = [])) \<or>
    (\<exists>v. r = Inr v \<and> created m q v m')"
    by (auto simp: std_create_new_def created_def split: if_splits sum.splits)
qed

lemma map_store_effect:
  assumes "length (data_of (now m) i) = length data"
  shows "touches i m (map_store i data m)" "data_of (now (map_store i data m)) i = data"
  using assms by (auto simp: map_store_def same_but_def copy_at_def intro!: goes_put)

lemma mmap_fill_effect:
  assumes "mmap_fill m i data = (m', r)"
  shows "touches i m m' \<and> (r = Inr () \<longrightarrow> durable_as m' i data)"
proof -
  obtain m1 r1 where t: "sys_ftruncate m i (length data) = (m1, r1)" by fastforce
  note te = sys_ftruncate_effect [OF t]
  obtain m2 c2 where c2: "next_call m1 = (m2, c2)" by fastforce
  have n2: "touches i m1 m2" using next_call_keeps [OF c2] by (intro goes_same) simp_all
  obtain m3 c3 where c3: "next_call (map_store i data m2) = (m3, c3)" by fastforce
  have n3: "touches i (map_store i data m2) m3" using next_call_keeps [OF c3] by (intro goes_same) simp_all
  obtain m4 r4 where f: "sys_fsync m3 i = (m4, r4)" by fastforce
  note fe = sys_fsync_effect [OF f]
  show ?thesis
  proof (cases r1)
    case (Inl e)
    with assms t te(1) show ?thesis by (auto simp: mmap_fill_def)
  next
    case r1: (Inr u)
    have t2: "touches i m m2" by (rule touches_trans [OF te(1) n2])
    show ?thesis
    proof (cases c2)
      case (Some e)
      with assms t r1 c2 t2 show ?thesis by (auto simp: mmap_fill_def)
    next
      case None
      have "length (data_of (now m2) i) = length data"
        using te(2) r1 next_call_keeps(1) [OF c2] by (simp add: resize_def)
      note ms = map_store_effect [OF this]
      have t3: "touches i m m3" by (rule touches_trans [OF touches_trans [OF t2 ms(1)] n3])
      have d3: "data_of (now m3) i = data" using ms(2) next_call_keeps(1) [OF c3] by simp
      have t4: "touches i m m4" by (rule touches_trans [OF t3 fe(1)])
      from assms t r1 c2 None c3 f t3 t4 fe(2,3) d3 show ?thesis
        by (cases c3; cases r4) (auto simp: mmap_fill_def durable_as_def)
    qed
  qed
qed

lemma mmap_write_run:
  assumes "mmap_write env h m p data = (m', r)" and "temp_env_ok env" and "wf_store (now m)"
  shows "replaced_if sf is_temp True m p data m' (r = Inr ())"
proof (cases "is_suitable_for_write h (length data)")
  case False
  with assms(1) have "m' = m" "r \<noteq> Inr ()" by (auto simp: mmap_write_def)
  with replaced_unborn [OF assms(2), of m m] show ?thesis by simp
next
  case True
  obtain m1 r1 where c: "with_unique_temp env p std_create_new m = (m1, r1)" by fastforce
  from unique_temp_cases [OF assms(2) c [unfolded with_unique_temp_def] std_create_new_creates] show ?thesis
  proof (elim disjE exE conjE)
    fix e assume "r1 = Inl e" "now m1 = now m" "past m1 = past m" "calls m = [] \<longrightarrow> calls m1 = []"
    with assms(1) True c replaced_unborn [OF assms(2), of m1 m] show ?thesis by (auto simp: mmap_write_def)
  next
    fix t i assume r1: "r1 = Inr (t, i)" and ne: "t \<noteq> p" and tm: "is_temp t" and cr: "created m t i m1"
    obtain m3 r3 where w: "mmap_fill m1 i data = (m3, r3)" by fastforce
    note w3 = mmap_fill_effect [OF w]
    note fill = cr conjunct1 [OF w3] ne tm
    obtain m4 r4 where rn: "atomic_rename m3 t p = (m4, r4)" by fastforce
    show ?thesis
    proof (cases r3)
      case (Inl e)
      with assms(1) True c r1 w have "m' = drop_guard m3 t" "r \<noteq> Inr ()" by (auto simp: mmap_write_def)
      with replaced_dropped [where T = is_temp, OF fill, of m3] show ?thesis by simp
    next
      case (Inr u)
      with w3 have d: "held_as False m3 i data" by (simp add: durable_held)
      show ?thesis
        using assms(1) True c r1 w Inr rn replaced_rename_failed [where T = is_temp, OF fill d]
          replaced_published [where T = is_temp, OF fill d _ assms(3), where sync = True and sf = sf]
        by (cases r4) (auto simp: mmap_write_def)
    qed
  qed
qed

lemma replaced_cong:
  assumes "replaced_if sf T sync m1 p data m' ok" and "now m1 = now m" and "past m1 = past m" and "calls m = [] \<Longrightarrow> calls m1 = []"
  shows "replaced_if sf T sync m p data m' ok"
proof (cases ok)
  case True
  with assms(1) show ?thesis unfolding replaced_if_def assms(2,3) using assms(4) by simp blast
next
  case False
  with assms(1) show ?thesis unfolding replaced_if_def assms(2,3) using assms(4) by simp blast
qed

lemma write_run:
  assumes "write_unobserved env h m path data = (m', r)" and "resolve h path = Inr p"
    and "temp_env_ok env" and "wf_store (now m)" and "length data < 2 ^ 62" and "h_sector h \<le> 2 ^ 62"
    and "sf \<longrightarrow> h_nvme h \<longrightarrow> ordered_meta (now m)"
  shows "replaced_if sf is_temp True m p data m' (r = Inr ())"
proof (cases "active_method (methods m) = MMmap \<and> is_suitable_for_write h (length data)")
  case True
  with assms(1,2) mmap_write_run [OF _ assms(3,4), of h p data m' r] show ?thesis by (simp add: write_unobserved_def)
next
  case False
  define m1 where "m1 = (if active_method (methods m) = MMmap then fall_back MSync m else m)"
  have k: "now m1 = now m" "past m1 = past m" "calls m1 = calls m" by (simp_all add: m1_def fall_back_def)
  have a: "atomic_replace env (SoloHooks (h_ring h) (h_nvme h) (h_sector h)) (replace_plan_of m1) m1 p data = (m', r)"
    using assms(1,2) False by (auto simp: write_unobserved_def m1_def Let_def)
  have "wf_store (now m1)" "hook_sector (SoloHooks (h_ring h) (h_nvme h) (h_sector h)) \<le> 2 ^ 62" using assms(4,6) k by simp_all
  from atomic_replace_run [OF a assms(3) this(1) assms(5) this(2), of sf]
  have "replaced_if sf is_temp True m1 p data m' (r = Inr ())" using assms(7) k(1) by (simp add: replace_plan_of_def)
  from replaced_cong [OF this k(1,2)] k(3) show ?thesis by simp
qed

lemma write_copy_run:
  assumes "write_copy env h m path data = (m', r)" and "resolve h path = Inr p"
    and "temp_env_ok env" and "wf_store (now m)" and "length data < 2 ^ 62" and "h_sector h \<le> 2 ^ 62"
    and "sf \<longrightarrow> h_nvme h \<longrightarrow> ordered_meta (now m)"
  shows "replaced_if sf is_temp True m p data m' (r = Inr ())"
proof -
  obtain m1 c where n: "next_call m = (m1, c)" by fastforce
  note k = next_call_keeps [OF n]
  let ?h = "WriteCopyHooks (h_ring h) (h_nvme h) (h_sector h) (c = None \<and> names (now m1) p \<noteq> None)"
  have a: "atomic_replace env ?h (replace_plan_of m1) m1 p data = (m', r)"
    using assms(1,2) n by (simp add: write_copy_def)
  have "wf_store (now m1)" "hook_sector ?h \<le> 2 ^ 62" using assms(4,6) k by simp_all
  from atomic_replace_run [OF a assms(3) this(1) assms(5) this(2), of sf]
  have "replaced_if sf is_temp True m1 p data m' (r = Inr ())" using assms(7) k(1) by (simp add: replace_plan_of_def)
  from replaced_cong [OF this k(1,2)] k(5) show ?thesis by simp
qed

section \<open>Changing a file in place\<close>

text \<open>No two names for one file: an in-place change is seen under one name only.\<close>

definition links_free :: "store \<Rightarrow> bool" where
  "links_free s \<longleftrightarrow> (\<forall>p q i. names s p = Some i \<longrightarrow> names s q = Some i \<longrightarrow> p = q)"

definition content :: "(path \<Rightarrow> bytes option) \<Rightarrow> path \<Rightarrow> bytes" where
  "content f p = (case f p of None \<Rightarrow> [] | Some c \<Rightarrow> c)"

text \<open>A file is open for writing: it is under its name, and under no other.\<close>

definition opened :: "machine \<Rightarrow> path \<Rightarrow> machine \<Rightarrow> nat \<Rightarrow> bool" where
  "opened m p m1 i \<longleftrightarrow>
     names (now m1) p = Some i \<and> data_of (now m1) i = content (file_at (now m)) p \<and>
     (\<forall>q. q \<noteq> p \<longrightarrow> names (now m1) q \<noteq> Some i \<and> names (now m1) q = names (now m) q \<and> file_at (now m1) q = file_at (now m) q)"

lemma open_create_effect:
  assumes "open_create m p = (m1, r)" and "wf_store (now m)" and "links_free (now m)"
  shows "\<And>e. r = Inl e \<Longrightarrow> now m1 = now m" "\<And>i. r = Inr i \<Longrightarrow> opened m p m1 i"
    "\<And>i j. r = Inr i \<Longrightarrow> names (now m) p = Some j \<Longrightarrow> i = j"
proof -
  obtain m0 c where n: "next_call m = (m0, c)" by fastforce
  note k = next_call_keeps [OF n]
  show "i = j" if "r = Inr i" "names (now m) p = Some j" for i j
    using assms(1) that n by (auto simp: open_create_def split: if_splits option.splits)
  obtain m2 r2 where cr: "sys_creat_excl m p = (m2, r2)" by fastforce
  note crc = sys_creat_excl_cases [OF cr]
  show "now m1 = now m" if "r = Inl e" for e
    using assms(1) that n k(1) cr crc by (auto simp: open_create_def split: if_splits option.splits sum.splits)
  show "opened m p m1 i" if r: "r = Inr i" for i
  proof (cases "names (now m) p")
    case (Some j)
    with assms(1) r n have "now m1 = now m" "i = j"
      using k(1) by (auto simp: open_create_def split: if_splits option.splits)
    with Some assms(3) show ?thesis by (auto simp: opened_def content_def file_at_def links_free_def)
  next
    case None
    with assms(1) r cr crc have m1: "m1 = m2" "i = next_ino (now m)" "besides p (now m) (now m2)"
      "names (now m2) p = Some i" "data_of (now m2) i = []"
      by (auto simp: open_create_def split: if_splits sum.splits)
    have "names (now m2) q \<noteq> Some i" if "q \<noteq> p" for q
      using m1(2,3) that wf_store_named [OF assms(2), of q] by (auto simp: besides_def)
    moreover have "file_at (now m2) q = file_at (now m) q" if "q \<noteq> p" for q
      using besides_file_at [OF m1(3) assms(2) that] .
    ultimately show ?thesis using m1 None by (auto simp: opened_def content_def file_at_def besides_def)
  qed
qed

lemma open_existing_effect:
  assumes "sys_open_existing m p = (m1, r)" and "links_free (now m)"
  shows "now m1 = now m" "\<And>i. r = Inr i \<Longrightarrow> opened m p m1 i \<and> file_at (now m) p \<noteq> None"
proof -
  obtain m0 c where n: "next_call m = (m0, c)" by fastforce
  note k = next_call_keeps [OF n]
  show "now m1 = now m"
    using assms(1) n k(1) by (auto simp: sys_open_existing_def split: option.splits)
  show "\<And>i. r = Inr i \<Longrightarrow> opened m p m1 i \<and> file_at (now m) p \<noteq> None"
    using assms n k(1)
    by (auto simp: sys_open_existing_def opened_def content_def file_at_def links_free_def split: option.splits)
qed

text \<open>The file changes, and nothing else a program sees.\<close>

lemma in_place:
  assumes "opened m p m1 i" and "touches i m1 m'"
  shows "file_at (now m') q = (if q = p then Some (data_of (now m') i) else file_at (now m) q)"
proof (cases "q = p")
  case True
  with assms show ?thesis by (auto simp: opened_def goes_def same_but_def file_at_def)
next
  case False
  with assms(1) have "names (now m1) q \<noteq> Some i" "file_at (now m1) q = file_at (now m) q" by (auto simp: opened_def)
  with assms(2) False show ?thesis by (cases "names (now m1) q") (auto simp: goes_def same_but_def file_at_def)
qed

lemma append_loop_effect:
  "append_loop d data = (d', r) \<Longrightarrow>
     \<exists>n\<le>length data. contents d' = contents d @ take n data \<and> (r = Inr () \<longrightarrow> n = length data)"
proof (induction d data arbitrary: d' rule: append_loop.induct)
  case (1 d data)
  note unf = append_loop.simps [of d data]
  show ?case
  proof (cases "data = []")
    case True
    with "1.prems" show ?thesis by (auto simp: append_loop.simps [of d "[]"])
  next
    case False
    obtain d1 sr where s: "sys_pwrite d (int (length (contents d))) data = (d1, sr)" by fastforce
    show ?thesis
    proof (cases sr)
      case (SysErr e)
      have c: "contents d1 = contents d" using sys_pwrite_SysErr s SysErr by blast
      show ?thesis
      proof (cases "io_kind e = Interrupted")
        case True
        with "1.prems" False s SysErr have "append_loop d1 data = (d', r)" by (simp add: unf)
        from "1.IH"(1) [OF False s [symmetric] SysErr True this] c show ?thesis by simp
      next
        case False
        with "1.prems" \<open>data \<noteq> []\<close> s SysErr c show ?thesis by (intro exI [of _ 0]) (auto simp: unf)
      qed
    next
      case (SysN n)
      have c: "n \<le> length data" "contents d1 = contents d @ take n data"
        using s SysN by (auto simp: sys_pwrite_def Let_def put_at_def split: list.splits sys_result.splits if_splits)
      show ?thesis
      proof (cases "n = 0")
        case True
        with "1.prems" False s SysN c show ?thesis by (intro exI [of _ 0]) (auto simp: unf)
      next
        case nz: False
        with "1.prems" False s SysN have "append_loop d1 (drop n data) = (d', r)" by (simp add: unf)
        from "1.IH"(2) [OF False s [symmetric] SysN nz this] obtain k where
          k: "k \<le> length (drop n data)" "contents d' = contents d1 @ take k (drop n data)"
            "r = Inr () \<longrightarrow> k = length (drop n data)" by blast
        with c have "contents d' = contents d @ take (n + k) data" by (simp add: take_add)
        with k c(1) show ?thesis by (intro exI [of _ "n + k"]) auto
      qed
    qed
  qed
qed

section \<open>The operations as a map of files\<close>

datatype file_op =
    FWrite path bytes | FWriteCopy path bytes | FAppend path bytes | FWriteAt path nat bytes
  | FTruncate path nat | FDelete path | FRename path path | FSync path | FCopy path path

definition run_file_op :: "temp_env \<Rightarrow> handle \<Rightarrow> machine \<Rightarrow> file_op \<Rightarrow> machine \<times> unit result" where
  "run_file_op env h m op =
     (case op of
        FWrite p data \<Rightarrow> write_unobserved env h m p data
      | FWriteCopy p data \<Rightarrow> write_copy env h m p data
      | FAppend p data \<Rightarrow> append_op h m p data
      | FWriteAt p off data \<Rightarrow> write_at_op h m p off data
      | FTruncate p n \<Rightarrow> truncate_op h m p n
      | FDelete p \<Rightarrow> delete_op h m p
      | FRename a b \<Rightarrow> rename_op h m a b
      | FSync p \<Rightarrow> sync_op h m p
      | FCopy a b \<Rightarrow> (case copy_op h m a b of (m1, Inl e) \<Rightarrow> (m1, Inl e) | (m1, Inr _) \<Rightarrow> (m1, Inr ())))"

text \<open>The specification, on the paths a handle resolved.\<close>

definition apply_file_op :: "file_op \<Rightarrow> (path \<Rightarrow> bytes option) \<Rightarrow> path \<Rightarrow> bytes option" where
  "apply_file_op op f =
     (case op of
        FWrite p data \<Rightarrow> f(p := Some data)
      | FWriteCopy p data \<Rightarrow> f(p := Some data)
      | FAppend p data \<Rightarrow> f(p := Some (content f p @ data))
      | FWriteAt p off data \<Rightarrow> f(p := Some (put_at off data (content f p)))
      | FTruncate p n \<Rightarrow> f(p := Some (resize n (content f p)))
      | FDelete p \<Rightarrow> f(p := None)
      | FRename a b \<Rightarrow> f(a := None, b := f a)
      | FSync p \<Rightarrow> f
      | FCopy a b \<Rightarrow> f(b := Some (if a = b then [] else content f a)))"

text \<open>Operations that change everything or nothing; the others may stop halfway in their target.\<close>

fun target_of :: "file_op \<Rightarrow> path option" where
  "target_of (FAppend p _) = Some p"
| "target_of (FWriteAt p _ _) = Some p"
| "target_of (FCopy _ b) = Some b"
| "target_of _ = None"

definition op_paths :: "file_op \<Rightarrow> path set" where
  "op_paths op =
     (case op of
        FWrite p _ \<Rightarrow> {p} | FWriteCopy p _ \<Rightarrow> {p} | FAppend p _ \<Rightarrow> {p} | FWriteAt p _ _ \<Rightarrow> {p} | FTruncate p _ \<Rightarrow> {p}
      | FDelete p \<Rightarrow> {p} | FRename a b \<Rightarrow> {a, b} | FSync p \<Rightarrow> {p} | FCopy a b \<Rightarrow> {a, b})"

definition op_data :: "file_op \<Rightarrow> bytes" where
  "op_data op = (case op of FWrite _ d \<Rightarrow> d | FWriteCopy _ d \<Rightarrow> d | _ \<Rightarrow> [])"

text \<open>Success is the specified change; failure is none, or one of the target of an in-place operation.\<close>

definition refines :: "file_op \<Rightarrow> machine \<Rightarrow> machine \<Rightarrow> unit result \<Rightarrow> bool" where
  "refines op m m' r \<longleftrightarrow>
     (\<forall>q. \<not> is_temp q \<longrightarrow>
        (r = Inr () \<longrightarrow> file_at (now m') q = apply_file_op op (file_at (now m)) q) \<and>
        (r \<noteq> Inr () \<longrightarrow> target_of op \<noteq> Some q \<longrightarrow> file_at (now m') q = file_at (now m) q))"

lemma refines_same: "now m' = now m \<Longrightarrow> r = Inr () \<longrightarrow> (\<exists>p. op = FSync p) \<Longrightarrow> refines op m m' r"
  by (auto simp: refines_def apply_file_op_def)

lemma replaced_refines:
  assumes "replaced_if sf is_temp True m p data m' (r = Inr ())" and "wf_store (now m)" and "\<not> is_temp p"
    and "op = FWrite p data \<or> op = FWriteCopy p data"
  shows "refines op m m' r"
proof (cases "r = Inr ()")
  case True
  with assms(1) obtain t i where t: "is_temp t" "published_if sf (now m) t p i data (now m')" using replaced_ok by force
  have "file_at (now m') q = file_at (now m) q" if "\<not> is_temp q" "q \<noteq> p" for q
    using published_others(1) [OF t(2) assms(2), of q] that t(1) by metis
  moreover have "file_at (now m') p = Some data" using t(2) by (simp add: published_if_def file_at_def)
  ultimately show ?thesis using True assms(4) by (auto simp: refines_def apply_file_op_def)
next
  case False
  with assms(1) obtain t where t: "is_temp t" "besides t (now m) (now m')" using replaced_failed by force
  have "file_at (now m') q = file_at (now m) q" if "\<not> is_temp q" for q
    using besides_file_at [OF t(2) assms(2), of q] that t(1) by metis
  with False show ?thesis by (simp add: refines_def)
qed

lemma in_place_refines:
  assumes "opened m p m1 i" and "touches i m1 m'" and "target_of op = Some p \<or> r = Inr ()"
    and "r = Inr () \<Longrightarrow> apply_file_op op (file_at (now m)) = (file_at (now m))(p := Some (data_of (now m') i))"
  shows "refines op m m' r"
  using assms(3,4) by (auto simp: refines_def in_place [OF assms(1,2)])

lemma append_refines:
  assumes "append_op h m p data = (m', r)" and "resolve h p = Inr p" and "wf_store (now m)" and "links_free (now m)"
  shows "refines (FAppend p data) m m' r"
proof -
  obtain m1 r1 where o: "open_create m p = (m1, r1)" by fastforce
  note oe = open_create_effect [OF o assms(3,4)]
  show ?thesis
  proof (cases r1)
    case (Inl e)
    with assms(1,2) o oe(1) show ?thesis by (intro refines_same) (auto simp: append_op_def)
  next
    case (Inr i)
    then have w: "with_file i (\<lambda>d. append_loop d data) m1 = (m', r)" using assms(1,2) o by (simp add: append_op_def)
    have op: "opened m p m1 i" using oe(2) Inr by simp
    from w obtain d where d: "append_loop \<lparr>contents = data_of (now m1) i, script = kernel m1, oom = no_mem m1\<rparr> data = (d, r)"
      "data_of (now m') i = contents d" "touches i m1 m'" by (rule with_file_cases)
    show ?thesis
      using append_loop_effect [OF d(1)] d(2,3) op
      by (intro in_place_refines [of m p m1 i]) (auto simp: apply_file_op_def opened_def)
  qed
qed

lemma write_at_refines:
  assumes "write_at_op h m p off data = (m', r)" and "resolve h p = Inr p" and "wf_store (now m)" and "links_free (now m)"
  shows "refines (FWriteAt p off data) m m' r"
proof -
  obtain m1 r1 where o: "open_create m p = (m1, r1)" by fastforce
  note oe = open_create_effect [OF o assms(3,4)]
  show ?thesis
  proof (cases r1)
    case (Inl e)
    with assms(1,2) o oe(1) show ?thesis by (intro refines_same) (auto simp: write_at_op_def)
  next
    case (Inr i)
    then have w: "with_file i (\<lambda>d. write_at d off data) m1 = (m', r)" using assms(1,2) o by (simp add: write_at_op_def)
    have op: "opened m p m1 i" using oe(2) Inr by simp
    from w obtain d where d: "write_at \<lparr>contents = data_of (now m1) i, script = kernel m1, oom = no_mem m1\<rparr> off data = (d, r)"
      "data_of (now m') i = contents d" "touches i m1 m'" by (rule with_file_cases)
    show ?thesis
      using write_at_effect [OF d(1)] d(2,3) op
      by (intro in_place_refines [of m p m1 i]) (auto simp: apply_file_op_def opened_def)
  qed
qed

lemma truncate_refines:
  assumes "truncate_op h m p n = (m', r)" and "resolve h p = Inr p" and "links_free (now m)"
  shows "refines (FTruncate p n) m m' r"
proof -
  obtain m1 r1 where o: "sys_open_existing m p = (m1, r1)" by fastforce
  note oe = open_existing_effect [OF o assms(3)]
  show ?thesis
  proof (cases "\<exists>i. r1 = Inr i \<and> n < 2 ^ 63")
    case False
    with assms(1,2) o oe(1) show ?thesis
      by (intro refines_same) (auto simp: truncate_op_def split: sum.splits if_splits)
  next
    case True
    then obtain i where i: "r1 = Inr i" "n < 2 ^ 63" by blast
    then have f: "sys_ftruncate m1 i n = (m', r)" using assms(1,2) o by (simp add: truncate_op_def)
    note fe = sys_ftruncate_effect [OF f]
    have op: "opened m p m1 i" using oe(2) i by simp
    show ?thesis
    proof (cases "r = Inr ()")
      case True
      with fe op show ?thesis by (intro in_place_refines [of m p m1 i]) (auto simp: apply_file_op_def opened_def)
    next
      case False
      then have "now m' = now m1"
        using f next_call_keeps(1) [of m1] by (auto simp: sys_ftruncate_def split: prod.splits option.splits)
      with oe(1) False show ?thesis by (intro refines_same) auto
    qed
  qed
qed

lemma sync_refines:
  assumes "sync_op h m p = (m', r)" and "resolve h p = Inr p" and "links_free (now m)"
  shows "refines (FSync p) m m' r"
proof -
  obtain m1 r1 where o: "sys_open_existing m p = (m1, r1)" by fastforce
  note oe = open_existing_effect [OF o assms(3)]
  show ?thesis
  proof (cases r1)
    case (Inl e)
    with assms(1,2) o oe(1) show ?thesis by (intro refines_same) (auto simp: sync_op_def)
  next
    case (Inr i)
    then have f: "sys_fsync m1 i = (m', r)" using assms(1,2) o by (simp add: sync_op_def)
    note fe = sys_fsync_effect [OF f]
    have op: "opened m p m1 i" using oe(2) Inr by simp
    have "file_at (now m') q = file_at (now m) q" for q
      using in_place [OF op fe(1), of q] fe(2) op oe(1) by (auto simp: opened_def file_at_def)
    then show ?thesis by (simp add: refines_def apply_file_op_def)
  qed
qed

lemma delete_refines:
  assumes "delete_op h m p = (m', r)" and "resolve h p = Inr p" and "wf_store (now m)"
  shows "refines (FDelete p) m m' r"
proof -
  have "execute_delete m p False = (m', r)" using assms(1,2) by (auto simp: delete_op_def execute_delete_def split: prod.splits sum.splits)
  from op_effect_agree [OF execute_delete_effect [OF this assms(3)]] show ?thesis
    by (auto simp: refines_def agree_def apply_file_op_def apply_op_def)
qed

lemma rename_refines:
  assumes "rename_op h m a b = (m', r)" and "resolve h a = Inr a" and "resolve h b = Inr b"
  shows "refines (FRename a b) m m' r"
proof -
  obtain m1 c where n: "next_call m = (m1, c)" by fastforce
  note k = next_call_keeps [OF n]
  show ?thesis
    using assms n k(1)
    by (auto simp: rename_op_def atomic_rename_def refines_def apply_file_op_def set_name_def file_at_def split: option.splits)
qed

lemma copy_refines:
  assumes "copy_op h m a b = (m', x)" and "resolve h a = Inr a" and "resolve h b = Inr b"
    and "wf_store (now m)" and "links_free (now m)"
  shows "refines (FCopy a b) m m' (case x of Inl e \<Rightarrow> Inl e | Inr _ \<Rightarrow> Inr ())"
proof -
  obtain m1 r1 where o: "sys_open_existing m a = (m1, r1)" by fastforce
  note oe = open_existing_effect [OF o assms(5)]
  obtain m2 r2 where c: "open_create m1 b = (m2, r2)" by fastforce
  have s1: "wf_store (now m1)" "links_free (now m1)" using oe(1) assms(4,5) by simp_all
  note ce = open_create_effect [OF c s1]
  show ?thesis
  proof (cases "\<exists>i j. r1 = Inr i \<and> r2 = Inr j")
    case False
    with assms(1-3) o c oe(1) ce(1) show ?thesis
      by (intro refines_same) (auto simp: copy_op_def split: sum.splits)
  next
    case True
    then obtain i j where ij: "r1 = Inr i" "r2 = Inr j" by blast
    have oa: "opened m a m1 i" and ob: "opened m1 b m2 j" using oe(2) ce(2) ij by auto
    define m3 where "m3 = put_store ((now m2)\<lparr>data_of := (data_of (now m2))(j := [])\<rparr>) m2"
    define data where "data = data_of (now m3) i"
    obtain r where w: "with_file j (\<lambda>f. append_loop f data) m3 = (m', r)"
      "(case x of Inl e \<Rightarrow> Inl e | Inr _ \<Rightarrow> Inr ()) = r"
      using assms(1-3) o c ij by (auto simp: copy_op_def m3_def data_def Let_def split: prod.splits sum.splits)
    from w(1) obtain d where d: "append_loop \<lparr>contents = data_of (now m3) j, script = kernel m3, oom = no_mem m3\<rparr> data = (d, r)"
      "data_of (now m') j = contents d" "touches j m3 m'" by (rule with_file_cases)
    have "touches j m2 m3" by (auto simp: m3_def same_but_def intro!: goes_put)
    then have t: "touches j m2 m'" using d(3) by (rule touches_trans)
    have ob': "opened m b m2 j" using ob unfolding opened_def oe(1) .
    have "data = (if a = b then [] else content (file_at (now m)) a)"
    proof (cases "a = b")
      case True
      with oa ce(3) ij(2) have "i = j" by (auto simp: opened_def)
      with True show ?thesis by (simp add: data_def m3_def)
    next
      case False
      with oa ob have "names (now m2) a = Some i" "i \<noteq> j" "file_at (now m2) a = file_at (now m) a"
        using oe(1) by (auto simp: opened_def)
      then have "file_at (now m) a = Some (data_of (now m3) i)" by (auto simp: m3_def file_at_def)
      with False show ?thesis by (simp add: data_def content_def)
    qed
    moreover have "data_of (now m3) j = []" by (simp add: m3_def)
    ultimately show ?thesis
      unfolding w(2) using append_loop_effect [OF d(1)] d(2)
      by (intro in_place_refines [OF ob' t]) (auto simp: apply_file_op_def)
  qed
qed

lemma file_op_refines:
  assumes "run_file_op env h m op = (m', r)" and "\<And>p. p \<in> op_paths op \<Longrightarrow> resolve h p = Inr p \<and> \<not> is_temp p"
    and "temp_env_ok env" and "wf_store (now m)" and "links_free (now m)" and "length (op_data op) < 2 ^ 62"
    and "h_sector h \<le> 2 ^ 62"
  shows "refines op m m' r"
proof (cases op)
  case (FWrite p data)
  then have p: "resolve h p = Inr p" "\<not> is_temp p" "length data < 2 ^ 62" using assms(2,6) by (auto simp: op_paths_def op_data_def)
  have "replaced_if False is_temp True m p data m' (r = Inr ())"
    using write_run [OF _ p(1) assms(3,4) p(3) assms(7)] assms(1) FWrite by (simp add: run_file_op_def)
  with FWrite p assms(4) show ?thesis by (intro replaced_refines) auto
next
  case (FWriteCopy p data)
  then have p: "resolve h p = Inr p" "\<not> is_temp p" "length data < 2 ^ 62" using assms(2,6) by (auto simp: op_paths_def op_data_def)
  have "replaced_if False is_temp True m p data m' (r = Inr ())"
    using write_copy_run [OF _ p(1) assms(3,4) p(3) assms(7)] assms(1) FWriteCopy by (simp add: run_file_op_def)
  with FWriteCopy p assms(4) show ?thesis by (intro replaced_refines) auto
next
  case (FCopy a b)
  obtain m1 x where c: "copy_op h m a b = (m1, x)" by fastforce
  then have "m' = m1" "r = (case x of Inl e \<Rightarrow> Inl e | Inr _ \<Rightarrow> Inr ())"
    using assms(1) FCopy by (auto simp: run_file_op_def split: sum.splits)
  with copy_refines [OF c _ _ assms(4,5)] assms(2) FCopy show ?thesis by (auto simp: op_paths_def)
qed (use assms(1-5) in \<open>auto simp: run_file_op_def op_paths_def
    intro: append_refines write_at_refines truncate_refines delete_refines rename_refines sync_refines\<close>)

text \<open>The paths of an operation, resolved in the order the code resolves them.\<close>

definition resolve_file_op :: "handle \<Rightarrow> file_op \<Rightarrow> file_op result" where
  "resolve_file_op h op =
     (let one = (\<lambda>p f. case resolve h p of Inl e \<Rightarrow> Inl e | Inr q \<Rightarrow> Inr (f q));
          two = (\<lambda>p p' f. case resolve h p of Inl e \<Rightarrow> Inl e
                   | Inr q \<Rightarrow> (case resolve h p' of Inl e \<Rightarrow> Inl e | Inr q' \<Rightarrow> Inr (f q q')))
      in case op of
           FWrite p data \<Rightarrow> one p (\<lambda>q. FWrite q data)
         | FWriteCopy p data \<Rightarrow> one p (\<lambda>q. FWriteCopy q data)
         | FAppend p data \<Rightarrow> one p (\<lambda>q. FAppend q data)
         | FWriteAt p off data \<Rightarrow> one p (\<lambda>q. FWriteAt q off data)
         | FTruncate p n \<Rightarrow> one p (\<lambda>q. FTruncate q n)
         | FDelete p \<Rightarrow> one p FDelete
         | FRename a b \<Rightarrow> two a b FRename
         | FSync p \<Rightarrow> one p FSync
         | FCopy a b \<Rightarrow> two a b FCopy)"

lemma run_resolved:
  assumes "resolve_file_op h op = Inr op'"
  shows "run_file_op env h m op = run_file_op env (h\<lparr>resolve := Inr\<rparr>) m op'"
  using assms
  by (cases op)
    (auto simp: resolve_file_op_def run_file_op_def write_unobserved_def write_copy_def append_op_def write_at_op_def truncate_op_def
      delete_op_def rename_op_def sync_op_def copy_op_def mmap_write_def is_suitable_for_write_def Let_def
      split: sum.splits)

lemma run_unresolved:
  assumes "resolve_file_op h op = Inl e"
  shows "run_file_op env h m op = (m, Inl e)"
  using assms
  by (cases op)
    (auto simp: resolve_file_op_def run_file_op_def write_unobserved_def write_copy_def append_op_def write_at_op_def truncate_op_def
      delete_op_def rename_op_def sync_op_def copy_op_def Let_def split: sum.splits)

text \<open>
  C5: The file operations of a handle behave as operations on a map from paths to contents. Every
  operation that reports success has changed the map exactly as specified, for every method the
  handle may have and whichever calls failed on the way. A path that does not resolve changes
  nothing. A failed operation changes nothing either, except that a failed append, positioned write
  or copy may have changed its target in part.
\<close>

theorem handle_operations_refine_file_map:
  assumes "run_file_op env h m op = (m', r)" and "temp_env_ok env" and "wf_store (now m)" and "links_free (now m)"
    and "length (op_data op) < 2 ^ 62" and "h_sector h \<le> 2 ^ 62"
    and "\<And>op' p. resolve_file_op h op = Inr op' \<Longrightarrow> p \<in> op_paths op' \<Longrightarrow> \<not> is_temp p"
  shows "case resolve_file_op h op of
      Inl e \<Rightarrow> m' = m \<and> r = Inl e
    | Inr op' \<Rightarrow> \<forall>q. \<not> is_temp q \<longrightarrow>
        (r = Inr () \<longrightarrow> file_at (now m') q = apply_file_op op' (file_at (now m)) q) \<and>
        (r \<noteq> Inr () \<longrightarrow> target_of op' \<noteq> Some q \<longrightarrow> file_at (now m') q = file_at (now m) q)"
proof (cases "resolve_file_op h op")
  case (Inl e)
  with run_unresolved assms(1) show ?thesis by simp
next
  case (Inr op')
  have d: "op_data op' = op_data op"
    using Inr by (cases op) (auto simp: resolve_file_op_def op_data_def split: sum.splits)
  have "refines op' m m' r"
  proof (rule file_op_refines [OF _ _ assms(2-4)])
    show "run_file_op env (h\<lparr>resolve := Inr\<rparr>) m op' = (m', r)" using run_resolved [OF Inr] assms(1) by simp
  qed (use assms(5-7) Inr d in auto)
  with Inr show ?thesis by (simp add: refines_def)
qed

text \<open>
  C2: Writes are atomic under a power cut, for every method: at every moment of \<open>write\<close> or
  \<open>write_copy\<close>, through the page cache, Direct IO, the ring or a mapping, and whichever calls fail,
  a crash leaves at the target either what it could have left there before or exactly the new data.
  Every other file that existed is as it was. A handle with NVMe passthrough, whose ring path flushes
  the device instead of the file, has this promise on a file system that commits metadata in order.
\<close>

theorem handle_write_is_crash_atomic:
  assumes "run_file_op env h m op = (m', r)" and "op = FWrite path data \<or> op = FWriteCopy path data"
    and "resolve h path = Inr p" and "temp_env_ok env" and "wf_store (now m)" and "length data < 2 ^ 62"
    and "h_sector h \<le> 2 ^ 62" and "h_nvme h \<Longrightarrow> ordered_meta (now m)"
  shows "\<exists>xs. past m' = past m @ xs \<and> (\<forall>s\<in>set xs.
    (\<forall>c. after_crash s p c \<longrightarrow> after_crash (now m) p c \<or> c = Some data) \<and>
    (\<forall>q c. q \<noteq> p \<longrightarrow> names (now m) q \<noteq> None \<longrightarrow> after_crash s q c \<longrightarrow> after_crash (now m) q c))"
proof -
  have "replaced True m p data m' (r = Inr ())"
    using assms(1,2) write_run [OF _ assms(3-7), where sf = True] write_copy_run [OF _ assms(3-7), where sf = True] assms(8) by (auto simp: run_file_op_def)
  from replaced_crash_atomic [OF this assms(5)] show ?thesis .
qed

section \<open>Reads\<close>

lemma next_call_now: "next_call m = (m1, c) \<Longrightarrow> now m1 = now m"
  by (rule next_call_keeps(1))

lemma open_read_effect:
  assumes "open_read m p want = (m1, r)"
  shows "now m1 = now m" "\<And>i ok. r = Inr (i, ok) \<Longrightarrow> names (now m) p = Some i"
proof -
  obtain m2 c2 where c2: "next_call m = (m2, c2)" by fastforce
  obtain m3 c3 where c3: "next_call m2 = (m3, c3)" by fastforce
  have k: "now m2 = now m" "now m3 = now m" using next_call_now [OF c2] next_call_now [OF c3] by simp_all
  show "now m1 = now m" "\<And>i ok. r = Inr (i, ok) \<Longrightarrow> names (now m) p = Some i"
    using assms c2 c3 k
    by (auto simp: open_read_def sys_open_existing_def split: sum.splits option.splits if_splits)
qed

lemma file_len_effect: "file_len m i = (m1, r) \<Longrightarrow> now m1 = now m \<and> (\<forall>n. r = Inr n \<longrightarrow> n = length (data_of (now m) i))"
  using next_call_now [of m] by (auto simp: file_len_def split: prod.splits option.splits)

lemma read_all_effect: "read_all m i = (m1, r) \<Longrightarrow> now m1 = now m \<and> (\<forall>bs. r = Inr bs \<longrightarrow> bs = data_of (now m) i)"
  using next_call_now [of m] by (auto simp: read_all_def split: prod.splits option.splits)

lemma with_reader_now: "with_reader i f m = (m1, r) \<Longrightarrow> now m1 = now m"
  by (auto simp: with_reader_def split: prod.splits)

lemma plain_read_effect:
  assumes "plain_read h m p = (m', r)" and "h_sector h \<le> 2 ^ 62" and "\<And>c. file_at (now m) p = Some c \<Longrightarrow> length c < 2 ^ 62"
  shows "now m' = now m \<and> (\<forall>bs. r = Inr bs \<longrightarrow> file_at (now m) p = Some bs)"
proof -
  obtain m1 r1 where o: "open_read m p (use_direct (methods m)) = (m1, r1)" by fastforce
  note oe = open_read_effect [OF o]
  show ?thesis
  proof (cases r1)
    case (Inl e)
    with assms(1) o oe(1) show ?thesis by (auto simp: plain_read_def)
  next
    case (Inr v)
    obtain i ok where v: "v = (i, ok)" by fastforce
    have i: "names (now m) p = Some i" "file_at (now m) p = Some (data_of (now m) i)"
      using oe(2) Inr v by (auto simp: file_at_def)
    define m2 where "m2 = (if use_direct (methods m1) \<and> \<not> ok then fall_back MData m1 else m1)"
    have n2: "now m2 = now m" using oe(1) by (simp add: m2_def fall_back_def)
    show ?thesis
    proof (cases ok)
      case False
      with assms(1) o Inr v have "read_all m2 i = (m', r)" by (simp add: plain_read_def m2_def Let_def)
      from read_all_effect [OF this] n2 i show ?thesis by simp
    next
      case True
      obtain m3 r3 where f: "file_len m2 i = (m3, r3)" by fastforce
      note fe = file_len_effect [OF f]
      show ?thesis
      proof (cases r3)
        case (Inl e)
        with assms(1) o Inr v True f fe n2 show ?thesis by (auto simp: plain_read_def m2_def Let_def)
      next
        case r3: (Inr n)
        with assms(1) o Inr v True f have w: "with_reader i (\<lambda>d. direct_read d (h_ring h) n (h_sector h)) m3 = (m', r)"
          by (simp add: plain_read_def m2_def Let_def)
        let ?d = "\<lparr>contents = data_of (now m3) i, script = kernel m3, oom = no_mem m3\<rparr>"
        have n: "n = length (contents ?d)" "data_of (now m3) i = data_of (now m) i" using fe r3 n2 by simp_all
        have "length (contents ?d) < 2 ^ 62" using assms(3) i(2) n(2) by simp
        moreover obtain d' where "direct_read ?d (h_ring h) n (h_sector h) = (d', r)"
          using w by (auto simp: with_reader_def split: prod.splits)
        ultimately have "\<forall>bs. r = Inr bs \<longrightarrow> bs = data_of (now m) i"
          using direct_read_data [of ?d "h_ring h" "h_sector h" d'] assms(2) n by simp
        with with_reader_now [OF w] fe n2 i show ?thesis by simp
      qed
    qed
  qed
qed

lemma metadata_len_now: "metadata_len m p = (m1, r) \<Longrightarrow> now m1 = now m"
  using next_call_now [of m] by (auto simp: metadata_len_def split: prod.splits option.splits)

lemma mmap_read_effect:
  assumes "mmap_read h m p = (m', r)"
  shows "now m' = now m \<and> (\<forall>bs. r = Inr bs \<longrightarrow> file_at (now m) p = Some bs)"
proof -
  obtain m1 c1 where c1: "next_call m = (m1, c1)" by fastforce
  obtain m2 c2 where c2: "next_call m1 = (m2, c2)" by fastforce
  obtain m3 c3 where c3: "next_call m2 = (m3, c3)" by fastforce
  have k: "now m1 = now m" "now m2 = now m" "now m3 = now m"
    using next_call_now [OF c1] next_call_now [OF c2] next_call_now [OF c3] by simp_all
  show ?thesis
    using assms c1 c2 c3 k
    by (auto simp: mmap_read_def sys_open_existing_def file_len_def file_at_def split: option.splits if_splits)
qed

text \<open>
  C15: A read returns the file. For every method, through the page cache, Direct IO, the ring, plain
  reads after the ring failed, or a mapping, and with short and interrupted reads: when \<open>read\<close>
  succeeds it returns exactly the bytes of the file, and no read changes a file. A successful
  \<open>read_at\<close> returns the part of the range that the file has.
\<close>

theorem handle_read_returns_content:
  assumes "resolve h path = Inr p" and "h_sector h \<le> 2 ^ 62" and "\<And>c. file_at (now m) p = Some c \<Longrightarrow> length c < 2 ^ 62"
  shows "(\<forall>m' r. read_unobserved h m path = (m', r) \<longrightarrow>
      now m' = now m \<and> (\<forall>bs. r = Inr bs \<longrightarrow> file_at (now m) p = Some bs)) \<and>
    (\<forall>off len m' bs. read_at_op h m path off len = (m', Inr bs) \<longrightarrow>
      (\<exists>c. file_at (now m) p = Some c \<and> bs = take len (drop off c)))"
proof (intro conjI allI impI)
  fix m' r
  assume rd: "read_unobserved h m path = (m', r)"
  have "now m' = now m \<and> (\<forall>bs. r = Inr bs \<longrightarrow> file_at (now m) p = Some bs)"
  proof (cases "active_method (methods m) = MMmap")
    case False
    with rd assms plain_read_effect [of h m p m' r] show ?thesis by (simp add: read_unobserved_def)
  next
    case True
    obtain m1 x where l: "metadata_len m p = (m1, x)" by fastforce
    have n1: "now m1 = now m" "now (fall_back MSync m1) = now m"
      using metadata_len_now [OF l] by (simp_all add: fall_back_def)
    from rd True l assms(1) consider "mmap_read h m1 p = (m', r)" | "plain_read h (fall_back MSync m1) p = (m', r)"
      by (cases "case x of Inl _ \<Rightarrow> False | Inr n \<Rightarrow> is_suitable_for_write h n") (auto simp: read_unobserved_def)
    then show ?thesis
    proof cases
      case 1
      from mmap_read_effect [OF this] n1 show ?thesis by simp
    next
      case 2
      from plain_read_effect [OF this assms(2)] assms(3) show ?thesis unfolding n1(2) by simp
    qed
  qed
  then show "now m' = now m" "\<And>bs. r = Inr bs \<Longrightarrow> file_at (now m) p = Some bs" by simp_all
next
  fix off len m' bs
  assume rd: "read_at_op h m path off len = (m', Inr bs)"
  obtain m1 i ok where o: "open_read m p False = (m1, Inr (i, ok))"
    using rd assms(1) by (auto simp: read_at_op_def split: prod.splits sum.splits)
  note oe = open_read_effect [OF o]
  obtain m2 n where f: "file_len m1 i = (m2, Inr n)"
    using rd assms(1) o by (auto simp: read_at_op_def split: prod.splits sum.splits)
  note fe = file_len_effect [OF f]
  let ?c = "data_of (now m) i"
  have c: "file_at (now m) p = Some ?c" using oe(2) by (simp add: file_at_def)
  have n: "n = length ?c" "data_of (now m2) i = ?c" using fe oe(1) by simp_all
  have t: "take (min len (n - off)) (drop off ?c) = take len (drop off ?c)" using n(1) by (simp add: min_def)
  have "bs = take (min len (n - off)) (drop off ?c)"
  proof (cases "min len (n - off) = 0")
    case True
    with rd assms(1) o f show ?thesis by (auto simp: read_at_op_def Let_def)
  next
    case False
    let ?d = "\<lparr>contents = data_of (now m2) i, script = kernel m2, oom = no_mem m2\<rparr>"
    obtain d' where r: "read_range ?d off (min len (n - off)) = (d', Inr bs)"
      using rd assms(1) o f False by (auto simp: read_at_op_def with_reader_def Let_def split: prod.splits)
    have "length (contents ?d) \<le> u64_max" using assms(3) [OF c] n(2) by (simp add: u64_max_def)
    from read_range_data [OF r this] n(2) show ?thesis by simp
  qed
  with c t show "\<exists>c. file_at (now m) p = Some c \<and> bs = take len (drop off c)" by auto
qed

section \<open>Concrete calls\<close>

definition demo_handle :: handle where
  "demo_handle = \<lparr>resolve = Inr, h_sector = 512, h_ring = False, h_nvme = False, page_size = 4096\<rparr>"

lemma demo_store_links: "links_free (now demo_machine)"
  by (auto simp: links_free_def demo_machine_def demo_store_def split: if_splits)

lemma demo_append: "\<exists>m'. run_file_op demo_env demo_handle demo_machine (FAppend demo_path [5]) = (m', Inr ())"
  by (simp add: run_file_op_def append_op_def demo_handle_def open_create_def path_text_def demo_path_def demo_machine_def
      demo_store_def next_call_def with_file_def append_loop.simps sys_pwrite_def)

theorem handle_operations_refine_file_map_witness:
  "\<exists>m'. run_file_op demo_env demo_handle demo_machine (FAppend demo_path [5]) = (m', Inr ()) \<and>
     file_at (now m') demo_path = Some [9, 5] \<and> file_at (now m') demo_other = Some [9]"
proof -
  obtain m' where r: "run_file_op demo_env demo_handle demo_machine (FAppend demo_path [5]) = (m', Inr ())"
    using demo_append by blast
  have rs: "resolve_file_op demo_handle (FAppend demo_path [5]) = Inr (FAppend demo_path [5])"
    by (simp add: resolve_file_op_def demo_handle_def)
  have h: "length (op_data (FAppend demo_path [5])) < 2 ^ 62" "h_sector demo_handle \<le> 2 ^ 62"
    "\<And>op' p. resolve_file_op demo_handle (FAppend demo_path [5]) = Inr op' \<Longrightarrow> p \<in> op_paths op' \<Longrightarrow> \<not> is_temp p"
    using demo_job_facts(7) by (auto simp: op_data_def demo_handle_def [symmetric] rs op_paths_def) (simp add: demo_handle_def)
  let ?r = "Inr () :: unit result"
  have "case resolve_file_op demo_handle (FAppend demo_path [5]) of Inl e \<Rightarrow> m' = demo_machine \<and> ?r = Inl e
    | Inr op' \<Rightarrow> \<forall>q. \<not> is_temp q \<longrightarrow>
        (?r = Inr () \<longrightarrow> file_at (now m') q = apply_file_op op' (file_at (now demo_machine)) q) \<and>
        (?r \<noteq> Inr () \<longrightarrow> target_of op' \<noteq> Some q \<longrightarrow> file_at (now m') q = file_at (now demo_machine) q)"
    by (rule handle_operations_refine_file_map [OF r demo_facts(1,2) demo_store_links h(1,2)]) (fact h(3))
  then have "file_at (now m') q = apply_file_op (FAppend demo_path [5]) (file_at (now demo_machine)) q" if "\<not> is_temp q" for q
    using that by (simp add: rs)
  moreover have "file_at (now demo_machine) demo_path = Some [9]"
    by (simp add: file_at_def demo_machine_def demo_store_def demo_path_def demo_other_def)
  ultimately show ?thesis
    using r demo_job_facts(6,7) demo_facts(9,10) by (simp add: apply_file_op_def content_def)
qed

lemma demo_write:
  "\<exists>m'. run_file_op demo_env demo_handle demo_machine (FWrite demo_path [1, 2]) = (m', Inr ())"
proof -
  have a: "active_method (methods demo_machine) = MSync"
    by (simp add: active_method_def demo_machine_def method_from_u8_def)
  then have np: "\<not> plan_direct (replace_plan_of demo_machine)" by (simp add: replace_plan_of_def use_direct_def)
  obtain m0 where "gen_temp_path demo_env demo_machine demo_path = (m0, demo_temp)" using demo_gen_temp by blast
  from buffered_replace_no_fault [OF this demo_facts(3,4) demo_temp_free np, of "[1, 2]" "SoloHooks False False 512"] a
  show ?thesis by (auto simp: run_file_op_def write_unobserved_def demo_handle_def Let_def)
qed

theorem handle_write_is_crash_atomic_witness:
  "\<exists>m'. run_file_op demo_env demo_handle demo_machine (FWrite demo_path [1, 2]) = (m', Inr ()) \<and>
     (\<forall>s\<in>set (past m'). \<forall>c. after_crash s demo_path c \<longrightarrow> c = Some [9] \<or> c = Some [1, 2])"
proof -
  obtain m' where r: "run_file_op demo_env demo_handle demo_machine (FWrite demo_path [1, 2]) = (m', Inr ())"
    using demo_write by blast
  have h: "resolve demo_handle demo_path = Inr demo_path" "h_sector demo_handle \<le> 2 ^ 62" by (simp_all add: demo_handle_def)
  from handle_write_is_crash_atomic [OF r _ h(1) demo_facts(1,2) _ h(2), of "[1, 2]"] r show ?thesis
    by (auto simp: demo_facts(5,8) demo_handle_def)
qed

theorem handle_read_returns_content_witness:
  "\<exists>m' bs. read_unobserved demo_handle demo_machine demo_path = (m', Inr bs) \<and> file_at (now demo_machine) demo_path = Some bs"
proof -
  have f: "file_at (now demo_machine) demo_path = Some [9]"
    by (simp add: file_at_def demo_machine_def demo_store_def demo_path_def demo_other_def)
  have "\<exists>m' bs. read_unobserved demo_handle demo_machine demo_path = (m', Inr bs)"
    by (simp add: read_unobserved_def demo_handle_def demo_machine_def demo_store_def demo_path_def active_method_def
        method_from_u8_def plain_read_def use_direct_def open_read_def path_to_cstr_def path_text_def sys_open_existing_def next_call_def
        read_all_def)
  then obtain m' bs where r: "read_unobserved demo_handle demo_machine demo_path = (m', Inr bs)" by blast
  have "resolve demo_handle demo_path = Inr demo_path" "h_sector demo_handle \<le> 2 ^ 62" by (simp_all add: demo_handle_def)
  from handle_read_returns_content [OF this, of demo_machine] r f show ?thesis by auto
qed

section \<open>A copy onto itself\<close>

text \<open>A copy of a file onto itself reports success and leaves it empty.\<close>

lemma copy_onto_itself_empties:
  assumes "copy_op h m p p = (m', Inr n)" and "resolve h p = Inr p" and "wf_store (now m)" and "links_free (now m)" and "\<not> is_temp p"
  shows "file_at (now m') p = Some []"
  using copy_refines [OF assms(1,2,2,3,4)] assms(5) by (simp add: refines_def apply_file_op_def)

end
