(* ===== verification/Fsys_Text.thy ===== *)
theory Fsys_Text
  imports Fsys_Error
begin

text \<open>
  What the sources use of Rust's \<open>str\<close>: text is a list of Unicode scalar values, with the
  operations \<open>trim\<close>, \<open>lines\<close>, \<open>split\<close>, \<open>split_once\<close>, \<open>strip_prefix\<close>, \<open>strip_suffix\<close>, the parsers of
  integers in a radix, and the \<open>UTF-8\<close> coding of \<open>as_bytes\<close> and \<open>from_utf8\<close>. The lemmas give the
  round trips: a printed number is parsed back, joined pieces are split again, and coded text is
  decoded.
\<close>

type_synonym text_str = "nat list"

definition lit :: "string \<Rightarrow> text_str" where
  "lit s = map of_char s"

lemma lit_simps [simp]: "lit [] = []" "lit (c # s) = of_char c # lit s" "lit (s @ t) = lit s @ lit t"
  by (simp_all add: lit_def)

section \<open>Trimming and splitting\<close>

text \<open>The \<open>White_Space\<close> property of Unicode, which \<open>char::is_whitespace\<close> and \<open>trim\<close> use.\<close>

definition is_whitespace :: "nat \<Rightarrow> bool" where
  "is_whitespace c \<longleftrightarrow>
     9 \<le> c \<and> c \<le> 13 \<or> c = 32 \<or> c = 0x85 \<or> c = 0xA0 \<or> c = 0x1680 \<or> 0x2000 \<le> c \<and> c \<le> 0x200A
     \<or> c = 0x2028 \<or> c = 0x2029 \<or> c = 0x202F \<or> c = 0x205F \<or> c = 0x3000"

definition trim_start :: "text_str \<Rightarrow> text_str" where
  "trim_start = dropWhile is_whitespace"

definition trim_end :: "text_str \<Rightarrow> text_str" where
  "trim_end s = rev (dropWhile is_whitespace (rev s))"

definition trim :: "text_str \<Rightarrow> text_str" where
  "trim s = trim_end (trim_start s)"

definition strip_prefix :: "text_str \<Rightarrow> text_str \<Rightarrow> text_str option" where
  "strip_prefix p s = (if take (length p) s = p then Some (drop (length p) s) else None)"

definition strip_suffix :: "text_str \<Rightarrow> text_str \<Rightarrow> text_str option" where
  "strip_suffix p s = map_option rev (strip_prefix (rev p) (rev s))"

definition ends_with :: "text_str \<Rightarrow> text_str \<Rightarrow> bool" where
  "ends_with p s \<longleftrightarrow> strip_suffix p s \<noteq> None"

text \<open>\<open>split_once\<close> with a character, and the two halves that \<open>find\<close> and slicing give.\<close>

fun split_once :: "nat \<Rightarrow> text_str \<Rightarrow> (text_str \<times> text_str) option" where
  "split_once d [] = None"
| "split_once d (c # s) = (if c = d then Some ([], s) else map_option (\<lambda>(a, b). (c # a, b)) (split_once d s))"

text \<open>\<open>split\<close> with a character: one piece more than there are separators.\<close>

fun split_at :: "nat \<Rightarrow> text_str \<Rightarrow> text_str list" where
  "split_at d [] = [[]]"
| "split_at d (c # s) =
     (if c = d then [] # split_at d s
      else case split_at d s of [] \<Rightarrow> [[c]] | p # ps \<Rightarrow> (c # p) # ps)"

fun join :: "text_str \<Rightarrow> text_str list \<Rightarrow> text_str" where
  "join sep [] = []"
| "join sep [s] = s"
| "join sep (s # t # ss) = s @ sep @ join sep (t # ss)"

text \<open>\<open>lines\<close>: the pieces up to a line feed, without it and without a carriage return before it.\<close>

definition strip_cr :: "text_str \<Rightarrow> text_str" where
  "strip_cr l = (case strip_suffix [13] l of Some l' \<Rightarrow> l' | None \<Rightarrow> l)"

function lines :: "text_str \<Rightarrow> text_str list" where
  "lines s =
     (if s = [] then []
      else case split_once 10 s of
             None \<Rightarrow> [s]
           | Some (l, r) \<Rightarrow> strip_cr l # lines r)"
  by pat_completeness auto

lemma split_once_Some:
  "split_once d s = Some (a, b) \<longleftrightarrow> s = a @ d # b \<and> d \<notin> set a"
proof (induction s arbitrary: a)
  case (Cons c s)
  then show ?case by (cases a) auto
qed simp

termination lines
  by (relation "measure length") (auto simp: split_once_Some)

declare lines.simps [simp del]

lemma split_once_None: "split_once d s = None \<longleftrightarrow> d \<notin> set s"
  by (induction s) auto

lemma split_once_append [simp]: "d \<notin> set a \<Longrightarrow> split_once d (a @ d # b) = Some (a, b)"
  by (simp add: split_once_Some)

lemma split_at_not_Nil [simp]: "split_at d s \<noteq> []"
  by (induction s) (auto split: list.splits)

lemma split_at_simple: "d \<notin> set s \<Longrightarrow> split_at d s = [s]"
  by (induction s) auto

lemma split_at_append: "d \<notin> set a \<Longrightarrow> split_at d (a @ d # b) = a # split_at d b"
  by (induction a) auto

lemma split_at_join:
  "list_all (\<lambda>s. d \<notin> set s) ss \<Longrightarrow> ss \<noteq> [] \<Longrightarrow> split_at d (join [d] ss) = ss"
  by (induction "[d]" ss rule: join.induct) (auto simp: split_at_simple split_at_append)

lemma strip_prefix_append [simp]: "strip_prefix p (p @ s) = Some s"
  by (simp add: strip_prefix_def)

lemma strip_suffix_append [simp]: "strip_suffix p (s @ p) = Some s"
  by (simp add: strip_suffix_def strip_prefix_def)

lemma strip_prefix_single [simp]:
  "strip_prefix [c] [] = None" "strip_prefix [c] (d # s) = (if c = d then Some s else None)"
  by (auto simp: strip_prefix_def)

lemma strip_suffix_single:
  "strip_suffix [c] s = (if s \<noteq> [] \<and> last s = c then Some (butlast s) else None)"
  by (cases s rule: rev_cases) (auto simp: strip_suffix_def)

lemma strip_cr_same: "s = [] \<or> last s \<noteq> 13 \<Longrightarrow> strip_cr s = s"
  by (auto simp: strip_cr_def strip_suffix_single split: option.splits if_splits)

lemma lines_unfold:
  "lines [] = []"
  "10 \<notin> set l \<Longrightarrow> l = [] \<or> last l \<noteq> 13 \<Longrightarrow> lines (l @ 10 # s) = l # lines s"
  by (simp_all add: lines.simps [of "[]"] lines.simps [of "l @ 10 # s"] strip_cr_same)

lemma lines_concat:
  "list_all (\<lambda>l. 10 \<notin> set l \<and> (l = [] \<or> last l \<noteq> 13)) ls \<Longrightarrow> lines (concat (map (\<lambda>l. l @ [10]) ls)) = ls"
  by (induction ls) (auto simp: lines_unfold)

lemma trim_same: "s = [] \<or> \<not> is_whitespace (hd s) \<and> \<not> is_whitespace (last s) \<Longrightarrow> trim s = s"
proof -
  assume s: "s = [] \<or> \<not> is_whitespace (hd s) \<and> \<not> is_whitespace (last s)"
  then have "dropWhile is_whitespace s = s" by (auto simp: dropWhile_eq_self_iff)
  moreover have "dropWhile is_whitespace (rev s) = rev s" using s by (auto simp: dropWhile_eq_self_iff hd_rev)
  ultimately show ?thesis by (simp add: trim_def trim_start_def trim_end_def)
qed

lemma trim_blank_start: "is_whitespace c \<Longrightarrow> trim (c # s) = trim s"
  by (simp add: trim_def trim_start_def)

lemma trim_blank_end: "is_whitespace c \<Longrightarrow> s = [] \<or> \<not> is_whitespace (hd s) \<Longrightarrow> trim (s @ [c]) = trim s"
  by (cases s) (auto simp: trim_def trim_start_def trim_end_def)

section \<open>Numbers\<close>

text \<open>\<open>char::to_digit\<close>.\<close>

definition to_digit :: "nat \<Rightarrow> nat \<Rightarrow> nat option" where
  "to_digit radix c =
     (let d = (if 48 \<le> c \<and> c \<le> 57 then Some (c - 48)
               else if 97 \<le> c \<and> c \<le> 122 then Some (c - 87)
               else if 65 \<le> c \<and> c \<le> 90 then Some (c - 55) else None)
      in case d of Some n \<Rightarrow> if n < radix then Some n else None | None \<Rightarrow> None)"

fun digits_value :: "nat \<Rightarrow> nat \<Rightarrow> text_str \<Rightarrow> nat option" where
  "digits_value radix acc [] = Some acc"
| "digits_value radix acc (c # s) =
     (case to_digit radix c of None \<Rightarrow> None | Some d \<Rightarrow> digits_value radix (acc * radix + d) s)"

text \<open>
  \<open>from_str_radix\<close> of an unsigned type and \<open>from_str\<close> of \<open>i64\<close>: a sign, at least one digit, and the
  value in the range of the type. The accumulation is monotone, so a step that overflows leaves the
  range for good.
\<close>

definition parse_uint :: "nat \<Rightarrow> nat \<Rightarrow> text_str \<Rightarrow> nat option" where
  "parse_uint radix limit s =
     (let ds = (case s of c # t \<Rightarrow> if c = 43 then t else s | [] \<Rightarrow> [])
      in if ds = [] then None
         else case digits_value radix 0 ds of
                Some n \<Rightarrow> if n \<le> limit then Some n else None
              | None \<Rightarrow> None)"

definition parse_i64 :: "text_str \<Rightarrow> int option" where
  "parse_i64 s =
     (case s of
        [] \<Rightarrow> None
      | c # t \<Rightarrow>
          let neg = (c = 45); ds = (if c = 43 \<or> c = 45 then t else s)
          in if ds = [] then None
             else case digits_value 10 0 ds of
                    None \<Rightarrow> None
                  | Some n \<Rightarrow>
                      let i = (if neg then - int n else int n)
                      in if - (2 ^ 63) \<le> i \<and> i < 2 ^ 63 then Some i else None)"

lemma digits_value_append:
  "digits_value radix acc (s @ t) =
     (case digits_value radix acc s of None \<Rightarrow> None | Some n \<Rightarrow> digits_value radix n t)"
  by (induction s arbitrary: acc) (auto split: option.splits)

lemma of_digit_char [simp]: "d < 10 \<Longrightarrow> of_char (digit_char d) = (48 + d :: nat)"
  by (simp add: digit_char_def)

lemma to_digit_decimal [simp]: "d < 10 \<Longrightarrow> to_digit 10 (48 + d) = Some d"
  by (simp add: to_digit_def)

lemma digits_value_show_nat: "digits_value 10 0 (lit (show_nat n)) = Some n"
proof (induction n rule: show_nat.induct)
  case (1 n)
  show ?case
  proof (cases "n < 10")
    case True
    then show ?thesis using show_nat.simps [of n] by simp
  next
    case False
    then show ?thesis using 1 show_nat.simps [of n] by (simp add: digits_value_append)
  qed
qed

lemma show_nat_digits: "list_all (\<lambda>c. 48 \<le> c \<and> c \<le> 57) (lit (show_nat n))"
proof (induction n rule: show_nat.induct)
  case (1 n)
  then show ?case using show_nat.simps [of n] by (cases "n < 10") simp_all
qed

lemma show_nat_not_Nil [simp]: "show_nat n \<noteq> []"
  using show_nat.simps [of n] by (cases "n < 10") simp_all

lemma show_nat_cases:
  obtains c s where "lit (show_nat n) = c # s" and "48 \<le> c" and "c \<le> 57"
  using show_nat_digits [of n] by (cases "lit (show_nat n)") (auto simp: lit_def)

lemma parse_uint_show_nat: "n \<le> limit \<Longrightarrow> parse_uint 10 limit (lit (show_nat n)) = Some n"
  using digits_value_show_nat [of n] by (rule_tac show_nat_cases [of n]) (simp add: parse_uint_def)

lemma parse_i64_show_int:
  assumes "- (2 ^ 63) \<le> i" and "i < 2 ^ 63"
  shows "parse_i64 (lit (show_int i)) = Some i"
proof (cases "i < 0")
  case True
  with assms digits_value_show_nat [of "nat (- i)"] show ?thesis
    by (rule_tac show_nat_cases [of "nat (- i)"]) (simp add: parse_i64_def show_int_def)
next
  case False
  with assms digits_value_show_nat [of "nat i"] show ?thesis
    by (rule_tac show_nat_cases [of "nat i"]) (simp add: parse_i64_def show_int_def)
qed

section \<open>UTF-8\<close>

definition scalar :: "nat \<Rightarrow> bool" where
  "scalar c \<longleftrightarrow> c < 0xD800 \<or> 0xE000 \<le> c \<and> c < 0x110000"

definition utf8_char :: "nat \<Rightarrow> nat list" where
  "utf8_char c =
     (if c < 0x80 then [c]
      else if c < 0x800 then [0xC0 + c div 64, 0x80 + c mod 64]
      else if c < 0x10000 then [0xE0 + c div 4096, 0x80 + c div 64 mod 64, 0x80 + c mod 64]
      else [0xF0 + c div 262144, 0x80 + c div 4096 mod 64, 0x80 + c div 64 mod 64, 0x80 + c mod 64])"

definition as_bytes :: "text_str \<Rightarrow> bytes" where
  "as_bytes s = map word_of_nat (concat (map utf8_char s))"

definition continuation :: "nat \<Rightarrow> bool" where
  "continuation b \<longleftrightarrow> 0x80 \<le> b \<and> b < 0xC0"

fun utf8_decode :: "nat list \<Rightarrow> text_str option" where
  "utf8_decode [] = Some []"
| "utf8_decode (b # bs) =
     (if b < 0x80 then map_option ((#) b) (utf8_decode bs)
      else case bs of
             [] \<Rightarrow> None
           | b1 # bs1 \<Rightarrow>
               if b < 0xC2 \<or> \<not> continuation b1 then None
               else if b < 0xE0 then map_option ((#) ((b - 0xC0) * 64 + (b1 - 0x80))) (utf8_decode bs1)
               else case bs1 of
                      [] \<Rightarrow> None
                    | b2 # bs2 \<Rightarrow>
                        if \<not> continuation b2 then None
                        else if b < 0xF0 then
                          let c = (b - 0xE0) * 4096 + (b1 - 0x80) * 64 + (b2 - 0x80)
                          in if 0x800 \<le> c \<and> scalar c then map_option ((#) c) (utf8_decode bs2) else None
                        else case bs2 of
                               [] \<Rightarrow> None
                             | b3 # bs3 \<Rightarrow>
                                 let c = (b - 0xF0) * 262144 + (b1 - 0x80) * 4096 + (b2 - 0x80) * 64 + (b3 - 0x80)
                                 in if continuation b3 \<and> 0x10000 \<le> c \<and> scalar c
                                    then map_option ((#) c) (utf8_decode bs3) else None)"

definition from_utf8 :: "bytes \<Rightarrow> text_str option" where
  "from_utf8 bs = utf8_decode (map unat bs)"

lemma split64: "c div 4096 * 4096 + c div 64 mod 64 * 64 + c mod 64 = (c::nat)"
  "c div 262144 * 262144 + c div 4096 mod 64 * 4096 + c div 64 mod 64 * 64 + c mod 64 = c"
proof -
  have parts: "c div 64 * 64 + c mod 64 = c" "c div 4096 * 64 + c div 64 mod 64 = c div 64"
    "c div 262144 * 64 + c div 4096 mod 64 = c div 4096"
    using div_mult_mod_eq [of "c div 64" 64] div_mult_mod_eq [of "c div 4096" 64]
    by (simp_all add: div_mult2_eq [symmetric])
  then show "c div 4096 * 4096 + c div 64 mod 64 * 64 + c mod 64 = c" by linarith
  from parts show "c div 262144 * 262144 + c div 4096 mod 64 * 4096 + c div 64 mod 64 * 64 + c mod 64 = c" by linarith
qed

lemma utf8_decode_char: "scalar c \<Longrightarrow> utf8_decode (utf8_char c @ bs) = map_option ((#) c) (utf8_decode bs)"
proof -
  assume c: "scalar c"
  consider "c < 0x80" | "0x80 \<le> c" "c < 0x800" | "0x800 \<le> c" "c < 0x10000" | "0x10000 \<le> c" by linarith
  then show ?thesis
  proof cases
    case 2
    then have "2 \<le> c div 64" "c div 64 < 32" by auto
    then show ?thesis using 2 by (simp add: utf8_char_def continuation_def)
  next
    case 3
    then have "c div 4096 < 16" by auto
    then show ?thesis using 3 c split64(1) [of c] by (simp add: utf8_char_def continuation_def Let_def)
  next
    case 4
    then have "c div 262144 < 5" using c by (simp add: scalar_def)
    then show ?thesis using 4 c split64(2) [of c] by (simp add: utf8_char_def continuation_def Let_def)
  qed (simp add: utf8_char_def)
qed

lemma utf8_char_bytes: "scalar c \<Longrightarrow> list_all (\<lambda>b. b < 256) (utf8_char c)"
  by (auto simp: utf8_char_def scalar_def)

lemma from_utf8_as_bytes: "list_all scalar s \<Longrightarrow> from_utf8 (as_bytes s) = Some s"
proof -
  assume s: "list_all scalar s"
  have "map (unat \<circ> (word_of_nat :: nat \<Rightarrow> u8)) (concat (map utf8_char s)) = concat (map utf8_char s)"
    using s utf8_char_bytes by (intro map_idI) (fastforce simp: list_all_iff unat_of_nat)
  moreover have "utf8_decode (concat (map utf8_char s)) = Some s"
    using s by (induction s) (simp_all add: utf8_decode_char)
  ultimately show ?thesis by (simp add: from_utf8_def as_bytes_def)
qed

end
