(* ===== verification/Fsys_Toml.thy ===== *)
theory Fsys_Toml
  imports Fsys_Text "HOL-Library.List_Lexorder"
begin

text \<open>
  The TOML subset of the capability cache (\<open>src/capability/toml_lite.rs\<close>): values, documents, the
  serialiser and the parser. A \<open>BTreeMap\<close> is the list of its entries in the order of the keys, which
  is the order it is iterated in. The main lemma is the round trip of every document that the setters
  can build with valid keys and without the control characters that the serialiser drops.
\<close>

section \<open>Ordered maps\<close>

type_synonym ('k, 'v) btree_map = "('k \<times> 'v) list"

fun bt_insert :: "'k::linorder \<Rightarrow> 'v \<Rightarrow> ('k, 'v) btree_map \<Rightarrow> ('k, 'v) btree_map" where
  "bt_insert k v [] = [(k, v)]"
| "bt_insert k v ((k', v') # m) =
     (if k < k' then (k, v) # (k', v') # m
      else if k = k' then (k, v) # m
      else (k', v') # bt_insert k v m)"

definition bt_ok :: "('k::linorder, 'v) btree_map \<Rightarrow> bool" where
  "bt_ok m \<longleftrightarrow> sorted_wrt (<) (map fst m)"

lemma bt_get_insert [simp]: "map_of (bt_insert k v m) = (map_of m)(k \<mapsto> v)"
  by (induction k v m rule: bt_insert.induct) auto

lemma bt_insert_keys [simp]: "fst ` set (bt_insert k v m) = insert k (fst ` set m)"
  by (induction k v m rule: bt_insert.induct) auto

lemma bt_insert_ok [simp]: "bt_ok m \<Longrightarrow> bt_ok (bt_insert k v m)"
proof (induction k v m rule: bt_insert.induct)
  case (2 k v k' v' m)
  have "fst ` set (bt_insert k v m) = insert k (fst ` set m)" by simp
  with 2 show ?case by (auto simp: bt_ok_def)
qed (simp add: bt_ok_def)

lemma bt_insert_last: "list_all (\<lambda>e. fst e < k) m \<Longrightarrow> bt_insert k v m = m @ [(k, v)]"
  by (induction k v m rule: bt_insert.induct) auto

section \<open>Documents\<close>

datatype toml_value = TString text_str | TInteger int | TBoolean bool | TStringArray "text_str list"

record document =
  root :: "(text_str, toml_value) btree_map"
  sections :: "(text_str, (text_str, toml_value) btree_map) btree_map"

definition document_new :: document where
  "document_new = \<lparr>root = [], sections = []\<rparr>"

definition set_root :: "text_str \<Rightarrow> toml_value \<Rightarrow> document \<Rightarrow> document" where
  "set_root key v doc = doc\<lparr>root := bt_insert key v (root doc)\<rparr>"

definition set_in :: "text_str \<Rightarrow> text_str \<Rightarrow> toml_value \<Rightarrow> document \<Rightarrow> document" where
  "set_in section key v doc =
     (let tbl = (case map_of (sections doc) section of None \<Rightarrow> [] | Some t \<Rightarrow> t)
      in doc\<lparr>sections := bt_insert section (bt_insert key v tbl) (sections doc)\<rparr>)"

definition as_int :: "toml_value \<Rightarrow> int option" where
  "as_int v = (case v of TInteger i \<Rightarrow> Some i | _ \<Rightarrow> None)"

definition as_string :: "toml_value \<Rightarrow> text_str option" where
  "as_string v = (case v of TString s \<Rightarrow> Some s | _ \<Rightarrow> None)"

definition as_bool :: "toml_value \<Rightarrow> bool option" where
  "as_bool v = (case v of TBoolean b \<Rightarrow> Some b | _ \<Rightarrow> None)"

definition as_strings :: "toml_value \<Rightarrow> text_str list option" where
  "as_strings v = (case v of TStringArray ss \<Rightarrow> Some ss | _ \<Rightarrow> None)"

definition section_get :: "document \<Rightarrow> text_str \<Rightarrow> text_str \<Rightarrow> toml_value option" where
  "section_get doc section key = Option.bind (map_of (sections doc) section) (\<lambda>t. map_of t key)"

definition root_int :: "document \<Rightarrow> text_str \<Rightarrow> int option" where
  "root_int doc key = Option.bind (map_of (root doc) key) as_int"

definition root_string :: "document \<Rightarrow> text_str \<Rightarrow> text_str option" where
  "root_string doc key = Option.bind (map_of (root doc) key) as_string"

definition section_bool :: "document \<Rightarrow> text_str \<Rightarrow> text_str \<Rightarrow> bool option" where
  "section_bool doc section key = Option.bind (section_get doc section key) as_bool"

definition section_int :: "document \<Rightarrow> text_str \<Rightarrow> text_str \<Rightarrow> int option" where
  "section_int doc section key = Option.bind (section_get doc section key) as_int"

definition section_string :: "document \<Rightarrow> text_str \<Rightarrow> text_str \<Rightarrow> text_str option" where
  "section_string doc section key = Option.bind (section_get doc section key) as_string"

definition section_strings :: "document \<Rightarrow> text_str \<Rightarrow> text_str \<Rightarrow> text_str list option" where
  "section_strings doc section key = Option.bind (section_get doc section key) as_strings"

section \<open>The serialiser\<close>

definition escape_char :: "nat \<Rightarrow> text_str" where
  "escape_char c =
     (if c = 92 then [92, 92]
      else if c = 34 then [92, 34]
      else if c = 10 then [92, 110]
      else if c = 13 then [92, 114]
      else if c = 9 then [92, 116]
      else if c < 0x20 then []
      else [c])"

definition push_escaped :: "text_str \<Rightarrow> text_str \<Rightarrow> text_str" where
  "push_escaped out s = out @ concat (map escape_char s)"

fun push_items :: "text_str \<Rightarrow> nat \<Rightarrow> text_str list \<Rightarrow> text_str" where
  "push_items out i [] = out"
| "push_items out i (s # ss) =
     (let out1 = (if 0 < i then out @ lit '', '' else out)
      in push_items (push_escaped (out1 @ [34]) s @ [34]) (Suc i) ss)"

definition push_pair :: "text_str \<Rightarrow> text_str \<Rightarrow> toml_value \<Rightarrow> text_str" where
  "push_pair out key v =
     (let out1 = out @ key @ lit '' = '';
          out2 = (case v of
                    TString s \<Rightarrow> push_escaped (out1 @ [34]) s @ [34]
                  | TInteger i \<Rightarrow> out1 @ lit (show_int i)
                  | TBoolean b \<Rightarrow> out1 @ lit (if b then ''true'' else ''false'')
                  | TStringArray ss \<Rightarrow> push_items (out1 @ [91]) 0 ss @ [93])
      in out2 @ [10])"

definition push_section :: "text_str \<Rightarrow> text_str \<Rightarrow> (text_str, toml_value) btree_map \<Rightarrow> text_str" where
  "push_section out name table =
     (let out1 = (if out \<noteq> [] \<and> \<not> ends_with [10, 10] out then out @ [10] else out)
      in fold (\<lambda>(k, v) o'. push_pair o' k v) table (out1 @ [91] @ name @ [93, 10]))"

definition document_serialize :: "document \<Rightarrow> text_str" where
  "document_serialize doc =
     (let out = lit ''# fsys capability cache (schema 1.1.0+).'' @ [10]
            @ lit ''# Regenerated on probe; safe to delete.'' @ [10, 10];
          out1 = fold (\<lambda>(k, v) o'. push_pair o' k v) (root doc) out
      in fold (\<lambda>(name, table) o'. push_section o' name table) (sections doc) out1)"

section \<open>The parser\<close>

fun strip_comment :: "bool \<Rightarrow> bool \<Rightarrow> text_str \<Rightarrow> text_str" where
  "strip_comment in_string escape [] = []"
| "strip_comment in_string escape (ch # s) =
     (if escape then ch # strip_comment in_string False s
      else if ch = 92 \<and> in_string then ch # strip_comment in_string True s
      else if ch = 34 then ch # strip_comment (\<not> in_string) False s
      else if ch = 35 \<and> \<not> in_string then []
      else ch # strip_comment in_string False s)"

definition key_char :: "nat \<Rightarrow> bool" where
  "key_char c \<longleftrightarrow> 48 \<le> c \<and> c \<le> 57 \<or> 65 \<le> c \<and> c \<le> 90 \<or> 97 \<le> c \<and> c \<le> 122 \<or> c = 95 \<or> c = 45"

definition is_valid_key :: "text_str \<Rightarrow> bool" where
  "is_valid_key s \<longleftrightarrow> s \<noteq> [] \<and> list_all key_char s"

definition unescape_char :: "nat \<Rightarrow> nat option" where
  "unescape_char c =
     (if c = 92 then Some 92 else if c = 34 then Some 34 else if c = 110 then Some 10
      else if c = 114 then Some 13 else if c = 116 then Some 9 else None)"

fun unescape :: "text_str \<Rightarrow> text_str option" where
  "unescape [] = Some []"
| "unescape (ch # s) =
     (if ch = 92 then
        (case s of
           [] \<Rightarrow> None
         | nxt # s1 \<Rightarrow>
             (case unescape_char nxt of None \<Rightarrow> None | Some c \<Rightarrow> map_option ((#) c) (unescape s1)))
      else map_option ((#) ch) (unescape s))"

text \<open>One quoted item of an array: the characters so far, and what is left behind the closing quote.\<close>

fun read_quoted :: "text_str \<Rightarrow> text_str \<Rightarrow> (text_str \<times> text_str) option" where
  "read_quoted cur [] = None"
| "read_quoted cur (ch # s) =
     (if ch = 92 then
        (case s of
           [] \<Rightarrow> None
         | nxt # s1 \<Rightarrow>
             (case unescape_char nxt of None \<Rightarrow> None | Some c \<Rightarrow> read_quoted (cur @ [c]) s1))
      else if ch = 34 then Some (cur, s)
      else read_quoted (cur @ [ch]) s)"

lemma read_quoted_shorter: "read_quoted cur s = Some (item, rest) \<Longrightarrow> length rest < length s"
proof (induction cur s rule: read_quoted.induct)
  case (2 cur ch s)
  show ?case
  proof (cases "ch = 92")
    case True
    with 2 obtain nxt s1 c where s: "s = nxt # s1" "unescape_char nxt = Some c" "read_quoted (cur @ [c]) s1 = Some (item, rest)"
      by (auto split: list.splits option.splits)
    from 2(1) [OF True this(1) this(2) this(3)] show ?thesis using s by simp
  next
    case False
    with 2 show ?thesis by (auto split: if_splits)
  qed
qed simp

lemma dropWhile_shorter: "dropWhile P xs = y # ys \<Longrightarrow> length ys < length xs"
  by (metis Suc_le_lessD length_Cons length_dropWhile_le)

function parse_items :: "text_str list \<Rightarrow> text_str \<Rightarrow> text_str list option" where
  "parse_items items s =
     (case dropWhile is_whitespace s of
        [] \<Rightarrow> None
      | c # s1 \<Rightarrow>
          if c \<noteq> 34 then None
          else case read_quoted [] s1 of
                 None \<Rightarrow> None
               | Some (current, s2) \<Rightarrow>
                   (case dropWhile is_whitespace s2 of
                      [] \<Rightarrow> Some (items @ [current])
                    | c # s3 \<Rightarrow> if c = 44 then parse_items (items @ [current]) s3 else None))"
  by pat_completeness auto
termination
  by (relation "measure (length \<circ> snd)") (auto dest!: dropWhile_shorter read_quoted_shorter)

declare parse_items.simps [simp del]

definition parse_string_array :: "text_str \<Rightarrow> toml_value option" where
  "parse_string_array inner =
     (let inner = trim inner
      in if inner = [] then Some (TStringArray []) else map_option TStringArray (parse_items [] inner))"

definition parse_value :: "text_str \<Rightarrow> toml_value option" where
  "parse_value s =
     (if s = lit ''true'' then Some (TBoolean True)
      else if s = lit ''false'' then Some (TBoolean False)
      else case Option.bind (strip_prefix [34] s) (strip_suffix [34]) of
             Some stripped \<Rightarrow> map_option TString (unescape stripped)
           | None \<Rightarrow>
               (case Option.bind (strip_prefix [91] s) (strip_suffix [93]) of
                  Some stripped \<Rightarrow> parse_string_array stripped
                | None \<Rightarrow> map_option TInteger (parse_i64 s)))"

definition parse_pair :: "text_str \<Rightarrow> (text_str \<times> toml_value) option" where
  "parse_pair line =
     (case split_once 61 line of
        None \<Rightarrow> None
      | Some (l, r) \<Rightarrow>
          let key = trim l; rest = trim r
          in if \<not> is_valid_key key then None
             else map_option (\<lambda>v. (key, v)) (parse_value rest))"

fun parse_lines :: "document \<Rightarrow> text_str option \<Rightarrow> text_str list \<Rightarrow> document option" where
  "parse_lines doc current [] = Some doc"
| "parse_lines doc current (raw_line # raw_lines) =
     (let line = trim (strip_comment False False raw_line)
      in if line = [] then parse_lines doc current raw_lines
         else case Option.bind (strip_prefix [91] line) (strip_suffix [93]) of
                Some stripped \<Rightarrow>
                  let name = trim stripped
                  in if name = [] \<or> \<not> is_valid_key name then None
                     else parse_lines doc (Some name) raw_lines
              | None \<Rightarrow>
                  (case parse_pair line of
                     None \<Rightarrow> None
                   | Some (key, v) \<Rightarrow>
                       parse_lines
                         (case current of None \<Rightarrow> set_root key v doc | Some s \<Rightarrow> set_in s key v doc)
                         current raw_lines))"

definition document_parse :: "text_str \<Rightarrow> document option" where
  "document_parse s = parse_lines document_new None (lines s)"

section \<open>The round trip\<close>

text \<open>
  What a serialised string keeps: every Unicode scalar value but the control characters other than
  tab and line ends.
\<close>

definition text_kept :: "text_str \<Rightarrow> bool" where
  "text_kept s \<longleftrightarrow> list_all (\<lambda>c. scalar c \<and> (0x20 \<le> c \<or> c = 9 \<or> c = 10 \<or> c = 13)) s"

fun value_kept :: "toml_value \<Rightarrow> bool" where
  "value_kept (TString s) \<longleftrightarrow> text_kept s"
| "value_kept (TInteger i) \<longleftrightarrow> - (2 ^ 63) \<le> i \<and> i < 2 ^ 63"
| "value_kept (TBoolean b) \<longleftrightarrow> True"
| "value_kept (TStringArray ss) \<longleftrightarrow> list_all text_kept ss"

definition table_ok :: "(text_str, toml_value) btree_map \<Rightarrow> bool" where
  "table_ok t \<longleftrightarrow> bt_ok t \<and> list_all (\<lambda>(k, v). is_valid_key k \<and> value_kept v) t"

definition document_ok :: "document \<Rightarrow> bool" where
  "document_ok doc \<longleftrightarrow>
     table_ok (root doc) \<and> bt_ok (sections doc)
     \<and> list_all (\<lambda>(s, t). is_valid_key s \<and> t \<noteq> [] \<and> table_ok t) (sections doc)"

abbreviation escaped :: "text_str \<Rightarrow> text_str" where
  "escaped s \<equiv> concat (map escape_char s)"

abbreviation quoted :: "text_str \<Rightarrow> text_str" where
  "quoted s \<equiv> 34 # escaped s @ [34]"

definition value_text :: "toml_value \<Rightarrow> text_str" where
  "value_text v =
     (case v of
        TString s \<Rightarrow> quoted s
      | TInteger i \<Rightarrow> lit (show_int i)
      | TBoolean b \<Rightarrow> lit (if b then ''true'' else ''false'')
      | TStringArray ss \<Rightarrow> 91 # join [44, 32] (map quoted ss) @ [93])"

definition pair_line :: "text_str \<times> toml_value \<Rightarrow> text_str" where
  "pair_line e = fst e @ [32, 61, 32] @ value_text (snd e)"

lemma push_items_text:
  "push_items out i ss =
     out @ (if ss \<noteq> [] \<and> 0 < i then [44, 32] else []) @ join [44, 32] (map quoted ss)"
proof (induction ss arbitrary: out i)
  case (Cons s ss)
  let ?out = "out @ (if 0 < i then [44, 32] else []) @ quoted s"
  have "push_items out i (s # ss) = push_items ?out (Suc i) ss" by (simp add: push_escaped_def Let_def)
  also have "\<dots> = ?out @ (if ss \<noteq> [] then [44, 32] else []) @ join [44, 32] (map quoted ss)"
    by (simp only: Cons.IH zero_less_Suc simp_thms)
  finally show ?case by (cases ss) simp_all
qed simp

lemma push_pair_text: "push_pair out k v = out @ pair_line (k, v) @ [10]"
  by (cases v) (simp_all add: push_pair_def pair_line_def value_text_def push_items_text push_escaped_def)

lemma push_pairs_text:
  "fold (\<lambda>(k, v) o'. push_pair o' k v) t out = out @ concat (map (\<lambda>e. pair_line e @ [10]) t)"
  by (induction t arbitrary: out) (auto simp: push_pair_text)

lemma push_section_text:
  "\<exists>gap. list_all ((=) []) gap \<and> push_section out name t =
     out @ concat (map (\<lambda>l. l @ [10]) (gap @ (91 # name @ [93]) # map pair_line t))"
proof (cases "out \<noteq> [] \<and> \<not> ends_with [10, 10] out")
  case True
  then show ?thesis
    by (intro exI [of _ "[[]]"]) (simp add: push_section_def push_pairs_text comp_def)
next
  case False
  then show ?thesis
    by (intro exI [of _ "[]"]) (auto simp: push_section_def push_pairs_text comp_def)
qed

text \<open>The lines of a serialised document: two comments, the root, and the sections with blank lines between.\<close>

inductive section_lines :: "(text_str, (text_str, toml_value) btree_map) btree_map \<Rightarrow> text_str list \<Rightarrow> bool" where
  no_section: "section_lines [] []"
| one_section: "section_lines ss ls \<Longrightarrow> list_all ((=) []) gap \<Longrightarrow>
    section_lines ((name, t) # ss) (gap @ (91 # name @ [93]) # map pair_line t @ ls)"

abbreviation text_of_lines :: "text_str list \<Rightarrow> text_str" where
  "text_of_lines ls \<equiv> concat (map (\<lambda>l. l @ [10]) ls)"

abbreviation header_lines :: "text_str list" where
  "header_lines \<equiv>
     [lit ''# fsys capability cache (schema 1.1.0+).'', lit ''# Regenerated on probe; safe to delete.'', []]"

lemma push_sections_text:
  "\<exists>ls. section_lines ss ls \<and>
     fold (\<lambda>(name, t) o'. push_section o' name t) ss out = out @ text_of_lines ls"
proof (induction ss arbitrary: out)
  case Nil
  show ?case by (intro exI [of _ "[]"]) (simp add: no_section)
next
  case (Cons s ss)
  obtain name t where s: "s = (name, t)" by fastforce
  obtain gap where gap: "list_all ((=) []) gap" "push_section out name t =
     out @ text_of_lines (gap @ (91 # name @ [93]) # map pair_line t)"
    using push_section_text by blast
  obtain ls where ls: "section_lines ss ls"
    "fold (\<lambda>(name, t) o'. push_section o' name t) ss (push_section out name t) = push_section out name t @ text_of_lines ls"
    using Cons.IH by blast
  then have "section_lines (s # ss) (gap @ (91 # name @ [93]) # map pair_line t @ ls)"
    unfolding s by (intro one_section gap)
  moreover have "fold (\<lambda>(name, t) o'. push_section o' name t) (s # ss) out =
      out @ text_of_lines (gap @ (91 # name @ [93]) # map pair_line t @ ls)"
    using ls(2) gap(2) s by (simp only: fold_simps comp_apply prod.case append.assoc map_append concat_append append_Cons list.map concat.simps)
  ultimately show ?case by blast
qed

lemma serialize_lines:
  "\<exists>ls. section_lines (sections doc) ls \<and>
     document_serialize doc = text_of_lines (header_lines @ map pair_line (root doc) @ ls)"
proof -
  obtain ls where "section_lines (sections doc) ls" "document_serialize doc =
      fold (\<lambda>(k, v) o'. push_pair o' k v) (root doc) (text_of_lines header_lines) @ text_of_lines ls"
    using push_sections_text by (fastforce simp: document_serialize_def Let_def)
  then show ?thesis by (intro exI [of _ ls]) (simp add: push_pairs_text comp_def)
qed

text \<open>Escaping: a kept character becomes itself, or a backslash and a letter that is read back.\<close>

lemma escape_char_cases:
  assumes "0x20 \<le> c \<or> c = 9 \<or> c = 10 \<or> c = 13"
  obtains (plain) "escape_char c = [c]" "c \<noteq> 92" "c \<noteq> 34" "c \<noteq> 10" "c \<noteq> 13"
    | (pair) d where "escape_char c = [92, d]" "unescape_char d = Some c" "d \<noteq> 10" "d \<noteq> 13"
proof -
  consider "c = 92" | "c = 34" | "c = 10" | "c = 13" | "c = 9" | "c \<notin> {92, 34, 10, 13, 9}" by blast
  then show ?thesis
  proof cases
    case 1
    then show ?thesis by (intro pair [of 92]) (simp_all add: escape_char_def unescape_char_def)
  next
    case 2
    then show ?thesis by (intro pair [of 34]) (simp_all add: escape_char_def unescape_char_def)
  next
    case 3
    then show ?thesis by (intro pair [of 110]) (simp_all add: escape_char_def unescape_char_def)
  next
    case 4
    then show ?thesis by (intro pair [of 114]) (simp_all add: escape_char_def unescape_char_def)
  next
    case 5
    then show ?thesis by (intro pair [of 116]) (simp_all add: escape_char_def unescape_char_def)
  next
    case 6
    then show ?thesis using assms by (intro plain) (auto simp: escape_char_def)
  qed
qed

lemma text_kept_Cons [simp]:
  "text_kept []" "text_kept (c # s) \<longleftrightarrow> scalar c \<and> (0x20 \<le> c \<or> c = 9 \<or> c = 10 \<or> c = 13) \<and> text_kept s"
  by (simp_all add: text_kept_def)

lemma unescape_escaped: "text_kept s \<Longrightarrow> unescape (escaped s) = Some s"
proof (induction s)
  case (Cons c s)
  then have "0x20 \<le> c \<or> c = 9 \<or> c = 10 \<or> c = 13" by simp
  then show ?case by (rule escape_char_cases) (use Cons in simp_all)
qed simp

lemma read_quoted_escaped:
  "text_kept s \<Longrightarrow> read_quoted cur (escaped s @ 34 # r) = Some (cur @ s, r)"
proof (induction s arbitrary: cur)
  case (Cons c s)
  then have "0x20 \<le> c \<or> c = 9 \<or> c = 10 \<or> c = 13" by simp
  then show ?case by (rule escape_char_cases) (use Cons in simp_all)
qed simp

lemma strip_comment_escaped:
  "text_kept s \<Longrightarrow> strip_comment True False (escaped s @ r) = escaped s @ strip_comment True False r"
proof (induction s)
  case (Cons c s)
  then have "0x20 \<le> c \<or> c = 9 \<or> c = 10 \<or> c = 13" by simp
  then show ?case by (rule escape_char_cases) (use Cons in simp_all)
qed simp

lemma escaped_one_line: "text_kept s \<Longrightarrow> 10 \<notin> set (escaped s)"
proof (induction s)
  case (Cons c s)
  then have "0x20 \<le> c \<or> c = 9 \<or> c = 10 \<or> c = 13" by simp
  then show ?case by (rule escape_char_cases) (use Cons in auto)
qed simp

lemma strip_comment_quoted:
  "text_kept s \<Longrightarrow> strip_comment False False (34 # escaped s @ 34 # r) = 34 # escaped s @ 34 # strip_comment False False r"
  by (simp add: strip_comment_escaped)

lemma strip_comment_plain:
  "list_all (\<lambda>c. c \<noteq> 34 \<and> c \<noteq> 35) p \<Longrightarrow> strip_comment False False (p @ r) = p @ strip_comment False False r"
  by (induction p) auto

lemma strip_comment_items:
  "list_all text_kept ss \<Longrightarrow>
     strip_comment False False (join [44, 32] (map quoted ss) @ r) = join [44, 32] (map quoted ss) @ strip_comment False False r"
proof (induction ss)
  case (Cons s ss)
  then show ?case by (cases ss) (simp_all add: strip_comment_escaped)
qed simp

lemma show_int_chars: "list_all (\<lambda>c. 45 \<le> c \<and> c \<le> 57) (lit (show_int i))"
  using show_nat_digits [of "nat i"] show_nat_digits [of "nat (- i)"]
  by (auto simp: show_int_def list_all_iff)

lemma show_int_not_Nil [simp]: "show_int i \<noteq> []"
  by (simp add: show_int_def)

lemma strip_comment_value: "value_kept v \<Longrightarrow> strip_comment False False (value_text v) = value_text v"
proof (cases v)
  case (TInteger i)
  have "list_all (\<lambda>c. c \<noteq> 34 \<and> c \<noteq> 35) (lit (show_int i))"
    using show_int_chars [of i] by (auto simp: list_all_iff)
  from strip_comment_plain [OF this, of "[]"] show ?thesis by (simp add: TInteger value_text_def)
next
  case (TStringArray ss)
  moreover assume "value_kept v"
  ultimately show ?thesis using strip_comment_items [of ss "[93]"] by (simp add: value_text_def)
qed (simp_all add: value_text_def strip_comment_escaped)

lemma value_text_ends:
  "value_text v \<noteq> [] \<and> \<not> is_whitespace (hd (value_text v)) \<and> \<not> is_whitespace (last (value_text v))"
proof (cases v)
  case (TInteger i)
  have "lit (show_int i) \<noteq> []" by (simp add: lit_def)
  moreover from this have "hd (lit (show_int i)) \<in> set (lit (show_int i))" "last (lit (show_int i)) \<in> set (lit (show_int i))"
    by simp_all
  moreover have "\<forall>c \<in> set (lit (show_int i)). \<not> is_whitespace c"
    using show_int_chars [of i] by (auto simp: list_all_iff is_whitespace_def)
  ultimately show ?thesis by (simp add: TInteger value_text_def)
qed (simp_all add: value_text_def is_whitespace_def)

lemma items_one_line: "list_all text_kept ss \<Longrightarrow> 10 \<notin> set (join [44, 32] (map quoted ss))"
proof (induction ss)
  case (Cons s ss)
  then show ?case using escaped_one_line by (cases ss) auto
qed simp

lemma value_one_line: "value_kept v \<Longrightarrow> 10 \<notin> set (value_text v)"
proof (cases v)
  case (TInteger i)
  then show ?thesis using show_int_chars [of i] by (auto simp: value_text_def list_all_iff)
qed (use escaped_one_line items_one_line in \<open>auto simp: value_text_def\<close>)

lemma is_whitespace_simps [simp]:
  "is_whitespace 32" "\<not> is_whitespace 34" "\<not> is_whitespace 44" "\<not> is_whitespace 91" "\<not> is_whitespace 93"
  by (simp_all add: is_whitespace_def)

lemma parse_items_space: "parse_items items (32 # s) = parse_items items s"
  by (simp add: parse_items.simps [of items s] parse_items.simps [of items "32 # s"])

lemma parse_items_quoted:
  "list_all text_kept ss \<Longrightarrow> ss \<noteq> [] \<Longrightarrow> parse_items items (join [44, 32] (map quoted ss)) = Some (items @ ss)"
proof (induction ss arbitrary: items)
  case (Cons s ss)
  show ?case
  proof (cases ss)
    case Nil
    then show ?thesis using Cons.prems by (simp add: parse_items.simps read_quoted_escaped)
  next
    case (Cons s' ss')
    let ?r = "join [44, 32] (map quoted ss)"
    have "parse_items items (join [44, 32] (map quoted (s # ss))) = parse_items items (34 # escaped s @ 34 # 44 # 32 # ?r)"
      using Cons by simp
    also have "\<dots> = parse_items (items @ [s]) (32 # ?r)"
      using Cons.prems by (subst parse_items.simps) (simp add: read_quoted_escaped)
    finally show ?thesis using Cons.IH [of "items @ [s]"] Cons.prems \<open>ss = s' # ss'\<close> by (simp add: parse_items_space)
  qed
qed simp

lemma join_quoted_ends:
  assumes "ss \<noteq> []"
  shows "hd (join [44, 32] (map quoted ss)) = 34 \<and> last (join [44, 32] (map quoted ss)) = 34 \<and> join [44, 32] (map quoted ss) \<noteq> []"
  using assms
proof (induction ss)
  case (Cons s ss)
  then show ?case by (cases ss) auto
qed simp

lemma parse_string_array_quoted:
  "list_all text_kept ss \<Longrightarrow> parse_string_array (join [44, 32] (map quoted ss)) = Some (TStringArray ss)"
  using join_quoted_ends [of ss] parse_items_quoted [of ss "[]"]
  by (cases "ss = []") (auto simp: parse_string_array_def trim_same is_whitespace_def)

lemma parse_value_text: "value_kept v \<Longrightarrow> parse_value (value_text v) = Some v"
proof (cases v)
  case (TString s)
  moreover assume "value_kept v"
  ultimately show ?thesis by (simp add: parse_value_def value_text_def strip_suffix_single unescape_escaped)
next
  case (TInteger i)
  moreover assume "value_kept v"
  moreover obtain c r where "lit (show_int i) = c # r" "45 \<le> c" "c \<le> 57"
    using show_int_chars [of i] by (cases "lit (show_int i)") (auto simp: lit_def)
  ultimately show ?thesis using parse_i64_show_int [of i]
    by (simp add: parse_value_def value_text_def)
next
  case (TStringArray ss)
  moreover assume "value_kept v"
  ultimately show ?thesis
    by (simp add: parse_value_def value_text_def strip_suffix_single parse_string_array_quoted)
qed (simp_all add: parse_value_def value_text_def)

lemma key_char_facts:
  assumes "key_char c"
  shows "c \<noteq> 10" "c \<noteq> 34" "c \<noteq> 35" "c \<noteq> 61" "c \<noteq> 91" "c \<noteq> 93" "\<not> is_whitespace c"
  using assms by (auto simp: key_char_def is_whitespace_def)

lemma valid_key_facts:
  assumes "is_valid_key k"
  shows "10 \<notin> set k" "61 \<notin> set k" "list_all (\<lambda>c. c \<noteq> 34 \<and> c \<noteq> 35) k" "trim k = k" "trim (k @ [32]) = k" "k \<noteq> []"
    "key_char (hd k)"
proof -
  have k: "k \<noteq> []" "list_all key_char k" using assms by (auto simp: is_valid_key_def)
  then have "key_char (hd k)" "key_char (last k)" by (auto simp: list_all_iff)
  then show "key_char (hd k)" "trim k = k" "trim (k @ [32]) = k" "k \<noteq> []"
    using k(1) by (simp_all add: trim_same trim_blank_end key_char_facts)
  show "10 \<notin> set k" "61 \<notin> set k" "list_all (\<lambda>c. c \<noteq> 34 \<and> c \<noteq> 35) k"
    using k(2) by (auto simp: list_all_iff dest: key_char_facts)
qed

lemma trim_value: "trim (32 # value_text v) = value_text v"
  using value_text_ends [of v] by (simp add: trim_blank_start trim_same)

lemma parse_pair_line: "is_valid_key k \<Longrightarrow> value_kept v \<Longrightarrow> parse_pair (pair_line (k, v)) = Some (k, v)"
  using split_once_append [of 61 "k @ [32]" "32 # value_text v"]
  by (simp add: parse_pair_def pair_line_def valid_key_facts trim_value parse_value_text)

lemma pair_line_clean:
  assumes "is_valid_key k" and "value_kept v"
  shows "trim (strip_comment False False (pair_line (k, v))) = pair_line (k, v)"
proof -
  have "strip_comment False False (pair_line (k, v)) = pair_line (k, v)"
    using strip_comment_plain [of "k @ [32, 61, 32]" "value_text v"] assms
    by (simp add: pair_line_def strip_comment_value valid_key_facts)
  then show ?thesis
    using assms value_text_ends [of v] valid_key_facts [OF assms(1)] key_char_facts(7) by (simp add: pair_line_def trim_same)
qed

definition put :: "text_str option \<Rightarrow> text_str \<times> toml_value \<Rightarrow> document \<Rightarrow> document" where
  "put cur e doc = (case cur of None \<Rightarrow> set_root (fst e) (snd e) doc | Some s \<Rightarrow> set_in s (fst e) (snd e) doc)"

lemma parse_pair_lines:
  "list_all (\<lambda>(k, v). is_valid_key k \<and> value_kept v) t \<Longrightarrow>
     parse_lines doc cur (map pair_line t @ ls) = parse_lines (fold (put cur) t doc) cur ls"
proof (induction t arbitrary: doc)
  case (Cons e t)
  obtain k v where e: "e = (k, v)" by fastforce
  with Cons.prems have kv: "is_valid_key k" "value_kept v" by auto
  have "strip_prefix [91] (pair_line (k, v)) = None"
    using valid_key_facts(6,7) [OF kv(1)] key_char_facts(5) by (cases k) (auto simp: pair_line_def)
  then have "parse_lines doc cur (pair_line e # ls') = parse_lines (put cur e doc) cur ls'" for ls'
    using pair_line_clean [OF kv] parse_pair_line [OF kv] valid_key_facts(6) [OF kv(1)]
    by (simp add: e put_def pair_line_def Let_def split: option.splits)
  then show ?case using Cons by simp
qed simp

lemma parse_blank_lines: "list_all ((=) []) gap \<Longrightarrow> parse_lines doc cur (gap @ ls) = parse_lines doc cur ls"
  by (induction gap) (auto simp: trim_same)

lemma parse_section_line:
  assumes "is_valid_key name"
  shows "parse_lines doc cur ((91 # name @ [93]) # ls) = parse_lines doc (Some name) ls"
proof -
  have "strip_comment False False (91 # name @ [93]) = 91 # name @ [93]"
    using strip_comment_plain [of "91 # name @ [93]" "[]"] valid_key_facts(3) [OF assms] by simp
  then show ?thesis using assms valid_key_facts(4,6) [OF assms]
    by (simp add: trim_same strip_suffix_single Let_def)
qed

section \<open>Rebuilding the maps\<close>

lemma fold_insert_sorted:
  "bt_ok (m @ t) \<Longrightarrow> fold (\<lambda>(k, v). bt_insert k v) t m = m @ t"
proof (induction t arbitrary: m)
  case (Cons e t)
  obtain k v where e: "e = (k, v)" by fastforce
  have "list_all (\<lambda>e. fst e < k) m" using Cons.prems e by (auto simp: bt_ok_def sorted_wrt_append list_all_iff)
  then show ?case using Cons.IH [of "m @ [(k, v)]"] Cons.prems e by (simp add: bt_insert_last)
qed simp

lemma fold_put_root: "fold (put None) t doc = doc\<lparr>root := fold (\<lambda>(k, v). bt_insert k v) t (root doc)\<rparr>"
  by (induction t arbitrary: doc) (auto simp: put_def set_root_def)

lemma bt_insert_replace: "list_all (\<lambda>e. fst e < k) m \<Longrightarrow> bt_insert k w (m @ [(k, v)]) = m @ [(k, w)]"
  by (induction k w m rule: bt_insert.induct) auto

lemma map_of_last: "list_all (\<lambda>e. fst e < (k::'a::linorder)) m \<Longrightarrow> map_of (m @ [(k, v)]) k = Some v \<and> map_of m k = None"
  by (induction m) auto

lemma fold_put_section:
  "list_all (\<lambda>e. fst e < s) m \<Longrightarrow>
     fold (put (Some s)) t (doc\<lparr>sections := m @ [(s, u)]\<rparr>) =
       doc\<lparr>sections := m @ [(s, fold (\<lambda>(k, v). bt_insert k v) t u)]\<rparr>"
proof (induction t arbitrary: u)
  case (Cons e t)
  then show ?case using map_of_last [of s m u]
    by (simp add: put_def set_in_def bt_insert_replace split_beta)
qed simp

lemma put_new_section:
  assumes "list_all (\<lambda>e. fst e < s) (sections doc)" and "t \<noteq> []" and "bt_ok t"
  shows "fold (put (Some s)) t doc = doc\<lparr>sections := sections doc @ [(s, t)]\<rparr>"
proof -
  obtain e t' where t: "t = e # t'" using assms(2) by (cases t) auto
  have "put (Some s) e doc = doc\<lparr>sections := sections doc @ [(s, [e])]\<rparr>"
    using assms(1) map_of_last [OF assms(1)] by (simp add: put_def set_in_def bt_insert_last)
  then show ?thesis
    using fold_put_section [OF assms(1), where t = t' and doc = doc and u = "[e]"] fold_insert_sorted [of "[e]" t'] assms(3) t by simp
qed

lemma parse_sections:
  assumes "section_lines ss ls" and "bt_ok (sections doc @ ss)"
    and "list_all (\<lambda>(s, t). is_valid_key s \<and> t \<noteq> [] \<and> table_ok t) ss"
  shows "parse_lines doc cur ls = Some (doc\<lparr>sections := sections doc @ ss\<rparr>)"
  using assms
proof (induction arbitrary: doc cur rule: section_lines.induct)
  case (one_section ss ls gap name t)
  have t: "is_valid_key name" "t \<noteq> []" "bt_ok t" "list_all (\<lambda>(k, v). is_valid_key k \<and> value_kept v) t"
    using one_section.prems by (auto simp: table_ok_def)
  have "list_all (\<lambda>e. fst e < name) (sections doc)"
    using one_section.prems by (auto simp: bt_ok_def sorted_wrt_append list_all_iff)
  from put_new_section [OF this t(2,3)] show ?case
    using one_section.IH [of "doc\<lparr>sections := sections doc @ [(name, t)]\<rparr>" "Some name"] one_section.prems one_section.hyps(2)
    by (simp add: parse_blank_lines parse_section_line [OF t(1)] parse_pair_lines [OF t(4)] del: parse_lines.simps(2))
qed simp

abbreviation single_line :: "text_str \<Rightarrow> bool" where
  "single_line l \<equiv> 10 \<notin> set l \<and> (l = [] \<or> last l \<noteq> 13)"

lemma pair_line_single: "is_valid_key k \<Longrightarrow> value_kept v \<Longrightarrow> single_line (pair_line (k, v))"
  using value_text_ends [of v] value_one_line [of v] valid_key_facts(1) [of k]
  by (auto simp: pair_line_def is_whitespace_def)

lemma pair_lines_single:
  "list_all (\<lambda>(k, v). is_valid_key k \<and> value_kept v) t \<Longrightarrow> list_all single_line (map pair_line t)"
  using pair_line_single by (fastforce simp: list_all_iff)

lemma section_lines_single:
  assumes "section_lines ss ls"
    and "list_all (\<lambda>(s, t). is_valid_key s \<and> t \<noteq> [] \<and> table_ok t) ss"
  shows "list_all single_line ls"
  using assms
proof (induction rule: section_lines.induct)
  case (one_section ss ls gap name t)
  then have "list_all single_line (map pair_line t)" by (intro pair_lines_single) (auto simp: table_ok_def)
  moreover have "list_all single_line gap" using one_section.hyps(2) by (auto simp: list_all_iff)
  ultimately show ?case using one_section valid_key_facts(1) [of name] by auto
qed simp

text \<open>A serialised document is parsed back.\<close>

lemma document_roundtrip:
  assumes "document_ok doc"
  shows "document_parse (document_serialize doc) = Some doc"
proof -
  have root: "bt_ok (root doc)" "list_all (\<lambda>(k, v). is_valid_key k \<and> value_kept v) (root doc)"
    and ss: "bt_ok (sections doc)" "list_all (\<lambda>(s, t). is_valid_key s \<and> t \<noteq> [] \<and> table_ok t) (sections doc)"
    using assms by (auto simp: document_ok_def table_ok_def)
  obtain ls where ls: "section_lines (sections doc) ls"
    and ser: "document_serialize doc = text_of_lines (header_lines @ map pair_line (root doc) @ ls)"
    using serialize_lines by blast
  have "list_all single_line (header_lines @ map pair_line (root doc) @ ls)"
    using pair_lines_single [OF root(2)] section_lines_single [OF ls ss(2)] by simp
  then have "document_parse (document_serialize doc) =
      parse_lines document_new None (header_lines @ map pair_line (root doc) @ ls)"
    unfolding document_parse_def ser by (subst lines_concat) auto
  also have "\<dots> = parse_lines document_new None (map pair_line (root doc) @ ls)"
    by (simp add: trim_same)
  also have "\<dots> = parse_lines (document_new\<lparr>root := root doc\<rparr>) None ls"
    using fold_insert_sorted [of "[]" "root doc"] root
    by (simp add: parse_pair_lines fold_put_root document_new_def)
  also have "\<dots> = Some doc" using parse_sections [OF ls] ss by (simp add: document_new_def)
  finally show ?thesis .
qed

section \<open>The setters\<close>

lemma set_in_keeps_root [simp]: "root (set_in s k v doc) = root doc"
  by (simp add: set_in_def Let_def)

lemma set_root_lookup [simp]: "map_of (root (set_root k v doc)) = (map_of (root doc))(k \<mapsto> v)"
  by (simp add: set_root_def)

lemma section_get_set_root [simp]: "section_get (set_root k v doc) = section_get doc"
  by (simp add: section_get_def set_root_def fun_eq_iff)

lemma section_get_set_in [simp]:
  "section_get (set_in s k v doc) s' k' = (if s = s' \<and> k = k' then Some v else section_get doc s' k')"
  by (auto simp: section_get_def set_in_def Let_def split: option.splits)

lemma bt_insert_all_kept: "list_all P m \<Longrightarrow> P (k, v) \<Longrightarrow> list_all P (bt_insert k v m)"
  by (induction k v m rule: bt_insert.induct) auto

lemma table_ok_insert: "table_ok t \<Longrightarrow> is_valid_key k \<Longrightarrow> value_kept v \<Longrightarrow> table_ok (bt_insert k v t)"
  by (simp add: table_ok_def bt_insert_all_kept)

lemma document_ok_new: "document_ok document_new"
  by (simp add: document_ok_def document_new_def table_ok_def bt_ok_def)

lemma document_ok_set_root: "document_ok doc \<Longrightarrow> is_valid_key k \<Longrightarrow> value_kept v \<Longrightarrow> document_ok (set_root k v doc)"
  by (simp add: document_ok_def set_root_def table_ok_insert)

lemma bt_insert_not_Nil [simp]: "bt_insert k v m \<noteq> []"
  by (induction k v m rule: bt_insert.induct) auto

lemma document_ok_set_in:
  assumes "document_ok doc" and "is_valid_key s" and "is_valid_key k" and "value_kept v"
  shows "document_ok (set_in s k v doc)"
proof -
  let ?t = "case map_of (sections doc) s of None \<Rightarrow> [] | Some t \<Rightarrow> t"
  have "table_ok ?t"
    using assms(1) by (auto simp: document_ok_def table_ok_def [of "[]"] bt_ok_def list_all_iff split: option.splits dest: map_of_SomeD)
  then have "table_ok (bt_insert k v ?t)" using assms(3,4) by (rule table_ok_insert)
  with assms(1,2) show ?thesis
    by (simp add: document_ok_def set_in_def Let_def bt_insert_all_kept)
qed

lemmas document_ok_intros = document_ok_set_in document_ok_set_root document_ok_new

section \<open>Only scalar values are written\<close>

lemma escaped_scalar: "text_kept s \<Longrightarrow> list_all scalar (escaped s)"
  by (induction s) (auto simp: escape_char_def scalar_def)

lemma join_scalar: "list_all scalar sep \<Longrightarrow> list_all (list_all scalar) ss \<Longrightarrow> list_all scalar (join sep ss)"
  by (induction sep ss rule: join.induct) auto

lemma value_text_scalar: "value_kept v \<Longrightarrow> list_all scalar (value_text v)"
proof (cases v)
  case (TInteger i)
  then show ?thesis using show_int_chars [of i] by (auto simp: value_text_def list_all_iff scalar_def)
next
  case (TStringArray ss)
  moreover assume "value_kept v"
  moreover have "scalar 34" "scalar 44" "scalar 32" "scalar 91" "scalar 93" by (simp_all add: scalar_def)
  ultimately show ?thesis
    by (auto simp: value_text_def list_all_iff [of _ ss] intro!: join_scalar simp: list.pred_map comp_def escaped_scalar)
qed (simp_all add: value_text_def escaped_scalar, simp_all add: scalar_def)

lemma valid_key_scalar: "is_valid_key k \<Longrightarrow> list_all scalar k"
  by (auto simp: is_valid_key_def list_all_iff key_char_def scalar_def)

lemma pair_lines_scalar:
  "list_all (\<lambda>(k, v). is_valid_key k \<and> value_kept v) t \<Longrightarrow> list_all scalar (text_of_lines (map pair_line t))"
proof (induction t)
  case (Cons e t)
  moreover have "scalar 10" "scalar 32" "scalar 61" by (simp_all add: scalar_def)
  ultimately show ?case by (auto simp: pair_line_def valid_key_scalar value_text_scalar)
qed simp

lemma section_lines_scalar:
  assumes "section_lines ss ls" and "list_all (\<lambda>(s, t). is_valid_key s \<and> t \<noteq> [] \<and> table_ok t) ss"
  shows "list_all scalar (text_of_lines ls)"
  using assms
proof (induction rule: section_lines.induct)
  case (one_section ss ls gap name t)
  have sc: "scalar 10" "scalar 91" "scalar 93" by (simp_all add: scalar_def)
  have "list_all scalar (text_of_lines gap)" using one_section.hyps(2) sc(1) by (induction gap) auto
  moreover have "list_all scalar (text_of_lines (map pair_line t))"
    using one_section.prems by (intro pair_lines_scalar) (simp add: table_ok_def)
  ultimately show ?case using one_section sc by (simp add: valid_key_scalar)
qed simp

lemma serialize_scalar: "document_ok doc \<Longrightarrow> list_all scalar (document_serialize doc)"
proof -
  assume d: "document_ok doc"
  obtain ls where ls: "section_lines (sections doc) ls"
    "document_serialize doc = text_of_lines (header_lines @ map pair_line (root doc) @ ls)"
    using serialize_lines by blast
  have "list_all scalar (text_of_lines (map pair_line (root doc)))"
    using d by (intro pair_lines_scalar) (simp add: document_ok_def table_ok_def)
  moreover have "list_all scalar (text_of_lines ls)"
    using d by (intro section_lines_scalar [OF ls(1)]) (simp add: document_ok_def)
  moreover have "list_all scalar (text_of_lines header_lines)" by (simp add: scalar_def)
  ultimately show ?thesis using ls(2) by simp
qed

lemma document_bytes_roundtrip:
  "document_ok doc \<Longrightarrow> Option.bind (from_utf8 (as_bytes (document_serialize doc))) document_parse = Some doc"
  by (simp add: from_utf8_as_bytes serialize_scalar document_roundtrip)

end
