(* ===== verification/Fsys_Capability.thy ===== *)
theory Fsys_Capability
  imports Fsys_Toml Fsys_Replace
begin

text \<open>
  The capability snapshot (\<open>src/capability/types.rs\<close>), the SPDK probe (\<open>src/capability/probe.rs\<close>) over
  what it reads of \<open>/proc\<close> and \<open>/sys\<close>, and the conversion between a snapshot and the cache document
  (\<open>src/capability/cache.rs\<close>). The main lemma: a snapshot with printable strings survives the
  conversion to text and back.
\<close>

section \<open>Snapshots\<close>

datatype io_uring_feature =
    FastPoll | RegisterBuffers | RegisterFiles | UringCmd | SubmitAll | CoopTaskrun | SingleIssuer
  | DeferTaskrun | SqPoll

record hardware_summary =
  drive_type :: text_str
  optimal_block_size :: u32
  queue_depth :: u32
  sector_size_logical :: u32
  sector_size_physical :: u32
  hw_io_uring :: bool
  hw_nvme_passthrough :: bool
  hw_direct_io :: bool
  hw_plp_detected :: bool

record capabilities =
  schema_version :: u32
  fsys_version :: text_str
  kernel_version :: text_str
  os_target :: text_str
  probed_at_unix_secs :: u64
  cap_io_uring :: bool
  io_uring_features :: "io_uring_feature list"
  cap_nvme_passthrough :: bool
  cap_direct_io :: bool
  cap_plp_detected :: bool
  cap_spdk_eligible :: bool
  cap_spdk_skip_reasons :: "spdk_skip_reason list"
  spdk_eligible_devices :: "pci_address list"
  hardware :: hardware_summary

definition feature_as_str :: "io_uring_feature \<Rightarrow> text_str" where
  "feature_as_str f =
     lit (case f of
            FastPoll \<Rightarrow> ''fast_poll'' | RegisterBuffers \<Rightarrow> ''register_buffers'' | RegisterFiles \<Rightarrow> ''register_files''
          | UringCmd \<Rightarrow> ''uring_cmd'' | SubmitAll \<Rightarrow> ''submit_all'' | CoopTaskrun \<Rightarrow> ''coop_taskrun''
          | SingleIssuer \<Rightarrow> ''single_issuer'' | DeferTaskrun \<Rightarrow> ''defer_taskrun'' | SqPoll \<Rightarrow> ''sqpoll'')"

definition feature_from_str :: "text_str \<Rightarrow> io_uring_feature option" where
  "feature_from_str s =
     (if s = lit ''fast_poll'' then Some FastPoll
      else if s = lit ''register_buffers'' then Some RegisterBuffers
      else if s = lit ''register_files'' then Some RegisterFiles
      else if s = lit ''uring_cmd'' then Some UringCmd
      else if s = lit ''submit_all'' then Some SubmitAll
      else if s = lit ''coop_taskrun'' then Some CoopTaskrun
      else if s = lit ''single_issuer'' then Some SingleIssuer
      else if s = lit ''defer_taskrun'' then Some DeferTaskrun
      else if s = lit ''sqpoll'' then Some SqPoll
      else None)"

section \<open>PCI addresses\<close>

definition hex_padded :: "nat \<Rightarrow> nat \<Rightarrow> string" where
  "hex_padded width n = replicate (width - length (show_hex n)) (CHR ''0'') @ show_hex n"

definition to_canonical :: "pci_address \<Rightarrow> text_str" where
  "to_canonical a =
     lit (hex_padded 4 (unat (domain a)) @ '':'' @ hex_padded 2 (unat (bus a)) @ '':''
       @ hex_padded 2 (unat (device a)) @ ''.'' @ show_hex (unat (pci_function a)))"

abbreviation hex_u8 :: "text_str \<Rightarrow> u8 option" where
  "hex_u8 s \<equiv> map_option word_of_nat (parse_uint 16 255 s)"

definition pci_parse :: "text_str \<Rightarrow> pci_address option" where
  "pci_parse s =
     (case (case split_once 58 s of
              None \<Rightarrow> None
            | Some (first, rest) \<Rightarrow>
                if 58 \<in> set rest then map_option (\<lambda>d. (word_of_nat d, rest)) (parse_uint 16 65535 first)
                else Some (0, s)) of
        None \<Rightarrow> None
      | Some (dm, rest) \<Rightarrow>
          (case split_once 58 rest of
             None \<Rightarrow> None
           | Some (bus_str, devfunc) \<Rightarrow>
               Option.bind (hex_u8 bus_str) (\<lambda>b.
                 case split_once 46 devfunc of
                   None \<Rightarrow> None
                 | Some (dev_str, func_str) \<Rightarrow>
                     Option.bind (hex_u8 dev_str) (\<lambda>dev.
                       Option.bind (hex_u8 func_str) (\<lambda>func.
                         Some \<lparr>domain = dm, bus = b, device = dev, pci_function = func\<rparr>)))))"

section \<open>Skip reasons as tokens\<close>

definition skip_reason_to_token :: "spdk_skip_reason \<Rightarrow> text_str" where
  "skip_reason_to_token r =
     (case r of
        NotLinux \<Rightarrow> lit ''not_linux''
      | HugepagesNotConfigured current_mb recommended_mb \<Rightarrow>
          lit (''hugepages_lt:'' @ show_nat current_mb @ '':'' @ show_nat recommended_mb)
      | InsufficientPrivileges \<Rightarrow> lit ''insufficient_privileges''
      | NoNvmeDevices \<Rightarrow> lit ''no_nvme_devices''
      | AllDevicesInUse devices \<Rightarrow> lit ''all_devices_in_use:'' @ join [44] (map to_canonical devices)
      | IommuNotConfigured \<Rightarrow> lit ''iommu_not_configured''
      | InsufficientCores avail recommended \<Rightarrow>
          lit (''insufficient_cores:'' @ show_nat avail @ '':'' @ show_nat recommended)
      | SpdkLibraryNotFound \<Rightarrow> lit ''spdk_library_not_found'')"

abbreviation parse_u64 :: "text_str \<Rightarrow> nat option" where
  "parse_u64 \<equiv> parse_uint 10 u64_max"

text \<open>Two numbers behind a prefix; what is not two pieces falls through to the next test.\<close>

definition two_numbers :: "(nat \<Rightarrow> nat \<Rightarrow> spdk_skip_reason) \<Rightarrow> text_str \<Rightarrow> spdk_skip_reason option" where
  "two_numbers mk rest =
     (case split_at 58 rest of
        [a, b] \<Rightarrow> Option.bind (parse_u64 a) (\<lambda>x. Option.bind (parse_u64 b) (\<lambda>y. Some (mk x y)))
      | _ \<Rightarrow> None)"

definition skip_reason_from_token :: "text_str \<Rightarrow> spdk_skip_reason option" where
  "skip_reason_from_token s =
     (if s = lit ''not_linux'' then Some NotLinux
      else if s = lit ''insufficient_privileges'' then Some InsufficientPrivileges
      else if s = lit ''no_nvme_devices'' then Some NoNvmeDevices
      else if s = lit ''iommu_not_configured'' then Some IommuNotConfigured
      else if s = lit ''spdk_library_not_found'' then Some SpdkLibraryNotFound
      else case strip_prefix (lit ''hugepages_lt:'') s of
             Some rest \<Rightarrow> two_numbers HugepagesNotConfigured rest
           | None \<Rightarrow>
               (case strip_prefix (lit ''all_devices_in_use:'') s of
                  Some rest \<Rightarrow> Some (AllDevicesInUse (List.map_filter pci_parse (split_at 44 rest)))
                | None \<Rightarrow>
                    (case strip_prefix (lit ''insufficient_cores:'') s of
                       Some rest \<Rightarrow> two_numbers InsufficientCores rest
                     | None \<Rightarrow> None)))"

section \<open>The cache document\<close>

text \<open>\<open>as i64\<close> keeps the value of a \<open>u32\<close> and reinterprets the bits of a \<open>u64\<close>.\<close>

definition capabilities_to_document :: "capabilities \<Rightarrow> document" where
  "capabilities_to_document caps =
     (let c = lit ''capabilities''; h = lit ''hardware''; hw = hardware caps;
          doc = document_new;
          doc = set_root (lit ''schema_version'') (TInteger (uint (schema_version caps))) doc;
          doc = set_root (lit ''fsys_version'') (TString (fsys_version caps)) doc;
          doc = set_root (lit ''kernel_version'') (TString (kernel_version caps)) doc;
          doc = set_root (lit ''os_target'') (TString (os_target caps)) doc;
          doc = set_root (lit ''probed_at_unix_secs'') (TInteger (sint (probed_at_unix_secs caps))) doc;
          doc = set_in c (lit ''io_uring'') (TBoolean (cap_io_uring caps)) doc;
          doc = set_in c (lit ''io_uring_features'') (TStringArray (map feature_as_str (io_uring_features caps))) doc;
          doc = set_in c (lit ''nvme_passthrough'') (TBoolean (cap_nvme_passthrough caps)) doc;
          doc = set_in c (lit ''direct_io'') (TBoolean (cap_direct_io caps)) doc;
          doc = set_in c (lit ''plp_detected'') (TBoolean (cap_plp_detected caps)) doc;
          doc = set_in c (lit ''spdk_eligible'') (TBoolean (cap_spdk_eligible caps)) doc;
          doc = set_in c (lit ''spdk_skip_reasons'') (TStringArray (map skip_reason_to_token (cap_spdk_skip_reasons caps))) doc;
          doc = set_in c (lit ''spdk_eligible_devices'') (TStringArray (map to_canonical (spdk_eligible_devices caps))) doc;
          doc = set_in h (lit ''drive_type'') (TString (drive_type hw)) doc;
          doc = set_in h (lit ''optimal_block_size'') (TInteger (uint (optimal_block_size hw))) doc;
          doc = set_in h (lit ''queue_depth'') (TInteger (uint (queue_depth hw))) doc;
          doc = set_in h (lit ''sector_size_logical'') (TInteger (uint (sector_size_logical hw))) doc;
          doc = set_in h (lit ''sector_size_physical'') (TInteger (uint (sector_size_physical hw))) doc
      in doc)"

definition to_u32 :: "int \<Rightarrow> u32 option" where
  "to_u32 i = (if 0 \<le> i \<and> i < 2 ^ 32 then Some (word_of_int i) else None)"

definition to_u64 :: "int \<Rightarrow> u64 option" where
  "to_u64 i = (if 0 \<le> i \<and> i < 2 ^ 64 then Some (word_of_int i) else None)"

definition document_to_capabilities :: "document \<Rightarrow> capabilities option" where
  "document_to_capabilities doc =
     (let c = lit ''capabilities''; h = lit ''hardware'';
          section_u32 = (\<lambda>key. Option.bind (section_int doc h key) to_u32)
      in Option.bind (Option.bind (root_int doc (lit ''schema_version'')) to_u32) (\<lambda>schema_version.
         Option.bind (root_string doc (lit ''fsys_version'')) (\<lambda>fsys_version.
         Option.bind (root_string doc (lit ''kernel_version'')) (\<lambda>kernel_version.
         Option.bind (root_string doc (lit ''os_target'')) (\<lambda>os_target.
         Option.bind (Option.bind (root_int doc (lit ''probed_at_unix_secs'')) to_u64) (\<lambda>probed_at.
         Option.bind (section_bool doc c (lit ''io_uring'')) (\<lambda>io_uring.
         Option.bind (section_strings doc c (lit ''io_uring_features'')) (\<lambda>features.
         Option.bind (section_bool doc c (lit ''nvme_passthrough'')) (\<lambda>nvme_passthrough.
         Option.bind (section_bool doc c (lit ''direct_io'')) (\<lambda>direct_io.
         Option.bind (section_bool doc c (lit ''plp_detected'')) (\<lambda>plp_detected.
         Option.bind (section_bool doc c (lit ''spdk_eligible'')) (\<lambda>eligible.
         Option.bind (section_strings doc c (lit ''spdk_skip_reasons'')) (\<lambda>reasons.
         Option.bind (section_strings doc c (lit ''spdk_eligible_devices'')) (\<lambda>devices.
         Option.bind (section_string doc h (lit ''drive_type'')) (\<lambda>drive_type.
         Option.bind (section_u32 (lit ''optimal_block_size'')) (\<lambda>optimal_block_size.
         Option.bind (section_u32 (lit ''queue_depth'')) (\<lambda>queue_depth.
         Option.bind (section_u32 (lit ''sector_size_logical'')) (\<lambda>logical.
         Option.bind (section_u32 (lit ''sector_size_physical'')) (\<lambda>physical.
           Some
             \<lparr>schema_version = schema_version, fsys_version = fsys_version, kernel_version = kernel_version,
              os_target = os_target, probed_at_unix_secs = probed_at, cap_io_uring = io_uring,
              io_uring_features = List.map_filter feature_from_str features,
              cap_nvme_passthrough = nvme_passthrough, cap_direct_io = direct_io, cap_plp_detected = plp_detected,
              cap_spdk_eligible = eligible,
              cap_spdk_skip_reasons = List.map_filter skip_reason_from_token reasons,
              spdk_eligible_devices = List.map_filter pci_parse devices,
              hardware =
                \<lparr>drive_type = drive_type, optimal_block_size = optimal_block_size, queue_depth = queue_depth,
                 sector_size_logical = logical, sector_size_physical = physical, hw_io_uring = io_uring,
                 hw_nvme_passthrough = nvme_passthrough, hw_direct_io = direct_io, hw_plp_detected = plp_detected\<rparr>\<rparr>)))))))))))))))))))"

section \<open>Numbers in hexadecimal\<close>

lemma lit_inject [simp]: "lit s = lit t \<longleftrightarrow> s = t"
  by (auto simp: lit_def inj_map_eq_map inj_on_def)

lemma of_hex_char: "d < 16 \<Longrightarrow> of_char (hex_char d) = (if d < 10 then 48 + d else 87 + d :: nat)"
  by (simp add: hex_char_def)

lemma to_digit_hex: "d < 16 \<Longrightarrow> to_digit 16 (of_char (hex_char d)) = Some d"
  by (simp add: of_hex_char to_digit_def)

lemma digits_value_show_hex: "digits_value 16 0 (lit (show_hex n)) = Some n"
proof (induction n rule: show_hex.induct)
  case (1 n)
  show ?case
  proof (cases "n < 16")
    case True
    then show ?thesis using show_hex.simps [of n] by (simp add: to_digit_hex)
  next
    case False
    then show ?thesis using 1 show_hex.simps [of n] by (simp add: digits_value_append to_digit_hex)
  qed
qed

abbreviation hex_digit :: "nat \<Rightarrow> bool" where
  "hex_digit c \<equiv> 48 \<le> c \<and> c \<le> 57 \<or> 97 \<le> c \<and> c \<le> 102"

lemma show_hex_digits: "list_all hex_digit (lit (show_hex n)) \<and> show_hex n \<noteq> []"
proof (induction n rule: show_hex.induct)
  case (1 n)
  have "of_char (hex_char (n mod 16)) = (if n mod 16 < 10 then 48 + n mod 16 else 87 + n mod 16)"
    by (simp add: of_hex_char)
  then have "hex_digit (of_char (hex_char (n mod 16)))" by (auto split: if_splits)
  then show ?case using 1 show_hex.simps [of n] by (cases "n < 16") auto
qed

lemma hex_padded_digits: "list_all hex_digit (lit (hex_padded w n)) \<and> hex_padded w n \<noteq> []"
  using show_hex_digits [of n] by (auto simp: hex_padded_def lit_def list_all_iff)

lemma digits_value_zeros: "digits_value 16 0 (replicate k 48 @ s) = digits_value 16 0 s"
  by (induction k) (simp_all add: to_digit_def)

lemma digits_value_padded: "digits_value 16 0 (lit (hex_padded w n)) = Some n"
proof -
  have "lit (hex_padded w n) = replicate (w - length (show_hex n)) 48 @ lit (show_hex n)"
    by (simp add: hex_padded_def lit_def)
  then show ?thesis using digits_value_zeros digits_value_show_hex by simp
qed

lemma parse_uint_hex:
  assumes "digits_value 16 0 s = Some n" and "list_all hex_digit s" and "s \<noteq> []" and "n \<le> limit"
  shows "parse_uint 16 limit s = Some n"
  using assms by (cases s) (auto simp: parse_uint_def)

lemma parse_hex_padded: "n \<le> limit \<Longrightarrow> parse_uint 16 limit (lit (hex_padded w n)) = Some n"
  using digits_value_padded hex_padded_digits [of w n] by (intro parse_uint_hex) (auto simp: lit_def)

lemma parse_show_hex: "n \<le> limit \<Longrightarrow> parse_uint 16 limit (lit (show_hex n)) = Some n"
  using digits_value_show_hex show_hex_digits [of n] by (intro parse_uint_hex) (auto simp: lit_def)

lemma hex_digits_not: "list_all hex_digit s \<Longrightarrow> c = 58 \<or> c = 46 \<or> c = 44 \<Longrightarrow> c \<notin> set s"
  by (auto simp: list_all_iff)

lemma pci_roundtrip: "pci_parse (to_canonical a) = Some a"
proof -
  let ?d = "lit (hex_padded 4 (unat (domain a)))" and ?b = "lit (hex_padded 2 (unat (bus a)))"
    and ?v = "lit (hex_padded 2 (unat (device a)))" and ?f = "lit (show_hex (unat (pci_function a)))"
  have c: "to_canonical a = ?d @ 58 # ?b @ 58 # ?v @ 46 # ?f" by (simp add: to_canonical_def)
  have n: "58 \<notin> set ?d" "58 \<notin> set ?b" "46 \<notin> set ?v"
    using hex_padded_digits hex_digits_not by blast+
  have u16: "unat (w :: 16 word) < 2 ^ 16" for w using unsigned_less [of w, where 'a = nat] by simp
  have u8: "unat (w :: u8) < 2 ^ 8" for w using unsigned_less [of w, where 'a = nat] by simp
  have u: "unat (domain a) \<le> 65535" "unat (bus a) \<le> 255" "unat (device a) \<le> 255" "unat (pci_function a) \<le> 255"
    using u16 [of "domain a"] u8 [of "bus a"] u8 [of "device a"] u8 [of "pci_function a"] by simp_all
  show ?thesis
    unfolding c pci_parse_def using n u by (simp add: parse_hex_padded parse_show_hex)
qed

lemma to_canonical_chars: "list_all (\<lambda>c. hex_digit c \<or> c = 58 \<or> c = 46) (to_canonical a)"
  using hex_padded_digits show_hex_digits
  by (simp add: to_canonical_def list_all_iff) blast

section \<open>Tokens\<close>

lemma feature_roundtrip: "feature_from_str (feature_as_str f) = Some f"
  by (cases f) (simp_all add: feature_from_str_def feature_as_str_def del: lit_simps(2))

fun reason_ok :: "spdk_skip_reason \<Rightarrow> bool" where
  "reason_ok (HugepagesNotConfigured a b) \<longleftrightarrow> a \<le> u64_max \<and> b \<le> u64_max"
| "reason_ok (InsufficientCores a b) \<longleftrightarrow> a \<le> u64_max \<and> b \<le> u64_max"
| "reason_ok _ \<longleftrightarrow> True"

lemma show_nat_no_colon: "58 \<notin> set (lit (show_nat n))"
  using show_nat_digits [of n] by (auto simp: list_all_iff)

lemma two_numbers_shown:
  "a \<le> u64_max \<Longrightarrow> b \<le> u64_max \<Longrightarrow> two_numbers mk (lit (show_nat a) @ 58 # lit (show_nat b)) = Some (mk a b)"
  by (simp add: two_numbers_def split_at_append split_at_simple show_nat_no_colon parse_uint_show_nat)

lemma map_filter_roundtrip: "(\<And>x. x \<in> set xs \<Longrightarrow> g (f x) = Some x) \<Longrightarrow> List.map_filter g (map f xs) = xs"
  by (induction xs) (simp_all add: List.map_filter_simps)

lemma devices_roundtrip: "List.map_filter pci_parse (split_at 44 (join [44] (map to_canonical ds))) = ds"
proof (cases "ds = []")
  case True
  then show ?thesis by (simp add: List.map_filter_simps pci_parse_def)
next
  case False
  have "list_all (\<lambda>s. 44 \<notin> set s) (map to_canonical ds)"
    using to_canonical_chars by (fastforce simp: list_all_iff)
  then show ?thesis using False by (simp add: split_at_join map_filter_roundtrip pci_roundtrip)
qed

lemma strip_prefix_steps:
  "strip_prefix [] s = Some s" "strip_prefix (a # p) [] = None"
  "strip_prefix (a # p) (b # s) = (if a = b then strip_prefix p s else None)"
  by (auto simp: strip_prefix_def)

lemma skip_reason_roundtrip: "reason_ok r \<Longrightarrow> skip_reason_from_token (skip_reason_to_token r) = Some r"
  by (cases r) (simp_all add: skip_reason_from_token_def skip_reason_to_token_def strip_prefix_steps
      two_numbers_shown devices_roundtrip)

section \<open>The round trip of a snapshot\<close>

text \<open>
  The strings keep their characters, the time is one an \<open>i64\<close> holds, the numbers of a reason fit their
  types, and the hardware flags repeat the snapshot's, as the probe makes them.
\<close>

definition caps_ok :: "capabilities \<Rightarrow> bool" where
  "caps_ok c \<longleftrightarrow>
     text_kept (fsys_version c) \<and> text_kept (kernel_version c) \<and> text_kept (os_target c)
     \<and> text_kept (drive_type (hardware c)) \<and> uint (probed_at_unix_secs c) < 2 ^ 63
     \<and> list_all reason_ok (cap_spdk_skip_reasons c)
     \<and> hw_io_uring (hardware c) = cap_io_uring c \<and> hw_nvme_passthrough (hardware c) = cap_nvme_passthrough c
     \<and> hw_direct_io (hardware c) = cap_direct_io c \<and> hw_plp_detected (hardware c) = cap_plp_detected c"

lemma text_kept_append [simp]: "text_kept (s @ t) \<longleftrightarrow> text_kept s \<and> text_kept t"
  by (simp add: text_kept_def)

lemma text_kept_range: "list_all (\<lambda>c. 0x20 \<le> c \<and> c < 0x80) s \<Longrightarrow> text_kept s"
  by (auto simp: text_kept_def list_all_iff scalar_def)

lemma feature_kept: "text_kept (feature_as_str f)"
  by (rule text_kept_range) (cases f; simp add: feature_as_str_def)

lemma canonical_kept: "text_kept (to_canonical a)"
  using to_canonical_chars [of a] by (intro text_kept_range) (auto simp: list_all_iff)

lemma show_nat_kept: "text_kept (lit (show_nat n))"
  using show_nat_digits [of n] by (intro text_kept_range) (auto simp: list_all_iff)

lemma join_kept: "text_kept sep \<Longrightarrow> list_all text_kept ss \<Longrightarrow> text_kept (join sep ss)"
  by (induction sep ss rule: join.induct) auto

lemma token_kept: "text_kept (skip_reason_to_token r)"
proof (cases r)
  case (AllDevicesInUse ds)
  have "text_kept (join [44] (map to_canonical ds))"
    by (intro join_kept) (simp_all add: list_all_iff canonical_kept scalar_def)
  then show ?thesis by (simp add: AllDevicesInUse skip_reason_to_token_def) (simp add: scalar_def)
qed (simp_all add: skip_reason_to_token_def show_nat_kept, simp_all add: scalar_def)

lemma u32_value_kept: "value_kept (TInteger (uint (w :: u32)))"
proof -
  have "- (2 ^ 63) \<le> uint w" by (rule order_trans [OF _ uint_ge_0]) simp
  then show ?thesis using uint_lt2p [of w] by simp
qed

lemma u64_value_kept: "value_kept (TInteger (sint (w :: u64)))"
  using sint_greater_eq [of w] sint_less [of w] by simp

lemma capabilities_document_ok: "caps_ok c \<Longrightarrow> document_ok (capabilities_to_document c)"
  unfolding capabilities_to_document_def Let_def
  by (intro document_ok_intros)
    (simp_all add: caps_ok_def is_valid_key_def key_char_def u32_value_kept u64_value_kept list_all_iff
      feature_kept token_kept canonical_kept del: value_kept.simps(2))

lemma to_u32_uint [simp]: "to_u32 (uint w) = Some w"
  using uint_lt2p [of w] by (simp add: to_u32_def)

lemma to_u64_sint: "uint w < 2 ^ 63 \<Longrightarrow> to_u64 (sint w) = Some w"
proof -
  assume "uint w < 2 ^ 63"
  moreover have "- (2 ^ 63) \<le> uint w" by (rule order_trans [OF _ uint_ge_0]) simp
  ultimately have "signed_take_bit 63 (uint w) = uint w" by (intro signed_take_bit_int_eq_self)
  then have "sint w = uint w" by (simp add: sint_uint)
  then show ?thesis using uint_lt2p [of w] by (simp add: to_u64_def)
qed

lemma capabilities_roundtrip: "caps_ok c \<Longrightarrow> document_to_capabilities (capabilities_to_document c) = Some c"
proof -
  assume ok: "caps_ok c"
  let ?d = "capabilities_to_document c"
  have root: "root_int ?d (lit ''schema_version'') = Some (uint (schema_version c))"
    "root_string ?d (lit ''fsys_version'') = Some (fsys_version c)"
    "root_string ?d (lit ''kernel_version'') = Some (kernel_version c)"
    "root_string ?d (lit ''os_target'') = Some (os_target c)"
    "root_int ?d (lit ''probed_at_unix_secs'') = Some (sint (probed_at_unix_secs c))"
    by (simp_all add: capabilities_to_document_def Let_def root_int_def root_string_def as_int_def as_string_def
        del: lit_simps(2))
  have caps: "section_bool ?d (lit ''capabilities'') (lit ''io_uring'') = Some (cap_io_uring c)"
    "section_strings ?d (lit ''capabilities'') (lit ''io_uring_features'') = Some (map feature_as_str (io_uring_features c))"
    "section_bool ?d (lit ''capabilities'') (lit ''nvme_passthrough'') = Some (cap_nvme_passthrough c)"
    "section_bool ?d (lit ''capabilities'') (lit ''direct_io'') = Some (cap_direct_io c)"
    "section_bool ?d (lit ''capabilities'') (lit ''plp_detected'') = Some (cap_plp_detected c)"
    "section_bool ?d (lit ''capabilities'') (lit ''spdk_eligible'') = Some (cap_spdk_eligible c)"
    "section_strings ?d (lit ''capabilities'') (lit ''spdk_skip_reasons'') = Some (map skip_reason_to_token (cap_spdk_skip_reasons c))"
    "section_strings ?d (lit ''capabilities'') (lit ''spdk_eligible_devices'') = Some (map to_canonical (spdk_eligible_devices c))"
    by (simp_all add: capabilities_to_document_def Let_def section_bool_def section_strings_def as_bool_def as_strings_def
        del: lit_simps(2))
  have hw: "section_string ?d (lit ''hardware'') (lit ''drive_type'') = Some (drive_type (hardware c))"
    "section_int ?d (lit ''hardware'') (lit ''optimal_block_size'') = Some (uint (optimal_block_size (hardware c)))"
    "section_int ?d (lit ''hardware'') (lit ''queue_depth'') = Some (uint (queue_depth (hardware c)))"
    "section_int ?d (lit ''hardware'') (lit ''sector_size_logical'') = Some (uint (sector_size_logical (hardware c)))"
    "section_int ?d (lit ''hardware'') (lit ''sector_size_physical'') = Some (uint (sector_size_physical (hardware c)))"
    by (simp_all add: capabilities_to_document_def Let_def section_int_def section_string_def as_int_def as_string_def
        del: lit_simps(2))
  have "List.map_filter feature_from_str (map feature_as_str (io_uring_features c)) = io_uring_features c"
    "List.map_filter skip_reason_from_token (map skip_reason_to_token (cap_spdk_skip_reasons c)) = cap_spdk_skip_reasons c"
    "List.map_filter pci_parse (map to_canonical (spdk_eligible_devices c)) = spdk_eligible_devices c"
    using ok by (auto intro!: map_filter_roundtrip feature_roundtrip skip_reason_roundtrip pci_roundtrip
        simp: caps_ok_def list_all_iff)
  then show ?thesis
    using ok unfolding document_to_capabilities_def Let_def
    by (simp add: root caps hw to_u64_sint caps_ok_def del: lit_simps(2))
qed

lemma snapshot_bytes_roundtrip:
  "caps_ok c \<Longrightarrow>
     Option.bind (Option.bind (from_utf8 (as_bytes (document_serialize (capabilities_to_document c)))) document_parse)
       document_to_capabilities = Some c"
  by (simp add: document_bytes_roundtrip capabilities_document_ok capabilities_roundtrip)

end
