(* ===== verification/Fsys_Probe.thy ===== *)
theory Fsys_Probe
  imports Fsys_Capability
begin

text \<open>
  The capability probe (\<open>src/capability/probe.rs\<close> and \<open>probe_fresh\<close> of \<open>src/capability/mod.rs\<close>) over
  what it reads of the host: the texts of \<open>/proc\<close> files, the entries and links of \<open>/sys\<close>, the user id and
  the number of cores. An unreadable file is \<open>None\<close>. The main result says that the eligibility flag, the
  reasons and the devices of the SPDK probe agree with the six preconditions.
\<close>

section \<open>What the host shows\<close>

record host_files =
  on_linux :: bool
  proc_meminfo :: "text_str option"
  proc_self_status :: "text_str option"
  proc_osrelease :: "text_str option"
  uid :: nat
  pci_entries :: "text_str list option"
  pci_class :: "text_str \<Rightarrow> text_str option"
  pci_driver :: "text_str \<Rightarrow> text_str option"
  iommu_groups :: "text_str list option"
  parallelism :: "nat option"

text \<open>The overrides that \<open>SysfsRoot\<close> carries for tests.\<close>

record sysfs_root =
  host :: host_files
  hugepages_override_mb :: "nat option"
  sys_admin_override :: "bool option"
  cores_override :: "nat option"

definition live :: "host_files \<Rightarrow> sysfs_root" where
  "live f = \<lparr>host = f, hugepages_override_mb = None, sys_admin_override = None, cores_override = None\<rparr>"

section \<open>The single checks\<close>

definition is_ascii_digit :: "nat \<Rightarrow> bool" where
  "is_ascii_digit c \<longleftrightarrow> 48 \<le> c \<and> c \<le> 57"

definition parse_meminfo_field :: "text_str \<Rightarrow> text_str \<Rightarrow> nat option" where
  "parse_meminfo_field line pre =
     Option.bind (strip_prefix pre line) (\<lambda>rest.
       let num_part = takeWhile is_ascii_digit (trim rest)
       in if num_part = [] then None else parse_uint 10 u64_max num_part)"

fun meminfo_scan :: "nat option \<times> nat option \<Rightarrow> text_str list \<Rightarrow> nat option \<times> nat option" where
  "meminfo_scan acc [] = acc"
| "meminfo_scan (tot, size_kb) (line # ls) =
     (case parse_meminfo_field line (lit ''HugePages_Total:'') of
        Some v \<Rightarrow> meminfo_scan (Some v, size_kb) ls
      | None \<Rightarrow>
          (case parse_meminfo_field line (lit ''Hugepagesize:'') of
             Some v \<Rightarrow> meminfo_scan (tot, Some v) ls
           | None \<Rightarrow> meminfo_scan (tot, size_kb) ls))"

definition saturating_mul :: "nat \<Rightarrow> nat \<Rightarrow> nat" where
  "saturating_mul a b = min (a * b) u64_max"

definition hugepages_total_mb :: "sysfs_root \<Rightarrow> nat" where
  "hugepages_total_mb r =
     (case hugepages_override_mb r of
        Some v \<Rightarrow> v
      | None \<Rightarrow>
          (case proc_meminfo (host r) of
             None \<Rightarrow> 0
           | Some body \<Rightarrow>
               (case meminfo_scan (None, None) (lines body) of
                  (Some t, Some kb) \<Rightarrow> saturating_mul t kb div 1024
                | _ \<Rightarrow> 0)))"

text \<open>The first \<open>CapEff:\<close> line with a readable mask decides.\<close>

fun cap_eff_scan :: "text_str list \<Rightarrow> bool" where
  "cap_eff_scan [] = False"
| "cap_eff_scan (line # ls) =
     (case strip_prefix (lit ''CapEff:'') line of
        None \<Rightarrow> cap_eff_scan ls
      | Some rest \<Rightarrow>
          (case parse_uint 16 u64_max (trim rest) of
             Some eff \<Rightarrow> (word_of_nat eff :: u64) AND push_bit 21 1 \<noteq> 0
           | None \<Rightarrow> cap_eff_scan ls))"

definition has_sys_admin_capability :: "sysfs_root \<Rightarrow> bool" where
  "has_sys_admin_capability r =
     (case sys_admin_override r of
        Some v \<Rightarrow> v
      | None \<Rightarrow>
          if \<not> on_linux (host r) then False
          else if uid (host r) = 0 then True
          else case proc_self_status (host r) of
                 None \<Rightarrow> False
               | Some body \<Rightarrow> cap_eff_scan (lines body))"

definition nvme_entry :: "host_files \<Rightarrow> text_str \<Rightarrow> pci_address option" where
  "nvme_entry f name =
     (case pci_parse name of
        None \<Rightarrow> None
      | Some pci \<Rightarrow>
          (case pci_class f name of
             None \<Rightarrow> None
           | Some c \<Rightarrow> if strip_prefix (lit ''0x010802'') (trim c) \<noteq> None then Some pci else None))"

definition enumerate_nvme_devices :: "sysfs_root \<Rightarrow> pci_address list" where
  "enumerate_nvme_devices r =
     (case pci_entries (host r) of
        None \<Rightarrow> []
      | Some es \<Rightarrow> sort_key to_canonical (List.map_filter (nvme_entry (host r)) es))"

datatype driver_binding = Unbound | KernelNvme | Vfio | Uio

text \<open>\<open>pci_driver\<close> is the last component of the driver link.\<close>

definition nvme_driver_binding :: "sysfs_root \<Rightarrow> pci_address \<Rightarrow> driver_binding" where
  "nvme_driver_binding r pci =
     (case pci_driver (host r) (to_canonical pci) of
        None \<Rightarrow> Unbound
      | Some name \<Rightarrow>
          if name = lit ''nvme'' then KernelNvme
          else if name = lit ''vfio-pci'' then Vfio
          else if name = lit ''uio_pci_generic'' then Uio
          else Unbound)"

definition iommu_groups_present :: "sysfs_root \<Rightarrow> bool" where
  "iommu_groups_present r = (case iommu_groups (host r) of None \<Rightarrow> False | Some es \<Rightarrow> es \<noteq> [])"

definition available_cores :: "sysfs_root \<Rightarrow> nat" where
  "available_cores r =
     (case cores_override r of
        Some v \<Rightarrow> v
      | None \<Rightarrow> (case parallelism (host r) of Some n \<Rightarrow> n | None \<Rightarrow> 1))"

section \<open>Eligibility\<close>

definition SPDK_HUGEPAGE_MIN_MB :: nat where
  "SPDK_HUGEPAGE_MIN_MB = 256"

definition SPDK_HUGEPAGE_RECOMMENDED_MB :: nat where
  "SPDK_HUGEPAGE_RECOMMENDED_MB = 1024"

definition SPDK_MIN_CORES :: nat where
  "SPDK_MIN_CORES = 4"

record spdk_eligibility =
  eligible :: bool
  reasons_failed :: "spdk_skip_reason list"
  eligible_devices :: "pci_address list"

fun sort_bindings :: "sysfs_root \<Rightarrow> pci_address list \<Rightarrow> pci_address list \<times> pci_address list \<Rightarrow> pci_address list \<times> pci_address list" where
  "sort_bindings r [] acc = acc"
| "sort_bindings r (dev # devs) (el, bound) =
     (case nvme_driver_binding r dev of
        KernelNvme \<Rightarrow> sort_bindings r devs (el, bound @ [dev])
      | _ \<Rightarrow> sort_bindings r devs (el @ [dev], bound))"

definition spdk_eligibility_with_root :: "sysfs_root \<Rightarrow> spdk_eligibility" where
  "spdk_eligibility_with_root r =
     (if \<not> on_linux (host r) then \<lparr>eligible = False, reasons_failed = [NotLinux], eligible_devices = []\<rparr>
      else
        let hugepages_mb = hugepages_total_mb r;
            reasons = (if hugepages_mb < SPDK_HUGEPAGE_MIN_MB
                       then [HugepagesNotConfigured hugepages_mb SPDK_HUGEPAGE_RECOMMENDED_MB] else []);
            reasons = (if \<not> has_sys_admin_capability r then reasons @ [InsufficientPrivileges] else reasons);
            devices = enumerate_nvme_devices r;
            reasons = (if devices = [] then reasons @ [NoNvmeDevices] else reasons);
            (el, kernel_bound) = sort_bindings r devices ([], []);
            reasons = (if devices \<noteq> [] \<and> el = [] then reasons @ [AllDevicesInUse kernel_bound] else reasons);
            reasons = (if \<not> iommu_groups_present r then reasons @ [IommuNotConfigured] else reasons);
            cores = available_cores r;
            reasons = (if cores < SPDK_MIN_CORES then reasons @ [InsufficientCores cores SPDK_MIN_CORES] else reasons)
        in \<lparr>eligible = (reasons = [] \<and> el \<noteq> []), reasons_failed = reasons, eligible_devices = el\<rparr>)"

section \<open>The whole probe\<close>

record raw_features =
  raw_coop_taskrun :: bool
  raw_single_issuer :: bool
  raw_defer_taskrun :: bool

definition probe_io_uring_features :: "bool \<Rightarrow> raw_features \<Rightarrow> io_uring_feature list" where
  "probe_io_uring_features linux raw =
     (if linux then
        (if raw_coop_taskrun raw then [CoopTaskrun] else [])
        @ (if raw_single_issuer raw then [SingleIssuer] else [])
        @ (if raw_defer_taskrun raw then [DeferTaskrun] else [])
      else [])"

text \<open>On Linux; other targets report the system's version.\<close>

definition kernel_version_string :: "host_files \<Rightarrow> text_str" where
  "kernel_version_string f = (case proc_osrelease f of Some s \<Rightarrow> trim s | None \<Rightarrow> lit ''unknown'')"

definition CAPABILITY_CACHE_SCHEMA_VERSION :: u32 where
  "CAPABILITY_CACHE_SCHEMA_VERSION = 1"

text \<open>The hardware summary, the ring's flags, the crate version, the target and the clock are arguments.\<close>

record probe_env =
  files :: host_files
  live_hardware :: hardware_summary
  ring_features :: raw_features
  pkg_version :: text_str
  os_name :: text_str
  clock_secs :: u64

definition probe_fresh :: "probe_env \<Rightarrow> capabilities" where
  "probe_fresh env =
     (let hw = live_hardware env;
          features = probe_io_uring_features (on_linux (files env)) (ring_features env);
          spdk_elig = spdk_eligibility_with_root (live (files env))
      in \<lparr>schema_version = CAPABILITY_CACHE_SCHEMA_VERSION, fsys_version = pkg_version env,
          kernel_version = kernel_version_string (files env), os_target = os_name env,
          probed_at_unix_secs = clock_secs env, cap_io_uring = hw_io_uring hw, io_uring_features = features,
          cap_nvme_passthrough = hw_nvme_passthrough hw, cap_direct_io = hw_direct_io hw,
          cap_plp_detected = hw_plp_detected hw, cap_spdk_eligible = eligible spdk_elig,
          cap_spdk_skip_reasons = reasons_failed spdk_elig, spdk_eligible_devices = eligible_devices spdk_elig,
          hardware = hw\<rparr>)"

section \<open>The probe decides the preconditions\<close>

text \<open>A device is usable unless the kernel's own NVMe driver holds it.\<close>

abbreviation usable :: "sysfs_root \<Rightarrow> pci_address \<Rightarrow> bool" where
  "usable r dev \<equiv> nvme_driver_binding r dev \<noteq> KernelNvme"

lemma sort_bindings_filter:
  "sort_bindings r devs (el, bound) = (el @ filter (usable r) devs, bound @ filter (\<lambda>d. \<not> usable r d) devs)"
  by (induction devs arbitrary: el bound) (auto split: driver_binding.splits)

text \<open>The preconditions, each with the reason that reports its failure.\<close>

definition failing :: "sysfs_root \<Rightarrow> spdk_skip_reason list" where
  "failing r = concat
     [if hugepages_total_mb r < 256 then [HugepagesNotConfigured (hugepages_total_mb r) 1024] else [],
      if has_sys_admin_capability r then [] else [InsufficientPrivileges],
      if enumerate_nvme_devices r = [] then [NoNvmeDevices]
      else if \<exists>d\<in>set (enumerate_nvme_devices r). usable r d then [] else [AllDevicesInUse (enumerate_nvme_devices r)],
      if iommu_groups_present r then [] else [IommuNotConfigured],
      if available_cores r < 4 then [InsufficientCores (available_cores r) 4] else []]"

lemma spdk_eligibility_reasons:
  assumes "on_linux (host r)"
  shows "reasons_failed (spdk_eligibility_with_root r) = failing r"
    and "eligible_devices (spdk_eligibility_with_root r) = filter (usable r) (enumerate_nvme_devices r)"
    and "eligible (spdk_eligibility_with_root r) \<longleftrightarrow> failing r = []"
proof -
  let ?ds = "enumerate_nvme_devices r"
  have all: "filter (\<lambda>d. \<not> usable r d) ?ds = ?ds" if "\<not> (\<exists>d\<in>set ?ds. usable r d)"
    using that by (auto simp: filter_id_conv)
  show "reasons_failed (spdk_eligibility_with_root r) = failing r"
    "eligible_devices (spdk_eligibility_with_root r) = filter (usable r) ?ds"
    using assms all
    by (auto simp: spdk_eligibility_with_root_def Let_def sort_bindings_filter failing_def filter_empty_conv
        SPDK_HUGEPAGE_MIN_MB_def SPDK_HUGEPAGE_RECOMMENDED_MB_def SPDK_MIN_CORES_def)
  show "eligible (spdk_eligibility_with_root r) \<longleftrightarrow> failing r = []"
    using assms
    by (auto simp: spdk_eligibility_with_root_def Let_def sort_bindings_filter failing_def filter_empty_conv
        SPDK_HUGEPAGE_MIN_MB_def SPDK_HUGEPAGE_RECOMMENDED_MB_def SPDK_MIN_CORES_def)
qed

text \<open>
  The SPDK probe decides its preconditions: it reports a host as eligible exactly when the target is
  Linux, at least 256 MiB are reserved as huge pages, the process may administer the system, there
  are IOMMU groups, at least four cores and an NVMe device that the kernel driver does not hold; and
  it names a reason exactly when one of them fails.
\<close>

lemma spdk_probe_decides_preconditions:
  "(eligible (spdk_eligibility_with_root r) \<longleftrightarrow>
      on_linux (host r) \<and> 256 \<le> hugepages_total_mb r \<and> has_sys_admin_capability r \<and> iommu_groups_present r
      \<and> 4 \<le> available_cores r
      \<and> (\<exists>d. d \<in> set (enumerate_nvme_devices r) \<and> nvme_driver_binding r d \<noteq> KernelNvme))
   \<and> (reasons_failed (spdk_eligibility_with_root r) = [] \<longleftrightarrow> eligible (spdk_eligibility_with_root r))"
proof (cases "on_linux (host r)")
  case True
  then show ?thesis using spdk_eligibility_reasons(1,3) [OF True] by (auto simp: failing_def)
next
  case False
  then show ?thesis by (simp add: spdk_eligibility_with_root_def)
qed

section \<open>A fresh snapshot can be cached\<close>

definition probe_env_ok :: "probe_env \<Rightarrow> bool" where
  "probe_env_ok env \<longleftrightarrow>
     text_kept (pkg_version env) \<and> text_kept (os_name env) \<and> text_kept (drive_type (live_hardware env))
     \<and> (case proc_osrelease (files env) of None \<Rightarrow> True | Some s \<Rightarrow> text_kept s)
     \<and> uint (clock_secs env) < 2 ^ 63
     \<and> (case parallelism (files env) of None \<Rightarrow> True | Some n \<Rightarrow> n \<le> u64_max)"

lemma trim_subset: "set (trim s) \<subseteq> set s"
  by (auto simp: trim_def trim_start_def trim_end_def dest!: set_dropWhileD)

lemma text_kept_trim: "text_kept s \<Longrightarrow> text_kept (trim s)"
  using trim_subset [of s] by (auto simp: text_kept_def list_all_iff)

lemma hugepages_bound: "hugepages_total_mb (live f) \<le> u64_max"
  by (auto simp: hugepages_total_mb_def live_def saturating_mul_def split: option.splits prod.splits
      intro: order_trans [OF div_le_dividend])

lemma probe_fresh_ok: "probe_env_ok env \<Longrightarrow> caps_ok (probe_fresh env)"
proof -
  assume ok: "probe_env_ok env"
  have "available_cores (live (files env)) \<le> u64_max"
    using ok by (auto simp: available_cores_def live_def probe_env_ok_def u64_max_def split: option.splits)
  then have "list_all reason_ok (reasons_failed (spdk_eligibility_with_root (live (files env))))"
    using hugepages_bound [of "files env"] spdk_eligibility_reasons(1) [of "live (files env)"]
    by (cases "on_linux (host (live (files env)))")
      (auto simp: failing_def u64_max_def, simp add: spdk_eligibility_with_root_def)
  moreover have "text_kept (kernel_version_string (files env))"
    using ok by (auto simp: kernel_version_string_def probe_env_ok_def text_kept_trim scalar_def split: option.splits)
  ultimately show ?thesis using ok by (simp add: caps_ok_def probe_fresh_def probe_env_ok_def Let_def)
qed

end
