(* ===== verification/Fsys_Cache.thy ===== *)
theory Fsys_Cache
  imports Fsys_Probe Fsys_Crud
begin

text \<open>
  The capability cache on disk (\<open>src/capability/cache.rs\<close>) and the snapshot of a process
  (\<open>src/capability/mod.rs\<close>), over the machine of \<open>Fsys_Replace\<close>. Directories are not part of the store,
  so creating the cache directory succeeds or fails and changes nothing. The results: a crash at any
  moment of \<open>store\<close> leaves the old file or one that reads back as the new snapshot, and a process
  started later loads the snapshot that an earlier one stored.
\<close>

section \<open>Where the cache is\<close>

text \<open>The environment variables, the process and the clock, beside what the probe sees.\<close>

record cache_env =
  fsys_cache_dir :: "string option"
  xdg_cache_home :: "string option"
  home_dir :: "string option"
  process_id :: nat
  clock_nanos :: nat
  probe_of :: probe_env

definition join_dir :: "string \<Rightarrow> string \<Rightarrow> string" where
  "join_dir d n = (if d = [] then n else if last d = CHR ''/'' then d @ n else d @ ''/'' @ n)"

definition cache_dir :: "cache_env \<Rightarrow> string option" where
  "cache_dir env =
     (if (case fsys_cache_dir env of Some v \<Rightarrow> v \<noteq> [] | None \<Rightarrow> False) then fsys_cache_dir env
      else case xdg_cache_home env of
             Some d \<Rightarrow> Some (join_dir d ''fsys'')
           | None \<Rightarrow>
               (case home_dir env of
                  Some d \<Rightarrow> Some (join_dir (join_dir d ''.cache'') ''fsys'')
                | None \<Rightarrow> None))"

definition CACHE_FILE :: string where
  "CACHE_FILE = ''capabilities.toml''"

definition cache_file_path :: "cache_env \<Rightarrow> path option" where
  "cache_file_path env = map_option (\<lambda>d. Path d (Some CACHE_FILE)) (cache_dir env)"

section \<open>Loading\<close>

definition MAX_AGE_SECS :: nat where
  "MAX_AGE_SECS = 30 * 24 * 60 * 60"

text \<open>\<open>saturating_sub\<close> is truncated subtraction.\<close>

definition is_stale :: "cache_env \<Rightarrow> capabilities \<Rightarrow> bool" where
  "is_stale env caps \<longleftrightarrow>
     schema_version caps \<noteq> CAPABILITY_CACHE_SCHEMA_VERSION
     \<or> fsys_version caps \<noteq> pkg_version (probe_of env)
     \<or> kernel_version caps \<noteq> kernel_version_string (files (probe_of env))
     \<or> os_target caps \<noteq> os_name (probe_of env)
     \<or> MAX_AGE_SECS \<le> unat (clock_secs (probe_of env)) - unat (probed_at_unix_secs caps)"

definition std_read :: "machine \<Rightarrow> path \<Rightarrow> machine \<times> bytes result" where
  "std_read m p =
     (case sys_open_existing m p of
        (m1, Inl e) \<Rightarrow> (m1, Inl e)
      | (m1, Inr i) \<Rightarrow> read_all m1 i)"

definition is_not_found :: "error \<Rightarrow> bool" where
  "is_not_found e \<longleftrightarrow> (case e of Io x \<Rightarrow> io_kind x = NotFound | _ \<Rightarrow> False)"

text \<open>What the bytes of a cache file say, when they are a fresh snapshot.\<close>

definition snapshot_of :: "cache_env \<Rightarrow> bytes \<Rightarrow> capabilities option" where
  "snapshot_of env bs =
     (case from_utf8 bs of
        None \<Rightarrow> None
      | Some txt \<Rightarrow>
          (case document_parse txt of
             None \<Rightarrow> None
           | Some doc \<Rightarrow>
               (case document_to_capabilities doc of
                  None \<Rightarrow> None
                | Some caps \<Rightarrow> if is_stale env caps then None else Some caps)))"

definition cache_load :: "cache_env \<Rightarrow> machine \<Rightarrow> machine \<times> capabilities option result" where
  "cache_load env m =
     (case cache_file_path env of
        None \<Rightarrow> (m, Inr None)
      | Some p \<Rightarrow>
          (case std_read m p of
             (m1, Inr bs) \<Rightarrow> (m1, Inr (snapshot_of env bs))
           | (m1, Inl e) \<Rightarrow> if is_not_found e then (m1, Inr None) else (m1, Inl e)))"

section \<open>Storing\<close>

definition cache_temp :: "cache_env \<Rightarrow> string \<Rightarrow> u64 \<Rightarrow> path" where
  "cache_temp env dir n =
     Path dir (Some (''capabilities.toml.'' @ show_nat (process_id env) @ ''.'' @ show_nat (clock_nanos env) @ ''.''
       @ show_nat (unat n) @ ''.tmp''))"

text \<open>The attempts that are left, and the process-wide counter.\<close>

primrec create_attempts :: "nat \<Rightarrow> cache_env \<Rightarrow> string \<Rightarrow> machine \<Rightarrow> u64 \<Rightarrow> machine \<times> u64 \<times> (path \<times> nat) result" where
  "create_attempts 0 env dir m n =
     (m, n, Inl (Io (IoError AlreadyExists ''could not create a unique capability cache temp file'')))"
| "create_attempts (Suc k) env dir m n =
     (let candidate = cache_temp env dir n
      in case std_create_new m candidate of
           (m1, Inr i) \<Rightarrow> (m1, n + 1, Inr (candidate, i))
         | (m1, Inl e) \<Rightarrow> if already_exists e then create_attempts k env dir m1 (n + 1) else (m1, n + 1, Inl e))"

definition create_unique_temp :: "cache_env \<Rightarrow> string \<Rightarrow> machine \<Rightarrow> u64 \<Rightarrow> machine \<times> u64 \<times> (path \<times> nat) result" where
  "create_unique_temp = create_attempts 16"

definition create_dir_all :: "machine \<Rightarrow> machine \<times> unit result" where
  "create_dir_all m = (case next_call m of (m1, Some e) \<Rightarrow> (m1, Inl (Io e)) | (m1, None) \<Rightarrow> (m1, Inr ()))"

definition std_write_all :: "disk \<Rightarrow> bytes \<Rightarrow> disk \<times> unit result" where
  "std_write_all d data = write_loop (Some (Io (IoError WriteZero ''failed to write whole buffer''))) d data 0"

definition write_and_sync :: "machine \<Rightarrow> nat \<Rightarrow> bytes \<Rightarrow> machine \<times> unit result" where
  "write_and_sync m i data =
     (case with_file i (\<lambda>d. std_write_all d data) m of
        (m1, Inl e) \<Rightarrow> (m1, Inl e)
      | (m1, Inr _) \<Rightarrow> sys_fsync m1 i)"

definition cache_bytes :: "capabilities \<Rightarrow> bytes" where
  "cache_bytes caps = as_bytes (document_serialize (capabilities_to_document caps))"

definition cache_store :: "cache_env \<Rightarrow> capabilities \<Rightarrow> machine \<Rightarrow> u64 \<Rightarrow> machine \<times> u64 \<times> unit result" where
  "cache_store env caps m n =
     (case cache_file_path env of
        None \<Rightarrow> (m, n, Inr ())
      | Some p \<Rightarrow>
          (case create_dir_all m of
             (m1, Inl e) \<Rightarrow> (m1, n, Inl e)
           | (m1, Inr _) \<Rightarrow>
               (case create_unique_temp env (parent p) m1 n of
                  (m2, n2, Inl e) \<Rightarrow> (m2, n2, Inl e)
                | (m2, n2, Inr (tmp, i)) \<Rightarrow>
                    (case write_and_sync m2 i (cache_bytes caps) of
                       (m3, Inl e) \<Rightarrow> (drop_guard m3 tmp, n2, Inl e)
                     | (m3, Inr _) \<Rightarrow>
                         (case atomic_rename m3 tmp p of
                            (m4, Inl e) \<Rightarrow> (drop_guard m4 tmp, n2, Inl e)
                          | (m4, Inr _) \<Rightarrow> (m4, n2, Inr ()))))))"

definition cache_invalidate :: "cache_env \<Rightarrow> machine \<Rightarrow> machine \<times> unit result" where
  "cache_invalidate env m =
     (case cache_file_path env of
        None \<Rightarrow> (m, Inr ())
      | Some p \<Rightarrow>
          (case remove_file m p of
             (m1, Inr _) \<Rightarrow> (m1, Inr ())
           | (m1, Inl e) \<Rightarrow> if io_kind e = NotFound then (m1, Inr ()) else (m1, Inl (Io e))))"

section \<open>The snapshot of a process\<close>

text \<open>The process: its machine, the counter and the \<open>OnceLock\<close>.\<close>

record process =
  sys :: machine
  counter :: u64
  once :: "capabilities option"

definition load_or_probe :: "bool \<Rightarrow> cache_env \<Rightarrow> process \<Rightarrow> process \<times> capabilities" where
  "load_or_probe reprobe env p =
     (case (if reprobe then (sys p, Inr None) else cache_load env (sys p)) of
        (m1, Inr (Some cached)) \<Rightarrow> (p\<lparr>sys := m1\<rparr>, cached)
      | (m1, _) \<Rightarrow>
          let fresh = probe_fresh (probe_of env)
          in case cache_store env fresh m1 (counter p) of
               (m2, n2, _) \<Rightarrow> (p\<lparr>sys := m2, counter := n2\<rparr>, fresh))"

definition process_capabilities :: "bool \<Rightarrow> cache_env \<Rightarrow> process \<Rightarrow> process \<times> capabilities" where
  "process_capabilities reprobe env p =
     (case once p of
        Some caps \<Rightarrow> (p, caps)
      | None \<Rightarrow> (case load_or_probe reprobe env p of (p1, caps) \<Rightarrow> (p1\<lparr>once := Some caps\<rparr>, caps)))"

definition probe_capabilities_fresh :: "cache_env \<Rightarrow> process \<Rightarrow> process \<times> capabilities" where
  "probe_capabilities_fresh env p =
     (let fresh = probe_fresh (probe_of env)
      in case cache_store env fresh (sys p) (counter p) of
           (m1, n1, _) \<Rightarrow> (p\<lparr>sys := m1, counter := n1\<rparr>, fresh))"

section \<open>The temp file of a store\<close>

definition is_cache_temp :: "path \<Rightarrow> bool" where
  "is_cache_temp p \<longleftrightarrow> (\<exists>d s. p = Path d (Some (CACHE_FILE @ ''.'' @ s)))"

lemma cache_temp_is_temp: "is_cache_temp (cache_temp env d n)"
  by (auto simp: is_cache_temp_def cache_temp_def CACHE_FILE_def)

lemma cache_temp_differs: "is_cache_temp t \<Longrightarrow> cache_file_path env = Some p \<Longrightarrow> t \<noteq> p"
  by (auto simp: is_cache_temp_def cache_file_path_def)

lemma create_attempts_cases:
  "create_attempts k env d m n = (m', n', r) \<Longrightarrow>
     (\<exists>e. r = Inl e \<and> now m' = now m \<and> past m' = past m \<and> (calls m = [] \<longrightarrow> calls m' = [])) \<or>
     (\<exists>t i. r = Inr (t, i) \<and> is_cache_temp t \<and> created m t i m')"
proof (induction k arbitrary: m n)
  case (Suc k)
  let ?t = "cache_temp env d n"
  obtain m1 r1 where c: "std_create_new m ?t = (m1, r1)" by fastforce
  from std_create_new_creates c consider
      e where "r1 = Inl e" "now m1 = now m" "past m1 = past m" "calls m = [] \<longrightarrow> calls m1 = []"
    | i where "r1 = Inr i" "created m ?t i m1" unfolding creates_def by blast
  then show ?case
  proof cases
    case (1 e)
    with Suc.IH [of m1 "n + 1"] Suc.prems c show ?thesis
      by (cases "already_exists e") (auto simp: created_def)
  next
    case (2 i)
    with Suc.prems c cache_temp_is_temp show ?thesis by auto
  qed
qed auto

lemma std_write_all_effect: "std_write_all d data = (d', Inr ()) \<Longrightarrow> contents d = [] \<Longrightarrow> contents d' = data"
  using write_loop_effect [of _ d data 0 d' "Inr ()"] by (auto simp: std_write_all_def put_at_whole)

lemma write_and_sync_effect:
  assumes "write_and_sync m i data = (m', r)" and "data_of (now m) i = []"
  shows "touches i m m' \<and> (r = Inr () \<longrightarrow> durable_as m' i data)"
proof -
  obtain m1 r1 where w: "with_file i (\<lambda>d. std_write_all d data) m = (m1, r1)" by fastforce
  obtain d where d: "std_write_all \<lparr>contents = data_of (now m) i, script = kernel m, oom = no_mem m\<rparr> data = (d, r1)"
    "data_of (now m1) i = contents d" "touches i m m1" by (rule with_file_cases [OF w])
  show ?thesis
  proof (cases r1)
    case (Inl e)
    with assms(1) w d(3) show ?thesis by (auto simp: write_and_sync_def)
  next
    case (Inr u)
    with assms(1) w have s: "sys_fsync m1 i = (m', r)" by (simp add: write_and_sync_def)
    have "contents d = data" using std_write_all_effect d(1) assms(2) Inr by simp
    with sys_fsync_effect [OF s] d touches_trans [of i m m1 m'] show ?thesis by (auto simp: durable_as_def)
  qed
qed

lemma create_dir_all_keeps:
  "create_dir_all m = (m', r) \<Longrightarrow> now m' = now m \<and> past m' = past m \<and> (calls m = [] \<longrightarrow> calls m' = [])"
  using next_call_keeps [of m "fst (next_call m)" "snd (next_call m)"]
  by (auto simp: create_dir_all_def split: prod.splits option.splits)

lemma cache_store_run:
  assumes "cache_store env caps m n = (m', n', r)" and "cache_file_path env = Some p" and "wf_store (now m)"
  shows "replaced_by is_cache_temp False m p (cache_bytes caps) m' (r = Inr ())"
proof -
  obtain m1 r1 where d: "create_dir_all m = (m1, r1)" by fastforce
  note k = create_dir_all_keeps [OF d]
  obtain m2 n2 r2 where c: "create_unique_temp env (parent p) m1 n = (m2, n2, r2)" by (metis prod_cases3)
  let ?q = "cache_temp env [] 0"
  have q: "?q \<noteq> p" "is_cache_temp ?q" using cache_temp_is_temp cache_temp_differs [OF _ assms(2)] by auto
  have run: "replaced_by is_cache_temp False m1 p (cache_bytes caps) m' (r = Inr ())" if r1: "r1 = Inr ()"
    using create_attempts_cases [OF c [unfolded create_unique_temp_def]]
  proof (elim disjE exE conjE)
    fix e assume "r2 = Inl e" "now m2 = now m1" "past m2 = past m1" "calls m1 = [] \<longrightarrow> calls m2 = []"
    with assms(1,2) d r1 c replaced_never [where T = is_cache_temp, OF q, of m2 m1] show ?thesis
      by (auto simp: cache_store_def)
  next
    fix t i assume r2: "r2 = Inr (t, i)" and tm: "is_cache_temp t" and cr: "created m1 t i m2"
    have ne: "t \<noteq> p" using cache_temp_differs [OF tm assms(2)] .
    obtain m3 r3 where w: "write_and_sync m2 i (cache_bytes caps) = (m3, r3)" by fastforce
    have we: "touches i m2 m3" "r3 = Inr () \<longrightarrow> durable_as m3 i (cache_bytes caps)"
      using write_and_sync_effect [OF w] cr by (auto simp: created_def)
    note fill = cr we(1) ne tm
    obtain m4 r4 where rn: "atomic_rename m3 t p = (m4, r4)" by fastforce
    show ?thesis
    proof (cases r3)
      case (Inl e)
      then have "m' = drop_guard m3 t" "r \<noteq> Inr ()"
        using assms(1,2) d r1 c r2 w by (auto simp: cache_store_def)
      with replaced_dropped [where T = is_cache_temp, OF fill, of m3] show ?thesis by simp
    next
      case (Inr u)
      with we have dur: "held_as False m3 i (cache_bytes caps)" by (simp add: durable_held)
      have wf: "wf_store (now m1)" using k assms(3) by simp
      show ?thesis
        using assms(1,2) d r1 c r2 w Inr rn replaced_rename_failed [where T = is_cache_temp, OF fill dur]
          replaced_published [where T = is_cache_temp and sync = False and sf = True, OF fill dur _ wf]
        by (cases r4) (auto simp: cache_store_def)
    qed
  qed
  show ?thesis
  proof (cases r1)
    case (Inl e)
    with assms(1,2) d have "m' = m1" "r \<noteq> Inr ()" by (auto simp: cache_store_def)
    with replaced_never [where T = is_cache_temp, OF q, of m1 m] k show ?thesis by simp
  next
    case (Inr u)
    with run have "replaced_by is_cache_temp False m1 p (cache_bytes caps) m' (r = Inr ())" by simp
    from replaced_cong [OF this] k show ?thesis by simp
  qed
qed

lemma snapshot_of_stored: "caps_ok caps \<Longrightarrow> \<not> is_stale env caps \<Longrightarrow> snapshot_of env (cache_bytes caps) = Some caps"
  using document_bytes_roundtrip [OF capabilities_document_ok, of caps] capabilities_roundtrip [of caps]
  by (cases "from_utf8 (cache_bytes caps)") (simp_all add: snapshot_of_def cache_bytes_def)

section \<open>Without faults\<close>

lemma std_write_all_no_fault:
  assumes "script d = []"
  shows "\<exists>d'. std_write_all d data = (d', Inr ())"
proof -
  obtain d1 where d1: "sys_pwrite d 0 data = (d1, SysN (length data))"
    using assms by (simp add: sys_pwrite_def)
  then have "write_loop z d1 data (length data) = (d1, Inr ())" for z by (simp add: write_loop.simps)
  with d1 show ?thesis unfolding std_write_all_def by (subst write_loop.simps) auto
qed

lemma write_and_sync_no_fault:
  assumes "calls m = []" and "kernel m = []"
  shows "\<exists>m'. write_and_sync m i data = (m', Inr ()) \<and> calls m' = []"
proof -
  let ?d = "\<lparr>contents = data_of (now m) i, script = kernel m, oom = no_mem m\<rparr>"
  obtain d' where "std_write_all ?d data = (d', Inr ())" using std_write_all_no_fault [of ?d data] assms(2) by auto
  then obtain m1 where "with_file i (\<lambda>d. std_write_all d data) m = (m1, Inr ())" "calls m1 = []"
    using assms(1) by (simp add: with_file_def)
  then show ?thesis by (simp add: write_and_sync_def sys_fsync_def next_call_no_fault)
qed

lemma cache_store_no_fault:
  assumes "cache_file_path env = Some p" and "calls m = []" and "kernel m = []"
    and "names (now m) (cache_temp env (parent p) n) = None" and "CHR 0x00 \<notin> set (path_text (cache_temp env (parent p) n))"
  shows "\<exists>m'. cache_store env caps m n = (m', n + 1, Inr ()) \<and> calls m' = []"
proof -
  let ?t = "cache_temp env (parent p) n"
  obtain m1 where c: "std_create_new m ?t = (m1, Inr (next_ino (now m)))" "calls m1 = []" "kernel m1 = []"
      "names (now m1) ?t = Some (next_ino (now m))"
    using assms(2-5) by (simp add: std_create_new_def sys_creat_excl_def next_call_no_fault set_name_def Let_def)
  then have u: "create_unique_temp env (parent p) m n = (m1, n + 1, Inr (?t, next_ino (now m)))"
    unfolding create_unique_temp_def by (simp add: numeral_eq_Suc)
  let ?i = "next_ino (now m)"
  obtain m2 where w: "write_and_sync m1 ?i (cache_bytes caps) = (m2, Inr ())" "calls m2 = []"
    using write_and_sync_no_fault [OF c(2,3)] by blast
  have "data_of (now m1) ?i = []"
    using c(1) std_create_new_creates by (auto simp: creates_def created_def)
  from write_and_sync_effect [OF w(1) this] have "names (now m2) ?t = Some ?i"
    using c(4) by (simp add: goes_def same_but_def)
  then obtain m3 where "atomic_rename m2 ?t p = (m3, Inr ())" "calls m3 = []"
    using w(2) by (simp add: atomic_rename_def next_call_no_fault)
  then show ?thesis
    using assms(1,2) u w by (simp add: cache_store_def create_dir_all_def next_call_no_fault)
qed

definition demo_probe :: probe_env where
  "demo_probe =
     \<lparr>files = \<lparr>on_linux = True, proc_meminfo = None, proc_self_status = None, proc_osrelease = None, uid = 1000,
         pci_entries = None, pci_class = \<lambda>_. None, pci_driver = \<lambda>_. None, iommu_groups = None, parallelism = Some 8\<rparr>,
      live_hardware = \<lparr>drive_type = lit ''nvme'', optimal_block_size = 65536, queue_depth = 1, sector_size_logical = 512,
         sector_size_physical = 4096, hw_io_uring = True, hw_nvme_passthrough = False, hw_direct_io = True,
         hw_plp_detected = False\<rparr>,
      ring_features = \<lparr>raw_coop_taskrun = True, raw_single_issuer = True, raw_defer_taskrun = False\<rparr>,
      pkg_version = lit ''1.1.3'', os_name = lit ''linux'', clock_secs = 1700000000\<rparr>"

definition demo_cache :: cache_env where
  "demo_cache =
     \<lparr>fsys_cache_dir = Some ''/cache'', xdg_cache_home = None, home_dir = None, process_id = 7, clock_nanos = 9,
      probe_of = demo_probe\<rparr>"

lemma demo_cache_facts:
  "cache_file_path demo_cache = Some (Path ''/cache'' (Some CACHE_FILE))"
  "probe_env_ok demo_probe" "probe_of demo_cache = demo_probe"
  by (simp_all add: demo_cache_def cache_file_path_def cache_dir_def demo_probe_def probe_env_ok_def scalar_def u64_max_def)

lemma demo_cache_store:
  "\<exists>m'. cache_store demo_cache (probe_fresh demo_probe) demo_machine 0 = (m', 1, Inr ()) \<and> calls m' = []"
proof -
  have n: "show_nat 7 = ''7''" "show_nat 9 = ''9''" "show_nat 0 = ''0''" by code_simp+
  have "cache_temp demo_cache ''/cache'' 0 = Path ''/cache'' (Some ''capabilities.toml.7.9.0.tmp'')"
    by (simp add: cache_temp_def demo_cache_def n)
  then have "names (now demo_machine) (cache_temp demo_cache ''/cache'' 0) = None"
    "CHR 0x00 \<notin> set (path_text (cache_temp demo_cache ''/cache'' 0))"
    by (simp_all add: demo_machine_def demo_store_def demo_path_def demo_other_def path_text_def)
  with cache_store_no_fault [OF demo_cache_facts(1) demo_facts(3,4), of 0 "probe_fresh demo_probe"] show ?thesis by simp
qed

section \<open>The results\<close>

text \<open>
  C30: A power cut at any moment of \<open>store\<close>, whichever of its calls fail, leaves at the cache file what could
  have been there before, or a file that reads back as the snapshot that was being stored.
\<close>

theorem cache_store_is_crash_atomic:
  assumes "cache_store env caps m n = (m', n', r)" and "cache_file_path env = Some p" and "wf_store (now m)"
    and "caps_ok caps" and "\<not> is_stale env caps"
  shows "\<exists>xs. past m' = past m @ xs \<and> (\<forall>s\<in>set xs. \<forall>c. after_crash s p c \<longrightarrow>
    after_crash (now m) p c \<or> (\<exists>bs. c = Some bs \<and> snapshot_of env bs = Some caps))"
  using replaced_crash_atomic [OF cache_store_run [OF assms(1-3)] assms(3)] snapshot_of_stored [OF assms(4,5)] by blast

theorem cache_store_is_crash_atomic_witness:
  "\<exists>m' xs. cache_store demo_cache (probe_fresh demo_probe) demo_machine 0 = (m', 1, Inr ()) \<and>
     past m' = past demo_machine @ xs \<and> (\<forall>s\<in>set xs. \<forall>c. after_crash s (Path ''/cache'' (Some CACHE_FILE)) c \<longrightarrow>
       after_crash (now demo_machine) (Path ''/cache'' (Some CACHE_FILE)) c
       \<or> (\<exists>bs. c = Some bs \<and> snapshot_of demo_cache bs = Some (probe_fresh demo_probe)))"
proof -
  obtain m' where m': "cache_store demo_cache (probe_fresh demo_probe) demo_machine 0 = (m', 1, Inr ())"
    using demo_cache_store by blast
  have "\<not> is_stale demo_cache (probe_fresh demo_probe)"
    by (simp add: is_stale_def demo_cache_facts probe_fresh_def MAX_AGE_SECS_def Let_def)
  from cache_store_is_crash_atomic [OF m' demo_cache_facts(1) _ probe_fresh_ok [OF demo_cache_facts(2)] this] m'
  show ?thesis using demo_facts by auto
qed

lemma cache_store_file:
  assumes "cache_store env caps m n = (m', n', Inr ())" and "cache_file_path env = Some p" and "wf_store (now m)"
  shows "file_at (now m') p = Some (cache_bytes caps)"
  using replaced_ok [OF cache_store_run [OF assms, simplified]] by (auto simp: published_if_def file_at_def)

lemma cache_load_file:
  assumes "cache_file_path env = Some p" and "file_at (now m) p = Some bs" and "calls m = []"
  shows "cache_load env m = (m, Inr (snapshot_of env bs))"
  using assms
  by (auto simp: cache_load_def std_read_def sys_open_existing_def read_all_def next_call_no_fault file_at_def)

text \<open>
  C14: A process that probed the system and stored its snapshot is followed by one that loads it: a later
  process of the same crate version, kernel and target, with the same cache path and less than 30
  days later, answers with exactly the snapshot of the first, without a probe of its own and without
  touching the file.
\<close>

theorem later_process_loads_snapshot:
  assumes "cache_store env (probe_fresh (probe_of env)) m n = (m', n', Inr ())" and "wf_store (now m)"
    and "cache_file_path env = Some p" and "probe_env_ok (probe_of env)"
    and "cache_file_path env2 = Some p" and "pkg_version (probe_of env2) = pkg_version (probe_of env)"
    and "kernel_version_string (files (probe_of env2)) = kernel_version_string (files (probe_of env))"
    and "os_name (probe_of env2) = os_name (probe_of env)"
    and "unat (clock_secs (probe_of env2)) < unat (clock_secs (probe_of env)) + 30 * 24 * 60 * 60"
    and "calls m' = []"
  shows "process_capabilities False env2 \<lparr>sys = m', counter = k, once = None\<rparr> =
    (\<lparr>sys = m', counter = k, once = Some (probe_fresh (probe_of env))\<rparr>, probe_fresh (probe_of env))"
proof -
  let ?c = "probe_fresh (probe_of env)"
  have "\<not> is_stale env2 ?c"
    using assms(6-9) by (auto simp: is_stale_def probe_fresh_def MAX_AGE_SECS_def Let_def)
  then have "snapshot_of env2 (cache_bytes ?c) = Some ?c"
    using probe_fresh_ok [OF assms(4)] by (intro snapshot_of_stored)
  with cache_load_file [OF assms(5) cache_store_file [OF assms(1,3,2)] assms(10)] show ?thesis
    by (simp add: process_capabilities_def load_or_probe_def)
qed

theorem later_process_loads_snapshot_witness:
  "\<exists>m'. cache_store demo_cache (probe_fresh demo_probe) demo_machine 0 = (m', 1, Inr ()) \<and>
     process_capabilities False demo_cache \<lparr>sys = m', counter = 0, once = None\<rparr> =
       (\<lparr>sys = m', counter = 0, once = Some (probe_fresh demo_probe)\<rparr>, probe_fresh demo_probe)"
proof -
  obtain m' where m': "cache_store demo_cache (probe_fresh demo_probe) demo_machine 0 = (m', 1, Inr ())" "calls m' = []"
    using demo_cache_store by blast
  from later_process_loads_snapshot [of demo_cache demo_machine 0 m' 1, unfolded demo_cache_facts(3),
      OF m'(1) _ demo_cache_facts(1,2) demo_cache_facts(1), of 0] m' demo_facts
  show ?thesis by (auto simp: demo_cache_facts)
qed

end
