(* ===== verification/Fsys_Driver.thy ===== *)
theory Fsys_Driver
  imports Fsys_Platform "HOL-Library.Multiset"
begin

text \<open>
  The owner task of the asynchronous ring (\<open>src/async_io/completion_driver.rs\<close>): callers queue
  operations in a channel, the owner pushes submission entries, the kernel completes them in any
  order, and the owner resubmits short writes or answers the caller. The ring and the kernel are a
  step of the system that may take any entry it was handed, transfer any part of it and report any
  error. An operation has a number, which stands for its reply channel, its buffer and the file it
  keeps open; \<open>freed\<close> lists the operations whose buffer and file the driver has let go.
\<close>

section \<open>Operations and entries\<close>

datatype ring_op = RWrite (op_id: nat) (op_fd: nat) bytes nat | RFdatasync (op_id: nat) (op_fd: nat)

record in_flight_op =
  fl_reply :: nat
  fl_fd :: nat
  fl_buf :: "bytes option"
  fl_done :: nat
  fl_offset :: nat

text \<open>An entry points into the buffer of its operation: from where, how much, and to which file offset.\<close>

datatype sqe_work = WriteChunk nat nat nat | Datasync

record sqe =
  user_data :: nat
  sqe_fd :: nat
  sqe_op :: nat
  sqe_work :: sqe_work

datatype outcome = Finished "nat result" | Abandoned | Unsent | DriverDead | RefusedPoisoned

text \<open>What the kernel did: a transfer to a file offset, or a completed data sync.\<close>

datatype kevent = KWrote nat nat bytes | KSynced nat

datatype owner_pc = Starting | Selecting | Batching | Draining | Submitting | Exited | Stopped

record driver =
  submitted :: "ring_op list"
  chan :: "ring_op list"
  chan_open :: bool
  poisoned :: bool
  sq :: "sqe list"
  in_kernel :: "sqe list"
  cq :: "(nat \<times> int) list"
  pending :: "(nat \<times> in_flight_op) list"
  next_id :: nat
  started :: nat
  closing :: bool
  owner :: owner_pc
  answers :: "(nat \<times> outcome) list"
  freed :: "nat list"
  klog :: "kevent list"

definition driver_new :: driver where
  "driver_new =
     \<lparr>submitted = [], chan = [], chan_open = True, poisoned = False, sq = [], in_kernel = [], cq = [], pending = [],
      next_id = 0, started = 0, closing = False, owner = Starting, answers = [], freed = [], klog = []\<rparr>"

section \<open>The owner's functions\<close>

definition ring_submit :: "nat \<Rightarrow> driver \<Rightarrow> driver" where
  "ring_submit k d = d\<lparr>sq := drop k (sq d), in_kernel := in_kernel d @ take k (sq d)\<rparr>"

text \<open>\<open>None\<close> where the offset of the rest would overflow.\<close>

definition sqe_for :: "nat \<Rightarrow> in_flight_op \<Rightarrow> sqe option" where
  "sqe_for i fl =
     (case fl_buf fl of
        None \<Rightarrow> Some \<lparr>user_data = i, sqe_fd = fl_fd fl, sqe_op = fl_reply fl, sqe_work = Datasync\<rparr>
      | Some buf \<Rightarrow>
          if length buf < fl_done fl then None
          else case checked_add (fl_offset fl) (fl_done fl) of
                 None \<Rightarrow> None
               | Some off \<Rightarrow>
                   Some \<lparr>user_data = i, sqe_fd = fl_fd fl, sqe_op = fl_reply fl,
                     sqe_work = WriteChunk (fl_done fl) (min (length buf - fl_done fl) MAX_SQE_LEN) off\<rparr>)"

definition finish :: "in_flight_op \<Rightarrow> nat result \<Rightarrow> driver \<Rightarrow> driver" where
  "finish fl r d = d\<lparr>freed := freed d @ [fl_reply fl], answers := answers d @ [(fl_reply fl, Finished r)]\<rparr>"

definition remove_pending :: "nat \<Rightarrow> (nat \<times> in_flight_op) list \<Rightarrow> (nat \<times> in_flight_op) list" where
  "remove_pending i ps = filter (\<lambda>e. fst e \<noteq> i) ps"

definition track :: "nat \<Rightarrow> in_flight_op \<Rightarrow> driver \<Rightarrow> driver" where
  "track i fl d = d\<lparr>pending := (i, fl) # remove_pending i (pending d)\<rparr>"

definition os_error :: "string \<Rightarrow> error" where
  "os_error s = Io (IoError OtherKind s)"

text \<open>\<open>k\<close> is how many entries the kernel takes if the queue has to be handed over first.\<close>

definition submit_or_fail :: "nat \<Rightarrow> nat \<Rightarrow> nat \<Rightarrow> in_flight_op \<Rightarrow> driver \<Rightarrow> driver" where
  "submit_or_fail sq_cap k i fl d =
     (case sqe_for i fl of
        None \<Rightarrow> finish fl (Inl (Io (IoError InvalidInput ''Invalid argument (os error 22)''))) d
      | Some entry \<Rightarrow>
          let d1 = (if length (sq d) < sq_cap then d else ring_submit k d)
          in if length (sq d1) < sq_cap then track i fl (d1\<lparr>sq := sq d1 @ [entry]\<rparr>)
             else finish fl (Inl (os_error ''Device or resource busy (os error 16)'')) d1)"

definition in_flight_of :: "ring_op \<Rightarrow> in_flight_op" where
  "in_flight_of op =
     (case op of
        RWrite i fd buf off \<Rightarrow> \<lparr>fl_reply = i, fl_fd = fd, fl_buf = Some buf, fl_done = 0, fl_offset = off\<rparr>
      | RFdatasync i fd \<Rightarrow> \<lparr>fl_reply = i, fl_fd = fd, fl_buf = None, fl_done = 0, fl_offset = 0\<rparr>)"

definition start_op :: "nat \<Rightarrow> nat \<Rightarrow> nat \<Rightarrow> ring_op \<Rightarrow> driver \<Rightarrow> driver" where
  "start_op sq_cap k i op d =
     (let fl = in_flight_of op
      in if fl_buf fl = Some [] then finish fl (Inr 0) d else submit_or_fail sq_cap k i fl d)"

text \<open>Taking the next operation from the channel, with the next identifier (the counter wraps).\<close>

definition receive :: "nat \<Rightarrow> nat \<Rightarrow> driver \<Rightarrow> driver" where
  "receive sq_cap k d =
     (case chan d of
        [] \<Rightarrow> d
      | op # ops \<Rightarrow>
          let i = (next_id d + 1) mod 2 ^ 64
          in start_op sq_cap k i op (d\<lparr>chan := ops, next_id := i, started := Suc (started d)\<rparr>))"

definition on_completion :: "nat \<Rightarrow> nat \<Rightarrow> nat \<Rightarrow> in_flight_op \<Rightarrow> int \<Rightarrow> driver \<Rightarrow> driver" where
  "on_completion sq_cap k i fl res d =
     (if res < 0 then finish fl (Inl (os_error (''os error '' @ show_int (min (- res) 2147483647)))) d
      else case fl_buf fl of
             None \<Rightarrow> finish fl (Inr 0) d
           | Some buf \<Rightarrow>
               if res = 0 then finish fl (Inr (fl_done fl)) d
               else
                 let fl' = fl\<lparr>fl_done := min (saturating_add (fl_done fl) (nat res)) (length buf)\<rparr>
                 in if fl_done fl' < length buf then submit_or_fail sq_cap k i fl' d
                    else finish fl' (Inr (length buf)) d)"

text \<open>One round of \<open>drain_completions\<close>.\<close>

definition drain_one :: "nat \<Rightarrow> nat \<Rightarrow> driver \<Rightarrow> driver" where
  "drain_one sq_cap k d =
     (case cq d of
        [] \<Rightarrow> d
      | (i, res) # cs \<Rightarrow>
          (case map_of (pending d) i of
             None \<Rightarrow> d\<lparr>cq := cs\<rparr>
           | Some fl \<Rightarrow> on_completion sq_cap k i fl res (d\<lparr>cq := cs, pending := remove_pending i (pending d)\<rparr>)))"

text \<open>
  The owner stops with work left (panic, abort, runtime shutdown): the operations in flight are
  leaked and abandoned, those still in the channel are dropped, and the ring is gone.
\<close>

definition owner_stop :: "driver \<Rightarrow> driver" where
  "owner_stop d =
     d\<lparr>owner := Stopped, pending := [], chan := [], sq := [], cq := [],
       answers := answers d @ map (\<lambda>e. (fl_reply (snd e), Abandoned)) (pending d) @ map (\<lambda>op. (op_id op, Unsent)) (chan d),
       freed := freed d @ map op_id (chan d)\<rparr>"

section \<open>The kernel\<close>

fun op_buf :: "ring_op \<Rightarrow> bytes option" where
  "op_buf (RWrite i fd buf off) = Some buf"
| "op_buf (RFdatasync i fd) = None"

text \<open>The memory an entry points at.\<close>

definition memory :: "driver \<Rightarrow> nat \<Rightarrow> bytes" where
  "memory d i = (case List.find (\<lambda>op. op_id op = i) (submitted d) of
     Some op \<Rightarrow> (case op_buf op of Some b \<Rightarrow> b | None \<Rightarrow> []) | None \<Rightarrow> [])"

text \<open>The result of an entry, and the trace it leaves: a failed one leaves none.\<close>

definition kernel_effect :: "driver \<Rightarrow> sqe \<Rightarrow> int \<Rightarrow> kevent list" where
  "kernel_effect d e res =
     (if res < 0 then []
      else case sqe_work e of
             Datasync \<Rightarrow> [KSynced (sqe_op e)]
           | WriteChunk from len off \<Rightarrow> [KWrote (sqe_op e) off (take (nat res) (drop from (memory d (sqe_op e))))])"

definition kernel_result_ok :: "sqe \<Rightarrow> int \<Rightarrow> bool" where
  "kernel_result_ok e res \<longleftrightarrow>
     (case sqe_work e of Datasync \<Rightarrow> res \<le> 0 | WriteChunk from len off \<Rightarrow> res \<le> int len)"

text \<open>A buffer fits into memory.\<close>

definition op_fits :: "ring_op \<Rightarrow> bool" where
  "op_fits op \<longleftrightarrow> (\<forall>b. op_buf op = Some b \<longrightarrow> length b \<le> u64_max)"

section \<open>Steps\<close>

text \<open>
  \<open>submit\<close> of a caller up to the wait for its reply: refused once the driver is known to be dead,
  failed when the channel has no receiver any more, or queued. Then what the caller gets for an
  outcome, and the mark a dropped reply channel leaves.
\<close>

definition submit_op :: "ring_op \<Rightarrow> driver \<Rightarrow> driver" where
  "submit_op op d =
     (if poisoned d then
        d\<lparr>submitted := submitted d @ [op], freed := freed d @ [op_id op], answers := answers d @ [(op_id op, RefusedPoisoned)]\<rparr>
      else if owner d \<in> {Exited, Stopped} then
        d\<lparr>submitted := submitted d @ [op], freed := freed d @ [op_id op], answers := answers d @ [(op_id op, DriverDead)],
          poisoned := True\<rparr>
      else d\<lparr>submitted := submitted d @ [op], chan := chan d @ [op]\<rparr>)"

fun submit_result :: "outcome \<Rightarrow> nat result" where
  "submit_result (Finished r) = r"
| "submit_result Abandoned = Inl (HandlePoisoned ''io_uring completion driver dropped sender'')"
| "submit_result Unsent = Inl (HandlePoisoned ''io_uring completion driver dropped sender'')"
| "submit_result DriverDead = Inl CompletionDriverDead"
| "submit_result RefusedPoisoned = Inl (HandlePoisoned ''io_uring completion driver panicked'')"

definition observe_reply :: "outcome \<Rightarrow> driver \<Rightarrow> driver" where
  "observe_reply x d = (if x \<in> {Abandoned, Unsent} then d\<lparr>poisoned := True\<rparr> else d)"

inductive driver_step :: "nat \<Rightarrow> nat \<Rightarrow> driver \<Rightarrow> driver \<Rightarrow> bool" for sq_cap cq_cap where
  send: "chan_open d \<Longrightarrow> op_id op \<notin> op_id ` set (submitted d) \<Longrightarrow> op_fits op \<Longrightarrow>
    driver_step sq_cap cq_cap d (submit_op op d)"
| observe: "(i, x) \<in> set (answers d) \<Longrightarrow> driver_step sq_cap cq_cap d (observe_reply x d)"
| close: "driver_step sq_cap cq_cap d (d\<lparr>chan_open := False\<rparr>)"
| start: "owner d = Starting \<Longrightarrow> driver_step sq_cap cq_cap d (d\<lparr>owner := Selecting\<rparr>)"
| exit: "owner d = Selecting \<Longrightarrow> closing d \<Longrightarrow> pending d = [] \<Longrightarrow>
    driver_step sq_cap cq_cap d (d\<lparr>owner := Exited\<rparr>)"
| recv: "owner d = Selecting \<Longrightarrow> \<not> closing d \<Longrightarrow> length (pending d) < cq_cap \<Longrightarrow> chan d \<noteq> [] \<Longrightarrow>
    driver_step sq_cap cq_cap d (receive sq_cap k d\<lparr>owner := Batching\<rparr>)"
| recv_closed: "owner d = Selecting \<Longrightarrow> \<not> closing d \<Longrightarrow> length (pending d) < cq_cap \<Longrightarrow> chan d = [] \<Longrightarrow>
    \<not> chan_open d \<Longrightarrow> driver_step sq_cap cq_cap d (d\<lparr>closing := True, owner := Submitting\<rparr>)"
| try_recv: "owner d = Batching \<Longrightarrow> length (pending d) < cq_cap \<Longrightarrow> chan d \<noteq> [] \<Longrightarrow>
    driver_step sq_cap cq_cap d (receive sq_cap k d)"
| batch_end: "owner d = Batching \<Longrightarrow> cq_cap \<le> length (pending d) \<or> chan d = [] \<Longrightarrow>
    driver_step sq_cap cq_cap d (d\<lparr>owner := Submitting\<rparr>)"
| readable: "owner d = Selecting \<Longrightarrow> driver_step sq_cap cq_cap d (d\<lparr>owner := Draining\<rparr>)"
| reap: "owner d = Draining \<Longrightarrow> cq d \<noteq> [] \<Longrightarrow> driver_step sq_cap cq_cap d (drain_one sq_cap k d)"
| reap_end: "owner d = Draining \<Longrightarrow> cq d = [] \<Longrightarrow> driver_step sq_cap cq_cap d (d\<lparr>owner := Submitting\<rparr>)"
| retry: "owner d = Selecting \<Longrightarrow> sq d \<noteq> [] \<Longrightarrow> driver_step sq_cap cq_cap d (d\<lparr>owner := Submitting\<rparr>)"
| hand_over: "owner d = Submitting \<Longrightarrow> driver_step sq_cap cq_cap d (ring_submit k d\<lparr>owner := Selecting\<rparr>)"
| stop: "owner d \<notin> {Exited, Stopped} \<Longrightarrow> driver_step sq_cap cq_cap d (owner_stop d)"
| complete: "in_kernel d = es @ e # es' \<Longrightarrow> kernel_result_ok e res \<Longrightarrow>
    driver_step sq_cap cq_cap d (d\<lparr>in_kernel := es @ es', klog := klog d @ kernel_effect d e res,
      cq := (if owner d \<in> {Exited, Stopped} then cq d else cq d @ [(user_data e, res)])\<rparr>)"

section \<open>What the kernel's trace says of an operation\<close>

fun chunk_of :: "nat \<Rightarrow> kevent \<Rightarrow> (nat \<times> bytes) option" where
  "chunk_of i (KWrote j off bs) = (if j = i then Some (off, bs) else None)"
| "chunk_of i (KSynced j) = None"

definition chunks :: "nat \<Rightarrow> kevent list \<Rightarrow> (nat \<times> bytes) list" where
  "chunks i log = List.map_filter (chunk_of i) log"

text \<open>The transfers follow one another from an offset on.\<close>

fun lay :: "nat \<Rightarrow> (nat \<times> bytes) list \<Rightarrow> bool" where
  "lay off [] \<longleftrightarrow> True"
| "lay off ((o', bs) # cs) \<longleftrightarrow> o' = off \<and> lay (off + length bs) cs"

abbreviation moved :: "nat \<Rightarrow> kevent list \<Rightarrow> bytes" where
  "moved i log \<equiv> concat (map snd (chunks i log))"

lemma chunks_append [simp]: "chunks i (log @ log') = chunks i log @ chunks i log'"
  by (simp add: chunks_def map_filter_def)

lemma chunks_simps [simp]:
  "chunks i [] = []" "chunks i [KSynced j] = []" "chunks i [KWrote j off bs] = (if j = i then [(off, bs)] else [])"
  by (simp_all add: chunks_def map_filter_def)

lemma lay_append: "lay off (cs @ [(o', bs)]) \<longleftrightarrow> lay off cs \<and> o' = off + length (concat (map snd cs))"
  by (induction off cs rule: lay.induct) auto

lemma chunks_other: "j \<noteq> i \<Longrightarrow> sqe_op e = i \<Longrightarrow> chunks j (kernel_effect d e res) = []"
  by (auto simp: kernel_effect_def split: sqe_work.splits)

section \<open>The invariant\<close>

fun op_offset :: "ring_op \<Rightarrow> nat" where
  "op_offset (RWrite i fd buf off) = off"
| "op_offset (RFdatasync i fd) = 0"

definition matches :: "ring_op list \<Rightarrow> in_flight_op \<Rightarrow> bool" where
  "matches ops fl \<longleftrightarrow> (\<exists>op\<in>set ops. op_id op = fl_reply fl \<and> op_buf op = fl_buf fl \<and> op_offset op = fl_offset fl)"

text \<open>The first \<open>n\<close> bytes of an operation are written, and nothing else of it.\<close>

definition laid :: "kevent list \<Rightarrow> in_flight_op \<Rightarrow> nat \<Rightarrow> bool" where
  "laid log fl n \<longleftrightarrow>
     (case fl_buf fl of
        None \<Rightarrow> True
      | Some buf \<Rightarrow> n \<le> length buf \<and> lay (fl_offset fl) (chunks (fl_reply fl) log) \<and> moved (fl_reply fl) log = take n buf)"

abbreviation stalled :: "nat \<Rightarrow> kevent list \<Rightarrow> bool" where
  "stalled i log \<equiv> chunks i log \<noteq> [] \<and> snd (last (chunks i log)) = []"

text \<open>What a completion that waits to be reaped says.\<close>

definition reported :: "kevent list \<Rightarrow> in_flight_op \<Rightarrow> int \<Rightarrow> bool" where
  "reported log fl res \<longleftrightarrow>
     (case fl_buf fl of
        None \<Rightarrow> res \<le> 0 \<and> (res = 0 \<longrightarrow> KSynced (fl_reply fl) \<in> set log)
      | Some buf \<Rightarrow>
          if res < 0 then laid log fl (fl_done fl)
          else laid log fl (fl_done fl + nat res) \<and> (res = 0 \<longrightarrow> stalled (fl_reply fl) log))"

definition final :: "kevent list \<Rightarrow> ring_op \<Rightarrow> nat result \<Rightarrow> bool" where
  "final log op r \<longleftrightarrow>
     (case op_buf op of
        None \<Rightarrow> (\<forall>n. r = Inr n \<longrightarrow> KSynced (op_id op) \<in> set log)
      | Some buf \<Rightarrow>
          (\<exists>n\<le>length buf. lay (op_offset op) (chunks (op_id op) log) \<and> moved (op_id op) log = take n buf
             \<and> (\<forall>k. r = Inr k \<longrightarrow> k = n \<and> (n = length buf \<or> stalled (op_id op) log))))"

abbreviation alive :: "driver \<Rightarrow> bool" where
  "alive d \<equiv> owner d \<notin> {Exited, Stopped}"

text \<open>Every operation is queued, in the owner's hand, in flight or answered, once.\<close>

definition ids_ok :: "(nat \<times> in_flight_op) list \<Rightarrow> driver \<Rightarrow> bool" where
  "ids_ok h d \<longleftrightarrow>
     distinct (map op_id (submitted d)) \<and> (\<forall>op\<in>set (submitted d). op_fits op) \<and>
     mset (map op_id (submitted d)) =
       mset (map op_id (chan d) @ map (\<lambda>e. fl_reply (snd e)) (h @ pending d) @ map fst (answers d))"

definition flights_ok :: "nat \<Rightarrow> (nat \<times> in_flight_op) list \<Rightarrow> driver \<Rightarrow> bool" where
  "flights_ok cap h d \<longleftrightarrow>
     distinct (map fst (h @ pending d)) \<and> length (h @ pending d) \<le> cap \<and> next_id d = started d \<and>
     (\<forall>e\<in>set (h @ pending d). matches (submitted d) (snd e) \<and> fst e \<le> started d)"

definition outstanding :: "driver \<Rightarrow> nat list" where
  "outstanding d = map user_data (sq d @ in_kernel d) @ map fst (cq d)"

definition ring_ok :: "driver \<Rightarrow> bool" where
  "ring_ok d \<longleftrightarrow>
     mset (outstanding d) = mset (map fst (pending d)) \<and>
     (\<forall>e\<in>set (sq d @ in_kernel d). \<exists>fl. (user_data e, fl) \<in> set (pending d) \<and>
        sqe_for (user_data e) fl = Some e \<and> laid (klog d) fl (fl_done fl)) \<and>
     (\<forall>c\<in>set (cq d). \<exists>fl. (fst c, fl) \<in> set (pending d) \<and> reported (klog d) fl (snd c))"

definition gone_ok :: "driver \<Rightarrow> bool" where
  "gone_ok d \<longleftrightarrow>
     pending d = [] \<and> chan d = [] \<and> sq d = [] \<and> (\<forall>e\<in>set (in_kernel d). (sqe_op e, Abandoned) \<in> set (answers d))"

definition trace_ok :: "driver \<Rightarrow> bool" where
  "trace_ok d \<longleftrightarrow>
     (\<forall>op\<in>set (chan d). op \<in> set (submitted d) \<and> chunks (op_id op) (klog d) = []) \<and>
     (\<forall>x\<in>set (freed d). \<exists>a. (x, a) \<in> set (answers d) \<and> a \<noteq> Abandoned) \<and>
     (\<forall>op\<in>set (submitted d). \<forall>r. (op_id op, Finished r) \<in> set (answers d) \<longrightarrow> final (klog d) op r) \<and>
     (\<forall>i. i \<notin> op_id ` set (submitted d) \<longrightarrow> chunks i (klog d) = []) \<and>
     (closing d \<longrightarrow> chan d = [] \<and> \<not> chan_open d)"

definition core :: "nat \<Rightarrow> (nat \<times> in_flight_op) list \<Rightarrow> driver \<Rightarrow> bool" where
  "core cap h d \<longleftrightarrow>
     ids_ok h d \<and> flights_ok cap h d \<and> trace_ok d \<and> (if alive d then ring_ok d else gone_ok d)"

lemma core_distinct:
  assumes "core cap h d"
  shows "distinct (map op_id (chan d) @ map (\<lambda>e. fl_reply (snd e)) (h @ pending d) @ map fst (answers d))"
    and "distinct (map op_id (submitted d))"
  using assms mset_eq_imp_distinct_iff unfolding core_def ids_ok_def by blast+

lemma unique_op: "distinct (map op_id ops) \<Longrightarrow> a \<in> set ops \<Longrightarrow> b \<in> set ops \<Longrightarrow> op_id a = op_id b \<Longrightarrow> a = b"
  by (auto simp: distinct_map inj_on_def)

text \<open>Bookkeeping that leaves the tables alone.\<close>

lemma core_ring_submit:
  assumes "core cap h d" and "alive d"
  shows "core cap h (ring_submit k d)"
proof -
  have "set (drop k (sq d) @ in_kernel d @ take k (sq d)) = set (sq d @ in_kernel d)"
    by (metis Un_commute append_take_drop_id set_append sup_assoc)
  moreover have "mset (outstanding (ring_submit k d)) = mset (outstanding d)"
  proof -
    have "image_mset user_data (mset (sq d)) = image_mset user_data (mset (take k (sq d))) + image_mset user_data (mset (drop k (sq d)))"
      by (metis append_take_drop_id image_mset_union mset_append)
    then show ?thesis by (simp add: outstanding_def ring_submit_def ac_simps)
  qed
  ultimately have "ring_ok (ring_submit k d)"
    using assms unfolding core_def ring_ok_def by (simp add: ring_submit_def)
  then show ?thesis
    using assms by (simp add: core_def ring_submit_def ids_ok_def flights_ok_def trace_ok_def)
qed

lemma final_answer:
  assumes "matches (submitted d) fl" and "distinct (map op_id (submitted d))" and "op \<in> set (submitted d)" and "op_id op = fl_reply fl"
  shows "final log op r \<longleftrightarrow>
    (case fl_buf fl of
        None \<Rightarrow> (\<forall>n. r = Inr n \<longrightarrow> KSynced (fl_reply fl) \<in> set log)
      | Some buf \<Rightarrow>
          (\<exists>n. laid log fl n \<and> (\<forall>k. r = Inr k \<longrightarrow> k = n \<and> (n = length buf \<or> stalled (fl_reply fl) log))))"
proof -
  obtain op' where "op' \<in> set (submitted d)" "op_id op' = fl_reply fl" "op_buf op' = fl_buf fl" "op_offset op' = fl_offset fl"
    using assms(1) by (auto simp: matches_def)
  with unique_op [OF assms(2), of op op'] assms(3,4) have "op_buf op = fl_buf fl" "op_offset op = fl_offset fl" by auto
  with assms(4) show ?thesis by (auto simp: final_def laid_def split: option.splits)
qed

definition answer_ok :: "kevent list \<Rightarrow> in_flight_op \<Rightarrow> nat result \<Rightarrow> bool" where
  "answer_ok log fl r \<longleftrightarrow>
     (case fl_buf fl of
        None \<Rightarrow> (\<forall>n. r = Inr n \<longrightarrow> KSynced (fl_reply fl) \<in> set log)
      | Some buf \<Rightarrow>
          (\<exists>n. laid log fl n \<and> (\<forall>k. r = Inr k \<longrightarrow> k = n \<and> (n = length buf \<or> stalled (fl_reply fl) log))))"

lemma core_finish:
  assumes "core cap [(i, fl)] d" and "alive d" and "answer_ok (klog d) fl r"
  shows "core cap [] (finish fl r d)"
proof -
  have m: "matches (submitted d) fl" and dist: "distinct (map op_id (submitted d))"
    using assms(1) by (auto simp: core_def flights_ok_def ids_ok_def)
  have "final (klog d) op r" if "op \<in> set (submitted d)" "op_id op = fl_reply fl" for op
    using final_answer [OF m dist that, of "klog d" r] assms(3) unfolding answer_ok_def by blast
  then have "trace_ok (finish fl r d)"
    using assms(1) unfolding core_def trace_ok_def finish_def by (auto simp: Ball_def)
  moreover have "ids_ok [] (finish fl r d)" "flights_ok cap [] (finish fl r d)" "ring_ok (finish fl r d)"
    using assms(1,2) by (auto simp: core_def ids_ok_def flights_ok_def ring_ok_def outstanding_def finish_def)
  ultimately show ?thesis using assms(2) by (simp add: core_def finish_def)
qed

lemma sqe_for_ids: "sqe_for i fl = Some e \<Longrightarrow> user_data e = i \<and> sqe_op e = fl_reply fl"
  by (auto simp: sqe_for_def split: option.splits if_splits)

lemma core_push:
  assumes "core cap [(i, fl)] d" and "alive d" and "sqe_for i fl = Some e" and "laid (klog d) fl (fl_done fl)"
  shows "core cap [] (track i fl (d\<lparr>sq := sq d @ [e]\<rparr>))"
proof -
  have i: "i \<notin> fst ` set (pending d)" using assms(1) by (auto simp: core_def flights_ok_def)
  then have r: "remove_pending i (pending d) = pending d" by (auto simp: remove_pending_def filter_id_conv)
  have u: "user_data e = i" using sqe_for_ids [OF assms(3)] by simp
  have "ring_ok (track i fl (d\<lparr>sq := sq d @ [e]\<rparr>))"
    using assms u unfolding core_def ring_ok_def track_def by (auto simp: r outstanding_def; blast)
  moreover have "ids_ok [] (track i fl (d\<lparr>sq := sq d @ [e]\<rparr>))" "flights_ok cap [] (track i fl (d\<lparr>sq := sq d @ [e]\<rparr>))"
    "trace_ok (track i fl (d\<lparr>sq := sq d @ [e]\<rparr>))"
    using assms(1) by (simp_all add: core_def ids_ok_def flights_ok_def trace_ok_def track_def r)
  ultimately show ?thesis using assms(2) by (simp add: core_def track_def)
qed

lemma laid_answer: "laid log fl n \<Longrightarrow> answer_ok log fl (Inl e)"
  by (auto simp: answer_ok_def split: option.splits)

lemma core_submit_or_fail:
  assumes "core cap [(i, fl)] d" and "alive d" and "laid (klog d) fl (fl_done fl)"
  shows "core cap [] (submit_or_fail sq_cap k i fl d)"
proof (cases "sqe_for i fl")
  case None
  then show ?thesis
    using core_finish [OF assms(1,2) laid_answer [OF assms(3)]] by (simp add: submit_or_fail_def)
next
  case (Some e)
  let ?d = "if length (sq d) < sq_cap then d else ring_submit k d"
  have d: "core cap [(i, fl)] ?d" "alive ?d" "klog ?d = klog d"
    using assms(1,2) core_ring_submit [OF assms(1,2)] by (simp_all add: ring_submit_def)
  note l = assms(3) [folded d(3)]
  show ?thesis
    using core_push [OF d(1,2) Some l] core_finish [OF d(1,2) laid_answer [OF l]]
    unfolding submit_or_fail_def Some Let_def option.case by (cases "length (sq ?d) < sq_cap") simp_all
qed

text \<open>A new operation: nothing of it is written yet.\<close>

lemma core_take:
  assumes "core cap [] d" and "alive d" and "chan d = op # ops" and "length (pending d) < cap"
    and "Suc (started d) < 2 ^ 64"
  defines "i \<equiv> (next_id d + 1) mod 2 ^ 64"
  shows "core cap [(i, in_flight_of op)] (d\<lparr>chan := ops, next_id := i, started := Suc (started d)\<rparr>)"
    and "laid (klog d) (in_flight_of op) 0"
proof -
  have n: "next_id d = started d" using assms(1) by (simp add: core_def flights_ok_def)
  then have i: "i = Suc (started d)" unfolding i_def using assms(5) by simp
  have f: "fl_reply (in_flight_of op) = op_id op" "fl_buf (in_flight_of op) = op_buf op" "fl_offset (in_flight_of op) = op_offset op"
    by (cases op; simp add: in_flight_of_def)+
  have c: "op \<in> set (submitted d)" "chunks (op_id op) (klog d) = []"
    using assms(1,3) by (auto simp: core_def trace_ok_def)
  show "laid (klog d) (in_flight_of op) 0" using c(2) by (simp add: laid_def f split: option.splits)
  have m: "matches (submitted d) (in_flight_of op)" using c(1) f by (auto simp: matches_def)
  let ?d = "d\<lparr>chan := ops, next_id := i, started := Suc (started d)\<rparr>"
  have old: "\<forall>e\<in>set (pending d). matches (submitted d) (snd e) \<and> fst e \<le> started d" "distinct (map fst (pending d))"
    using assms(1) by (simp_all add: core_def flights_ok_def)
  then have "i \<notin> fst ` set (pending d)" using i by fastforce
  then have "flights_ok cap [(i, in_flight_of op)] ?d"
    using old m assms(4) i by (auto simp: flights_ok_def)
  moreover have "ids_ok [(i, in_flight_of op)] ?d" using assms(1,3) f(1) by (simp add: core_def ids_ok_def)
  moreover have "trace_ok ?d" using assms(1,3) by (simp add: core_def trace_ok_def)
  moreover have "ring_ok ?d" using assms(1,2) by (simp add: core_def ring_ok_def outstanding_def)
  ultimately show "core cap [(i, in_flight_of op)] ?d" using assms(2) by (simp add: core_def)
qed

lemma core_receive:
  assumes "core cap [] d" and "alive d" and "chan d \<noteq> []" and "length (pending d) < cap" and "Suc (started d) < 2 ^ 64"
  shows "core cap [] (receive sq_cap k d)"
proof -
  obtain op ops where c: "chan d = op # ops" using assms(3) by (cases "chan d") auto
  let ?i = "(next_id d + 1) mod 2 ^ 64" and ?fl = "in_flight_of op"
  let ?d = "d\<lparr>chan := ops, next_id := ?i, started := Suc (started d)\<rparr>"
  have t: "core cap [(?i, ?fl)] ?d" "laid (klog ?d) ?fl 0" "alive ?d"
    using core_take [OF assms(1,2) c assms(4,5)] assms(2) by simp_all
  have z: "fl_done ?fl = 0" by (cases op) (simp_all add: in_flight_of_def)
  show ?thesis
  proof (cases "fl_buf ?fl = Some []")
    case True
    then have "answer_ok (klog ?d) ?fl (Inr 0)" using t(2) by (auto simp: answer_ok_def)
    from core_finish [OF t(1,3) this] True show ?thesis by (simp add: receive_def c start_op_def Let_def)
  next
    case False
    from core_submit_or_fail [OF t(1,3)] t(2) z False show ?thesis by (simp add: receive_def c start_op_def Let_def)
  qed
qed

text \<open>Reaping a completion takes its operation into the hand.\<close>

lemma mset_remove_key:
  assumes "distinct (map fst ps)" and "(i, x) \<in> set ps"
  shows "mset ps = add_mset (i, x) (mset (filter (\<lambda>e. fst e \<noteq> i) ps))"
  using assms
proof (induction ps)
  case (Cons p ps)
  show ?case
  proof (cases "fst p = i")
    case True
    with Cons.prems have "p = (i, x)" "\<forall>e\<in>set ps. fst e \<noteq> i" by (auto simp: image_iff)
    then show ?thesis by (simp add: filter_id_conv [THEN iffD2])
  next
    case False
    with Cons show ?thesis by auto
  qed
qed simp

lemma core_reap:
  assumes "core cap [] d" and "alive d" and "cq d = (i, res) # cs" and "(i, fl) \<in> set (pending d)"
  shows "core cap [(i, fl)] (d\<lparr>cq := cs, pending := remove_pending i (pending d)\<rparr>)"
    and "reported (klog d) fl res"
proof -
  let ?d = "d\<lparr>cq := cs, pending := remove_pending i (pending d)\<rparr>"
  have dist: "distinct (map fst (pending d))" and rk: "ring_ok d" using assms(1,2) by (auto simp: core_def flights_ok_def)
  have uniq: "fl' = fl" if "(i, fl') \<in> set (pending d)" for fl'
    using eq_key_imp_eq_value [OF dist that assms(4)] .
  obtain fl' where "(i, fl') \<in> set (pending d)" "reported (klog d) fl' res" using rk assms(3) by (auto simp: ring_ok_def)
  with uniq show "reported (klog d) fl res" by blast
  note pm = mset_remove_key [OF dist assms(4)]
  have "mset (outstanding d) = add_mset i (mset (outstanding ?d))" by (simp add: outstanding_def assms(3))
  moreover have "mset (map fst (pending d)) = add_mset i (mset (map fst (remove_pending i (pending d))))"
    using arg_cong [OF pm, of "image_mset fst"] by (simp add: remove_pending_def)
  ultimately have out: "mset (outstanding ?d) = mset (map fst (pending ?d))"
    using rk by (simp add: ring_ok_def)
  then have ni: "i \<notin> set (outstanding ?d)" using mset_eq_setD by (fastforce simp: remove_pending_def)
  have "ring_ok ?d"
    unfolding ring_ok_def
  proof (intro conjI out ballI)
    fix e assume e: "e \<in> set (sq ?d @ in_kernel ?d)"
    with ni have "user_data e \<noteq> i" by (auto simp: outstanding_def)
    with rk e show "\<exists>fl. (user_data e, fl) \<in> set (pending ?d) \<and> sqe_for (user_data e) fl = Some e \<and> laid (klog ?d) fl (fl_done fl)"
      by (auto simp: ring_ok_def remove_pending_def)
  next
    fix c assume c: "c \<in> set (cq ?d)"
    with ni have "fst c \<noteq> i" by (auto simp: outstanding_def)
    with rk c assms(3) show "\<exists>fl. (fst c, fl) \<in> set (pending ?d) \<and> reported (klog ?d) fl (snd c)"
      by (auto simp: ring_ok_def remove_pending_def)
  qed
  moreover have "ids_ok [(i, fl)] ?d"
    using assms(1) arg_cong [OF pm, of "image_mset (\<lambda>e. fl_reply (snd e))"]
    by (simp add: core_def ids_ok_def remove_pending_def)
  moreover have "length (pending d) = Suc (length (remove_pending i (pending d)))"
    using arg_cong [OF pm, of size] by (simp add: remove_pending_def del: mset_filter)
  then have "flights_ok cap [(i, fl)] ?d"
    using assms(1,4) by (auto simp: core_def flights_ok_def remove_pending_def distinct_map_filter)
  moreover have "trace_ok ?d" using assms(1) by (simp add: core_def trace_ok_def)
  ultimately show "core cap [(i, fl)] ?d" using assms(2) by (simp add: core_def)
qed

lemma core_hand_done:
  assumes "core cap [(i, fl)] d"
  shows "core cap [(i, fl\<lparr>fl_done := n\<rparr>)] d"
  using assms by (simp add: core_def ids_ok_def flights_ok_def matches_def)

lemma laid_done [simp]: "laid log (fl\<lparr>fl_done := m\<rparr>) n = laid log fl n"
  by (simp add: laid_def split: option.splits)

lemma core_on_completion:
  assumes "core cap [(i, fl)] d" and "alive d" and "reported (klog d) fl res"
  shows "core cap [] (on_completion sq_cap k i fl res d)"
proof (cases "fl_buf fl")
  case None
  then have "answer_ok (klog d) fl (Inl e)" "0 \<le> res \<longrightarrow> answer_ok (klog d) fl (Inr 0)" for e
    using assms(3) by (auto simp: answer_ok_def reported_def)
  with core_finish [OF assms(1,2)] None show ?thesis by (auto simp: on_completion_def)
next
  case (Some buf)
  have fits: "length buf \<le> u64_max"
    using assms(1) Some by (auto simp: core_def flights_ok_def matches_def ids_ok_def op_fits_def)
  show ?thesis
  proof (cases "res < 0")
    case True
    then have "laid (klog d) fl (fl_done fl)" using assms(3) Some by (simp add: reported_def)
    with True core_finish [OF assms(1,2) laid_answer] show ?thesis by (simp add: on_completion_def)
  next
    case False
    then have l: "laid (klog d) fl (fl_done fl + nat res)" and z: "res = 0 \<longrightarrow> stalled (fl_reply fl) (klog d)"
      using assms(3) Some by (simp_all add: reported_def)
    have b: "fl_done fl + nat res \<le> length buf" using l Some by (simp add: laid_def)
    let ?fl = "fl\<lparr>fl_done := fl_done fl + nat res\<rparr>"
    have m: "min (saturating_add (fl_done fl) (nat res)) (length buf) = fl_done fl + nat res"
      using b fits by (auto simp: saturating_add_def)
    show ?thesis
    proof (cases "res = 0")
      case True
      then have "answer_ok (klog d) fl (Inr (fl_done fl))" using l z Some by (auto simp: answer_ok_def)
      from core_finish [OF assms(1,2) this] True Some show ?thesis by (simp add: on_completion_def)
    next
      case nz: False
      note h = core_hand_done [OF assms(1), of "fl_done fl + nat res"]
      show ?thesis
      proof (cases "fl_done fl + nat res < length buf")
        case True
        with core_submit_or_fail [OF h assms(2)] l Some False nz m show ?thesis by (simp add: on_completion_def Let_def)
      next
        case full: False
        then have "answer_ok (klog d) ?fl (Inr (length buf))" using l b Some by (auto simp: answer_ok_def)
        from core_finish [OF h assms(2) this] full Some False nz m b show ?thesis by (simp add: on_completion_def Let_def)
      qed
    qed
  qed
qed

lemma core_drain_one:
  assumes "core cap [] d" and "alive d" and "cq d \<noteq> []"
  shows "core cap [] (drain_one sq_cap k d)"
proof -
  obtain i res cs where c: "cq d = (i, res) # cs" using assms(3) by (cases "cq d") auto
  have dist: "distinct (map fst (pending d))" using assms(1) by (simp add: core_def flights_ok_def)
  obtain fl where fl: "(i, fl) \<in> set (pending d)" using assms(1,2) c by (auto simp: core_def ring_ok_def)
  then have "map_of (pending d) i = Some fl" using dist by simp
  with core_on_completion [OF core_reap(1) [OF assms(1,2) c fl]] core_reap(2) [OF assms(1,2) c fl] assms(2)
  show ?thesis by (simp add: drain_one_def c)
qed

text \<open>The kernel completes an entry: only the trace of its own operation grows.\<close>

lemma other_trace:
  assumes "sqe_op e \<noteq> j"
  shows "chunks j (klog d @ kernel_effect d e res) = chunks j (klog d)"
    and "KSynced j \<in> set (klog d @ kernel_effect d e res) \<longleftrightarrow> KSynced j \<in> set (klog d)"
  using assms chunks_other [of j "sqe_op e" e d res]
  by (auto simp: kernel_effect_def split: sqe_work.splits if_splits)

lemma trace_only:
  assumes "chunks (fl_reply fl) log' = chunks (fl_reply fl) log"
    and "KSynced (fl_reply fl) \<in> set log' \<longleftrightarrow> KSynced (fl_reply fl) \<in> set log"
  shows "laid log' fl n = laid log fl n" "reported log' fl res = reported log fl res"
  using assms by (auto simp: laid_def reported_def split: option.splits)

lemma final_only:
  assumes "chunks (op_id op) log' = chunks (op_id op) log" and "KSynced (op_id op) \<in> set log' \<longleftrightarrow> KSynced (op_id op) \<in> set log"
  shows "final log' op r = final log op r"
  using assms by (auto simp: final_def split: option.splits)

lemma memory_of: "distinct (map op_id (submitted d)) \<Longrightarrow> matches (submitted d) fl \<Longrightarrow> fl_buf fl = Some b \<Longrightarrow> memory d (fl_reply fl) = b"
proof -
  assume dist: "distinct (map op_id (submitted d))" and m: "matches (submitted d) fl" and b: "fl_buf fl = Some b"
  then obtain op where op: "op \<in> set (submitted d)" "op_id op = fl_reply fl" "op_buf op = Some b" by (auto simp: matches_def)
  have "List.find (\<lambda>op. op_id op = fl_reply fl) (submitted d) \<noteq> None" using op by (auto simp: find_None_iff)
  then obtain op' where op': "List.find (\<lambda>op. op_id op = fl_reply fl) (submitted d) = Some op'" by blast
  then have "op' \<in> set (submitted d)" "op_id op' = fl_reply fl" by (auto simp: find_Some_iff)
  with unique_op [OF dist] op have "op' = op" by metis
  with op op' show ?thesis by (simp add: memory_def)
qed

text \<open>The completed entry's own operation.\<close>

lemma completed_reported:
  assumes "sqe_for i fl = Some e" and "laid (klog d) fl (fl_done fl)" and "kernel_result_ok e res"
    and "\<And>b. fl_buf fl = Some b \<Longrightarrow> memory d (fl_reply fl) = b"
  shows "reported (klog d @ kernel_effect d e res) fl res"
proof (cases "fl_buf fl")
  case None
  with assms(1) have "e = \<lparr>user_data = i, sqe_fd = fl_fd fl, sqe_op = fl_reply fl, sqe_work = Datasync\<rparr>"
    by (simp add: sqe_for_def)
  with assms(3) None show ?thesis by (auto simp: reported_def kernel_effect_def kernel_result_ok_def)
next
  case (Some b)
  then obtain off where off: "off = fl_offset fl + fl_done fl" "fl_done fl \<le> length b"
    "e = \<lparr>user_data = i, sqe_fd = fl_fd fl, sqe_op = fl_reply fl,
           sqe_work = WriteChunk (fl_done fl) (min (length b - fl_done fl) MAX_SQE_LEN) off\<rparr>"
    using assms(1) by (auto simp: sqe_for_def split: option.splits if_splits)
  have l: "lay (fl_offset fl) (chunks (fl_reply fl) (klog d))" "moved (fl_reply fl) (klog d) = take (fl_done fl) b"
    using assms(2) Some by (simp_all add: laid_def)
  show ?thesis
  proof (cases "res < 0")
    case True
    with Some l off show ?thesis by (simp add: reported_def laid_def kernel_effect_def)
  next
    case False
    let ?bs = "take (nat res) (drop (fl_done fl) b)"
    have ke: "kernel_effect d e res = [KWrote (fl_reply fl) off ?bs]"
      using False off assms(4) [OF Some] by (simp add: kernel_effect_def)
    have "nat res \<le> length b - fl_done fl" using assms(3) off False by (simp add: kernel_result_ok_def)
    moreover have "length (moved (fl_reply fl) (klog d)) = fl_done fl" using l(2) off(2) by simp
    ultimately show ?thesis
      using l off(1,2) False Some by (auto simp: ke reported_def laid_def lay_append take_add)
  qed
qed

lemma answers_submitted:
  assumes "core cap [] d"
  shows "fst ` set (answers d) \<subseteq> op_id ` set (submitted d)"
proof -
  have "mset (map op_id (submitted d)) = mset (map op_id (chan d) @ map (\<lambda>e. fl_reply (snd e)) (pending d) @ map fst (answers d))"
    using assms by (simp add: core_def ids_ok_def)
  from mset_eq_setD [OF this] show ?thesis by auto
qed

lemma core_complete:
  assumes "core cap [] d" and "in_kernel d = es @ e # es'" and "kernel_result_ok e res" and "alive d"
  shows "core cap [] (d\<lparr>in_kernel := es @ es', klog := klog d @ kernel_effect d e res, cq := cq d @ [(user_data e, res)]\<rparr>)"
proof -
  let ?log = "klog d @ kernel_effect d e res"
  let ?d = "d\<lparr>in_kernel := es @ es', klog := ?log, cq := cq d @ [(user_data e, res)]\<rparr>"
  have rk: "ring_ok d" and fo: "flights_ok cap [] d" and tr: "trace_ok d" and io: "ids_ok [] d"
    using assms(1,4) by (auto simp: core_def)
  note dist = core_distinct [OF assms(1)]
  obtain fl where fl: "(user_data e, fl) \<in> set (pending d)" "sqe_for (user_data e) fl = Some e" "laid (klog d) fl (fl_done fl)"
    using rk assms(2) by (auto simp: ring_ok_def)
  have op: "sqe_op e = fl_reply fl" using sqe_for_ids [OF fl(2)] by simp
  have "matches (submitted d) fl" using fo fl(1) by (auto simp: flights_ok_def)
  then have own: "reported ?log fl res"
    using completed_reported [OF fl(2,3) assms(3)] memory_of [OF dist(2)] by blast
  have sep: "fl_reply fl' \<noteq> sqe_op e" if "(i, fl') \<in> set (pending d)" "i \<noteq> user_data e" for i fl'
    using dist(1) that fl(1) unfolding op by (auto simp: distinct_map inj_on_def) (metis fst_conv snd_conv)
  have out: "mset (outstanding ?d) = mset (outstanding d)" by (simp add: outstanding_def assms(2))
  have "mset (outstanding d) = mset (map fst (pending d))" using rk unfolding ring_ok_def by blast
  from mset_eq_imp_distinct_iff [OF this] have "distinct (outstanding d)" using fo by (simp add: flights_ok_def)
  then have nm: "user_data e \<notin> user_data ` set (sq d @ es @ es')" "user_data e \<notin> fst ` set (cq d)"
    by (simp_all add: outstanding_def assms(2) image_Un)
  have ne: "user_data e' \<noteq> user_data e" if "e' \<in> set (sq d @ es @ es')" for e'
    using nm(1) that by (metis image_eqI)
  have nc: "fst c \<noteq> user_data e" if "c \<in> set (cq d)" for c
    using nm(2) that by (metis image_eqI)
  have "ring_ok ?d"
    unfolding ring_ok_def
  proof (intro conjI ballI)
    show "mset (outstanding ?d) = mset (map fst (pending ?d))" using out rk by (simp add: ring_ok_def)
  next
    fix e' assume e': "e' \<in> set (sq ?d @ in_kernel ?d)"
    then obtain f where f: "(user_data e', f) \<in> set (pending d)" "sqe_for (user_data e') f = Some e'" "laid (klog d) f (fl_done f)"
      using rk assms(2) by (auto simp: ring_ok_def)
    have "sqe_op e \<noteq> fl_reply f" using sep [OF f(1)] ne [of e'] e' by auto
    then have "laid ?log f (fl_done f)" using f(3) by (simp add: trace_only(1) [OF other_trace])
    with f show "\<exists>fl. (user_data e', fl) \<in> set (pending ?d) \<and> sqe_for (user_data e') fl = Some e' \<and> laid (klog ?d) fl (fl_done fl)"
      by auto
  next
    fix c assume c: "c \<in> set (cq ?d)"
    show "\<exists>fl. (fst c, fl) \<in> set (pending ?d) \<and> reported (klog ?d) fl (snd c)"
    proof (cases "c \<in> set (cq d)")
      case True
      then obtain f where f: "(fst c, f) \<in> set (pending d)" "reported (klog d) f (snd c)" using rk by (auto simp: ring_ok_def)
      have "sqe_op e \<noteq> fl_reply f" using sep [OF f(1)] nc [OF True] by auto
      then have "reported ?log f (snd c)" using f(2) by (simp add: trace_only(2) [OF other_trace])
      with f show ?thesis by auto
    next
      case False
      with c own fl(1) show ?thesis by auto
    qed
  qed
  moreover have "trace_ok ?d"
  proof -
    have a: "fl_reply fl \<notin> op_id ` set (chan d)" "fl_reply fl \<notin> fst ` set (answers d)"
      using dist(1) fl(1) by (auto simp: image_iff) force+
    then have "chunks (op_id x) ?log = chunks (op_id x) (klog d)" if "x \<in> set (chan d)" for x
      using that op by (intro other_trace(1)) auto
    moreover have "final ?log x r = final (klog d) x r" if "(op_id x, Finished r) \<in> set (answers d)" for x r
      using that a(2) op by (intro final_only other_trace) (auto simp: image_iff)
    moreover have "fl_reply fl \<in> op_id ` set (submitted d)"
      using \<open>matches (submitted d) fl\<close> unfolding matches_def by (metis image_eqI)
    then have "chunks j ?log = chunks j (klog d)" if "j \<notin> op_id ` set (submitted d)" for j
      using that op by (intro other_trace(1)) auto
    ultimately show ?thesis using tr by (simp add: trace_ok_def)
  qed
  moreover have "ids_ok [] ?d" "flights_ok cap [] ?d" using io fo by (simp_all add: ids_ok_def flights_ok_def)
  ultimately show ?thesis using assms(4) by (simp add: core_def)
qed

lemma core_complete_gone:
  assumes "core cap [] d" and "in_kernel d = es @ e # es'" and "\<not> alive d"
  shows "core cap [] (d\<lparr>in_kernel := es @ es', klog := klog d @ kernel_effect d e res\<rparr>)"
proof -
  let ?log = "klog d @ kernel_effect d e res"
  let ?d = "d\<lparr>in_kernel := es @ es', klog := ?log\<rparr>"
  have g: "gone_ok d" and tr: "trace_ok d" using assms(1,3) by (auto simp: core_def)
  have ab: "(sqe_op e, Abandoned) \<in> set (answers d)" using g assms(2) by (auto simp: gone_ok_def)
  have "distinct (map fst (answers d))" using core_distinct(1) [OF assms(1)] by simp
  then have "op_id x \<noteq> sqe_op e" if "(op_id x, Finished r) \<in> set (answers d)" for x r
    using eq_key_imp_eq_value [OF _ that] ab by fastforce
  then have "final ?log x r = final (klog d) x r" if "(op_id x, Finished r) \<in> set (answers d)" for x r
    using that by (intro final_only other_trace) metis+
  moreover have "sqe_op e \<in> op_id ` set (submitted d)" using ab answers_submitted [OF assms(1)] by force
  then have "chunks j ?log = chunks j (klog d)" if "j \<notin> op_id ` set (submitted d)" for j
    using that by (intro other_trace(1)) auto
  ultimately have "trace_ok ?d" using tr g by (simp add: trace_ok_def gone_ok_def)
  moreover have "gone_ok ?d" using g assms(2) by (auto simp: gone_ok_def)
  ultimately show ?thesis using assms(1,3) by (simp add: core_def ids_ok_def flights_ok_def)
qed

lemma core_stop:
  assumes "core cap [] d" and "alive d"
  shows "core cap [] (owner_stop d)"
proof -
  let ?d = "owner_stop d"
  have rk: "ring_ok d" and tr: "trace_ok d" using assms by (auto simp: core_def)
  have "(sqe_op e, Abandoned) \<in> set (answers ?d)" if "e \<in> set (in_kernel d)" for e
  proof -
    obtain fl where "(user_data e, fl) \<in> set (pending d)" "sqe_for (user_data e) fl = Some e" using rk \<open>e \<in> set (in_kernel d)\<close> by (auto simp: ring_ok_def)
    moreover from this have "sqe_op e = fl_reply fl" using sqe_for_ids by blast
    ultimately show ?thesis by (force simp: owner_stop_def)
  qed
  then have "gone_ok ?d" by (auto simp: gone_ok_def owner_stop_def)
  moreover have "trace_ok ?d"
  proof -
    have "\<forall>x\<in>set (freed ?d). \<exists>a. (x, a) \<in> set (answers ?d) \<and> a \<noteq> Abandoned"
      using tr by (fastforce simp: trace_ok_def owner_stop_def)
    moreover have "(j, Finished r) \<in> set (answers ?d) \<longleftrightarrow> (j, Finished r) \<in> set (answers d)" for j r
      by (auto simp: owner_stop_def)
    ultimately show ?thesis using tr by (simp add: trace_ok_def owner_stop_def)
  qed
  moreover have "ids_ok [] ?d"
    using assms(1) by (simp add: core_def ids_ok_def owner_stop_def image_mset.compositionality comp_def ac_simps)
  moreover have "flights_ok cap [] ?d" using assms(1) by (simp add: core_def flights_ok_def owner_stop_def)
  ultimately show ?thesis by (simp add: core_def owner_stop_def)
qed

section \<open>Every step keeps the invariant\<close>

lemma matches_more: "matches ops fl \<Longrightarrow> matches (ops @ [op]) fl"
  by (auto simp: matches_def)

lemma trace_submitted:
  assumes "trace_ok d" and "op_id op \<notin> fst ` set (answers d)"
  shows "\<forall>p\<in>set (submitted d @ [op]). \<forall>r. (op_id p, Finished r) \<in> set (answers d) \<longrightarrow> final (klog d) p r"
proof (intro ballI allI impI)
  fix p r assume p: "p \<in> set (submitted d @ [op])" "(op_id p, Finished r) \<in> set (answers d)"
  then have "op_id p \<in> fst ` set (answers d)" by force
  with p assms show "final (klog d) p r" by (auto simp: trace_ok_def)
qed

lemma core_refused:
  assumes "core cap [] d" and "op_id op \<notin> op_id ` set (submitted d)" and "op_fits op" and "x = DriverDead \<or> x = RefusedPoisoned"
  shows "core cap [] (d\<lparr>submitted := submitted d @ [op], freed := freed d @ [op_id op], answers := answers d @ [(op_id op, x)]\<rparr>)"
proof -
  let ?d = "d\<lparr>submitted := submitted d @ [op], freed := freed d @ [op_id op], answers := answers d @ [(op_id op, x)]\<rparr>"
  have tr: "trace_ok d" using assms(1) by (simp add: core_def)
  have "op_id op \<notin> fst ` set (answers d)" using answers_submitted [OF assms(1)] assms(2) by blast
  note fin = trace_submitted [OF tr this]
  have "(j, Finished r) \<in> set (answers ?d) \<longleftrightarrow> (j, Finished r) \<in> set (answers d)" for j r using assms(4) by auto
  moreover have "\<forall>y\<in>set (freed ?d). \<exists>a. (y, a) \<in> set (answers ?d) \<and> a \<noteq> Abandoned"
  proof
    fix y assume "y \<in> set (freed ?d)"
    then consider "y \<in> set (freed d)" | "y = op_id op" by auto
    then show "\<exists>a. (y, a) \<in> set (answers ?d) \<and> a \<noteq> Abandoned" using tr assms(4) by cases (auto simp: trace_ok_def)
  qed
  ultimately have "trace_ok ?d" using tr fin by (simp add: trace_ok_def)
  moreover have "ids_ok [] ?d" using assms(1-3) by (auto simp: core_def ids_ok_def)
  moreover have "flights_ok cap [] ?d" using assms(1) by (simp add: core_def flights_ok_def matches_more)
  moreover have "alive d \<Longrightarrow> ring_ok ?d" "\<not> alive d \<Longrightarrow> gone_ok ?d"
    using assms(1) by (simp_all add: core_def ring_ok_def gone_ok_def outstanding_def)
  ultimately show ?thesis by (simp add: core_def)
qed

lemma core_send:
  assumes "core cap [] d" and "alive d" and "op_id op \<notin> op_id ` set (submitted d)" and "op_fits op" and "chan_open d"
  shows "core cap [] (d\<lparr>submitted := submitted d @ [op], chan := chan d @ [op]\<rparr>)"
proof -
  let ?d = "d\<lparr>submitted := submitted d @ [op], chan := chan d @ [op]\<rparr>"
  have tr: "trace_ok d" using assms(1) by (simp add: core_def)
  have "op_id op \<notin> fst ` set (answers d)" using answers_submitted [OF assms(1)] assms(3) by blast
  from trace_submitted [OF tr this] have "trace_ok ?d" using tr assms(3,5) by (simp add: trace_ok_def)
  moreover have "ids_ok [] ?d" using assms(1,3,4) by (auto simp: core_def ids_ok_def)
  moreover have "flights_ok cap [] ?d" using assms(1) by (simp add: core_def flights_ok_def matches_more)
  moreover have "ring_ok ?d" using assms(1,2) by (simp add: core_def ring_ok_def outstanding_def)
  ultimately show ?thesis using assms(2) by (simp add: core_def)
qed

lemma core_owner:
  assumes "core cap h d" and "alive d" and "pc \<noteq> Exited" and "pc \<noteq> Stopped"
  shows "core cap h (d\<lparr>owner := pc\<rparr>)"
  using assms by (simp add: core_def ids_ok_def flights_ok_def trace_ok_def ring_ok_def outstanding_def)

lemma core_flags:
  assumes "core cap h d"
  shows "core cap h (d\<lparr>poisoned := b\<rparr>)" "core cap h (d\<lparr>chan_open := False\<rparr>)"
  using assms
  by (simp_all add: core_def ids_ok_def flights_ok_def trace_ok_def ring_ok_def gone_ok_def outstanding_def
      cong del: if_weak_cong)

lemma submit_or_fail_keeps:
  "owner (submit_or_fail sq_cap k i fl d) = owner d" "started (submit_or_fail sq_cap k i fl d) = started d"
  by (simp_all add: submit_or_fail_def Let_def finish_def track_def ring_submit_def split: option.splits)

lemma receive_keeps:
  "owner (receive sq_cap k d) = owner d" "chan d \<noteq> [] \<Longrightarrow> started (receive sq_cap k d) = Suc (started d)"
  by (auto simp: receive_def start_op_def Let_def submit_or_fail_keeps finish_def split: list.splits)

lemma drain_one_keeps: "started (drain_one sq_cap k d) = started d"
  by (simp add: drain_one_def on_completion_def Let_def submit_or_fail_keeps finish_def split: list.splits option.splits)

lemma core_submit_op:
  assumes "chan_open d" and "op_id op \<notin> op_id ` set (submitted d)" and "op_fits op" and "core cap [] d"
  shows "core cap [] (submit_op op d)"
proof -
  have "core cap [] (d\<lparr>submitted := submitted d @ [op], freed := freed d @ [op_id op], answers := answers d @ [(op_id op, x)]\<rparr>)"
    if "x \<in> {RefusedPoisoned, DriverDead}" for x using assms that by (intro core_refused) auto
  from this [of RefusedPoisoned] core_flags(1) [OF this [of DriverDead], of True] core_send [OF assms(4) _ assms(2,3,1)]
  show ?thesis unfolding submit_op_def by auto
qed

lemma step_started: "driver_step sq_cap cap d d' \<Longrightarrow> started d \<le> started d'"
  by (induction rule: driver_step.induct)
    (simp_all add: receive_keeps drain_one_keeps ring_submit_def owner_stop_def submit_op_def observe_reply_def)

lemma core_exit:
  assumes "core cap [] d" and "alive d" and "closing d" and "pending d = []"
  shows "core cap [] (d\<lparr>owner := Exited\<rparr>)"
proof -
  have "outstanding d = []" using assms(1,2,4) by (simp add: core_def ring_ok_def)
  with assms show ?thesis
    by (simp add: core_def ids_ok_def flights_ok_def trace_ok_def gone_ok_def outstanding_def)
qed

lemma core_closing:
  assumes "core cap [] d" and "alive d" and "chan d = []" and "\<not> chan_open d"
  shows "core cap [] (d\<lparr>closing := True, owner := Submitting\<rparr>)"
  using assms by (simp add: core_def ids_ok_def flights_ok_def trace_ok_def ring_ok_def outstanding_def)

lemma step_core:
  assumes "driver_step sq_cap cap d d'" and "started d' < 2 ^ 64" and "core cap [] d"
  shows "core cap [] d'"
  using assms
proof (induction rule: driver_step.induct)
  case (send d op)
  then show ?case by (intro core_submit_op)
next
  case (observe i x d)
  then show ?case using core_flags(1) [of cap "[]" d True] by (simp add: observe_reply_def)
next
  case (recv d k)
  then have "core cap [] (receive sq_cap k d)" by (intro core_receive) (simp_all add: receive_keeps)
  then show ?case using recv(1) by (intro core_owner) (simp_all add: receive_keeps)
next
  case (try_recv d k)
  then show ?case by (intro core_receive) (simp_all add: receive_keeps)
next
  case (hand_over d k)
  then have "core cap [] (ring_submit k d)" by (intro core_ring_submit) simp_all
  then show ?case using hand_over(1) by (intro core_owner) (simp_all add: ring_submit_def)
next
  case (complete d es e es' res)
  then show ?case
    using core_complete [of cap d es e es' res] core_complete_gone [of cap d es e es' res]
    by (cases "alive d") auto
qed (auto intro: core_flags core_owner core_exit core_closing core_drain_one core_stop)

definition reachable_driver :: "nat \<Rightarrow> nat \<Rightarrow> driver \<Rightarrow> bool" where
  "reachable_driver sq_cap cap d \<longleftrightarrow> (driver_step sq_cap cap)\<^sup>*\<^sup>* driver_new d"

lemma core_new: "core cap [] driver_new"
  by (simp add: core_def driver_new_def ids_ok_def flights_ok_def trace_ok_def ring_ok_def outstanding_def)

lemma reachable_core:
  assumes "reachable_driver sq_cap cap d" and "started d < 2 ^ 64"
  shows "core cap [] d"
proof -
  from assms(1) have "(driver_step sq_cap cap)\<^sup>*\<^sup>* driver_new d" by (simp add: reachable_driver_def)
  then have "started d < 2 ^ 64 \<longrightarrow> core cap [] d"
  proof (induction rule: rtranclp_induct)
    case (step y z)
    with step_started [OF step(2)] step_core [OF step(2)] show ?case by linarith
  qed (simp add: core_new)
  with assms(2) show ?thesis by simp
qed

section \<open>A run\<close>

text \<open>One write of two bytes that the kernel transfers in two halves.\<close>

definition demo_write :: ring_op where
  "demo_write = RWrite 7 3 [1, 2] 100"

definition demo_flight :: "nat \<Rightarrow> in_flight_op" where
  "demo_flight n = \<lparr>fl_reply = 7, fl_fd = 3, fl_buf = Some [1, 2], fl_done = n, fl_offset = 100\<rparr>"

definition demo_entry :: "nat \<Rightarrow> sqe" where
  "demo_entry n = \<lparr>user_data = 1, sqe_fd = 3, sqe_op = 7, sqe_work = WriteChunk n (2 - n) (100 + n)\<rparr>"

definition demo_driver :: "owner_pc \<Rightarrow> nat \<Rightarrow> sqe list \<Rightarrow> sqe list \<Rightarrow> (nat \<times> int) list \<Rightarrow> kevent list \<Rightarrow> driver" where
  "demo_driver pc n q k c log =
     \<lparr>submitted = [demo_write], chan = [], chan_open = True, poisoned = False, sq = q, in_kernel = k, cq = c,
      pending = [(1, demo_flight n)], next_id = 1, started = 1, closing = False, owner = pc, answers = [], freed = [],
      klog = log\<rparr>"

lemma demo_sqe: "n < 2 \<Longrightarrow> sqe_for 1 (demo_flight n) = Some (demo_entry n)"
  by (simp add: sqe_for_def demo_flight_def demo_entry_def checked_add_def u64_max_def MAX_SQE_LEN_def)

lemma demo_simps:
  "in_flight_of demo_write = demo_flight 0" "demo_flight 0\<lparr>fl_done := 1\<rparr> = demo_flight 1"
  "fl_buf (demo_flight n) = Some [1, 2]" "fl_done (demo_flight n) = n" "fl_reply (demo_flight n) = 7"
  by (simp_all add: in_flight_of_def demo_write_def demo_flight_def)

lemma two_steps: "R a b \<Longrightarrow> R b c \<Longrightarrow> R\<^sup>*\<^sup>* a c"
  by (erule converse_rtranclp_into_rtranclp) (erule r_into_rtranclp)

lemma demo_first: "reachable_driver 8 16 (demo_driver Batching 0 [demo_entry 0] [] [] [])"
proof -
  let ?d1 = "driver_new\<lparr>submitted := [demo_write], chan := [demo_write]\<rparr>"
  let ?d2 = "?d1\<lparr>owner := Selecting\<rparr>"
  have 1: "driver_step 8 16 driver_new ?d1"
    using driver_step.send [of driver_new demo_write 8 16] by (simp add: submit_op_def driver_new_def op_fits_def demo_write_def u64_max_def)
  have 2: "driver_step 8 16 ?d1 ?d2" by (rule driver_step.start) (simp add: driver_new_def)
  have 3: "driver_step 8 16 ?d2 (receive 8 0 ?d2\<lparr>owner := Batching\<rparr>)"
    by (rule driver_step.recv) (simp_all add: driver_new_def)
  have "start_op 8 0 1 demo_write d = track 1 (demo_flight 0) (d\<lparr>sq := sq d @ [demo_entry 0]\<rparr>)" if "length (sq d) < 8" for d
    using that demo_sqe [of 0] by (simp add: start_op_def submit_or_fail_def demo_simps del: One_nat_def)
  then have "receive 8 0 ?d2\<lparr>owner := Batching\<rparr> = demo_driver Batching 0 [demo_entry 0] [] [] []"
    by (simp add: receive_def track_def remove_pending_def driver_new_def demo_driver_def)
  with 3 have "driver_step 8 16 ?d2 (demo_driver Batching 0 [demo_entry 0] [] [] [])" by simp
  from rtranclp.rtrancl_into_rtrancl [OF two_steps [of "driver_step 8 16", OF 1 2] this] show ?thesis
    unfolding reachable_driver_def .
qed

text \<open>Handing the entry over, the kernel's transfer of one byte, and the wake-up.\<close>

lemma demo_hand_over:
  assumes "pc = Batching \<or> pc = Draining"
  shows "(driver_step 8 16)\<^sup>*\<^sup>* (demo_driver pc n [demo_entry n] [] [] log) (demo_driver Selecting n [] [demo_entry n] [] log)"
proof (rule two_steps)
  show "driver_step 8 16 (demo_driver pc n [demo_entry n] [] [] log) (demo_driver Submitting n [demo_entry n] [] [] log)"
    using driver_step.batch_end [of "demo_driver pc n [demo_entry n] [] [] log" 16 8]
      driver_step.reap_end [of "demo_driver pc n [demo_entry n] [] [] log" 8 16] assms by (auto simp: demo_driver_def)
  show "driver_step 8 16 (demo_driver Submitting n [demo_entry n] [] [] log) (demo_driver Selecting n [] [demo_entry n] [] log)"
    using driver_step.hand_over [of "demo_driver Submitting n [demo_entry n] [] [] log" 8 16 1]
    by (simp add: demo_driver_def ring_submit_def)
qed

lemma demo_transfer:
  assumes "n < 2" and "log' = log @ [KWrote 7 (100 + n) [[1, 2] ! n]]"
  shows "(driver_step 8 16)\<^sup>*\<^sup>* (demo_driver Selecting n [] [demo_entry n] [] log) (demo_driver Draining n [] [] [(1, 1)] log')"
proof (rule two_steps)
  have "take 1 (drop n [1, 2]) = [[1, 2] ! n :: u8]" using assms(1) by (cases "n = 0") (auto simp: less_2_cases_iff)
  then show "driver_step 8 16 (demo_driver Selecting n [] [demo_entry n] [] log) (demo_driver Selecting n [] [] [(1, 1)] log')"
    using driver_step.complete [of "demo_driver Selecting n [] [demo_entry n] [] log" "[]" "demo_entry n" "[]" 1 8 16] assms
    by (simp add: demo_driver_def kernel_effect_def kernel_result_ok_def demo_entry_def memory_def demo_write_def)
  show "driver_step 8 16 (demo_driver Selecting n [] [] [(1, 1)] log') (demo_driver Draining n [] [] [(1, 1)] log')"
    using driver_step.readable [of "demo_driver Selecting n [] [] [(1, 1)] log'" 8 16] by (simp add: demo_driver_def)
qed

lemma demo_in_kernel: "reachable_driver 8 16 (demo_driver Selecting 0 [] [demo_entry 0] [] [])"
  unfolding reachable_driver_def
  by (rule rtranclp_trans [OF demo_first [unfolded reachable_driver_def] demo_hand_over]) simp

lemma demo_half: "reachable_driver 8 16 (demo_driver Draining 0 [] [] [(1, 1)] [KWrote 7 100 [1]])"
  unfolding reachable_driver_def
  by (rule rtranclp_trans [OF demo_in_kernel [unfolded reachable_driver_def] demo_transfer]) simp_all

lemma demo_resubmitted: "reachable_driver 8 16 (demo_driver Draining 1 [demo_entry 1] [] [] [KWrote 7 100 [1]])"
proof -
  let ?d = "demo_driver Draining 0 [] [] [(1, 1)] [KWrote 7 100 [1]]"
  have "submit_or_fail 8 0 1 (demo_flight 1) d = track 1 (demo_flight 1) (d\<lparr>sq := sq d @ [demo_entry 1]\<rparr>)"
    if "length (sq d) < 8" for d
    using that demo_sqe [of 1] by (simp add: submit_or_fail_def del: One_nat_def)
  then have "on_completion 8 0 1 (demo_flight 0) 1 d = track 1 (demo_flight 1) (d\<lparr>sq := sq d @ [demo_entry 1]\<rparr>)"
    if "length (sq d) < 8" for d
    using that demo_simps(2) by (simp add: on_completion_def demo_simps(3-5) saturating_add_def u64_max_def)
  then have "drain_one 8 0 ?d = demo_driver Draining 1 [demo_entry 1] [] [] [KWrote 7 100 [1]]"
    by (simp add: drain_one_def demo_driver_def remove_pending_def track_def)
  moreover have "driver_step 8 16 ?d (drain_one 8 0 ?d)" by (rule driver_step.reap) (simp_all add: demo_driver_def)
  ultimately have "driver_step 8 16 ?d (demo_driver Draining 1 [demo_entry 1] [] [] [KWrote 7 100 [1]])" by simp
  with demo_half show ?thesis unfolding reachable_driver_def by (rule rtranclp.rtrancl_into_rtrancl)
qed

lemma demo_whole: "reachable_driver 8 16 (demo_driver Draining 1 [] [] [(1, 1)] [KWrote 7 100 [1], KWrote 7 101 [2]])"
  unfolding reachable_driver_def
  by (rule rtranclp_trans [OF demo_resubmitted [unfolded reachable_driver_def]], rule rtranclp_trans [OF demo_hand_over demo_transfer])
    simp_all

lemma demo_answered:
  "\<exists>d. reachable_driver 8 16 d \<and> started d = 1 \<and> submitted d = [demo_write] \<and> answers d = [(7, Finished (Inr 2))] \<and>
     klog d = [KWrote 7 100 [1], KWrote 7 101 [2]]"
proof (intro exI conjI)
  let ?d = "demo_driver Draining 1 [] [] [(1, 1)] [KWrote 7 100 [1], KWrote 7 101 [2]]"
  have "driver_step 8 16 ?d (drain_one 8 0 ?d)" by (rule driver_step.reap) (simp_all add: demo_driver_def)
  with demo_whole show "reachable_driver 8 16 (drain_one 8 0 ?d)"
    unfolding reachable_driver_def by (rule rtranclp.rtrancl_into_rtrancl)
  show "answers (drain_one 8 0 ?d) = [(7, Finished (Inr 2))]" "started (drain_one 8 0 ?d) = 1"
    "submitted (drain_one 8 0 ?d) = [demo_write]" "klog (drain_one 8 0 ?d) = [KWrote 7 100 [1], KWrote 7 101 [2]]"
    by (simp_all add: drain_one_def demo_driver_def on_completion_def saturating_add_def u64_max_def demo_flight_def finish_def)
qed

section \<open>What callers can rely on\<close>

lemma freed_answered: "core cap h d \<Longrightarrow> x \<in> set (freed d) \<Longrightarrow> \<exists>a. (x, a) \<in> set (answers d) \<and> a \<noteq> Abandoned"
  unfolding core_def trace_ok_def by blast

lemma entry_not_freed:
  assumes "core cap [] d" and "e \<in> set (sq d @ in_kernel d)"
  shows "sqe_op e \<notin> set (freed d)"
proof (cases "alive d")
  case True
  then obtain fl where fl: "(user_data e, fl) \<in> set (pending d)" "sqe_for (user_data e) fl = Some e"
    using assms by (auto simp: core_def ring_ok_def)
  have "sqe_op e = fl_reply fl" by (rule conjunct2 [OF sqe_for_ids [OF fl(2)]])
  with fl(1)
  have "sqe_op e \<in> (\<lambda>x. fl_reply (snd x)) ` set (pending d)" by (intro image_eqI [of _ _ "(user_data e, fl)"]) simp_all
  then have "sqe_op e \<notin> fst ` set (answers d)" using core_distinct(1) [OF assms(1)] by auto
  then show ?thesis using freed_answered [OF assms(1)] by (metis fst_conv image_eqI)
next
  case False
  then have "(sqe_op e, Abandoned) \<in> set (answers d)" using assms by (auto simp: core_def gone_ok_def)
  moreover have "distinct (map fst (answers d))" using core_distinct(1) [OF assms(1)] by simp
  ultimately show ?thesis using freed_answered [OF assms(1)] eq_key_imp_eq_value by metis
qed

text \<open>
  C16: The kernel never touches freed memory or a closed file: in every state the system can reach, also
  after the owner task has stopped, every entry that is queued for the kernel or in its hands belongs
  to an operation whose buffer and file the driver has not let go. And the completion queue cannot
  overflow: what is queued, in the kernel's hands or waiting to be reaped never exceeds its capacity.
\<close>

theorem driver_memory_is_safe:
  assumes "reachable_driver sq_cap cq_cap d" and "started d < 2 ^ 64"
  shows "(\<forall>e\<in>set (sq d @ in_kernel d). sqe_op e \<notin> set (freed d)) \<and>
    (owner d \<notin> {Exited, Stopped} \<longrightarrow> length (sq d) + length (in_kernel d) + length (cq d) \<le> cq_cap)"
proof -
  have c: "core cq_cap [] d" using reachable_core [OF assms] .
  have "length (sq d) + length (in_kernel d) + length (cq d) \<le> cq_cap" if "alive d"
  proof -
    have "mset (outstanding d) = mset (map fst (pending d))" using c that unfolding core_def ring_ok_def by metis
    from mset_eq_length [OF this] c show ?thesis by (simp add: outstanding_def core_def flights_ok_def)
  qed
  with entry_not_freed [OF c] show ?thesis by blast
qed

theorem driver_memory_is_safe_witness:
  "\<exists>d. reachable_driver 8 16 d \<and> in_kernel d \<noteq> [] \<and> (\<forall>e\<in>set (sq d @ in_kernel d). sqe_op e \<notin> set (freed d))"
proof (intro exI conjI)
  let ?d = "demo_driver Selecting 0 [] [demo_entry 0] [] []"
  show "reachable_driver 8 16 ?d" by (rule demo_in_kernel)
  show "in_kernel ?d \<noteq> []" by (simp add: demo_driver_def)
  have "started ?d < 2 ^ 64" by (simp add: demo_driver_def)
  from driver_memory_is_safe [OF demo_in_kernel this] show "\<forall>e\<in>set (sq ?d @ in_kernel ?d). sqe_op e \<notin> set (freed ?d)" by blast
qed

text \<open>
  C17: An answer tells the truth: when \<open>submit\<close> returns a count for a write, the kernel's transfers for it lie
  one after the other from its offset on and are together exactly that many first bytes of its
  buffer, however often it was split and resubmitted; the count is the whole length unless the
  kernel reported no progress. When it returns for a data sync, the kernel has completed it.
\<close>

theorem driver_answers_are_exact:
  assumes "reachable_driver sq_cap cq_cap d" and "started d < 2 ^ 64" and "op \<in> set (submitted d)"
    and "(op_id op, x) \<in> set (answers d)" and "submit_result x = Inr n"
  shows "case op of
      RWrite i fd buf off \<Rightarrow>
        n \<le> length buf \<and> lay off (chunks i (klog d)) \<and> concat (map snd (chunks i (klog d))) = take n buf \<and>
        (n = length buf \<or> chunks i (klog d) \<noteq> [] \<and> snd (last (chunks i (klog d))) = [])
    | RFdatasync i fd \<Rightarrow> KSynced i \<in> set (klog d)"
proof -
  have "core cq_cap [] d" using reachable_core [OF assms(1,2)] .
  moreover have "x = Finished (Inr n)" using assms(5) by (cases x) simp_all
  ultimately have "final (klog d) op (Inr n)" using assms(3,4) by (auto simp: core_def trace_ok_def)
  then show ?thesis by (cases op) (auto simp: final_def)
qed

theorem driver_answers_are_exact_witness:
  "\<exists>d. reachable_driver 8 16 d \<and> (7, Finished (Inr 2)) \<in> set (answers d) \<and>
     concat (map snd (chunks 7 (klog d))) = take 2 [1, 2]"
proof -
  obtain d where d: "reachable_driver 8 16 d" "started d = 1" "submitted d = [demo_write]" "answers d = [(7, Finished (Inr 2))]"
    using demo_answered by blast
  from driver_answers_are_exact [OF d(1), of demo_write "Finished (Inr 2)" 2] d show ?thesis by (auto simp: demo_write_def)
qed

text \<open>
  C18: No operation is lost or answered twice: each submitted operation is in exactly one of three places,
  the channel, the table of operations in flight, or the answers; each operation in flight has
  exactly one entry in the submission queue, the kernel or the completion queue; and when the owner
  task is gone every operation has been answered.
\<close>

theorem driver_loses_no_operation:
  assumes "reachable_driver sq_cap cq_cap d" and "started d < 2 ^ 64"
  shows "distinct (map op_id (submitted d)) \<and>
    mset (map op_id (submitted d)) =
      mset (map op_id (chan d) @ map (\<lambda>e. fl_reply (snd e)) (pending d) @ map fst (answers d)) \<and>
    (if owner d \<in> {Exited, Stopped} then mset (map fst (answers d)) = mset (map op_id (submitted d))
     else distinct (map fst (pending d)) \<and>
       mset (map user_data (sq d) @ map user_data (in_kernel d) @ map fst (cq d)) = mset (map fst (pending d)))"
  using reachable_core [OF assms]
  by (auto simp: core_def ids_ok_def flights_ok_def ring_ok_def gone_ok_def outstanding_def)

theorem driver_loses_no_operation_witness:
  "\<exists>d. reachable_driver 8 16 d \<and> mset (map user_data (in_kernel d)) = mset (map fst (pending d)) \<and> pending d \<noteq> []"
proof (intro exI conjI)
  let ?d = "demo_driver Selecting 0 [] [demo_entry 0] [] []"
  show "reachable_driver 8 16 ?d" by (rule demo_in_kernel)
  have "started ?d < 2 ^ 64" "owner ?d \<notin> {Exited, Stopped}" "sq ?d = []" "cq ?d = []" by (simp_all add: demo_driver_def)
  with driver_loses_no_operation [OF demo_in_kernel this(1)]
  show "mset (map user_data (in_kernel ?d)) = mset (map fst (pending ?d))" by simp
  show "pending ?d \<noteq> []" by (simp add: demo_driver_def)
qed

end
