(* ===== verification/Fsys_AsyncJournal.thy ===== *)
theory Fsys_AsyncJournal
  imports Fsys_Buffered
begin

text \<open>
  The asynchronous journal calls over the native ring (\<open>src/async_io/journal.rs\<close>), beside the
  blocking ones: \<open>append_native\<close> with its \<open>AppendInFlight\<close> hook, \<open>sync_through_native\<close> with its
  \<open>LeaderLease\<close>, futures that are dropped at any \<open>await\<close>, and a driver that stops with work in
  flight. The ring is known by what the completion driver keeps: the transfers of a write are the
  bytes of its buffer in order from its offset on, and a count it reports is what was transferred.

  The tasks and threads share the group commit and the gate. The steps of a task that elects
  itself, drains, syncs and is cancelled come first, over any backend of the locale
  \<open>frontier_source\<close>; then the backend in which an append may also be owned by the driver. A slot of
  the state is one call, so that a call whose future is gone goes on in its slot.
\<close>

section \<open>The leader role of a task\<close>

datatype leader_attempt = AttemptCovered | AttemptBusy | AttemptLeader

text \<open>The state lock may be contended; then the attempt leaves everything alone.\<close>

definition try_lead_group_commit :: "bool \<Rightarrow> nat \<Rightarrow> poison \<Rightarrow> group_commit \<Rightarrow> (leader_attempt \<times> group_commit) result" where
  "try_lead_group_commit contended lsn p g =
     (if contended then Inr (AttemptBusy, g)
      else if lsn \<le> gc_committed g then Inr (AttemptCovered, g)
      else case poison_check p of
          Inl e \<Rightarrow> Inl e
        | Inr _ \<Rightarrow>
            if gc_in_flight g then Inr (AttemptBusy, g)
            else Inr (AttemptLeader, g\<lparr>gc_in_flight := True\<rparr>))"

record leader_lease =
  ll_frontier :: nat
  ll_synced :: bool

definition lease_end :: "leader_lease \<Rightarrow> group_commit \<Rightarrow> group_commit" where
  "lease_end l g =
     (if ll_synced l \<and> gc_committed g < ll_frontier l
      then g\<lparr>gc_committed := ll_frontier l, gc_synced := ll_frontier l\<rparr> else g)\<lparr>gc_in_flight := False\<rparr>"

definition copy_io_error :: "io_error \<Rightarrow> error" where
  "copy_io_error e = Io (IoError (io_kind e) (io_text e))"

text \<open>The hook of the fsync: the lease after the result, and the error the journal is poisoned with.\<close>

definition lease_finished :: "io_error + nat \<Rightarrow> leader_lease \<Rightarrow> leader_lease \<times> error option" where
  "lease_finished r l =
     (case r of Inr _ \<Rightarrow> (l\<lparr>ll_synced := True\<rparr>, None) | Inl e \<Rightarrow> (l, Some (copy_io_error e)))"

definition fsync_abandoned :: error where
  "fsync_abandoned = Io (IoError OtherKind ''the io_uring driver stopped with a journal fsync in flight'')"

definition attempt_pc :: "nat \<Rightarrow> leader_attempt \<Rightarrow> sync_pc" where
  "attempt_pc lsn a =
     (case a of AttemptCovered \<Rightarrow> SyncDone lsn (Inr ()) | AttemptBusy \<Rightarrow> SyncEnter lsn | AttemptLeader \<Rightarrow> LeaderFlush lsn)"

text \<open>
  \<open>sync_through_native\<close> after its fast path. \<open>task_unsubmitted\<close>: the ring refuses the fsync or drops it
  from the channel, so the lease ends as it was. \<open>task_give_up\<close> and \<open>task_cancelled\<close>: the future is
  dropped while it waits for another leader or for the drain; once the fsync is submitted the lease
  belongs to the driver.
\<close>

inductive task_step ::
    "('b \<Rightarrow> poison) \<Rightarrow> ('b \<Rightarrow> bytes) \<Rightarrow> (bytes \<Rightarrow> error \<Rightarrow> 'b \<Rightarrow> 'b \<Rightarrow> bool) \<Rightarrow> 'b sync_state \<Rightarrow> 'b sync_state \<Rightarrow> bool"
  for pois content lose where
  task_refused: "t < length (spcs st) \<Longrightarrow> spcs st ! t = SyncLock lsn \<Longrightarrow>
    try_lead_group_commit contended lsn (pois (backend st)) (gcs st) = Inl e \<Longrightarrow>
    task_step pois content lose st (set_pc t (SyncDone lsn (Inl e)) st)"
| task_attempt: "t < length (spcs st) \<Longrightarrow> spcs st ! t = SyncLock lsn \<Longrightarrow>
    try_lead_group_commit contended lsn (pois (backend st)) (gcs st) = Inr (a, g') \<Longrightarrow>
    task_step pois content lose st (set_pc t (attempt_pc lsn a) (st\<lparr>gcs := g'\<rparr>))"
| task_fsync_ok: "t < length (spcs st) \<Longrightarrow> spcs st ! t = LeaderSync lsn f \<Longrightarrow>
    lease_finished r \<lparr>ll_frontier = f, ll_synced = False\<rparr> = (l, None) \<Longrightarrow>
    task_step pois content lose st
      (set_pc t (LeaderDrop lsn (Inr (ll_frontier l))) (st\<lparr>stable := content (backend st)\<rparr>))"
| task_fsync_failed: "t < length (spcs st) \<Longrightarrow> spcs st ! t = LeaderSync lsn f \<Longrightarrow>
    lease_finished r \<lparr>ll_frontier = f, ll_synced = False\<rparr> = (l, Some e) \<Longrightarrow> lose (stable st) e (backend st) b' \<Longrightarrow>
    task_step pois content lose st (set_pc t (LeaderDrop lsn (Inl e)) (st\<lparr>backend := b'\<rparr>))"
| task_abandoned: "t < length (spcs st) \<Longrightarrow> spcs st ! t = LeaderSync lsn f \<Longrightarrow>
    lose (stable st) fsync_abandoned (backend st) b' \<Longrightarrow>
    task_step pois content lose st (set_pc t (LeaderDrop lsn (Inl fsync_abandoned)) (st\<lparr>backend := b'\<rparr>))"
| task_unsubmitted: "t < length (spcs st) \<Longrightarrow> spcs st ! t = LeaderSync lsn f \<Longrightarrow>
    task_step pois content lose st (set_pc t (LeaderDrop lsn (Inl e)) st)"
| task_end: "t < length (spcs st) \<Longrightarrow> spcs st ! t = LeaderDrop lsn r \<Longrightarrow>
    l = \<lparr>ll_frontier = (case r of Inr f \<Rightarrow> f | Inl _ \<Rightarrow> 0), ll_synced = (case r of Inr _ \<Rightarrow> True | Inl _ \<Rightarrow> False)\<rparr> \<Longrightarrow>
    task_step pois content lose st
      (st\<lparr>gcs := lease_end l (gcs st), spcs := map wake ((spcs st)[t := SyncDone lsn (sync_outcome r)])\<rparr>)"
| task_give_up: "t < length (spcs st) \<Longrightarrow> spcs st ! t = SyncEnter lsn \<Longrightarrow>
    task_step pois content lose st (set_pc t SyncIdle st)"
| task_cancelled: "t < length (spcs st) \<Longrightarrow> spcs st ! t = LeaderFlush lsn \<Longrightarrow>
    task_step pois content lose st
      (st\<lparr>gcs := lease_end \<lparr>ll_frontier = 0, ll_synced = False\<rparr> (gcs st), spcs := map wake ((spcs st)[t := SyncIdle])\<rparr>)"

lemma lease_end_drop:
  "lease_end \<lparr>ll_frontier = f, ll_synced = s\<rparr> g = leader_drop (if s then Some f else None) g"
  by (simp add: lease_end_def leader_drop_def)

lemma lease_finished_cases:
  "lease_finished r l = (l', None) \<Longrightarrow> l' = l\<lparr>ll_synced := True\<rparr>"
  by (auto simp: lease_finished_def split: sum.splits)

text \<open>An attempt is an election that never parks.\<close>

lemma try_lead_elect:
  "try_lead_group_commit c lsn p g = Inl e \<Longrightarrow> elect lsn p g = Refused e"
  "try_lead_group_commit c lsn p g = Inr (AttemptCovered, g') \<Longrightarrow> elect lsn p g = Covered \<and> g' = g"
  "try_lead_group_commit c lsn p g = Inr (AttemptBusy, g') \<Longrightarrow> g' = g"
  "try_lead_group_commit c lsn p g = Inr (AttemptLeader, g') \<Longrightarrow> elect lsn p g = Lead \<and> g' = g\<lparr>gc_in_flight := True\<rparr>"
  by (auto simp: try_lead_group_commit_def elect_def split: if_splits sum.splits)

context frontier_source
begin

abbreviation task :: "'b sync_state \<Rightarrow> 'b sync_state \<Rightarrow> bool" where
  "task \<equiv> task_step pois content lose"

text \<open>A leader that goes away without a result, in whatever state its drain is.\<close>

lemma gc_inv_released:
  assumes "gc_inv st" and "t < length (spcs st)" and "is_leader (spcs st ! t)"
  shows "gc_inv (st\<lparr>gcs := leader_drop None (gcs st), spcs := map wake ((spcs st)[t := SyncIdle])\<rparr>)"
proof -
  note f = gc_inv_facts [OF assms(1)]
  have "pc_ok (backend st) (stable st) (gc_committed (gcs st)) (goals st ! u) u (wake ((spcs st)[t := SyncIdle] ! u)) \<and>
      goal_ok (backend st) (goals st ! u) (wake ((spcs st)[t := SyncIdle] ! u))" if "u < length (spcs st)" for u
    using that assms(1,2) pc_ok_wake by (cases "u = t") (auto simp: gc_inv_def goal_ok_def)
  moreover have "one_leader (leader_drop None (gcs st)) (map wake ((spcs st)[t := SyncIdle]))"
    by (rule one_leader_dropped [OF f(2) assms(2,3)]) simp_all
  ultimately show ?thesis using assms(1) by (simp add: gc_inv_def)
qed

lemma gc_inv_slot:
  assumes "gc_inv st" and "t < length (spcs st)" and "is_leader x = is_leader (spcs st ! t)" and "\<not> is_parked x"
    and "pc_ok (backend st) (stable st) (gc_committed (gcs st)) (goals st ! t) t x"
    and "goal_ok (backend st) (goals st ! t) x"
  shows "gc_inv (set_pc t x st)"
  using assms gc_inv_facts(2) [OF assms(1)]
  by (intro gc_inv_move [OF assms(1,2), where x = x and g = 0]) (auto simp: set_pc_def intro!: one_leader_move)

text \<open>Most steps of a task are one or two steps of a thread.\<close>

lemma gc_inv_task:
  assumes "task st st'" and "gc_inv st"
  shows "gc_inv st'"
  using assms(1)
proof (cases rule: task_step.cases)
  case (task_refused t lsn c e)
  have "step st st'" unfolding task_refused(1)
    by (rule sync_refused) (use task_refused(2,3) try_lead_elect(1) [OF task_refused(4)] in simp_all)
  then show ?thesis using assms(2) by (rule gc_inv_step)
next
  case (task_attempt t lsn c a g')
  note pc = gc_inv_pc [OF assms(2) task_attempt(2,3)]
  show ?thesis
  proof (cases a)
    case AttemptCovered
    with try_lead_elect(2) task_attempt have e: "elect lsn (pois (backend st)) (gcs st) = Covered" "g' = gcs st" by auto
    have "step st (set_pc t (SyncDone lsn (Inr ())) st)" by (rule sync_covered) (use task_attempt(2,3) e(1) in simp_all)
    from gc_inv_step [OF this assms(2)] show ?thesis using task_attempt(1) e(2) AttemptCovered by (simp add: attempt_pc_def)
  next
    case AttemptBusy
    then have "g' = gcs st" using task_attempt(4) try_lead_elect(3) by blast
    then have "st' = set_pc t (SyncEnter lsn) st" using task_attempt(1) AttemptBusy by (simp add: attempt_pc_def)
    with gc_inv_slot [OF assms(2) task_attempt(2), of "SyncEnter lsn"] pc task_attempt(3) show ?thesis by (simp add: goal_ok_def)
  next
    case AttemptLeader
    with try_lead_elect(4) task_attempt have e: "elect lsn (pois (backend st)) (gcs st) = Lead"
      and g: "g' = (gcs st)\<lparr>gc_in_flight := True\<rparr>" by auto
    let ?st = "set_pc t (LeaderWait lsn) (st\<lparr>gcs := g'\<rparr>)"
    have 1: "step st ?st" unfolding g by (rule sync_lead) (use task_attempt(2,3) e in simp_all)
    have 2: "step ?st (set_pc t (LeaderFlush lsn) ?st)"
      by (rule sync_window) (use task_attempt(2) in \<open>simp_all add: set_pc_def\<close>)
    have "set_pc t (LeaderFlush lsn) ?st = st'"
      using task_attempt(1) AttemptLeader by (simp add: attempt_pc_def set_pc_def)
    with gc_inv_step [OF 2 gc_inv_step [OF 1 assms(2)]] show ?thesis by simp
  qed
next
  case (task_fsync_ok t lsn f r l)
  have "step st st'" unfolding task_fsync_ok(1) lease_finished_cases [OF task_fsync_ok(4)]
    using sync_ok [OF task_fsync_ok(2,3)] by simp
  then show ?thesis using assms(2) by (rule gc_inv_step)
next
  case (task_fsync_failed t lsn f r l e b')
  have "step st st'" unfolding task_fsync_failed(1) by (rule sync_failed) (use task_fsync_failed(2-5) in simp_all)
  then show ?thesis using assms(2) by (rule gc_inv_step)
next
  case (task_abandoned t lsn f b')
  have "step st st'" unfolding task_abandoned(1) by (rule sync_failed) (use task_abandoned(2-4) in simp_all)
  then show ?thesis using assms(2) by (rule gc_inv_step)
next
  case (task_unsubmitted t lsn f e)
  with gc_inv_slot [OF assms(2) task_unsubmitted(2)] gc_inv_pc [OF assms(2) task_unsubmitted(2,3)]
  show ?thesis by (simp add: goal_ok_def)
next
  case (task_end t lsn r l)
  have "lease_end l (gcs st) = leader_drop (frontier_of r) (gcs st)"
    unfolding task_end(4) by (cases r) (simp_all add: lease_end_drop frontier_of_def)
  with gc_inv_drop [OF assms(2) task_end(2,3)] task_end(1) show ?thesis by simp
next
  case (task_give_up t lsn)
  with gc_inv_slot [OF assms(2) task_give_up(2), of SyncIdle] show ?thesis by (simp add: goal_ok_def)
next
  case (task_cancelled t lsn)
  with gc_inv_released [OF assms(2) task_cancelled(2)] show ?thesis by (simp add: lease_end_drop)
qed

lemma task_length: "task st st' \<Longrightarrow> length (spcs st') = length (spcs st)"
  by (erule task_step.cases) (auto simp: set_pc_def)

lemma task_backend: "task st st' \<Longrightarrow> backend st' = backend st \<or> (\<exists>s e. lose s e (backend st) (backend st'))"
  by (erule task_step.cases) (auto simp: set_pc_def)

end

section \<open>Appends that the driver owns\<close>

text \<open>\<open>ap_moved\<close> and \<open>ap_finished\<close> say what the ring has done for the write so far.\<close>

record append_in_flight =
  ap_ticket :: "nat option"
  ap_frame_bytes :: nat
  ap_written :: bool
  ap_moved :: nat
  ap_finished :: bool

definition short_append :: error where
  "short_append = Io (IoError OtherKind ''native io_uring write returned short count on journal append'')"

definition unfinished_append :: error where
  "unfinished_append = Io (IoError OtherKind ''async journal append did not finish its write'')"

definition append_finished :: "io_error + nat \<Rightarrow> append_in_flight \<Rightarrow> poison \<Rightarrow> append_in_flight \<times> poison" where
  "append_finished r h p =
     (case r of
        Inr n \<Rightarrow> if n = ap_frame_bytes h then (h\<lparr>ap_written := True\<rparr>, p) else (h, poison_set short_append p)
      | Inl e \<Rightarrow> (h, poison_set (copy_io_error e) p))"

definition append_end :: "append_in_flight \<Rightarrow> poison \<Rightarrow> poison" where
  "append_end h p = (if ap_written h then p else poison_set unfinished_append p)"

text \<open>
  The journal with the appends in flight, one per slot at most, and the writes of a stopped driver
  that the kernel may still carry out: their offset and what is left of them.
\<close>

record async_journal =
  jb :: buffered
  aops :: "append_in_flight option list"
  astray :: "(nat \<times> bytes) list"

text \<open>
  \<open>append_native\<close>: poison check and encoding, the gate without blocking, the reservation together with
  the hand-over to the driver (no \<open>await\<close> lies between them), a transfer, the final result, the drop
  of the hook (also of a write that was never submitted), and the driver that stops. The gate
  registration is then returned as by a blocking append. \<open>native_stray\<close> is a transfer for a write
  whose driver is gone.
\<close>

inductive append_native :: "crc_crate \<Rightarrow> nat \<Rightarrow> async_journal \<Rightarrow> async_journal \<Rightarrow> bool" for C t where
  native_begin: "t < length (bpcs b) \<Longrightarrow> b = jb j \<Longrightarrow> bpcs b ! t = Idle \<Longrightarrow> bwork b ! t = NoWork \<Longrightarrow>
    poison_check (bpoison b) = Inr () \<Longrightarrow> encode_frame_owned C record = Inr bs \<Longrightarrow>
    append_native C t j (j\<lparr>jb := b\<lparr>bwork := (bwork b)[t := Sending bs]\<rparr>\<rparr>)"
| native_enter: "t < length (bpcs b) \<Longrightarrow> b = jb j \<Longrightarrow> aops j ! t = None \<Longrightarrow> bwork b ! t = Sending bs \<Longrightarrow>
    try_enter (bgate b, bpcs b ! t) (g', x) \<Longrightarrow>
    append_native C t j (j\<lparr>jb := b\<lparr>bgate := g', bpcs := (bpcs b)[t := x]\<rparr>\<rparr>)"
| native_submit: "t < length (bpcs b) \<Longrightarrow> b = jb j \<Longrightarrow> aops j ! t = None \<Longrightarrow> bwork b ! t = Sending bs \<Longrightarrow>
    bpcs b ! t = Ticket p \<Longrightarrow>
    append_native C t j
      (j\<lparr>jb := b\<lparr>bgate := (bgate b)\<lparr>next_lsn := next_lsn (bgate b) + length bs\<rparr>,
           bpcs := (bpcs b)[t := Reserved p (next_lsn (bgate b)) (length bs)], blog := blog b @ bs\<rparr>,
         aops := (aops j)[t := Some \<lparr>ap_ticket = Some p, ap_frame_bytes = length bs, ap_written = False,
           ap_moved = 0, ap_finished = False\<rparr>]\<rparr>)"
| native_transfer: "t < length (bpcs b) \<Longrightarrow> b = jb j \<Longrightarrow> aops j ! t = Some h \<Longrightarrow> \<not> ap_finished h \<Longrightarrow>
    bwork b ! t = Sending bs \<Longrightarrow> bpcs b ! t = Reserved p l n \<Longrightarrow> ap_moved h + k \<le> length bs \<Longrightarrow>
    append_native C t j
      (j\<lparr>jb := b\<lparr>bdisk := (bdisk b)\<lparr>contents := put_at (l + ap_moved h) (take k (drop (ap_moved h) bs)) (contents (bdisk b))\<rparr>\<rparr>,
         aops := (aops j)[t := Some (h\<lparr>ap_moved := ap_moved h + k\<rparr>)]\<rparr>)"
| native_finished: "t < length (bpcs b) \<Longrightarrow> b = jb j \<Longrightarrow> aops j ! t = Some h \<Longrightarrow> \<not> ap_finished h \<Longrightarrow>
    \<forall>n. r = Inr n \<longrightarrow> n = ap_moved h \<Longrightarrow> append_finished r h (bpoison b) = (h', p') \<Longrightarrow>
    append_native C t j (j\<lparr>jb := b\<lparr>bpoison := p'\<rparr>, aops := (aops j)[t := Some (h'\<lparr>ap_finished := True\<rparr>)]\<rparr>)"
| native_dropped: "t < length (bpcs b) \<Longrightarrow> b = jb j \<Longrightarrow> aops j ! t = Some h \<Longrightarrow> ap_finished h \<or> ap_moved h = 0 \<Longrightarrow>
    ap_ticket h = Some p \<Longrightarrow>
    append_native C t j (j\<lparr>jb := b\<lparr>bpoison := append_end h (bpoison b), bpcs := (bpcs b)[t := Written p]\<rparr>,
      aops := (aops j)[t := None]\<rparr>)"
| native_abandoned: "t < length (bpcs b) \<Longrightarrow> b = jb j \<Longrightarrow> aops j ! t = Some h \<Longrightarrow> \<not> ap_finished h \<Longrightarrow>
    ap_ticket h = Some p \<Longrightarrow> bwork b ! t = Sending bs \<Longrightarrow> bpcs b ! t = Reserved q l n \<Longrightarrow>
    append_native C t j (j\<lparr>jb := b\<lparr>bpoison := append_end h (bpoison b), bpcs := (bpcs b)[t := Written p]\<rparr>,
      aops := (aops j)[t := None], astray := astray j @ [(l + ap_moved h, drop (ap_moved h) bs)]\<rparr>)"
| native_stray: "t < length (bpcs b) \<Longrightarrow> b = jb j \<Longrightarrow> s < length (astray j) \<Longrightarrow> astray j ! s = (off, bs) \<Longrightarrow> k \<le> length bs \<Longrightarrow>
    append_native C t j
      (j\<lparr>jb := b\<lparr>bdisk := (bdisk b)\<lparr>contents := put_at off (take k bs) (contents (bdisk b))\<rparr>\<rparr>,
         astray := (astray j)[s := (off + k, drop k bs)]\<rparr>)"

text \<open>The lock-free check of the gate that a task makes before it drains on the blocking pool.\<close>

inductive quiet_act :: "nat \<Rightarrow> buffered \<Rightarrow> buffered \<Rightarrow> bool" for t where
  quiet_run: "t < length (bpcs b) \<Longrightarrow> bwork b ! t = NoWork \<Longrightarrow> try_quiescent (bgate b, bpcs b ! t) (g', x) \<Longrightarrow>
    \<forall>f. bpcs b ! t \<noteq> Quiescent f \<Longrightarrow> quiet_act t b (b\<lparr>bgate := g', bpcs := (bpcs b)[t := x]\<rparr>)"

definition join_error_to_io :: "string \<Rightarrow> error" where
  "join_error_to_io msg = Io (IoError OtherKind (''spawn_blocking task failed: '' @ msg))"

text \<open>
  What \<open>drain_native_writes\<close> returns: the frontier of a successful check, that of the drain on the
  blocking pool, or the error of a pool that is shut down.
\<close>

definition drain_native_return :: "nat \<Rightarrow> buffered \<Rightarrow> nat result \<Rightarrow> buffered \<Rightarrow> bool" where
  "drain_native_return t b r b' \<longleftrightarrow>
     drain_return t b r b' \<or>
     (t < length (bpcs b) \<and> bwork b ! t = NoWork \<and>
      ((\<exists>f. bpcs b ! t = Quiescent f \<and> r = Inr f \<and> b' = b\<lparr>bpcs := (bpcs b)[t := Idle]\<rparr>) \<or>
       (\<exists>msg. bpcs b ! t = Idle \<and> r = Inl (join_error_to_io msg) \<and> b' = b)))"

text \<open>
  The actions of the backend. A blocking append works in a slot without an append in flight; a drain
  whose task was cancelled runs to its end in a slot that syncs no more.
\<close>

definition on_buffered :: "(buffered \<Rightarrow> buffered \<Rightarrow> bool) \<Rightarrow> async_journal \<Rightarrow> async_journal \<Rightarrow> bool" where
  "on_buffered R j j' \<longleftrightarrow> (\<exists>b. R (jb j) b \<and> j' = j\<lparr>jb := b\<rparr>)"

definition async_append :: "crc_crate \<Rightarrow> nat \<Rightarrow> async_journal \<Rightarrow> async_journal \<Rightarrow> bool" where
  "async_append C t j j' \<longleftrightarrow>
     append_native C t j j' \<or>
     aops j ! t = None \<and> on_buffered (append_act C t) j j' \<or>
     on_buffered (drain_act t) j j' \<or> (\<exists>r. on_buffered (\<lambda>b. drain_return t b r) j j')"

definition async_drain :: "nat \<Rightarrow> async_journal \<Rightarrow> async_journal \<Rightarrow> bool" where
  "async_drain t j j' \<longleftrightarrow> on_buffered (drain_act t) j j' \<or> on_buffered (quiet_act t) j j'"

definition async_drained :: "nat \<Rightarrow> async_journal \<Rightarrow> nat result \<Rightarrow> async_journal \<Rightarrow> bool" where
  "async_drained t j r j' \<longleftrightarrow> on_buffered (\<lambda>b. drain_native_return t b r) j j'"

definition async_lose :: "bytes \<Rightarrow> error \<Rightarrow> async_journal \<Rightarrow> async_journal \<Rightarrow> bool" where
  "async_lose s e j j' \<longleftrightarrow> on_buffered (buffered_lose s e) j j'"

section \<open>The invariant\<close>

text \<open>Bytes that stand in the log at an offset.\<close>

definition placed :: "buffered \<Rightarrow> nat \<times> bytes \<Rightarrow> bool" where
  "placed b x \<longleftrightarrow> fst x + length (snd x) \<le> length (blog b) \<and> take (length (snd x)) (drop (fst x) (blog b)) = snd x"

definition op_ok :: "buffered \<Rightarrow> nat \<Rightarrow> append_in_flight \<Rightarrow> bool" where
  "op_ok b t h \<longleftrightarrow>
     (\<exists>p l bs. ap_ticket h = Some p \<and> bpcs b ! t = Reserved p l (length bs) \<and> bwork b ! t = Sending bs \<and>
        ap_frame_bytes h = length bs \<and> ap_moved h \<le> length bs \<and> (ap_written h \<longrightarrow> ap_moved h = length bs) \<and>
        (is_set (bpoison b) \<or> (\<forall>i. l \<le> i \<and> i < l + ap_moved h \<longrightarrow> good b i)))"

definition async_inv :: "async_journal \<Rightarrow> bool" where
  "async_inv j \<longleftrightarrow>
     buffered_inv (jb j) \<and> length (aops j) = length (bpcs (jb j)) \<and>
     (\<forall>t<length (aops j). \<forall>h. aops j ! t = Some h \<longrightarrow> op_ok (jb j) t h) \<and>
     (\<forall>x\<in>set (astray j). placed (jb j) x)"

text \<open>What any action in a slot leaves of the other slots, the file and the log.\<close>

definition slot_frame :: "nat \<Rightarrow> buffered \<Rightarrow> buffered \<Rightarrow> bool" where
  "slot_frame t b b' \<longleftrightarrow>
     t < length (bpcs b) \<and>
     (\<exists>x. bpcs b' = (bpcs b)[t := x] \<and> (bgate b' = bgate b \<or> thread_step (bgate b, bpcs b ! t) (bgate b', x))) \<and>
     (\<exists>y. bwork b' = (bwork b)[t := y]) \<and> (\<exists>z. blog b' = blog b @ z) \<and>
     (is_set (bpoison b) \<longrightarrow> is_set (bpoison b')) \<and> (\<forall>i<length (blog b). good b i \<longrightarrow> good b' i) \<and>
     (\<forall>n. none_below b n \<longrightarrow> none_below b' n)"

lemma slot_frameI:
  assumes "t < length (bpcs b)" and "bpcs b' = (bpcs b)[t := x]"
    and "\<And>i. i < length (blog b) \<Longrightarrow> owns i x \<Longrightarrow> owns i (bpcs b ! t)"
    and "bgate b' = bgate b \<or> thread_step (bgate b, bpcs b ! t) (bgate b', x)"
    and "bwork b' = (bwork b)[t := y]" and "blog b' = blog b @ z"
    and "is_set (bpoison b) \<Longrightarrow> is_set (bpoison b')" and "\<And>i. i < length (blog b) \<Longrightarrow> good b i \<Longrightarrow> good b' i"
  shows "slot_frame t b b'"
proof -
  have "none_below b' n" if "none_below b n" for n
    unfolding none_below_def
  proof (intro conjI allI impI)
    show "n \<le> length (blog b')" using that assms(6) by (simp add: none_below_def)
    fix u i
    assume u: "u < length (bpcs b')" "i < n"
    have "\<not> owns i (bpcs b ! u)" "\<not> owns i (bpcs b ! t)" "i < length (blog b)"
      using that u assms(1,2) by (simp_all add: none_below_def)
    with assms(2) assms(3) [of i] u(1) show "\<not> owns i (bpcs b' ! u)" by (cases "u = t") auto
  qed
  with assms show ?thesis unfolding slot_frame_def by blast
qed

lemma slot_frame_rules:
  assumes "slot_frame t b b'"
  shows "none_below b n \<Longrightarrow> none_below b' n"
    and "buffered_firm b n \<Longrightarrow> buffered_firm b' n"
    and "\<exists>z. blog b' = blog b @ z"
    and "is_set (bpoison b) \<Longrightarrow> is_set (bpoison b')"
    and "t \<noteq> u \<Longrightarrow> buffered_rested b u \<Longrightarrow> buffered_rested b' u"
    and "t \<noteq> u \<Longrightarrow> bpcs b' ! u = bpcs b ! u"
    and "t \<noteq> u \<Longrightarrow> bwork b' ! u = bwork b ! u"
    and "length (bpcs b') = length (bpcs b)"
    and "i < length (blog b) \<Longrightarrow> good b i \<Longrightarrow> good b' i"
  using assms by (auto simp: slot_frame_def buffered_rested_def buffered_firm_def none_below_def)

lemma slot_frame_aims:
  assumes "slot_frame t b b'" and "buffered_inv b" and "t \<noteq> u" and "buffered_aims b u n"
  shows "buffered_aims b' u n"
proof -
  obtain x where f: "t < length (bpcs b)" "bpcs b' = (bpcs b)[t := x]"
    "bgate b' = bgate b \<or> thread_step (bgate b, bpcs b ! t) (bgate b', x)"
    using assms(1) by (auto simp: slot_frame_def)
  have u: "u < length (bpcs b)" "n \<le> length (blog b)" "aims_at (bgate b) n (bpcs b ! u)"
    using assms(4) by (simp_all add: buffered_aims_def)
  have "aims_at (bgate b') n (bpcs b ! u)"
  proof (cases "bpcs b ! u = Flipping")
    case True
    have "one_flipper (bgate b) (bpcs b)" using assms(2) by (simp add: buffered_inv_def)
    then have "flipper (bgate b') = flipper (bgate b)" using f(3) flipper_kept [OF _ f(1) u(1) True assms(3)] by auto
    with u(3) True show ?thesis by simp
  next
    case False
    with u(3) show ?thesis by (cases "bpcs b ! u") auto
  qed
  moreover obtain z where "blog b' = blog b @ z" using assms(1) by (auto simp: slot_frame_def)
  ultimately show ?thesis using u(1,2) f(2) assms(3) by (simp add: buffered_aims_def)
qed

subsection \<open>The blocking actions\<close>

lemma act_frame:
  assumes "append_act C t b b' \<or> drain_act t b b'" and "buffered_inv b"
  shows "slot_frame t b b'"
proof -
  have same: "\<exists>y. bwork b = (bwork b)[t := y]" by (metis list_update_id)
  have "\<exists>y. bwork b' = (bwork b)[t := y]"
    using assms(1) same by (auto elim!: append_act.cases drain_act.cases)
  moreover have "is_set (bpoison b) \<longrightarrow> is_set (bpoison b')"
    using assms(1) by (auto elim!: append_act.cases drain_act.cases)
  ultimately show ?thesis
    using act_gate [OF assms(1)] act_log_extends [OF assms(1)] act_good [OF assms(1,2)] act_none_below [OF assms(1,2)]
    unfolding slot_frame_def by blast
qed

text \<open>A slot that reserves nothing moves by a step of the gate that reserves nothing.\<close>

lemma plain_frame:
  assumes "t < length (bpcs b)" and "thread_step (bgate b, bpcs b ! t) (g', x)" and "\<not> reserving x"
  shows "slot_frame t b (b\<lparr>bgate := g', bpcs := (bpcs b)[t := x]\<rparr>)"
  using assms by (intro slot_frameI [where x = x and y = "bwork b ! t" and z = "[]"]) (auto simp: good_def)

lemma try_quiescent_frame:
  "try_quiescent (g, y) (g', x) \<Longrightarrow> g' = g \<and> \<not> reserving y \<and> \<not> reserving x"
  by (erule try_quiescent.cases) (auto simp: reserving_def)

lemma quiet_act_frame:
  assumes "quiet_act t b b'" and "buffered_inv b"
  shows "slot_frame t b b' \<and> buffered_inv b' \<and> bwork b ! t = NoWork"
  using assms(1)
proof (cases rule: quiet_act.cases)
  case (quiet_run g' x)
  note q = try_quiescent_frame [OF quiet_run(4)] and th = thread_quiet [OF quiet_run(4)]
  from plain_frame [OF quiet_run(2) th] buffered_inv_plain [OF assms(2) quiet_run(2) th, of "bwork b"] q quiet_run(1,3)
  show ?thesis by simp
qed

lemma drain_native_return_frame:
  assumes "drain_native_return t b r b'" and "buffered_inv b"
  shows "slot_frame t b b' \<and> buffered_inv b' \<and> bwork b ! t = NoWork \<and> bpcs b' = (bpcs b)[t := Idle] \<and>
    b' = b\<lparr>bpcs := (bpcs b)[t := Idle]\<rparr>"
proof -
  have same: "b\<lparr>bpcs := (bpcs b)[t := Idle]\<rparr> = b" if "bpcs b ! t = Idle"
    using list_update_id [of "bpcs b" t] that by simp
  have th: "thread_step (g, Drained f) (g, Idle)" "thread_step (g, Quiescent f) (g, Idle)" for g f
    by (rule thread_drain, rule drain_below.drain_return, rule thread_quiet, rule quiet_return)
  have t: "t < length (bpcs b)" "bwork b ! t = NoWork" and b': "b' = b\<lparr>bpcs := (bpcs b)[t := Idle]\<rparr>"
    and th': "bpcs b ! t = Idle \<or> thread_step (bgate b, bpcs b ! t) (bgate b, Idle)" and nr: "\<not> reserving (bpcs b ! t)"
    using assms(1) same th by (auto simp: drain_native_return_def drain_return_def reserving_def)
  have "buffered_inv b'"
  proof (cases "bpcs b ! t = Idle")
    case True
    with b' same assms(2) show ?thesis by simp
  next
    case False
    with th' buffered_inv_plain [OF assms(2) t(1), of "bgate b" Idle "bwork b"] nr b' show ?thesis
      by (simp add: reserving_def)
  qed
  moreover have "slot_frame t b b'"
    unfolding b' using t(1) by (intro slot_frameI [where x = Idle and y = "bwork b ! t" and z = "[]"]) (auto simp: good_def)
  ultimately show ?thesis using t(2) b' by simp
qed

subsection \<open>The native actions\<close>

lemma placed_part: "placed b (l, bs) \<Longrightarrow> m + k \<le> length bs \<Longrightarrow> placed b (l + m, take k (drop m bs))"
proof -
  assume p: "placed b (l, bs)" and k: "m + k \<le> length bs"
  then have bs: "take (length bs) (drop l (blog b)) = bs" "l + length bs \<le> length (blog b)" by (simp_all add: placed_def)
  have "take k (drop m bs) = take k (drop m (take (length bs) (drop l (blog b))))" by (simp only: bs(1))
  also have "\<dots> = take k (drop (l + m) (blog b))" using k by (simp add: drop_take min_def add.commute)
  finally show ?thesis using k bs(2) by (simp add: placed_def min_def)
qed

lemma placed_rest: "placed b (l, bs) \<Longrightarrow> m \<le> length bs \<Longrightarrow> placed b (l + m, drop m bs)"
  using placed_part [of b l bs m "length bs - m"] by simp

text \<open>A transfer of bytes that stand in the log: what is right stays right, and they are right now.\<close>

lemma placed_write:
  assumes "placed b (off, bs)" and "b' = b\<lparr>bdisk := (bdisk b)\<lparr>contents := put_at off bs (contents (bdisk b))\<rparr>\<rparr>"
  shows "good b i \<Longrightarrow> good b' i" and "off \<le> i \<Longrightarrow> i < off + length bs \<Longrightarrow> good b' i"
proof -
  let ?d = "(bdisk b)\<lparr>contents := put_at off bs (contents (bdisk b))\<rparr>"
  have p: "take (length bs) (drop off (blog b)) = bs" "off + length bs \<le> length (blog b)"
    using assms(1) by (simp_all add: placed_def)
  show "good b' i" if "good b i" unfolding assms(2)
    by (rule good_write [where k = "length bs", OF _ _ p that]) simp_all
  show "good b' i" if "off \<le> i" "i < off + length bs" unfolding assms(2)
    by (rule good_written [OF _ p that]) simp
qed

lemma placed_write_keeps:
  assumes "placed b (off, bs)" and "b' = b\<lparr>bdisk := (bdisk b)\<lparr>contents := put_at off bs (contents (bdisk b))\<rparr>\<rparr>"
    and "buffered_inv b" and "t < length (bpcs b)"
  shows "slot_frame t b b' \<and> buffered_inv b'"
proof
  note w = placed_write [OF assms(1,2)]
  show "slot_frame t b b'"
    using assms(2,4) w(1) by (intro slot_frameI [where x = "bpcs b ! t" and y = "bwork b ! t" and z = "[]"]) auto
  show "buffered_inv b'" using assms(2,3) w(1) unfolding buffered_inv_def by auto
qed

lemma op_placed:
  assumes "buffered_inv b" and "t < length (bpcs b)" and "bpcs b ! t = Reserved p l n" and "bwork b ! t = Sending bs"
  shows "placed b (l, bs) \<and> n = length bs"
proof -
  have "thread_ok (blog b) (bwork b ! t) (bpcs b ! t)" using assms(1,2) unfolding buffered_inv_def by blast
  then show ?thesis using assms(3,4) by (auto simp: placed_def)
qed

text \<open>An append that ends: its bytes are in the file, or the journal is poisoned.\<close>

lemma append_end_keeps:
  assumes "buffered_inv b" and "t < length (bpcs b)" and "op_ok b t h" and "ap_ticket h = Some p"
  shows "slot_frame t b (b\<lparr>bpoison := append_end h (bpoison b), bpcs := (bpcs b)[t := Written p]\<rparr>) \<and>
    buffered_inv (b\<lparr>bpoison := append_end h (bpoison b), bpcs := (bpcs b)[t := Written p]\<rparr>)"
proof -
  let ?b = "b\<lparr>bpoison := append_end h (bpoison b), bpcs := (bpcs b)[t := Written p]\<rparr>"
  obtain l n where h: "bpcs b ! t = Reserved p l n" "ap_written h \<longrightarrow> ap_moved h = n"
    "is_set (bpoison b) \<or> (\<forall>i. l \<le> i \<and> i < l + ap_moved h \<longrightarrow> good b i)"
    using assms(3,4) unfolding op_ok_def by (metis option.inject)
  have pois: "is_set (bpoison b) \<Longrightarrow> is_set (append_end h (bpoison b))" by (simp add: append_end_def)
  have "buffered_inv ?b"
  proof (rule finish_inv [OF assms(1,2) h(1)])
    show "(\<forall>i. good b i \<longrightarrow> good ?b i) \<and> (\<forall>i. owns i (bpcs b ! t) \<longrightarrow> good ?b i)" if "\<not> is_set (bpoison ?b)"
    proof -
      have "ap_written h" "\<not> is_set (bpoison b)" using that by (auto simp: append_end_def split: if_splits)
      with h show ?thesis by (auto simp: good_def)
    qed
  qed (use pois in simp_all)
  moreover have "slot_frame t b ?b"
    using assms(2) pois by (intro slot_frameI [where x = "Written p" and y = "bwork b ! t" and z = "[]"]) (auto simp: good_def)
  ultimately show ?thesis by blast
qed

text \<open>The slots that an action leaves alone keep their appends, and stray writes stay in place.\<close>

lemma op_ok_other:
  assumes "slot_frame t b b'" and "buffered_inv b" and "op_ok b u h" and "u < length (bpcs b)" and "u \<noteq> t"
  shows "op_ok b' u h"
proof -
  obtain p l bs where o: "ap_ticket h = Some p" "bpcs b ! u = Reserved p l (length bs)" "bwork b ! u = Sending bs"
    "ap_frame_bytes h = length bs" "ap_moved h \<le> length bs" "ap_written h \<longrightarrow> ap_moved h = length bs"
    "is_set (bpoison b) \<or> (\<forall>i. l \<le> i \<and> i < l + ap_moved h \<longrightarrow> good b i)"
    using assms(3) unfolding op_ok_def by blast
  have "l + length bs \<le> length (blog b)" using op_placed [OF assms(2,4) o(2,3)] by (simp add: placed_def)
  then have "is_set (bpoison b') \<or> (\<forall>i. l \<le> i \<and> i < l + ap_moved h \<longrightarrow> good b' i)"
    using o(5,7) slot_frame_rules(4,9) [OF assms(1)] by (meson less_le_trans nat_add_left_cancel_le)
  moreover have "bpcs b' ! u = bpcs b ! u" "bwork b' ! u = bwork b ! u"
    using slot_frame_rules(6,7) [OF assms(1)] assms(5) by auto
  ultimately show ?thesis using o unfolding op_ok_def by auto
qed

lemma placed_frame: "slot_frame t b b' \<Longrightarrow> placed b x \<Longrightarrow> placed b' x"
  by (auto simp: slot_frame_def placed_def)

lemma async_inv_act:
  assumes "async_inv j" and "slot_frame t (jb j) b'" and "buffered_inv b'"
    and "jb j' = b'" and "aops j' = (aops j)[t := op]" and "\<And>h. op = Some h \<Longrightarrow> op_ok b' t h"
    and "\<And>x. x \<in> set (astray j') \<Longrightarrow> x \<in> set (astray j) \<or> placed (jb j) x"
  shows "async_inv j'"
proof -
  have i: "buffered_inv (jb j)" and l: "length (aops j) = length (bpcs (jb j))"
    and o: "\<And>u h. u < length (aops j) \<Longrightarrow> aops j ! u = Some h \<Longrightarrow> op_ok (jb j) u h"
    and s: "\<And>x. x \<in> set (astray j) \<Longrightarrow> placed (jb j) x"
    using assms(1) by (auto simp: async_inv_def)
  have "op_ok b' u h" if "u < length (aops j')" "aops j' ! u = Some h" for u h
    using that assms(5,6) o l op_ok_other [OF assms(2) i] by (cases "u = t") auto
  moreover have "placed b' x" if "x \<in> set (astray j')" for x
    using assms(7) [OF that] s placed_frame [OF assms(2)] by blast
  ultimately show ?thesis
    using assms(3-5) l slot_frame_rules(8) [OF assms(2)] unfolding async_inv_def by simp
qed

text \<open>An action on the buffered part in a slot without an append in flight.\<close>

lemma async_inv_buffered:
  assumes "async_inv j" and "slot_frame t (jb j) b'" and "buffered_inv b'" and "aops j ! t = None"
  shows "async_inv (j\<lparr>jb := b'\<rparr>)"
proof (rule async_inv_act [OF assms(1-3), where op = None])
  show "aops (j\<lparr>jb := b'\<rparr>) = (aops j)[t := None]" using list_update_id [of "aops j" t] assms(4) by simp
qed simp_all

lemma idle_slot:
  assumes "async_inv j" and "t < length (bpcs (jb j))" and "bwork (jb j) ! t = NoWork \<or> \<not> reserving (bpcs (jb j) ! t)"
  shows "aops j ! t = None"
  using assms unfolding async_inv_def op_ok_def reserving_def by (metis not_None_eq work.distinct(1))

lemma append_act_keeps: "append_act C t b b' \<Longrightarrow> buffered_inv b \<Longrightarrow> slot_frame t b b' \<and> buffered_inv b'"
  using act_frame append_act_inv by blast

text \<open>The hook after a transfer, and after the final result.\<close>

lemma op_ok_transfer:
  assumes "op_ok b t h" and "bpcs b ! t = Reserved p l n" and "bwork b ! t = Sending bs" and "ap_moved h + k \<le> length bs"
    and "b' = b\<lparr>bdisk := d'\<rparr>" and "\<And>i. good b i \<Longrightarrow> good b' i"
    and "\<And>i. l + ap_moved h \<le> i \<Longrightarrow> i < l + ap_moved h + k \<Longrightarrow> good b' i"
  shows "op_ok b' t (h\<lparr>ap_moved := ap_moved h + k\<rparr>)"
proof -
  have o: "ap_ticket h = Some p" "n = length bs" "ap_frame_bytes h = length bs" "ap_written h \<longrightarrow> ap_moved h = length bs"
    "is_set (bpoison b) \<or> (\<forall>i. l \<le> i \<and> i < l + ap_moved h \<longrightarrow> good b i)"
    using assms(1-3) by (auto simp: op_ok_def)
  have "is_set (bpoison b') \<or> (\<forall>i. l \<le> i \<and> i < l + (ap_moved h + k) \<longrightarrow> good b' i)"
    using o(5) assms(5,6,7) by (metis add.assoc buffered.select_convs(5) buffered.surjective buffered.update_convs(4) linorder_not_le)
  then show ?thesis using o(1-4) assms(2-5) unfolding op_ok_def by auto
qed

lemma op_ok_finished:
  assumes "op_ok b t h" and "append_finished r h (bpoison b) = (h', p')" and "\<forall>n. r = Inr n \<longrightarrow> n = ap_moved h"
  shows "op_ok (b\<lparr>bpoison := p'\<rparr>) t (h'\<lparr>ap_finished := True\<rparr>) \<and> (is_set (bpoison b) \<longrightarrow> is_set p')"
  using assms unfolding op_ok_def append_finished_def by (auto simp: good_def split: sum.splits if_splits)

lemma append_native_keeps:
  assumes "append_native C t j j'" and "async_inv j"
  shows "slot_frame t (jb j) (jb j') \<and> async_inv j'"
proof -
  have i: "buffered_inv (jb j)" and la: "length (aops j) = length (bpcs (jb j))" using assms(2) by (simp_all add: async_inv_def)
  have o: "op_ok (jb j) t h" if "t < length (bpcs (jb j))" "aops j ! t = Some h" for h
    using assms(2) that by (simp add: async_inv_def)
  note act = async_inv_act [OF assms(2)]
  from assms(1) show ?thesis
  proof (cases rule: append_native.cases)
    case (native_begin b rec bs)
    let ?b = "b\<lparr>bwork := (bwork b)[t := Sending bs]\<rparr>"
    have f: "slot_frame t b ?b"
      using native_begin(2) by (intro slot_frameI [where x = "bpcs b ! t" and y = "Sending bs" and z = "[]"]) (auto simp: good_def)
    have "buffered_inv ?b" using buffered_inv_work [of b t] i native_begin by (simp add: reserving_def)
    with async_inv_buffered [OF assms(2), of t ?b] idle_slot [OF assms(2), of t] f native_begin show ?thesis by simp
  next
    case (native_enter b bs g' x)
    from append_act_keeps [OF append_enter [OF native_enter(2,5,6)]] i native_enter(3)
      async_inv_buffered [OF assms(2), of t] native_enter(1,4) show ?thesis by simp
  next
    case (native_submit b bs p)
    let ?x = "Reserved p (next_lsn (bgate b)) (length bs)"
    let ?b = "b\<lparr>bgate := (bgate b)\<lparr>next_lsn := next_lsn (bgate b) + length bs\<rparr>, bpcs := (bpcs b)[t := ?x], blog := blog b @ bs\<rparr>"
    have k: "slot_frame t b ?b \<and> buffered_inv ?b"
      using append_act_keeps [OF append_reserve [OF native_submit(2,5,6)]] i native_submit(3) by simp
    have "op_ok ?b t \<lparr>ap_ticket = Some p, ap_frame_bytes = length bs, ap_written = False, ap_moved = 0, ap_finished = False\<rparr>"
      using native_submit by (auto simp: op_ok_def)
    with act [of t ?b j' "Some \<lparr>ap_ticket = Some p, ap_frame_bytes = length bs, ap_written = False, ap_moved = 0,
      ap_finished = False\<rparr>"] k native_submit show ?thesis by simp
  next
    case (native_transfer b h bs p l n k)
    let ?xs = "take k (drop (ap_moved h) bs)"
    let ?b = "b\<lparr>bdisk := (bdisk b)\<lparr>contents := put_at (l + ap_moved h) ?xs (contents (bdisk b))\<rparr>\<rparr>"
    have "placed b (l, bs)" using op_placed [of b t p l n bs] i native_transfer by simp
    note part = placed_part [OF this native_transfer(8)]
    note w = placed_write [OF part refl] and k = placed_write_keeps [OF part refl, of t]
    have "op_ok ?b t (h\<lparr>ap_moved := ap_moved h + k\<rparr>)"
      by (rule op_ok_transfer [OF _ native_transfer(7,6,8) refl w(1)]) (use o native_transfer(2-4,8) w(2) in simp_all)
    with act [of t ?b j' "Some (h\<lparr>ap_moved := ap_moved h + k\<rparr>)"] k i native_transfer(1-3) show ?thesis by simp
  next
    case (native_finished b h r h' p')
    let ?b = "b\<lparr>bpoison := p'\<rparr>"
    have f: "op_ok ?b t (h'\<lparr>ap_finished := True\<rparr>)" "is_set (bpoison b) \<Longrightarrow> is_set p'"
      using op_ok_finished [OF _ native_finished(7,6)] o native_finished(2-4) by auto
    have "slot_frame t b ?b"
      using native_finished(2) f(2)
      by (intro slot_frameI [where x = "bpcs b ! t" and y = "bwork b ! t" and z = "[]"]) (auto simp: good_def)
    moreover have "buffered_inv ?b" using i native_finished(3) f(2) by (auto simp: buffered_inv_def good_def)
    ultimately show ?thesis using act [of t ?b j' "Some (h'\<lparr>ap_finished := True\<rparr>)"] f(1) native_finished(1,3) by simp
  next
    case (native_dropped b h p)
    with append_end_keeps [OF _ native_dropped(2) _ native_dropped(6)] i o [of h]
      act [of t "b\<lparr>bpoison := append_end h (bpoison b), bpcs := (bpcs b)[t := Written p]\<rparr>" j' None] show ?thesis by simp
  next
    case (native_abandoned b h p bs q l n)
    have pl: "placed b (l, bs)" using op_placed [of b t q l n bs] i native_abandoned by simp
    have "ap_moved h \<le> length bs" using o [of h] native_abandoned by (auto simp: op_ok_def)
    with placed_rest [OF pl] have "placed b (l + ap_moved h, drop (ap_moved h) bs)" by blast
    with append_end_keeps [OF _ native_abandoned(2) _ native_abandoned(6)] i o [of h] native_abandoned
      act [of t "b\<lparr>bpoison := append_end h (bpoison b), bpcs := (bpcs b)[t := Written p]\<rparr>" j' None] show ?thesis by auto
  next
    case (native_stray b s off bs k)
    let ?b = "b\<lparr>bdisk := (bdisk b)\<lparr>contents := put_at off (take k bs) (contents (bdisk b))\<rparr>\<rparr>"
    have pl: "placed b (off, bs)"
      using assms(2) native_stray(3-5) nth_mem [OF native_stray(4)] by (auto simp: async_inv_def)
    have part: "placed b (off, take k bs)" using placed_part [OF pl, of 0 k] native_stray(6) by simp
    note k = placed_write_keeps [OF part refl, of t]
    have "op_ok ?b t h" if "aops j ! t = Some h" for h
      using o [OF _ that] native_stray(2,3) placed_write(1) [OF part refl]
      unfolding op_ok_def by auto
    moreover have "x \<in> set (astray j) \<or> placed b x" if "x \<in> set (astray j')" for x
      using that native_stray(1,6) placed_rest [OF pl] set_update_subset_insert [of "astray j" s "(off + k, drop k bs)"]
      by auto
    moreover have "aops j' = (aops j)[t := aops j ! t]" using native_stray(1) by simp
    ultimately show ?thesis using act [of t ?b j' "aops j ! t"] k i native_stray(1-3) by simp
  qed
qed

section \<open>The interface of the group commit\<close>

lemma on_bufferedE: "on_buffered R j j' \<Longrightarrow> (\<And>b. R (jb j) b \<Longrightarrow> j' = j\<lparr>jb := b\<rparr> \<Longrightarrow> P) \<Longrightarrow> P"
  by (auto simp: on_buffered_def)

lemma buffered_slot_keeps:
  assumes "on_buffered R j j'" and "async_inv j"
    and "\<And>b. R (jb j) b \<Longrightarrow> slot_frame t (jb j) b \<and> buffered_inv b \<and> aops j ! t = None"
  shows "slot_frame t (jb j) (jb j') \<and> async_inv j'"
  using assms async_inv_buffered [OF assms(2)] by (auto elim!: on_bufferedE)

lemma async_inv_buffered_inv: "async_inv j \<Longrightarrow> buffered_inv (jb j)"
  by (simp add: async_inv_def)

lemma drain_act_slot:
  assumes "drain_act t b b'" and "buffered_inv b"
  shows "slot_frame t b b' \<and> buffered_inv b' \<and> t < length (bpcs b) \<and> bwork b ! t = NoWork"
  using assms act_frame [of C t b b'] drain_act_inv by (auto elim: drain_act.cases)

lemma async_act_keeps:
  assumes "async_append C t j j' \<or> async_drain t j j' \<or> async_drained t j r j'" and "async_inv j"
  shows "slot_frame t (jb j) (jb j') \<and> async_inv j'"
proof -
  note i = async_inv_buffered_inv [OF assms(2)]
  have none: "aops j ! t = None" if "slot_frame t (jb j) b" "bwork (jb j) ! t = NoWork" for b
    using idle_slot [OF assms(2)] that by (simp add: slot_frame_def)
  have drain: ?thesis if "on_buffered (drain_act t) j j'"
    by (rule buffered_slot_keeps [OF that assms(2)]) (use drain_act_slot [OF _ i] none in blast)
  have quiet: ?thesis if "on_buffered (quiet_act t) j j'"
    by (rule buffered_slot_keeps [OF that assms(2)]) (use quiet_act_frame [OF _ i] none in blast)
  have ret: ?thesis if "on_buffered (\<lambda>b. drain_native_return t b r) j j'" for r
    by (rule buffered_slot_keeps [OF that assms(2)]) (use drain_native_return_frame [OF _ i] none in blast)
  have ret': ?thesis if "on_buffered (\<lambda>b. drain_return t b r) j j'" for r
    using that by (intro ret [of r]) (auto simp: on_buffered_def drain_native_return_def)
  have app: ?thesis if "on_buffered (append_act C t) j j'" "aops j ! t = None"
    by (rule buffered_slot_keeps [OF that(1) assms(2)]) (use append_act_keeps [OF _ i] that(2) in blast)
  from assms(1) show ?thesis
    using append_native_keeps [OF _ assms(2)] drain quiet ret ret' app
    unfolding async_append_def async_drain_def async_drained_def by blast
qed

fun quiet_aims :: "nat \<Rightarrow> pc \<Rightarrow> bool" where
  "quiet_aims n (QuietRead f) = (n \<le> f)"
| "quiet_aims n (QuietZero f) = (n \<le> f)"
| "quiet_aims n (Quiescent f) = (n \<le> f)"
| "quiet_aims n _ = True"

definition async_aims :: "async_journal \<Rightarrow> nat \<Rightarrow> nat \<Rightarrow> bool" where
  "async_aims j t n \<longleftrightarrow> buffered_aims (jb j) t n \<and> quiet_aims n (bpcs (jb j) ! t)"

text \<open>The frontier a task reads is no lower than what its caller aims at.\<close>

lemma drain_aims:
  assumes "async_drain t j j'" and "async_inv j" and "async_aims j t n"
  shows "async_aims j' t n"
proof -
  have t: "t < length (bpcs (jb j))" "n \<le> length (blog (jb j))" "aims_at (bgate (jb j)) n (bpcs (jb j) ! t)"
    "quiet_aims n (bpcs (jb j) ! t)" and n: "next_lsn (bgate (jb j)) = length (blog (jb j))"
    using assms(2,3) by (simp_all add: async_aims_def buffered_aims_def async_inv_def buffered_inv_def)
  consider b where "drain_act t (jb j) b" "j' = j\<lparr>jb := b\<rparr>" | b where "quiet_act t (jb j) b" "j' = j\<lparr>jb := b\<rparr>"
    using assms(1) by (auto simp: async_drain_def elim!: on_bufferedE)
  then show ?thesis
  proof cases
    case 1
    have "buffered_aims b t n"
      using act_aims [OF disjI1 [OF 1(1)]] async_inv_buffered_inv [OF assms(2)] assms(3) by (simp add: async_aims_def)
    moreover from 1(1) have "quiet_aims n (bpcs b ! t)"
      by (cases rule: drain_act.cases) (use t(1) in \<open>auto elim!: drain_below.cases\<close>)
    ultimately show ?thesis using 1(2) by (simp add: async_aims_def)
  next
    case 2
    from 2(1) show ?thesis
    proof (cases rule: quiet_act.cases)
      case (quiet_run g' x)
      from quiet_run(4) have "aims_at g' n x \<and> quiet_aims n x" using t n by (cases rule: try_quiescent.cases) auto
      with 2(2) quiet_run(1) t(1,2) show ?thesis by (simp add: async_aims_def buffered_aims_def)
    qed
  qed
qed

lemma drained_frontier:
  assumes "drain_native_return t b (Inr f) b'" and "buffered_inv b"
  shows "none_below b' f \<and> (bpcs b ! t = Drained f \<or> bpcs b ! t = Quiescent f)"
proof (cases "bpcs b ! t = Quiescent f")
  case True
  with assms(1) have q: "t < length (bpcs b)" "bwork b ! t = NoWork" "b' = b\<lparr>bpcs := (bpcs b)[t := Idle]\<rparr>"
    by (auto simp: drain_native_return_def drain_return_def)
  have "local_ok (bgate b) (bpcs b) (Quiescent f)"
    using assms(2) q(1) True gate_inv_at [of "bgate b" "bpcs b" t] by (simp add: buffered_inv_def)
  with settled_none_below [OF assms(2)] q(3) True show ?thesis by simp
next
  case False
  with assms show ?thesis using drain_return_none_below by (auto simp: drain_native_return_def drain_return_def)
qed

lemma append_native_poison: "append_native C t j j' \<Longrightarrow> is_set (bpoison (jb j)) \<Longrightarrow> is_set (bpoison (jb j'))"
  by (erule append_native.cases) (auto simp: append_end_def append_finished_def split: sum.splits if_splits)

lemma append_native_rested:
  "append_native C t j j' \<Longrightarrow> t \<noteq> u \<Longrightarrow> buffered_rested (jb j) u \<Longrightarrow> buffered_rested (jb j') u"
  by (erule append_native.cases) (auto simp: buffered_rested_def)

lemma async_act_poison:
  assumes "async_append C t j j' \<or> async_drain t j j'" and "is_set (bpoison (jb j))"
  shows "is_set (bpoison (jb j'))"
  using assms append_native_poison
  by (auto simp: async_append_def async_drain_def drain_return_def
      elim!: on_bufferedE append_act.cases drain_act.cases quiet_act.cases)

lemma async_act_rested:
  assumes "async_append C t j j' \<or> async_drain t j j'" and "t \<noteq> u" and "buffered_rested (jb j) u"
  shows "buffered_rested (jb j') u"
  using assms append_native_rested
  by (auto simp: async_append_def async_drain_def drain_return_def buffered_rested_def
      elim!: on_bufferedE append_act.cases drain_act.cases quiet_act.cases)

lemma async_lose_keeps:
  assumes "async_lose s e j j'" and "async_inv j"
  shows "async_inv j' \<and> blog (jb j') = blog (jb j)"
proof -
  obtain b where b: "buffered_lose s e (jb j) b" "j' = j\<lparr>jb := b\<rparr>" using assms(1) by (auto simp: async_lose_def elim: on_bufferedE)
  have l: "buffered_inv b" "is_set (bpoison b)" "blog b = blog (jb j)" "bpcs b = bpcs (jb j)" "bwork b = bwork (jb j)"
    using b(1) assms(2) by (auto simp: buffered_lose_def async_inv_def buffered_inv_def)
  have "op_ok b t h" if "op_ok (jb j) t h" for t h using that l unfolding op_ok_def by auto
  moreover have "placed b x" if "placed (jb j) x" for x using that l by (simp add: placed_def)
  ultimately show ?thesis using assms(2) l b(2) by (simp add: async_inv_def)
qed

interpretation async_commit: frontier_source "async_append C" async_drain async_drained "\<lambda>j. bpoison (jb j)"
    "\<lambda>j. contents (bdisk (jb j))" "\<lambda>j. blog (jb j)" async_lose "\<lambda>j. buffered_rested (jb j)" async_inv
    "\<lambda>j. none_below (jb j)" "\<lambda>j. buffered_firm (jb j)" async_aims for C
proof
  fix t j j' n
  assume a: "async_append C t j j' \<or> async_drain t j j'"
  show "is_set (bpoison (jb j)) \<Longrightarrow> is_set (bpoison (jb j'))" by (rule async_act_poison [OF a])
  show "t \<noteq> u \<Longrightarrow> buffered_rested (jb j) u \<Longrightarrow> buffered_rested (jb j') u" for u by (rule async_act_rested [OF a])
  assume i: "async_inv j"
  have k: "slot_frame t (jb j) (jb j')" "async_inv j'" using async_act_keeps [OF _ i] a by blast+
  show "async_inv j'" by (rule k(2))
  show "none_below (jb j) n \<Longrightarrow> none_below (jb j') n" by (rule slot_frame_rules(1) [OF k(1)])
  show "buffered_firm (jb j) n \<Longrightarrow> buffered_firm (jb j') n" by (rule slot_frame_rules(2) [OF k(1)])
  show "\<exists>x. blog (jb j') = blog (jb j) @ x" by (rule slot_frame_rules(3) [OF k(1)])
next
  fix t j j' u n
  assume a: "async_drain t j j' \<or> (async_append C t j j' \<and> t \<noteq> u)" and i: "async_inv j" and n: "async_aims j u n"
  have k: "slot_frame t (jb j) (jb j')" using async_act_keeps [OF _ i] a by blast
  show "async_aims j' u n"
  proof (cases "t = u")
    case True
    with a drain_aims [OF _ i n] show ?thesis by blast
  next
    case False
    with slot_frame_aims [OF k async_inv_buffered_inv [OF i] False] slot_frame_rules(6) [OF k False] n show ?thesis
      by (simp add: async_aims_def)
  qed
next
  fix t j r j' n u
  assume r: "async_drained t j r j'"
  show "is_set (bpoison (jb j)) \<Longrightarrow> is_set (bpoison (jb j'))"
    using r by (auto simp: async_drained_def drain_native_return_def drain_return_def elim!: on_bufferedE)
  show "buffered_rested (jb j') t \<and> (buffered_rested (jb j) u \<longrightarrow> buffered_rested (jb j') u)"
    using r by (auto simp: async_drained_def drain_native_return_def drain_return_def buffered_rested_def nth_list_update elim!: on_bufferedE)
  assume i: "async_inv j"
  have k: "slot_frame t (jb j) (jb j')" "async_inv j'" using async_act_keeps [OF _ i] r by blast+
  show "async_inv j'" by (rule k(2))
  show "buffered_firm (jb j) n \<Longrightarrow> buffered_firm (jb j') n" by (rule slot_frame_rules(2) [OF k(1)])
  show "blog (jb j') = blog (jb j)"
    using r by (auto simp: async_drained_def drain_native_return_def drain_return_def elim!: on_bufferedE)
next
  fix t j f j' n
  assume r: "async_drained t j (Inr f) j'" and i: "async_inv j"
  then obtain b where b: "drain_native_return t (jb j) (Inr f) b" "j' = j\<lparr>jb := b\<rparr>"
    by (auto simp: async_drained_def elim: on_bufferedE)
  note d = drained_frontier [OF b(1) async_inv_buffered_inv [OF i]]
  show "none_below (jb j') f" using d b(2) by simp
  show "async_aims j t n \<Longrightarrow> n \<le> f" using d by (auto simp: async_aims_def buffered_aims_def)
next
  fix j t n
  assume "async_inv j" "buffered_rested (jb j) t" "n \<le> length (blog (jb j))"
  then show "async_aims j t n" by (simp add: async_aims_def buffered_rested_def buffered_aims_def)
next
  fix j n
  assume "async_inv j" "none_below (jb j) n" "\<not> is_set (bpoison (jb j))"
  then show "buffered_firm (jb j) n" using buffered_commit.drained_firm async_inv_buffered_inv by blast
next
  fix j n
  assume "async_inv j" "buffered_firm (jb j) n"
  then show "n \<le> length (blog (jb j)) \<and> n \<le> length (contents (bdisk (jb j))) \<and>
      take n (contents (bdisk (jb j))) = take n (blog (jb j))"
    using buffered_commit.firm_file async_inv_buffered_inv by blast
next
  fix s e j j' n
  assume l: "async_lose s e j j'"
  then obtain b where b: "buffered_lose s e (jb j) b" "j' = j\<lparr>jb := b\<rparr>" by (auto simp: async_lose_def elim: on_bufferedE)
  show "buffered_rested (jb j) u \<Longrightarrow> buffered_rested (jb j') u" for u
    using buffered_commit.lose_rested [OF b(1)] b(2) by simp
  show "is_set (bpoison (jb j'))" using buffered_commit.lose_poison [OF b(1)] b(2) by simp
  assume i: "async_inv j"
  show "async_inv j' \<and> blog (jb j') = blog (jb j)" by (rule async_lose_keeps [OF l i])
  assume "buffered_firm (jb j) n" "n \<le> length s" "take n s = take n (blog (jb j))"
  then show "buffered_firm (jb j') n"
    using buffered_commit.lose_firm [OF b(1) async_inv_buffered_inv [OF i]] b(2) by simp
qed

section \<open>The asynchronous calls\<close>

text \<open>
  Which way an asynchronous call goes: it needs a runtime; a Direct-IO journal, and any journal whose
  ring could not be built, runs the blocking call on the blocking pool.
\<close>

datatype async_route = Blocking | Native

definition async_call :: "bool \<Rightarrow> bool \<Rightarrow> bool \<Rightarrow> async_route result" where
  "async_call runtime direct ring =
     (if \<not> runtime then Inl AsyncRuntimeRequired
      else if direct then Inr Blocking
      else if ring then Inr Native else Inr Blocking)"

text \<open>What the future of a native append returns, from the count the ring reported.\<close>

definition append_native_result :: "nat \<Rightarrow> nat \<Rightarrow> nat result \<Rightarrow> nat result" where
  "append_native_result frame_bytes end_lsn r =
     bind_ok r (\<lambda>n. if n \<noteq> frame_bytes then Inl short_append else Inr end_lsn)"

text \<open>An append that returns an LSN has marked its frame as written, and has not poisoned the journal.\<close>

lemma append_native_result_ok:
  assumes "append_native_result (ap_frame_bytes h) end_lsn (map_sum Io id r) = Inr l" and "append_finished r h p = (h', p')"
  shows "l = end_lsn \<and> ap_written h' \<and> p' = p"
  using assms by (cases r) (auto simp: append_native_result_def append_finished_def split: if_splits)

text \<open>The whole system: threads, tasks, the ring and the kernel.\<close>

definition async_step :: "crc_crate \<Rightarrow> async_journal sync_state \<Rightarrow> async_journal sync_state \<Rightarrow> bool" where
  "async_step C st st' \<longleftrightarrow>
     sync_step (async_append C) async_drain async_drained (\<lambda>j. bpoison (jb j)) (\<lambda>j. contents (bdisk (jb j)))
       (\<lambda>j. blog (jb j)) async_lose (\<lambda>j. buffered_rested (jb j)) st st' \<or>
     task_step (\<lambda>j. bpoison (jb j)) (\<lambda>j. contents (bdisk (jb j))) async_lose st st'"

definition async_start :: "nat \<Rightarrow> disk \<Rightarrow> async_journal" where
  "async_start n d = \<lparr>jb = buffered_start n d, aops = replicate n None, astray = []\<rparr>"

definition async_init :: "nat \<Rightarrow> disk \<Rightarrow> async_journal sync_state" where
  "async_init n d = sync_start n (async_start n d) (contents d) (length (contents d))"

lemma async_init_inv:
  assumes "n < 2 ^ 64"
  shows "async_commit.gc_inv (async_init n d)"
  unfolding async_init_def
proof (rule async_commit.gc_inv_start)
  show "async_inv (async_start n d)"
    using buffered_start_inv [OF assms] by (simp add: async_inv_def async_start_def) (simp add: buffered_start_def)
  show "async_commit.held (async_start n d) (contents d) (length (contents d))"
    by (simp add: async_commit.held_def buffered_firm_def none_below_def async_start_def buffered_start_def good_def)
qed

lemma async_reachable_inv:
  assumes "(async_step C)\<^sup>*\<^sup>* (async_init n d) st" and "n < 2 ^ 64"
  shows "async_commit.gc_inv st" and "length (spcs st) = n"
proof -
  have "async_commit.gc_inv st \<and> length (spcs st) = n"
    using assms(1)
  proof (induction rule: rtranclp_induct)
    case base
    show ?case using async_init_inv [OF assms(2)] by (simp add: async_init_def sync_start_def)
  next
    case (step st1 st2)
    from step(2) show ?case
      unfolding async_step_def using step(3)
      by (metis async_commit.gc_inv_step async_commit.gc_inv_task async_commit.step_length async_commit.task_length)
  qed
  then show "async_commit.gc_inv st" "length (spcs st) = n" by auto
qed

lemma frames_inv_plain:
  "frames_inv C base b \<Longrightarrow> bwork b' = bwork b \<Longrightarrow> length (bpcs b') = length (bpcs b) \<Longrightarrow> blog b' = blog b \<Longrightarrow> frames_inv C base b'"
  by (simp add: frames_inv_def)

lemma append_native_frames:
  assumes "append_native C t j j'" and "frames_inv C base (jb j)" and "crc_streaming_ok C"
  shows "frames_inv C base (jb j')"
  using assms(1)
proof (cases rule: append_native.cases)
  case (native_begin b rec bs)
  have "sends_frames C (Sending bs)"
    using encode_frame_owned_Inr [OF native_begin(7)] by (auto simp: sends_frames_def intro: exI [of _ "[rec]"])
  with native_begin assms(2) show ?thesis by (auto simp: frames_inv_def intro: sends_update)
next
  case (native_submit b bs p)
  from crc_streaming.append_act_frames [OF crc_streaming.intro [OF assms(3)] append_reserve [OF native_submit(2,5,6)]]
    native_submit(1,3) assms(2) show ?thesis by simp
qed (use assms(2) in \<open>auto simp: frames_inv_def\<close>)

lemma async_reachable_frames:
  assumes "(async_step C)\<^sup>*\<^sup>* (async_init n d) st" and "crc_streaming_ok C"
  shows "\<exists>ps. list_all record_ok ps \<and> blog (jb (backend st)) = contents d @ frames C ps"
proof -
  let ?P = "\<lambda>j. frames_inv C (contents d) (jb j)"
  note base = crc_streaming.append_act_frames [OF crc_streaming.intro [OF assms(2)], of t b b' "contents d" for t b b']
  have plain: "?P j'" if "on_buffered R j j'" "?P j"
      "\<And>b b'. R b b' \<Longrightarrow> bwork b' = bwork b \<and> length (bpcs b') = length (bpcs b) \<and> blog b' = blog b" for R j j'
    using that frames_inv_plain by (auto elim!: on_bufferedE)
  have drain: "?P j'" if "on_buffered (drain_act t) j j' \<or> on_buffered (quiet_act t) j j'" "?P j" for t j j'
    using that(1) by (elim disjE; elim plain [OF _ that(2)]) (auto elim: drain_act.cases quiet_act.cases)
  have ret: "?P j'" if "on_buffered (\<lambda>b. drain_native_return t b r) j j'" "?P j" for t j r j'
    using that by (intro plain [OF that(1)]) (auto simp: drain_native_return_def drain_return_def)
  have act: "?P j'" if "on_buffered (append_act C t) j j'" "?P j" for t j j'
    using that base by (auto elim!: on_bufferedE)
  have app: "?P j'" if "async_append C t j j' \<or> async_drain t j j'" "?P j" for t j j'
  proof -
    have "on_buffered (\<lambda>b. drain_native_return t b r) j j'" if "on_buffered (\<lambda>b. drain_return t b r) j j'" for r
      using that by (auto simp: on_buffered_def drain_native_return_def)
    then show ?thesis
      using that append_native_frames [OF _ _ assms(2)] act drain ret unfolding async_append_def async_drain_def by blast
  qed
  have lose: "?P j'" if "async_lose s e j j'" "?P j" for s e j j'
    using that(2) by (intro plain [OF that(1) [unfolded async_lose_def]]) (auto simp: buffered_lose_def)
  have "?P (backend st)"
    using assms(1)
  proof (induction rule: rtranclp_induct)
    case base
    show ?case
      by (auto simp: frames_inv_def async_init_def async_start_def sync_start_def buffered_start_def intro: exI [of _ "[]"])
  next
    case (step st1 st2)
    from step(2) show ?case unfolding async_step_def
    proof
      assume s: "sync_step (async_append C) async_drain async_drained (\<lambda>j. bpoison (jb j)) (\<lambda>j. contents (bdisk (jb j)))
          (\<lambda>j. blog (jb j)) async_lose (\<lambda>j. buffered_rested (jb j)) st1 st2"
      show ?thesis by (rule async_commit.step_backend [where P = ?P, OF s step(3)]) (use app ret lose in \<open>unfold async_drained_def, blast\<close>)+
    next
      assume "task_step (\<lambda>j. bpoison (jb j)) (\<lambda>j. contents (bdisk (jb j))) async_lose st1 st2"
      from async_commit.task_backend [OF this] step(3) lose show ?thesis by metis
    qed
  qed
  then show ?thesis by (auto simp: frames_inv_def)
qed

lemma async_sync_is_durable:
  assumes "(async_step C)\<^sup>*\<^sup>* (async_init n d) st" and "n < 2 ^ 64" and "crc_streaming_ok C"
    and "t < n" and "spcs st ! t = SyncDone lsn (Inr ())"
    and "crash_image (stable st) (contents (bdisk (jb (backend st)))) c"
  shows "\<exists>ps. list_all record_ok ps \<and> blog (jb (backend st)) = contents d @ frames C ps \<and>
    take (goals st ! t) c = take (goals st ! t) (contents d @ frames C ps)"
  using async_commit.sync_ok_durable [OF async_reachable_inv(1) [OF assms(1,2)] _ assms(5,6)]
    async_reachable_inv(2) [OF assms(1,2)] async_reachable_frames [OF assms(1,3)] assms(4)
  by auto

text \<open>
  C19: The leader role is never lost: it is taken exactly while one call holds it, so a leader whose future
  was dropped, whose fsync failed or whose driver stopped blocks nobody, and whoever is parked has a
  leader that will wake it. A leader that waits for the drain can be cancelled at any moment, and then
  the role is free and every parked thread is awake.
\<close>

theorem async_leader_role_is_held:
  assumes "(async_step C)\<^sup>*\<^sup>* (async_init n d) st" and "n < 2 ^ 64"
  shows "(gc_in_flight (gcs st) \<longleftrightarrow> (\<exists>!t. t < n \<and> is_leader (spcs st ! t))) \<and>
    (\<forall>t<n. \<forall>l. spcs st ! t = Parked l \<longrightarrow> gc_in_flight (gcs st)) \<and>
    (\<forall>t<n. \<forall>l. spcs st ! t = LeaderFlush l \<longrightarrow>
       (\<exists>st'. async_step C st st' \<and> \<not> gc_in_flight (gcs st') \<and> (\<forall>u<n. \<not> is_parked (spcs st' ! u)) \<and>
          gc_committed (gcs st') = gc_committed (gcs st)))"
proof -
  note len = async_reachable_inv(2) [OF assms]
  have ol: "one_leader (gcs st) (spcs st)"
    using async_commit.gc_inv_facts(2) [OF async_reachable_inv(1) [OF assms]] .
  have cancel: "\<exists>st'. async_step C st st' \<and> \<not> gc_in_flight (gcs st') \<and> (\<forall>u<n. \<not> is_parked (spcs st' ! u)) \<and>
      gc_committed (gcs st') = gc_committed (gcs st)" if "t < n" "spcs st ! t = LeaderFlush l" for t l
  proof (intro exI conjI)
    let ?st = "st\<lparr>gcs := lease_end \<lparr>ll_frontier = 0, ll_synced = False\<rparr> (gcs st), spcs := map wake ((spcs st)[t := SyncIdle])\<rparr>"
    show "async_step C st ?st" unfolding async_step_def by (rule disjI2, rule task_cancelled) (use that len in simp_all)
    show "\<not> gc_in_flight (gcs ?st)" "gc_committed (gcs ?st) = gc_committed (gcs st)" by (simp_all add: lease_end_drop)
    show "\<forall>u<n. \<not> is_parked (spcs ?st ! u)" using len by simp
  qed
  have "gc_in_flight (gcs st) \<longleftrightarrow> (\<exists>!t. t < n \<and> is_leader (spcs st ! t))"
    using ol len unfolding one_leader_def by blast
  moreover have "gc_in_flight (gcs st)" if "t < n" "spcs st ! t = Parked l" for t l
  proof -
    have "is_parked (spcs st ! t)" using that(2) by simp
    with ol len that(1) show ?thesis unfolding one_leader_def by blast
  qed
  ultimately show ?thesis using cancel by blast
qed

subsection \<open>Witnesses\<close>

text \<open>One task appends a record, which the ring writes in two parts, and then syncs it.\<close>

definition asat :: "buffered \<Rightarrow> append_in_flight option \<Rightarrow> bool \<Rightarrow> nat \<Rightarrow> bytes \<Rightarrow> sync_pc \<Rightarrow> nat \<Rightarrow> async_journal sync_state" where
  "asat b op infl c s x g =
     \<lparr>backend = \<lparr>jb = b, aops = [op], astray = []\<rparr>,
      gcs = \<lparr>gc_in_flight = infl, gc_committed = c, gc_pending = 0, gc_synced = c\<rparr>, stable = s, spcs = [x], goals = [g]\<rparr>"

definition aop :: "nat \<Rightarrow> bool \<Rightarrow> append_in_flight" where
  "aop m fin = \<lparr>ap_ticket = Some 0, ap_frame_bytes = 13, ap_written = fin, ap_moved = m, ap_finished = fin\<rparr>"

lemma asat_append:
  "async_append C 0 \<lparr>jb = b, aops = [op], astray = []\<rparr> \<lparr>jb = b', aops = [op'], astray = []\<rparr> \<Longrightarrow>
    async_step C (asat b op i c s SyncIdle g) (asat b' op' i c s SyncIdle g)"
  using sync_append [of 0 "asat b op i c s SyncIdle g" "async_append C" "\<lparr>jb = b', aops = [op'], astray = []\<rparr>"]
  by (simp add: async_step_def asat_def)

lemma asat_drain:
  "async_drain 0 \<lparr>jb = b, aops = [None], astray = []\<rparr> \<lparr>jb = b', aops = [None], astray = []\<rparr> \<Longrightarrow>
    async_step C (asat b None i c s (LeaderFlush l) g) (asat b' None i c s (LeaderFlush l) g)"
  using sync_flush [of 0 "asat b None i c s (LeaderFlush l) g" l async_drain "\<lparr>jb = b', aops = [None], astray = []\<rparr>"]
  by (simp add: async_step_def asat_def)

lemmas aat_simps = bat_def register_def leave_def parity_bit CLOSED_def FLIP_def aop_def

lemma native_append_run:
  defines "F \<equiv> frame rfc3720 [7]"
  shows "(async_step rfc3720)\<^sup>*\<^sup>* (asat (bat 0 0 0 Free 0 Idle NoWork [] []) None False 0 [] SyncIdle 0)
    (asat (bat 0 0 0 Free 13 Idle NoWork F F) None False 0 [] SyncIdle 0)"
proof -
  let ?st = "\<lambda>b op. asat b op False 0 [] SyncIdle 0" and ?j = "\<lambda>b op. \<lparr>jb = b, aops = [op], astray = []\<rparr>"
  let ?run = "\<lambda>b op. (async_step rfc3720)\<^sup>*\<^sup>* (?st (bat 0 0 0 Free 0 Idle NoWork [] []) None) (?st b op)"
  have len: "length F = 13" by (simp add: F_def FRAME_OVERHEAD_def)
  have put: "put_at 0 (take 5 F) [] = take 5 F" "put_at 5 (drop 5 F) (take 5 F) = F" "F \<noteq> []"
    using len by (auto simp: put_at_def)
  have enc: "encode_frame_owned rfc3720 [7] = Inr F"
    by (simp add: encode_frame_owned_eq F_def record_ok_def FRAME_MAX_PAYLOAD_def)
  have go: "?run b' op'" if "?run b op" "append_native rfc3720 0 (?j b op) (?j b' op')" for b b' op op'
    using that(1) asat_append [of rfc3720 b op b' op'] that(2) by (auto simp: async_append_def intro: rtranclp.rtrancl_into_rtrancl)
  have "?run (bat 0 0 0 Free 0 Idle NoWork [] []) None" by simp
  then have "?run (bat 0 0 0 Free 0 Idle (Sending F) [] []) None"
    by (rule go) (use native_begin [OF _ refl _ _ _ enc, of 0 "?j (bat 0 0 0 Free 0 Idle NoWork [] []) None"] in
      \<open>simp add: aat_simps\<close>)
  then have "?run (bat 0 0 0 Free 0 (Loaded 0) (Sending F) [] []) None"
    by (rule go) (use native_enter [OF _ refl, of 0 "?j (bat 0 0 0 Free 0 Idle (Sending F) [] []) None" F] enter_load [of "bgate (bat 0 0 0 Free 0 Idle NoWork [] [])"] in
      \<open>simp add: aat_simps\<close>)
  then have "?run (bat 0 1 0 Free 0 (Counted 0) (Sending F) [] []) None"
    by (rule go) (use native_enter [OF _ refl, of 0 "?j (bat 0 0 0 Free 0 (Loaded 0) (Sending F) [] []) None" F] enter_count [of "bgate (bat 0 0 0 Free 0 Idle NoWork [] [])" 0] in
      \<open>simp add: aat_simps\<close>)
  then have "?run (bat 0 1 0 Free 0 (Ticket 0) (Sending F) [] []) None"
    by (rule go) (use native_enter [OF _ refl, of 0 "?j (bat 0 1 0 Free 0 (Counted 0) (Sending F) [] []) None" F] enter_confirm [of "bgate (bat 0 1 0 Free 0 Idle NoWork [] [])" 0] in
      \<open>simp add: aat_simps\<close>)
  then have "?run (bat 0 1 0 Free 13 (Reserved 0 0 13) (Sending F) [] F) (Some (aop 0 False))"
    by (rule go) (use native_submit [OF _ refl, of 0 "?j (bat 0 1 0 Free 0 (Ticket 0) (Sending F) [] []) None" F 0] len in
      \<open>simp add: aat_simps\<close>)
  then have "?run (bat 0 1 0 Free 13 (Reserved 0 0 13) (Sending F) (take 5 F) F) (Some (aop 5 False))"
    by (rule go) (use native_transfer [OF _ refl, of 0 "?j (bat 0 1 0 Free 13 (Reserved 0 0 13) (Sending F) [] F) (Some (aop 0 False))" "aop 0 False" F 0 0 13 5] len put in
      \<open>simp add: aat_simps\<close>)
  then have "?run (bat 0 1 0 Free 13 (Reserved 0 0 13) (Sending F) F F) (Some (aop 13 False))"
    by (rule go) (use native_transfer [OF _ refl, of 0 "?j (bat 0 1 0 Free 13 (Reserved 0 0 13) (Sending F) (take 5 F) F) (Some (aop 5 False))" "aop 5 False" F 0 0 13 8] len put in
      \<open>simp add: aat_simps\<close>)
  then have "?run (bat 0 1 0 Free 13 (Reserved 0 0 13) (Sending F) F F) (Some (aop 13 True))"
    by (rule go) (use native_finished [OF _ refl, of 0 "?j (bat 0 1 0 Free 13 (Reserved 0 0 13) (Sending F) F F) (Some (aop 13 False))" "aop 13 False" "Inr 13" "(aop 13 False)\<lparr>ap_written := True\<rparr>" poison_new] in
      \<open>simp add: aat_simps append_finished_def\<close>)
  then have "?run (bat 0 1 0 Free 13 (Written 0) (Sending F) F F) None"
    by (rule go) (use native_dropped [OF _ refl, of 0 "?j (bat 0 1 0 Free 13 (Reserved 0 0 13) (Sending F) F F) (Some (aop 13 True))" "aop 13 True" 0] in
      \<open>simp add: aat_simps append_end_def\<close>)
  moreover have "async_append rfc3720 0 (?j (bat 0 1 0 Free 13 (Written 0) (Sending F) F F) None) (?j (bat 0 0 0 Free 13 Idle NoWork F F) None)"
    using append_act.append_return [of 0 "bat 0 1 0 Free 13 (Written 0) (Sending F) F F" 0]
    by (simp add: async_append_def on_buffered_def aat_simps)
  from asat_append [OF this] show ?thesis using calculation by (rule rtranclp.rtrancl_into_rtrancl [rotated])
qed

lemmas native_sync_simps = async_step_def asat_def set_pc_def buffered_rested_def bat_def try_lead_group_commit_def attempt_pc_def
  lease_finished_def lease_end_def sync_outcome_def async_drained_def on_buffered_def drain_native_return_def

lemma native_sync_run:
  defines "F \<equiv> frame rfc3720 [7]"
  shows "(async_step rfc3720)\<^sup>*\<^sup>* (async_init 1 \<lparr>contents = [], script = [], oom = False\<rparr>)
    (asat (bat 0 0 0 Free 13 Idle NoWork F F) None False 13 F (SyncDone 13 (Inr ())) 13)"
proof -
  let ?run = "\<lambda>st. (async_step rfc3720)\<^sup>*\<^sup>* (async_init 1 \<lparr>contents = [], script = [], oom = False\<rparr>) st"
  let ?at = "\<lambda>x. bat 0 0 0 Free 13 x NoWork F F"
  have len: "length F = 13" by (simp add: F_def FRAME_OVERHEAD_def)
  have init: "async_init 1 \<lparr>contents = [], script = [], oom = False\<rparr> =
      asat (bat 0 0 0 Free 0 Idle NoWork [] []) None False 0 [] SyncIdle 0"
    by (simp add: async_init_def async_start_def sync_start_def buffered_start_def group_commit_new_def gate_new_def asat_def bat_def)
  have go: "?run st'" if "?run st" "async_step rfc3720 st st'" for st st'
    using that by (rule rtranclp.rtrancl_into_rtrancl)
  have quiet: "async_drain 0 \<lparr>jb = ?at x, aops = [None], astray = []\<rparr> \<lparr>jb = ?at y, aops = [None], astray = []\<rparr>"
    if "try_quiescent (bgate (?at x), x) (bgate (?at x), y)" "\<forall>f. x \<noteq> Quiescent f" for x y
    using quiet_run [of 0 "?at x" "bgate (?at x)" y] that by (simp add: async_drain_def on_buffered_def bat_def)
  have "?run (asat (?at Idle) None False 0 [] SyncIdle 0)"
    unfolding init F_def by (rule native_append_run)
  then have "?run (asat (?at Idle) None False 0 [] (SyncEnter 13) 13)"
    by (rule go) (use sync_call [where t = 0 and st = "asat (?at Idle) None False 0 [] SyncIdle 0"
        and rested = "\<lambda>j. buffered_rested (jb j)" and logb = "\<lambda>j. blog (jb j)" and lsn = 13] len in \<open>simp add: native_sync_simps\<close>)
  then have "?run (asat (?at Idle) None False 0 [] (SyncLock 13) 13)"
    by (rule go) (use sync_fast [where t = 0 and st = "asat (?at Idle) None False 0 [] (SyncEnter 13) 13" and lsn = 13] in
      \<open>simp add: native_sync_simps\<close>)
  then have "?run (asat (?at Idle) None True 0 [] (LeaderFlush 13) 13)"
    by (rule go) (use task_attempt [where t = 0 and st = "asat (?at Idle) None False 0 [] (SyncLock 13) 13" and lsn = 13
        and pois = "\<lambda>j. bpoison (jb j)" and contended = False and a = AttemptLeader] in \<open>simp add: native_sync_simps\<close>)
  then have "?run (asat (?at (QuietRead 13)) None True 0 [] (LeaderFlush 13) 13)"
    by (rule go [OF _ asat_drain [OF quiet]]) (use quiet_read [of "bgate (?at Idle)"] in \<open>simp_all add: bat_def\<close>)
  then have "?run (asat (?at (QuietZero 13)) None True 0 [] (LeaderFlush 13) 13)"
    by (rule go [OF _ asat_drain [OF quiet]]) (use quiet_idle0 [of "bgate (?at Idle)" 13] in \<open>simp_all add: bat_def\<close>)
  then have "?run (asat (?at (Quiescent 13)) None True 0 [] (LeaderFlush 13) 13)"
    by (rule go [OF _ asat_drain [OF quiet]]) (use quiet_idle1 [of "bgate (?at Idle)" 13] in \<open>simp_all add: bat_def\<close>)
  then have "?run (asat (?at Idle) None True 0 [] (LeaderCheck 13 13) 13)"
    by (rule go) (use sync_flushed [where t = 0 and st = "asat (?at (Quiescent 13)) None True 0 [] (LeaderFlush 13) 13" and lsn = 13
        and ret = async_drained and r = "Inr 13" and b' = "\<lparr>jb = ?at Idle, aops = [None], astray = []\<rparr>"] in
      \<open>simp add: native_sync_simps\<close>)
  then have "?run (asat (?at Idle) None True 0 [] (LeaderSync 13 13) 13)"
    by (rule go) (use sync_check [where t = 0 and st = "asat (?at Idle) None True 0 [] (LeaderCheck 13 13) 13" and lsn = 13 and f = 13
        and pois = "\<lambda>j. bpoison (jb j)"] in \<open>simp add: native_sync_simps\<close>)
  then have "?run (asat (?at Idle) None True 0 F (LeaderDrop 13 (Inr 13)) 13)"
    by (rule go) (use task_fsync_ok [where t = 0 and st = "asat (?at Idle) None True 0 [] (LeaderSync 13 13) 13" and lsn = 13 and f = 13
        and r = "Inr 0" and l = "\<lparr>ll_frontier = 13, ll_synced = True\<rparr>" and content = "\<lambda>j. contents (bdisk (jb j))"] in \<open>simp add: native_sync_simps\<close>)
  then show ?thesis
    by (rule go) (use task_end [OF _ _ refl, where t = 0 and st = "asat (?at Idle) None True 0 F (LeaderDrop 13 (Inr 13)) 13"
        and lsn = 13 and r = "Inr 13"] in \<open>simp add: native_sync_simps\<close>)
qed

lemma async_sample_run:
  "\<exists>st. (async_step rfc3720)\<^sup>*\<^sup>* (async_init 1 \<lparr>contents = [], script = [], oom = False\<rparr>) st \<and>
     spcs st ! 0 = SyncDone 13 (Inr ()) \<and> goals st ! 0 = 13 \<and> blog (jb (backend st)) = frame rfc3720 [7] \<and>
     crash_image (stable st) (contents (bdisk (jb (backend st)))) (frame rfc3720 [7] @ [9])"
proof -
  let ?F = "frame rfc3720 [7]"
  let ?st = "asat (bat 0 0 0 Free 13 Idle NoWork ?F ?F) None False 13 ?F (SyncDone 13 (Inr ())) 13"
  have "crash_image (stable ?st) (contents (bdisk (jb (backend ?st)))) (?F @ [9])"
    by (auto simp: crash_image_def asat_def bat_def)
  moreover have "spcs ?st ! 0 = SyncDone 13 (Inr ())" "goals ?st ! 0 = 13" "blog (jb (backend ?st)) = ?F"
    by (simp_all add: asat_def bat_def)
  ultimately show ?thesis using native_sync_run by blast
qed

theorem async_leader_role_is_held_witness:
  "\<exists>st. (async_step rfc3720)\<^sup>*\<^sup>* (async_init 1 \<lparr>contents = [], script = [], oom = False\<rparr>) st \<and>
     spcs st ! 0 = SyncDone 13 (Inr ()) \<and> \<not> gc_in_flight (gcs st)"
proof -
  obtain st where st: "(async_step rfc3720)\<^sup>*\<^sup>* (async_init 1 \<lparr>contents = [], script = [], oom = False\<rparr>) st"
    "spcs st ! 0 = SyncDone 13 (Inr ())" using async_sample_run by blast
  from async_leader_role_is_held [OF st(1)] st show ?thesis by auto
qed

end
