(* ===== verification/Fsys_Pool.thy ===== *)
theory Fsys_Pool
  imports Fsys_Platform "HOL-Library.Multiset"
begin

text \<open>
  The pool of aligned buffers (\<open>src/buffer/pool.rs\<close>, \<open>src/buffer/aligned.rs\<close>): a lock-free free queue,
  a counter of allocations, and a condition variable for callers that find the pool exhausted.

  One step is one atomic action of one call: an operation of the queue, a load, a compare-exchange, a
  lock, a wait, a notification. A slot of the state is one lease with the call that asked for it. A
  buffer is a number the allocator hands out; waiting on the condition variable releases the lock in
  the same step, as the condition variable does.
\<close>

section \<open>Construction\<close>

record layout =
  lay_size :: nat
  lay_align :: nat

definition isize_max :: nat where
  "isize_max = 2 ^ 63 - 1"

definition from_size_align :: "nat \<Rightarrow> nat \<Rightarrow> layout option" where
  "from_size_align sz align =
     (if is_power_of_two align \<and> sz \<le> isize_max - (align - 1)
      then Some \<lparr>lay_size = sz, lay_align = align\<rparr> else None)"

record pool =
  free_q :: "nat list"
  allocated :: nat
  pool_capacity :: nat
  block_layout :: layout
  wait_lock :: "nat option"

definition pool_new :: "nat \<Rightarrow> nat \<Rightarrow> nat \<Rightarrow> pool result" where
  "pool_new cap block_size block_align =
     (if block_align = 0 \<or> \<not> is_power_of_two block_align then
        Inl (AlignmentRequired ''buffer pool block_align must be a non-zero power of two'')
      else if block_size = 0 \<or> block_size mod block_align \<noteq> 0 then
        Inl (AlignmentRequired ''buffer pool block_size must be a non-zero multiple of block_align'')
      else case from_size_align block_size block_align of
          None \<Rightarrow> Inl (AlignmentRequired ''buffer pool layout rejected by Layout::from_size_align'')
        | Some l \<Rightarrow>
            if cap = 0 then Inl (AlignmentRequired ''buffer pool capacity must be > 0'')
            else Inr \<lparr>free_q = [], allocated = 0, pool_capacity = cap, block_layout = l, wait_lock = None\<rparr>)"

section \<open>Leases\<close>

text \<open>
  The places of a call: \<open>PoolPop\<close> is the head of the loop of \<open>lease\<close>, \<open>PoolCas a\<close> the compare-exchange on
  the value it loaded, \<open>PoolAlloc\<close> the call of the allocator, \<open>PoolUndo\<close> the roll-back; \<open>WaitLock\<close> to
  \<open>Asleep\<close> are \<open>wait_for_return\<close>, and \<open>Woken\<close> is a call that has to take the lock back. \<open>Leased\<close> holds a
  buffer; \<open>Returning\<close> and \<open>Notifying\<close> are \<open>return_allocation\<close>.
\<close>

datatype pool_pc =
    PoolIdle
  | PoolPop | PoolLoad | PoolCas nat | PoolAlloc | PoolUndo
  | WaitLock | WaitFree | WaitCount | WaitSleep | Asleep | PoolWoken
  | Leased nat | Returning nat | Freeing | Notifying

record pool_state =
  the_pool :: pool
  pool_pcs :: "pool_pc list"
  next_buf :: nat

definition set_call :: "nat \<Rightarrow> pool_pc \<Rightarrow> pool_state \<Rightarrow> pool_state" where
  "set_call t x s = s\<lparr>pool_pcs := (pool_pcs s)[t := x]\<rparr>"

text \<open>\<open>lease\<close>, without the waiting.\<close>

inductive lease_step :: "nat \<Rightarrow> pool_state \<Rightarrow> pool_state \<Rightarrow> bool" for t where
  lease_call: "pool_pcs s ! t = PoolIdle \<Longrightarrow> lease_step t s (set_call t PoolPop s)"
| lease_pop: "pool_pcs s ! t = PoolPop \<Longrightarrow> free_q (the_pool s) = b # bs \<Longrightarrow>
    lease_step t s (set_call t (Leased b) (s\<lparr>the_pool := (the_pool s)\<lparr>free_q := bs\<rparr>\<rparr>))"
| lease_empty: "pool_pcs s ! t = PoolPop \<Longrightarrow> free_q (the_pool s) = [] \<Longrightarrow> lease_step t s (set_call t PoolLoad s)"
| lease_load: "pool_pcs s ! t = PoolLoad \<Longrightarrow>
    lease_step t s (set_call t
      (if allocated (the_pool s) < pool_capacity (the_pool s) then PoolCas (allocated (the_pool s)) else WaitLock) s)"
| lease_cas: "pool_pcs s ! t = PoolCas a \<Longrightarrow> allocated (the_pool s) = a \<Longrightarrow>
    lease_step t s (set_call t PoolAlloc (s\<lparr>the_pool := (the_pool s)\<lparr>allocated := a + 1\<rparr>\<rparr>))"
| lease_race: "pool_pcs s ! t = PoolCas a \<Longrightarrow> allocated (the_pool s) \<noteq> a \<Longrightarrow> lease_step t s (set_call t PoolPop s)"
| lease_alloc: "pool_pcs s ! t = PoolAlloc \<Longrightarrow>
    lease_step t s (set_call t (Leased (next_buf s)) (s\<lparr>next_buf := next_buf s + 1\<rparr>))"
| lease_oom: "pool_pcs s ! t = PoolAlloc \<Longrightarrow> lease_step t s (set_call t PoolUndo s)"
| lease_undo: "pool_pcs s ! t = PoolUndo \<Longrightarrow>
    lease_step t s (set_call t WaitLock (s\<lparr>the_pool := (the_pool s)\<lparr>allocated := allocated (the_pool s) - 1\<rparr>\<rparr>))"

text \<open>\<open>wait_for_return\<close>; a woken call takes the lock back and drops it when it returns.\<close>

inductive wait_step :: "nat \<Rightarrow> pool_state \<Rightarrow> pool_state \<Rightarrow> bool" for t where
  wait_take: "pool_pcs s ! t = WaitLock \<Longrightarrow> wait_lock (the_pool s) = None \<Longrightarrow>
    wait_step t s (set_call t WaitFree (s\<lparr>the_pool := (the_pool s)\<lparr>wait_lock := Some t\<rparr>\<rparr>))"
| wait_free: "pool_pcs s ! t = WaitFree \<Longrightarrow> free_q (the_pool s) \<noteq> [] \<Longrightarrow>
    wait_step t s (set_call t PoolPop (s\<lparr>the_pool := (the_pool s)\<lparr>wait_lock := None\<rparr>\<rparr>))"
| wait_none: "pool_pcs s ! t = WaitFree \<Longrightarrow> free_q (the_pool s) = [] \<Longrightarrow> wait_step t s (set_call t WaitCount s)"
| wait_room: "pool_pcs s ! t = WaitCount \<Longrightarrow> allocated (the_pool s) < pool_capacity (the_pool s) \<Longrightarrow>
    wait_step t s (set_call t PoolPop (s\<lparr>the_pool := (the_pool s)\<lparr>wait_lock := None\<rparr>\<rparr>))"
| wait_full: "pool_pcs s ! t = WaitCount \<Longrightarrow> \<not> allocated (the_pool s) < pool_capacity (the_pool s) \<Longrightarrow>
    wait_step t s (set_call t WaitSleep s)"
| wait_sleep: "pool_pcs s ! t = WaitSleep \<Longrightarrow>
    wait_step t s (set_call t Asleep (s\<lparr>the_pool := (the_pool s)\<lparr>wait_lock := None\<rparr>\<rparr>))"
| wait_spurious: "pool_pcs s ! t = Asleep \<Longrightarrow> wait_step t s (set_call t PoolWoken s)"
| wait_relock: "pool_pcs s ! t = PoolWoken \<Longrightarrow> wait_lock (the_pool s) = None \<Longrightarrow> wait_step t s (set_call t PoolPop s)"

text \<open>
  \<open>return_allocation\<close>, when the buffer is dropped: the queue takes it unless it is full, in which case
  the buffer is freed; then one sleeper is woken, if there is one.
\<close>

inductive return_step :: "nat \<Rightarrow> pool_state \<Rightarrow> pool_state \<Rightarrow> bool" for t where
  return_drop: "pool_pcs s ! t = Leased b \<Longrightarrow> return_step t s (set_call t (Returning b) s)"
| return_push: "pool_pcs s ! t = Returning b \<Longrightarrow> length (free_q (the_pool s)) < pool_capacity (the_pool s) \<Longrightarrow>
    return_step t s (set_call t Notifying (s\<lparr>the_pool := (the_pool s)\<lparr>free_q := free_q (the_pool s) @ [b]\<rparr>\<rparr>))"
| return_full: "pool_pcs s ! t = Returning b \<Longrightarrow> \<not> length (free_q (the_pool s)) < pool_capacity (the_pool s) \<Longrightarrow>
    return_step t s (set_call t Freeing s)"
| return_freed: "pool_pcs s ! t = Freeing \<Longrightarrow>
    return_step t s (set_call t Notifying (s\<lparr>the_pool := (the_pool s)\<lparr>allocated := allocated (the_pool s) - 1\<rparr>\<rparr>))"
| return_notify: "pool_pcs s ! t = Notifying \<Longrightarrow> u < length (pool_pcs s) \<Longrightarrow> pool_pcs s ! u = Asleep \<Longrightarrow>
    return_step t s (set_call u PoolWoken (set_call t PoolIdle s))"
| return_quiet: "pool_pcs s ! t = Notifying \<Longrightarrow> Asleep \<notin> set (pool_pcs s) \<Longrightarrow> return_step t s (set_call t PoolIdle s)"

inductive pool_step :: "pool_state \<Rightarrow> pool_state \<Rightarrow> bool" where
  step_lease: "t < length (pool_pcs s) \<Longrightarrow> lease_step t s s' \<Longrightarrow> pool_step s s'"
| step_wait: "t < length (pool_pcs s) \<Longrightarrow> wait_step t s s' \<Longrightarrow> pool_step s s'"
| step_return: "t < length (pool_pcs s) \<Longrightarrow> return_step t s s' \<Longrightarrow> pool_step s s'"

definition pool_start :: "pool \<Rightarrow> nat \<Rightarrow> pool_state" where
  "pool_start p n = \<lparr>the_pool = p, pool_pcs = replicate n PoolIdle, next_buf = 0\<rparr>"

section \<open>The invariant\<close>

fun buffers :: "pool_pc \<Rightarrow> nat list" where
  "buffers (Leased b) = [b]"
| "buffers (Returning b) = [b]"
| "buffers _ = []"

fun reserves :: "pool_pc \<Rightarrow> nat" where
  "reserves PoolAlloc = 1"
| "reserves PoolUndo = 1"
| "reserves Freeing = 1"
| "reserves _ = 0"

fun holds_lock :: "pool_pc \<Rightarrow> bool" where
  "holds_lock WaitFree = True"
| "holds_lock WaitCount = True"
| "holds_lock WaitSleep = True"
| "holds_lock _ = False"

definition held :: "pool_state \<Rightarrow> nat list" where
  "held s = concat (map buffers (pool_pcs s))"

definition pool_inv :: "pool_state \<Rightarrow> bool" where
  "pool_inv s \<longleftrightarrow>
     distinct (free_q (the_pool s) @ held s) \<and> (\<forall>b\<in>set (free_q (the_pool s) @ held s). b < next_buf s) \<and>
     allocated (the_pool s) = length (free_q (the_pool s)) + length (held s) + sum_list (map reserves (pool_pcs s)) \<and>
     allocated (the_pool s) \<le> pool_capacity (the_pool s) \<and>
     (\<forall>t<length (pool_pcs s). holds_lock (pool_pcs s ! t) \<longleftrightarrow> wait_lock (the_pool s) = Some t) \<and>
     (\<forall>t. wait_lock (the_pool s) = Some t \<longrightarrow> t < length (pool_pcs s)) \<and>
     (\<forall>t<length (pool_pcs s). \<forall>a. pool_pcs s ! t = PoolCas a \<longrightarrow> a < pool_capacity (the_pool s)) \<and>
     Freeing \<notin> set (pool_pcs s)"

lemma set_call_simps [simp]:
  "the_pool (set_call t x s) = the_pool s" "next_buf (set_call t x s) = next_buf s"
  "pool_pcs (set_call t x s) = (pool_pcs s)[t := x]"
  by (simp_all add: set_call_def)

lemma held_same: "buffers x = buffers (pool_pcs s ! t) \<Longrightarrow> held (set_call t x s) = held s"
  unfolding held_def by (metis list_update_id map_update set_call_simps(3))

lemma reserves_same: "reserves x = reserves (ps ! t) \<Longrightarrow> map reserves (ps[t := x]) = map reserves ps"
  by (metis list_update_id map_update)

lemma held_mset:
  assumes "t < length (pool_pcs s)"
  shows "mset (held (set_call t x s)) + mset (buffers (pool_pcs s ! t)) = mset (held s) + mset (buffers x)"
proof -
  have "pool_pcs s = take t (pool_pcs s) @ pool_pcs s ! t # drop (Suc t) (pool_pcs s)" using assms by (rule id_take_nth_drop)
  then have "mset (held s) = mset (concat (map buffers (take t (pool_pcs s) @ pool_pcs s ! t # drop (Suc t) (pool_pcs s))))"
    unfolding held_def by metis
  then show ?thesis using assms by (simp add: held_def upd_conv_take_nth_drop)
qed

lemma reserves_update:
  assumes "t < length ps"
  shows "sum_list (map reserves (ps[t := x])) + reserves (ps ! t) = sum_list (map reserves ps) + reserves x"
proof -
  have "ps = take t ps @ ps ! t # drop (Suc t) ps" using assms by (rule id_take_nth_drop)
  then have "sum_list (map reserves ps) = sum_list (map reserves (take t ps @ ps ! t # drop (Suc t) ps))" by metis
  then show ?thesis using assms by (simp add: upd_conv_take_nth_drop)
qed

text \<open>
  A step that moves one call: its buffer comes from the free queue, goes there, stays, or is the new
  one \<open>N\<close>; the counter follows, and the lock is where the call says.
\<close>

lemma pool_inv_move:
  assumes "pool_inv s" and "t < length (pool_pcs s)" and "pool_pcs s' = (pool_pcs s)[t := x]"
    and "mset (free_q (the_pool s')) + mset (buffers x) = mset (free_q (the_pool s)) + mset (buffers (pool_pcs s ! t)) + mset N"
    and "N = [] \<and> next_buf s' = next_buf s \<or> N = [next_buf s] \<and> next_buf s' = Suc (next_buf s)"
    and "allocated (the_pool s') + reserves (pool_pcs s ! t) = allocated (the_pool s) + length N + reserves x"
    and "allocated (the_pool s') \<le> pool_capacity (the_pool s')" and "pool_capacity (the_pool s') = pool_capacity (the_pool s)"
    and "wait_lock (the_pool s') = (if holds_lock x then Some t else if holds_lock (pool_pcs s ! t) then None else wait_lock (the_pool s))"
    and "holds_lock x \<Longrightarrow> holds_lock (pool_pcs s ! t) \<or> wait_lock (the_pool s) = None"
    and "\<And>a. x = PoolCas a \<Longrightarrow> a < pool_capacity (the_pool s)" and "x \<noteq> Freeing"
  shows "pool_inv s'"
proof -
  let ?all = "\<lambda>s. free_q (the_pool s) @ held s"
  have i: "distinct (?all s)" "\<forall>b\<in>set (?all s). b < next_buf s"
    "allocated (the_pool s) = length (?all s) + sum_list (map reserves (pool_pcs s))"
    "\<forall>t<length (pool_pcs s). holds_lock (pool_pcs s ! t) \<longleftrightarrow> wait_lock (the_pool s) = Some t"
    "\<forall>t. wait_lock (the_pool s) = Some t \<longrightarrow> t < length (pool_pcs s)"
    "\<forall>t<length (pool_pcs s). \<forall>a. pool_pcs s ! t = PoolCas a \<longrightarrow> a < pool_capacity (the_pool s)"
    "Freeing \<notin> set (pool_pcs s)"
    using assms(1) by (auto simp: pool_inv_def)
  have h: "held s' = held (set_call t x s)" using assms(3) by (simp add: held_def)
  have "mset (?all s') + mset (buffers (pool_pcs s ! t)) = mset (N @ ?all s) + mset (buffers (pool_pcs s ! t))"
    using held_mset [OF assms(2), of x] assms(4) h
    by (metis (no_types, lifting) add.assoc add.commute mset_append)
  then have all: "mset (?all s') = mset (N @ ?all s)" by simp
  have new: "distinct (N @ ?all s)" "\<forall>b\<in>set (N @ ?all s). b < next_buf s'"
    using i(1,2) assms(5) by (auto simp: less_Suc_eq)
  have d: "distinct (?all s')" "\<forall>b\<in>set (?all s'). b < next_buf s'"
    using new mset_eq_imp_distinct_iff [OF all] mset_eq_setD [OF all] by simp_all
  have "length (?all s') = length N + length (?all s)" using mset_eq_length [OF all] by simp
  then have c: "allocated (the_pool s') = length (?all s') + sum_list (map reserves (pool_pcs s'))"
    using assms(3,6) i(3) reserves_update [OF assms(2), of x] by simp
  have l: "\<forall>u<length (pool_pcs s'). holds_lock (pool_pcs s' ! u) \<longleftrightarrow> wait_lock (the_pool s') = Some u"
    using i(4) assms(2,3,9,10) by (auto simp: nth_list_update)
  have l': "\<forall>u. wait_lock (the_pool s') = Some u \<longrightarrow> u < length (pool_pcs s')"
    using i(5) assms(2,3,9) by auto
  have r: "\<forall>u<length (pool_pcs s'). \<forall>a. pool_pcs s' ! u = PoolCas a \<longrightarrow> a < pool_capacity (the_pool s')"
    using i(6) assms(2,3,8,11) by (auto simp: nth_list_update)
  have "Freeing \<notin> set (pool_pcs s')"
    using i(7) assms(3,12) set_update_subset_insert [of "pool_pcs s" t x] by auto
  with d c l l' r assms(7) show ?thesis unfolding pool_inv_def by auto
qed

lemma pool_room:
  assumes "pool_inv s" and "t < length (pool_pcs s)" and "pool_pcs s ! t = Returning b"
  shows "length (free_q (the_pool s)) < pool_capacity (the_pool s)"
proof -
  have "mset (buffers (Returning b)) \<subseteq># mset (held s)"
    using held_mset [OF assms(2), of PoolIdle] assms(3) by (metis add_cancel_left_right buffers.simps(3) mset.simps(1) mset_subset_eq_add_right)
  from size_mset_mono [OF this] assms(1) show ?thesis by (simp add: pool_inv_def)
qed

lemma pool_inv_facts:
  assumes "pool_inv s" and "t < length (pool_pcs s)"
  shows "allocated (the_pool s) \<le> pool_capacity (the_pool s)"
    and "holds_lock (pool_pcs s ! t) \<Longrightarrow> wait_lock (the_pool s) = Some t"
    and "pool_pcs s ! t = PoolCas a \<Longrightarrow> a < pool_capacity (the_pool s)"
    and "pool_pcs s ! t \<noteq> Freeing"
  using assms by (auto simp: pool_inv_def in_set_conv_nth)

text \<open>A step that only moves a call, and one that takes or releases the lock with it.\<close>

lemma pool_inv_call:
  assumes "pool_inv s" and "t < length (pool_pcs s)" and "buffers x = buffers (pool_pcs s ! t)"
    and "reserves x = reserves (pool_pcs s ! t)" and "holds_lock x = holds_lock (pool_pcs s ! t)"
    and "\<And>a. x = PoolCas a \<Longrightarrow> a < pool_capacity (the_pool s)" and "x \<noteq> Freeing"
  shows "pool_inv (set_call t x s)"
  using assms pool_inv_facts(1,2) [OF assms(1,2)]
  by (intro pool_inv_move [OF assms(1,2), where N = "[]" and x = x]) auto

lemma pool_inv_lock:
  assumes "pool_inv s" and "t < length (pool_pcs s)" and "buffers x = buffers (pool_pcs s ! t)"
    and "reserves x = reserves (pool_pcs s ! t)" and "x \<noteq> Freeing" and "\<forall>a. x \<noteq> PoolCas a"
    and "holds_lock x \<and> wait_lock (the_pool s) = None \<and> l = Some t \<or> \<not> holds_lock x \<and> holds_lock (pool_pcs s ! t) \<and> l = None"
  shows "pool_inv (set_call t x (s\<lparr>the_pool := (the_pool s)\<lparr>wait_lock := l\<rparr>\<rparr>))"
  using assms pool_inv_facts(1,2) [OF assms(1,2)]
  by (intro pool_inv_move [OF assms(1,2), where N = "[]" and x = x]) auto

lemma lease_step_inv:
  assumes "lease_step t s s'" and "t < length (pool_pcs s)" and "pool_inv s"
  shows "pool_inv s'"
proof -
  note f = pool_inv_facts [OF assms(3,2)] and move = pool_inv_move [OF assms(3,2)]
  from assms(1) show ?thesis
  proof (cases rule: lease_step.cases)
    case (lease_pop b bs)
    then show ?thesis using f by (intro move [where N = "[]"]) auto
  next
    case (lease_cas a)
    then show ?thesis using f by (intro move [where N = "[]"]) auto
  next
    case lease_alloc
    then show ?thesis using f by (intro move [where N = "[next_buf s]"]) auto
  next
    case lease_undo
    have "reserves (pool_pcs s ! t) \<le> sum_list (map reserves (pool_pcs s))"
      using assms(2) by (intro member_le_sum_list) auto
    with lease_undo assms(3) have "0 < allocated (the_pool s)" by (simp add: pool_inv_def)
    with lease_undo show ?thesis using f by (intro move [where N = "[]"]) auto
  qed (auto intro!: pool_inv_call [OF assms(3,2)])
qed

lemma wait_step_inv:
  assumes "wait_step t s s'" and "t < length (pool_pcs s)" and "pool_inv s"
  shows "pool_inv s'"
  using assms(1) by (cases rule: wait_step.cases) (auto intro!: pool_inv_call [OF assms(3,2)] pool_inv_lock [OF assms(3,2)])

lemma return_step_inv:
  assumes "return_step t s s'" and "t < length (pool_pcs s)" and "pool_inv s"
  shows "pool_inv s'"
  using assms(1)
proof (cases rule: return_step.cases)
  case (return_push b)
  then show ?thesis using pool_inv_facts [OF assms(3,2)] by (intro pool_inv_move [OF assms(3,2), where N = "[]"]) auto
next
  case (return_full b)
  then show ?thesis using pool_room [OF assms(3,2)] by simp
next
  case return_freed
  then show ?thesis using pool_inv_facts(4) [OF assms(3,2)] by simp
next
  case (return_notify u)
  have i: "pool_inv (set_call t PoolIdle s)" using return_notify(2) by (intro pool_inv_call [OF assms(3,2)]) simp_all
  have "pool_pcs (set_call t PoolIdle s) ! u = Asleep" using return_notify(2,4) by (cases "u = t") auto
  with return_notify(1,3) show ?thesis using pool_inv_call [OF i, of u PoolWoken] by simp
qed (auto intro!: pool_inv_call [OF assms(3,2)])

lemma pool_step_inv: "pool_step s s' \<Longrightarrow> pool_inv s \<Longrightarrow> pool_inv s'"
  by (induction rule: pool_step.induct) (auto intro: lease_step_inv wait_step_inv return_step_inv)

lemma pool_step_keeps:
  "pool_step s s' \<Longrightarrow> length (pool_pcs s') = length (pool_pcs s) \<and> pool_capacity (the_pool s') = pool_capacity (the_pool s) \<and>
     block_layout (the_pool s') = block_layout (the_pool s)"
  by (auto elim!: pool_step.cases lease_step.cases wait_step.cases return_step.cases)

lemma pool_new_ok:
  "pool_new cap sz align = Inr p \<Longrightarrow>
     0 < cap \<and> p = \<lparr>free_q = [], allocated = 0, pool_capacity = cap, block_layout = \<lparr>lay_size = sz, lay_align = align\<rparr>, wait_lock = None\<rparr> \<and>
     is_power_of_two align \<and> align dvd sz \<and> 0 < sz \<and> sz \<le> isize_max"
  by (auto simp: pool_new_def from_size_align_def split: if_splits)

lemma pool_start_inv: "pool_new cap sz align = Inr p \<Longrightarrow> pool_inv (pool_start p n)"
  by (auto dest!: pool_new_ok simp: pool_inv_def pool_start_def held_def sum_list_replicate)

lemma pool_reachable:
  assumes "pool_step\<^sup>*\<^sup>* (pool_start p n) s" and "pool_new cap sz align = Inr p"
  shows "pool_inv s \<and> length (pool_pcs s) = n \<and> pool_capacity (the_pool s) = cap \<and>
    block_layout (the_pool s) = \<lparr>lay_size = sz, lay_align = align\<rparr>"
  using assms(1)
proof (induction rule: rtranclp_induct)
  case base
  show ?case using pool_start_inv [OF assms(2)] pool_new_ok [OF assms(2)] by (simp add: pool_start_def)
next
  case (step y z)
  then show ?case using pool_step_inv pool_step_keeps by metis
qed

section \<open>Properties\<close>

lemma held_nth: "u < length (pool_pcs s) \<Longrightarrow> b \<in> set (buffers (pool_pcs s ! u)) \<Longrightarrow> b \<in> set (held s)"
  unfolding held_def by auto

lemma held_once:
  assumes "distinct (held s)" and "t < length (pool_pcs s)" and "u < length (pool_pcs s)"
    and "b \<in> set (buffers (pool_pcs s ! t))" and "b \<in> set (buffers (pool_pcs s ! u))"
  shows "t = u"
proof (rule ccontr)
  assume "t \<noteq> u"
  let ?s = "set_call t PoolIdle s"
  have "mset (held s) = mset (held ?s) + mset (buffers (pool_pcs s ! t))" using held_mset [OF assms(2), of PoolIdle] by simp
  then have "count (mset (held s)) b = count (mset (held ?s)) b + count (mset (buffers (pool_pcs s ! t))) b" by simp
  moreover have "b \<in> set (held ?s)" using held_nth [of u ?s b] assms(3,5) \<open>t \<noteq> u\<close> by simp
  moreover have "0 < count (mset (buffers (pool_pcs s ! t))) b" using assms(4) by simp
  moreover have "0 < count (mset (held ?s)) b" using calculation(2) by simp
  moreover have "count (mset (held s)) b \<le> 1" using assms(1) distinct_count_atmost_1 [of "held s"] by (metis le_refl less_or_eq_imp_le linorder_le_cases zero_le_one)
  ultimately show False by linarith
qed

text \<open>
  C22: A leased buffer belongs to one lease: no other lease holds it, it is not in the free queue, and at
  most as many buffers exist as the pool was built for, each of the size and alignment asked for. So
  a returned buffer always finds room in the queue and is never freed behind the pool's back.
\<close>

theorem pool_leases_are_exclusive:
  assumes "pool_step\<^sup>*\<^sup>* (pool_start p n) s" and "pool_new cap sz align = Inr p"
    and "t < n" and "pool_pcs s ! t = Leased b \<or> pool_pcs s ! t = Returning b"
  shows "(\<forall>u<n. u \<noteq> t \<longrightarrow> pool_pcs s ! u \<noteq> Leased b \<and> pool_pcs s ! u \<noteq> Returning b) \<and>
    b \<notin> set (free_q (the_pool s)) \<and> length (free_q (the_pool s)) + length (held s) \<le> cap \<and>
    (pool_pcs s ! t = Returning b \<longrightarrow> length (free_q (the_pool s)) < pool_capacity (the_pool s)) \<and>
    lay_size (block_layout (the_pool s)) = sz \<and> lay_align (block_layout (the_pool s)) dvd sz"
proof -
  from pool_reachable [OF assms(1,2)] have i: "pool_inv s" "length (pool_pcs s) = n" "pool_capacity (the_pool s) = cap"
    "block_layout (the_pool s) = \<lparr>lay_size = sz, lay_align = align\<rparr>" by auto
  have b: "b \<in> set (buffers (pool_pcs s ! t))" using assms(4) by auto
  have d: "distinct (held s)" "set (free_q (the_pool s)) \<inter> set (held s) = {}" using i(1) by (auto simp: pool_inv_def)
  have "pool_pcs s ! u \<noteq> Leased b \<and> pool_pcs s ! u \<noteq> Returning b" if "u < n" "u \<noteq> t" for u
    using held_once [OF d(1), of t u b] that assms(3) i(2) b by auto
  moreover have "b \<notin> set (free_q (the_pool s))" using d(2) held_nth [of t s b] assms(3) i(2) b by auto
  moreover have "length (free_q (the_pool s)) + length (held s) \<le> cap" using i(1,3) by (simp add: pool_inv_def)
  ultimately show ?thesis using pool_room [OF i(1)] assms(2,3) i(2,4) pool_new_ok [OF assms(2)] by auto
qed

definition demo_pool :: pool where
  "demo_pool = \<lparr>free_q = [], allocated = 0, pool_capacity = 1, block_layout = \<lparr>lay_size = 512, lay_align = 512\<rparr>, wait_lock = None\<rparr>"

definition pool_at :: "nat list \<Rightarrow> nat \<Rightarrow> nat option \<Rightarrow> pool_pc \<Rightarrow> pool_pc \<Rightarrow> nat \<Rightarrow> pool_state" where
  "pool_at q a l x y k = \<lparr>the_pool = demo_pool\<lparr>free_q := q, allocated := a, wait_lock := l\<rparr>, pool_pcs = [x, y], next_buf = k\<rparr>"

lemma demo_pool_new: "pool_new 1 512 512 = Inr demo_pool"
proof -
  have "is_power_of_two 512" unfolding is_power_of_two_def by (intro exI [of _ 9]) simp
  then show ?thesis by (simp add: pool_new_def from_size_align_def isize_max_def demo_pool_def)
qed

lemma pool_lease_run: "pool_step\<^sup>*\<^sup>* (pool_start demo_pool 2) (pool_at [] 1 None (Leased 0) PoolIdle 1)"
proof -
  let ?run = "pool_step\<^sup>*\<^sup>* (pool_start demo_pool 2)"
  have go: "?run s'" if "?run s" "lease_step 0 s s'" "0 < length (pool_pcs s)" for s s'
    using that(1) step_lease [OF that(3,2)] by (rule rtranclp.rtrancl_into_rtrancl)
  have "pool_start demo_pool 2 = pool_at [] 0 None PoolIdle PoolIdle 0"
    by (simp add: pool_start_def pool_at_def demo_pool_def numeral_2_eq_2)
  then have "?run (pool_at [] 0 None PoolIdle PoolIdle 0)" by simp
  then have "?run (pool_at [] 0 None PoolPop PoolIdle 0)"
    by (rule go) (use lease_call [of "pool_at [] 0 None PoolIdle PoolIdle 0" 0] in \<open>simp_all add: pool_at_def set_call_def demo_pool_def\<close>)
  then have "?run (pool_at [] 0 None PoolLoad PoolIdle 0)"
    by (rule go) (use lease_empty [of "pool_at [] 0 None PoolPop PoolIdle 0" 0] in \<open>simp_all add: pool_at_def set_call_def demo_pool_def\<close>)
  then have "?run (pool_at [] 0 None (PoolCas 0) PoolIdle 0)"
    by (rule go) (use lease_load [of "pool_at [] 0 None PoolLoad PoolIdle 0" 0] in \<open>simp_all add: pool_at_def set_call_def demo_pool_def\<close>)
  then have "?run (pool_at [] 1 None PoolAlloc PoolIdle 0)"
    by (rule go) (use lease_cas [of "pool_at [] 0 None (PoolCas 0) PoolIdle 0" 0 0] in \<open>simp_all add: pool_at_def set_call_def demo_pool_def\<close>)
  then show ?thesis
    by (rule go) (use lease_alloc [of "pool_at [] 1 None PoolAlloc PoolIdle 0" 0] in \<open>simp_all add: pool_at_def set_call_def demo_pool_def\<close>)
qed

lemma pool_wait_run: "pool_step\<^sup>*\<^sup>* (pool_at [] 1 None (Leased 0) PoolIdle 1) (pool_at [] 1 (Some 1) (Leased 0) WaitSleep 1)"
proof -
  let ?run = "pool_step\<^sup>*\<^sup>* (pool_at [] 1 None (Leased 0) PoolIdle 1)"
  have go: "?run s'" if "?run s" "lease_step 1 s s' \<or> wait_step 1 s s'" "1 < length (pool_pcs s)" for s s'
    using that step_lease [OF that(3)] step_wait [OF that(3)] by (meson rtranclp.rtrancl_into_rtrancl)
  have "?run (pool_at [] 1 None (Leased 0) PoolIdle 1)" by simp
  then have "?run (pool_at [] 1 None (Leased 0) PoolPop 1)"
    by (rule go) (use lease_call [of "pool_at [] 1 None (Leased 0) PoolIdle 1" 1] in \<open>simp_all add: pool_at_def set_call_def demo_pool_def\<close>)
  then have "?run (pool_at [] 1 None (Leased 0) PoolLoad 1)"
    by (rule go) (use lease_empty [of "pool_at [] 1 None (Leased 0) PoolPop 1" 1] in \<open>simp_all add: pool_at_def set_call_def demo_pool_def\<close>)
  then have "?run (pool_at [] 1 None (Leased 0) WaitLock 1)"
    by (rule go) (use lease_load [of "pool_at [] 1 None (Leased 0) PoolLoad 1" 1] in \<open>simp_all add: pool_at_def set_call_def demo_pool_def\<close>)
  then have "?run (pool_at [] 1 (Some 1) (Leased 0) WaitFree 1)"
    by (rule go) (use wait_take [of "pool_at [] 1 None (Leased 0) WaitLock 1" 1] in \<open>simp_all add: pool_at_def set_call_def demo_pool_def\<close>)
  then have "?run (pool_at [] 1 (Some 1) (Leased 0) WaitCount 1)"
    by (rule go) (use wait_none [of "pool_at [] 1 (Some 1) (Leased 0) WaitFree 1" 1] in \<open>simp_all add: pool_at_def set_call_def demo_pool_def\<close>)
  then show ?thesis
    by (rule go) (use wait_full [of "pool_at [] 1 (Some 1) (Leased 0) WaitCount 1" 1] in \<open>simp_all add: pool_at_def set_call_def demo_pool_def\<close>)
qed

lemma pool_return_run: "pool_step\<^sup>*\<^sup>* (pool_at [] 1 (Some 1) (Leased 0) WaitSleep 1) (pool_at [0] 1 None PoolIdle Asleep 1)"
proof -
  let ?run = "pool_step\<^sup>*\<^sup>* (pool_at [] 1 (Some 1) (Leased 0) WaitSleep 1)"
  have go: "?run s'" if "?run s" "return_step 0 s s'" "0 < length (pool_pcs s)" for s s'
    using that(1) step_return [OF that(3,2)] by (rule rtranclp.rtrancl_into_rtrancl)
  have "?run (pool_at [] 1 (Some 1) (Leased 0) WaitSleep 1)" by simp
  then have "?run (pool_at [] 1 (Some 1) (Returning 0) WaitSleep 1)"
    by (rule go) (use return_drop [of "pool_at [] 1 (Some 1) (Leased 0) WaitSleep 1" 0 0] in \<open>simp_all add: pool_at_def set_call_def demo_pool_def\<close>)
  then have "?run (pool_at [0] 1 (Some 1) Notifying WaitSleep 1)"
    by (rule go) (use return_push [of "pool_at [] 1 (Some 1) (Returning 0) WaitSleep 1" 0 0] in \<open>simp_all add: pool_at_def set_call_def demo_pool_def\<close>)
  then have "?run (pool_at [0] 1 (Some 1) PoolIdle WaitSleep 1)"
    by (rule go) (use return_quiet [of "pool_at [0] 1 (Some 1) Notifying WaitSleep 1" 0] in \<open>simp_all add: pool_at_def set_call_def demo_pool_def\<close>)
  moreover have "pool_step (pool_at [0] 1 (Some 1) PoolIdle WaitSleep 1) (pool_at [0] 1 None PoolIdle Asleep 1)"
    by (rule step_wait [of 1]) (use wait_sleep [of "pool_at [0] 1 (Some 1) PoolIdle WaitSleep 1" 1] in \<open>simp_all add: pool_at_def set_call_def demo_pool_def\<close>)
  ultimately show ?thesis by (rule rtranclp.rtrancl_into_rtrancl)
qed

theorem pool_leases_are_exclusive_witness:
  "\<exists>s. pool_step\<^sup>*\<^sup>* (pool_start demo_pool 2) s \<and> pool_pcs s ! 0 = Leased 0 \<and> 0 \<notin> set (free_q (the_pool s))"
proof (intro exI conjI)
  let ?s = "pool_at [] 1 None (Leased 0) PoolIdle 1"
  show "pool_step\<^sup>*\<^sup>* (pool_start demo_pool 2) ?s" by (rule pool_lease_run)
  show "pool_pcs ?s ! 0 = Leased 0" by (simp add: pool_at_def)
  from pool_leases_are_exclusive [OF pool_lease_run demo_pool_new, of 0 0] show "0 \<notin> set (free_q (the_pool ?s))"
    by (simp add: pool_at_def)
qed

text \<open>
  C23: A wake-up can be lost. The buffer is returned and the notification sent without the lock, so both
  can fall between the last check of a caller that found the pool exhausted and its going to sleep:
  then it sleeps while the only buffer lies in the free queue, nobody else is active, and only another
  call or a spurious wake-up can change that.
\<close>

theorem pool_wakeup_can_be_lost:
  "\<exists>p s. pool_new 1 512 512 = Inr p \<and> pool_step\<^sup>*\<^sup>* (pool_start p 2) s \<and> pool_pcs s = [PoolIdle, Asleep] \<and>
     free_q (the_pool s) = [0] \<and> {s'. pool_step s s'} = {set_call 0 PoolPop s, set_call 1 PoolWoken s}"
proof (intro exI conjI)
  let ?s = "pool_at [0] 1 None PoolIdle Asleep 1"
  show "pool_new 1 512 512 = Inr demo_pool" by (rule demo_pool_new)
  show "pool_step\<^sup>*\<^sup>* (pool_start demo_pool 2) ?s"
    using rtranclp_trans [OF rtranclp_trans [OF pool_lease_run pool_wait_run] pool_return_run] .
  show "pool_pcs ?s = [PoolIdle, Asleep]" "free_q (the_pool ?s) = [0]" by (simp_all add: pool_at_def)
  have n: "length (pool_pcs ?s) = 2" by (simp add: pool_at_def)
  have "s' = set_call 0 PoolPop ?s" if "lease_step t ?s s'" "t < 2" for t s'
    using that by (cases rule: lease_step.cases) (auto simp: pool_at_def less_2_cases_iff)
  moreover have "s' = set_call 1 PoolWoken ?s" if "wait_step t ?s s'" "t < 2" for t s'
    using that by (cases rule: wait_step.cases) (auto simp: pool_at_def less_2_cases_iff)
  moreover have False if "return_step t ?s s'" "t < 2" for t s'
    using that by (cases rule: return_step.cases) (auto simp: pool_at_def less_2_cases_iff)
  ultimately have "s' = set_call 0 PoolPop ?s \<or> s' = set_call 1 PoolWoken ?s" if "pool_step ?s s'" for s'
    using n that by (metis pool_step.cases)
  moreover have "pool_step ?s (set_call 0 PoolPop ?s)" using step_lease [OF _ lease_call [of ?s 0]] n by (simp add: pool_at_def)
  moreover have "pool_step ?s (set_call 1 PoolWoken ?s)" using step_wait [OF _ wait_spurious [of ?s 1]] n by (simp add: pool_at_def)
  ultimately show "{s'. pool_step ?s s'} = {set_call 0 PoolPop ?s, set_call 1 PoolWoken ?s}" by blast
qed

end
