(* ===== verification/Fsys_Ring.thy ===== *)
theory Fsys_Ring
  imports Fsys_Platform "HOL-Library.Multiset"
begin

text \<open>
  The owner thread of the blocking ring (\<open>src/platform/linux_iouring.rs\<close>: \<open>send\<close>, \<open>drive\<close>,
  \<open>reply_with\<close>, \<open>owner_loop\<close>). A caller lends its buffer, sends an operation and blocks on the reply;
  the owner serves one operation at a time, pushes its entries as one batch and waits for a
  completion of each. The kernel consumes entries when the owner enters it (or by itself, with
  SQPOLL), may interrupt or refuse the call, and completes consumed entries in any order, linked ones
  in theirs. A call has a number, and an entry is the call, its kind and its place in the batch.
\<close>

section \<open>Calls and results\<close>

datatype ring_kind = RkWrite nat | RkRead nat | RkFdatasync | RkLinked nat | RkFixed nat | RkRegister

type_synonym entry = "nat \<times> ring_kind \<times> nat"

fun batch :: "ring_kind \<Rightarrow> nat" where
  "batch RkRegister = 0"
| "batch (RkLinked n) = 2"
| "batch _ = 1"

definition entries :: "nat \<Rightarrow> ring_kind \<Rightarrow> entry list" where
  "entries i k = map (\<lambda>idx. (i, k, idx)) [0..<batch k]"

definition cqe_error :: "int \<Rightarrow> error" where
  "cqe_error res = Io (IoError OtherKind (''os error '' @ show_int (min (- res) 2147483647)))"

definition cqe_bytes :: "int \<Rightarrow> nat result" where
  "cqe_bytes res = (if res < 0 then Inl (cqe_error res) else Inr (nat res))"

definition ECANCELED :: int where
  "ECANCELED = 125"

datatype ring_reply = RBytes "nat result" | RUnit "unit result" | RChain "(nat \<times> bool) result" | ROwnerDead

text \<open>What each arm of the loop makes of the results of its batch.\<close>

fun ring_finish :: "ring_kind \<Rightarrow> int list \<Rightarrow> ring_reply" where
  "ring_finish RkFdatasync rs = RUnit (bind_ok (cqe_bytes (rs ! 0)) (\<lambda>_. Inr ()))"
| "ring_finish (RkLinked buf_len) rs =
     RChain (bind_ok (cqe_bytes (rs ! 0)) (\<lambda>written.
       if 0 \<le> rs ! 1 then Inr (written, True)
       else if rs ! 1 = - ECANCELED \<and> written < buf_len then Inr (written, False)
       else Inl (cqe_error (rs ! 1))))"
| "ring_finish _ rs = RBytes (cqe_bytes (rs ! 0))"

fun ring_reject :: "ring_kind \<Rightarrow> error \<Rightarrow> ring_reply" where
  "ring_reject RkFdatasync e = RUnit (Inl e)"
| "ring_reject (RkLinked _) e = RChain (Inl e)"
| "ring_reject _ e = RBytes (Inl e)"

definition queue_full :: error where
  "queue_full = Io (IoError OtherKind ''io_uring submission queue full'')"

section \<open>The owner thread\<close>

text \<open>
  \<open>RDrive\<close> is \<open>drive\<close> with the results seen so far, outside or inside its reaping loop; \<open>RReply\<close> has the
  reply and whether the ring may go on.
\<close>

datatype ring_pc =
    RIdle
  | RDrive nat ring_kind "int option list" bool
  | RReply nat ring_reply bool
  | RGone

record ring =
  r_queue :: "(nat \<times> ring_kind) list"
  r_owner :: ring_pc
  r_sq :: "entry list"
  r_kernel :: "entry list"
  r_cq :: "(entry \<times> int) list"
  r_sent :: "(nat \<times> ring_kind) list"
  r_replies :: "(nat \<times> ring_reply) list"
  r_log :: "(entry \<times> int) list"

definition ring_new :: ring where
  "ring_new = \<lparr>r_queue = [], r_owner = RIdle, r_sq = [], r_kernel = [], r_cq = [], r_sent = [], r_replies = [], r_log = []\<rparr>"

definition reaped :: "int option list \<Rightarrow> nat" where
  "reaped rs = length (filter (\<lambda>r. r \<noteq> None) rs)"

text \<open>A call: refused at once when the owner is gone.\<close>

definition ring_send :: "nat \<Rightarrow> ring_kind \<Rightarrow> ring \<Rightarrow> ring" where
  "ring_send i k r =
     (if r_owner r = RGone then r\<lparr>r_sent := r_sent r @ [(i, k)], r_replies := r_replies r @ [(i, ROwnerDead)]\<rparr>
      else r\<lparr>r_sent := r_sent r @ [(i, k)], r_queue := r_queue r @ [(i, k)]\<rparr>)"

text \<open>The start of \<open>drive\<close>: all entries of the batch, or none.\<close>

definition drive_push :: "nat \<Rightarrow> nat \<Rightarrow> ring_kind \<Rightarrow> ring \<Rightarrow> ring" where
  "drive_push cap i k r =
     (if length (r_sq r) + batch k \<le> cap
      then r\<lparr>r_sq := r_sq r @ entries i k, r_owner := RDrive i k (replicate (batch k) None) False\<rparr>
      else r\<lparr>r_owner := RReply i (ring_reject k queue_full) False\<rparr>)"

text \<open>
  One \<open>submit_and_wait\<close> that made the kernel consume \<open>n\<close> entries and returned Ok, or an error that may
  be transient.
\<close>

definition drive_enter :: "bool \<Rightarrow> nat \<Rightarrow> (bool \<times> error) option \<Rightarrow> ring \<Rightarrow> ring" where
  "drive_enter sqpoll n outcome r =
     (case r_owner r of
        RDrive i k rs False \<Rightarrow>
          let r1 = r\<lparr>r_sq := drop n (r_sq r), r_kernel := r_kernel r @ take n (r_sq r)\<rparr>
          in (case outcome of
                Some (transient, e) \<Rightarrow>
                  if \<not> transient \<and> \<not> sqpoll \<and> reaped rs = 0 \<and> length (r_sq r1) = length rs
                  then r1\<lparr>r_owner := RReply i (ring_reject k e) False\<rparr>
                  else r1\<lparr>r_owner := RDrive i k rs True\<rparr>
              | None \<Rightarrow> r1\<lparr>r_owner := RDrive i k rs True\<rparr>)
      | _ \<Rightarrow> r)"

text \<open>One completion taken from the queue; one that belongs to no open place is dropped.\<close>

definition drive_reap :: "ring \<Rightarrow> ring" where
  "drive_reap r =
     (case (r_owner r, r_cq r) of
        (RDrive i k rs True, ((_, _, idx), res) # cs) \<Rightarrow>
          r\<lparr>r_cq := cs,
            r_owner := RDrive i k (if idx < length rs \<and> rs ! idx = None then rs[idx := Some res] else rs) True\<rparr>
      | (RDrive i k rs True, []) \<Rightarrow> r\<lparr>r_owner := RDrive i k rs False\<rparr>
      | _ \<Rightarrow> r)"

definition drive_done :: "ring \<Rightarrow> ring" where
  "drive_done r =
     (case r_owner r of
        RDrive i k rs False \<Rightarrow>
          if reaped rs = length rs then r\<lparr>r_owner := RReply i (ring_finish k (map the rs)) True\<rparr> else r
      | _ \<Rightarrow> r)"

text \<open>\<open>reply_with\<close>, and the end of the loop after a refused submission: the queued calls find no owner.\<close>

definition ring_answer :: "ring \<Rightarrow> ring" where
  "ring_answer r =
     (case r_owner r of
        RReply i x True \<Rightarrow> r\<lparr>r_replies := r_replies r @ [(i, x)], r_owner := RIdle\<rparr>
      | RReply i x False \<Rightarrow>
          r\<lparr>r_replies := r_replies r @ (i, x) # map (\<lambda>c. (fst c, ROwnerDead)) (r_queue r), r_queue := [], r_owner := RGone\<rparr>
      | _ \<Rightarrow> r)"

section \<open>The kernel and the steps\<close>

text \<open>
  The result of an entry: no more than was asked for; the second of a linked pair comes after the
  first, and is cancelled when the first was not complete.
\<close>

fun kernel_may :: "(entry \<times> int) list \<Rightarrow> entry \<Rightarrow> int \<Rightarrow> bool" where
  "kernel_may log (i, RkWrite n, idx) res = (res \<le> int n)"
| "kernel_may log (i, RkRead n, idx) res = (res \<le> int n)"
| "kernel_may log (i, RkFixed n, idx) res = (res \<le> int n)"
| "kernel_may log (i, RkLinked n, idx) res =
     (if idx = 0 then res \<le> int n
      else res \<le> 0 \<and> (\<exists>w. ((i, RkLinked n, 0), w) \<in> set log \<and> (w \<noteq> int n \<longrightarrow> res = - ECANCELED)))"
| "kernel_may log (i, RkFdatasync, idx) res = (res \<le> 0)"
| "kernel_may log (i, RkRegister, idx) res = True"

inductive ring_step :: "nat \<Rightarrow> bool \<Rightarrow> ring \<Rightarrow> ring \<Rightarrow> bool" for cap sqpoll where
  ring_call: "i \<notin> fst ` set (r_sent r) \<Longrightarrow> ring_step cap sqpoll r (ring_send i k r)"
| ring_register: "r_owner r = RIdle \<Longrightarrow> r_queue r = (i, RkRegister) # q \<Longrightarrow>
    ring_step cap sqpoll r (r\<lparr>r_queue := q, r_owner := RReply i (RUnit x) True\<rparr>)"
| ring_drive: "r_owner r = RIdle \<Longrightarrow> r_queue r = (i, k) # q \<Longrightarrow> k \<noteq> RkRegister \<Longrightarrow>
    ring_step cap sqpoll r (drive_push cap i k (r\<lparr>r_queue := q\<rparr>))"
| ring_enter: "r_owner r = RDrive i k rs False \<Longrightarrow> reaped rs < length rs \<Longrightarrow>
    ring_step cap sqpoll r (drive_enter sqpoll n outcome r)"
| ring_reap: "r_owner r = RDrive i k rs True \<Longrightarrow> ring_step cap sqpoll r (drive_reap r)"
| ring_done: "r_owner r = RDrive i k rs False \<Longrightarrow> ring_step cap sqpoll r (drive_done r)"
| ring_reply: "r_owner r = RReply i x h \<Longrightarrow> ring_step cap sqpoll r (ring_answer r)"
| ring_close: "r_owner r = RIdle \<Longrightarrow> r_queue r = [] \<Longrightarrow> ring_step cap sqpoll r (r\<lparr>r_owner := RGone\<rparr>)"
| ring_poll: "sqpoll \<Longrightarrow> r_owner r \<noteq> RGone \<Longrightarrow> r_sq r = e # es \<Longrightarrow>
    ring_step cap sqpoll r (r\<lparr>r_sq := es, r_kernel := r_kernel r @ [e]\<rparr>)"
| ring_complete: "r_kernel r = es @ e # es' \<Longrightarrow> kernel_may (r_log r) e res \<Longrightarrow>
    ring_step cap sqpoll r (r\<lparr>r_kernel := es @ es', r_cq := r_cq r @ [(e, res)], r_log := r_log r @ [(e, res)]\<rparr>)"

section \<open>The invariant\<close>

fun serving :: "ring_pc \<Rightarrow> nat list" where
  "serving (RDrive i k rs d) = [i]"
| "serving (RReply i x h) = [i]"
| "serving _ = []"

definition calls_ok :: "ring \<Rightarrow> bool" where
  "calls_ok r \<longleftrightarrow>
     distinct (map fst (r_queue r) @ serving (r_owner r) @ map fst (r_replies r)) \<and>
     set (map fst (r_queue r) @ serving (r_owner r) @ map fst (r_replies r)) = fst ` set (r_sent r) \<and>
     distinct (map fst (r_sent r)) \<and> set (r_queue r) \<subseteq> set (r_sent r) \<and>
     distinct (r_sq r @ r_kernel r @ map fst (r_log r)) \<and>
     (\<forall>e\<in>set (r_sq r @ r_kernel r @ map fst (r_log r)).
        fst e \<in> set (serving (r_owner r) @ map fst (r_replies r)) \<and> (fst e, fst (snd e)) \<in> set (r_sent r))"

text \<open>What the owner's place says of the queues.\<close>

fun owner_ok :: "bool \<Rightarrow> ring \<Rightarrow> ring_pc \<Rightarrow> bool" where
  "owner_ok sqpoll r RIdle = (r_sq r = [] \<and> r_kernel r = [] \<and> r_cq r = [])"
| "owner_ok sqpoll r (RDrive i k rs d) =
     ((i, k) \<in> set (r_sent r) \<and> k \<noteq> RkRegister \<and> length rs = batch k \<and>
      distinct (r_sq r @ r_kernel r @ map fst (r_cq r)) \<and>
      set (r_sq r @ r_kernel r @ map fst (r_cq r)) = {(i, k, idx) |idx. idx < batch k \<and> rs ! idx = None} \<and>
      set (r_cq r) \<subseteq> set (r_log r) \<and>
      (\<forall>idx<batch k. \<forall>res. rs ! idx = Some res \<longrightarrow> ((i, k, idx), res) \<in> set (r_log r)))"
| "owner_ok sqpoll r (RReply i x h) =
     (r_kernel r = [] \<and> r_cq r = [] \<and> (\<forall>e\<in>set (r_sq r). fst e = i) \<and> (r_sq r = [] \<or> \<not> h \<and> \<not> sqpoll))"
| "owner_ok sqpoll r RGone = (r_kernel r = [] \<and> r_cq r = [] \<and> (r_sq r = [] \<or> \<not> sqpoll))"

text \<open>The second of a linked pair has run only after the first was complete.\<close>

definition chain_ok :: "(entry \<times> int) list \<Rightarrow> bool" where
  "chain_ok log \<longleftrightarrow>
     (\<forall>a c i n f. log = a @ ((i, RkLinked n, 1), f) # c \<longrightarrow> 0 \<le> f \<longrightarrow> ((i, RkLinked n, 0), int n) \<in> set a)"

text \<open>A reply is an error of the ring, or made from the results the kernel gave for the batch.\<close>

definition reply_good :: "(entry \<times> int) list \<Rightarrow> nat \<Rightarrow> ring_kind \<Rightarrow> ring_reply \<Rightarrow> bool" where
  "reply_good log i k x \<longleftrightarrow>
     k = RkRegister \<and> (\<exists>y. x = RUnit y) \<or> x = ROwnerDead \<or> (\<exists>e. x = ring_reject k e) \<or>
     (\<exists>rs. k \<noteq> RkRegister \<and> length rs = batch k \<and> x = ring_finish k rs \<and> (\<forall>idx<batch k. ((i, k, idx), rs ! idx) \<in> set log))"

definition replies_ok :: "ring \<Rightarrow> bool" where
  "replies_ok r \<longleftrightarrow>
     (\<forall>i k x. (i, k) \<in> set (r_sent r) \<longrightarrow> (i, x) \<in> set (r_replies r) \<or> (\<exists>h. r_owner r = RReply i x h) \<longrightarrow>
        reply_good (r_log r) i k x)"

definition ring_inv :: "bool \<Rightarrow> ring \<Rightarrow> bool" where
  "ring_inv sqpoll r \<longleftrightarrow> calls_ok r \<and> owner_ok sqpoll r (r_owner r) \<and> chain_ok (r_log r) \<and> replies_ok r"

lemma reaped_all: "reaped rs = length rs \<Longrightarrow> idx < length rs \<Longrightarrow> \<exists>x. rs ! idx = Some x"
  using length_filter_less [of "rs ! idx" rs "\<lambda>r. r \<noteq> None"] nth_mem [of idx rs]
  by (cases "rs ! idx") (auto simp: reaped_def simp del: nth_mem)

lemma entries_simps:
  "distinct (entries i k)" "set (entries i k) = {(i, k, idx) |idx. idx < batch k}" "length (entries i k) = batch k"
  by (auto simp: entries_def distinct_map inj_on_def)

lemma chain_ok_step: "ring_step cap sqpoll r r' \<Longrightarrow> chain_ok (r_log r) \<Longrightarrow> chain_ok (r_log r')"
proof (induction rule: ring_step.induct)
  case (ring_complete r es e es' res)
  show ?case unfolding chain_ok_def
  proof (intro allI impI)
    fix a c i n f
    assume s: "r_log (r\<lparr>r_kernel := es @ es', r_cq := r_cq r @ [(e, res)], r_log := r_log r @ [(e, res)]\<rparr>) =
        a @ ((i, RkLinked n, 1), f) # c" and f: "0 \<le> f"
    show "((i, RkLinked n, 0), int n) \<in> set a"
    proof (cases c rule: rev_cases)
      case Nil
      with s have "a = r_log r" "e = (i, RkLinked n, 1)" "res = f" by auto
      with ring_complete(2) f show ?thesis by (auto simp: ECANCELED_def)
    next
      case (snoc c' x)
      with s have "r_log r = a @ ((i, RkLinked n, 1), f) # c'" by auto
      with ring_complete(3) f show ?thesis by (auto simp: chain_ok_def)
    qed
  qed
qed (auto simp: ring_send_def drive_push_def drive_enter_def drive_reap_def drive_done_def ring_answer_def Let_def
    split: ring_pc.splits bool.splits option.splits list.splits prod.splits)

text \<open>The entries of a call that is driven, when none was consumed.\<close>

lemma none_consumed:
  assumes "owner_ok sqpoll r (RDrive i k rs d)" and "length (r_sq r) = length rs"
  shows "r_kernel r = [] \<and> r_cq r = [] \<and> (\<forall>e\<in>set (r_sq r). fst e = i)"
proof -
  let ?all = "r_sq r @ r_kernel r @ map fst (r_cq r)"
  have d: "distinct ?all" "set ?all \<subseteq> set (entries i k)" and l: "length rs = batch k"
    using assms(1) by (auto simp: entries_simps)
  have "length ?all = card (set ?all)" using distinct_card [OF d(1)] by simp
  also have "\<dots> \<le> card (set (entries i k))" by (rule card_mono [OF _ d(2)]) simp
  also have "\<dots> = batch k" using distinct_card [OF entries_simps(1)] entries_simps(3) by metis
  finally show ?thesis using assms(2) l d(2) by (auto simp: entries_simps)
qed

lemma moved_mset: "mset (drop n xs @ (ys @ take n xs) @ zs) = mset (xs @ ys @ zs)"
  by (metis (no_types, lifting) append.assoc append_take_drop_id mset_append union_commute union_assoc)

lemma owner_ok_reap:
  assumes "owner_ok sqpoll r (RDrive i k rs True)" and "r_owner r = RDrive i k rs True"
  shows "owner_ok sqpoll (drive_reap r) (r_owner (drive_reap r))"
proof (cases "r_cq r")
  case Nil
  with assms show ?thesis by (simp add: drive_reap_def)
next
  case (Cons c cs)
  obtain i' k' idx res where c: "c = ((i', k', idx), res)" by (metis prod.exhaust)
  let ?all = "r_sq r @ r_kernel r @ map fst (r_cq r)" and ?rest = "r_sq r @ r_kernel r @ map fst cs"
  have ok: "(i, k) \<in> set (r_sent r)" "k \<noteq> RkRegister" "length rs = batch k" "distinct ?all"
    "set ?all = {(i, k, idx) |idx. idx < batch k \<and> rs ! idx = None}" "set (r_cq r) \<subseteq> set (r_log r)"
    "\<forall>idx<batch k. \<forall>res. rs ! idx = Some res \<longrightarrow> ((i, k, idx), res) \<in> set (r_log r)"
    using assms(1) by simp_all
  have "(i', k', idx) \<in> set ?all" using Cons c by simp
  then have x: "i' = i" "k' = k" "idx < batch k" "rs ! idx = None" unfolding ok(5) by auto
  have "set ?all = insert (i, k, idx) (set ?rest)" "(i, k, idx) \<notin> set ?rest" "distinct ?rest"
    using ok(4) Cons c x by auto
  then have "set ?rest = {(i, k, j) |j. j < batch k \<and> rs ! j = None} - {(i, k, idx)}" unfolding ok(5) by blast
  also have "\<dots> = {(i, k, j) |j. j < batch k \<and> rs[idx := Some res] ! j = None}"
    using ok(3) x(3) by (auto simp: nth_list_update)
  finally have rest: "set ?rest = {(i, k, j) |j. j < batch k \<and> rs[idx := Some res] ! j = None}" "distinct ?rest"
    using \<open>distinct ?rest\<close> by blast+
  have "drive_reap r = r\<lparr>r_cq := cs, r_owner := RDrive i k (rs[idx := Some res]) True\<rparr>"
    using assms(2) Cons c x ok(3) by (simp add: drive_reap_def)
  moreover have "((i, k, idx), res) \<in> set (r_log r)" using ok(6) Cons c x by auto
  ultimately show ?thesis using rest ok(1-3,6,7) Cons x(3) by (auto simp: nth_list_update)
qed

lemma owner_ok_step:
  assumes "ring_step cap sqpoll r r'" and "calls_ok r" and "owner_ok sqpoll r (r_owner r)"
  shows "owner_ok sqpoll r' (r_owner r')"
  using assms(1)
proof (cases rule: ring_step.cases)
  case (ring_call i k)
  then show ?thesis using assms(3) by (cases "r_owner r") (auto simp: ring_send_def)
next
  case (ring_drive i k q)
  have e: "r_sq r = []" "r_kernel r = []" "r_cq r = []" using assms(3) ring_drive(2) by simp_all
  have "(i, k) \<in> set (r_sent r)" using assms(2) ring_drive(3) by (simp add: calls_ok_def)
  then show ?thesis using e ring_drive(1,4) entries_simps [of i k] by (auto simp: drive_push_def)
next
  case (ring_enter i k rs n outcome)
  let ?r = "r\<lparr>r_sq := drop n (r_sq r), r_kernel := r_kernel r @ take n (r_sq r)\<rparr>"
  have "mset (drop n (r_sq r) @ (r_kernel r @ take n (r_sq r)) @ map fst (r_cq r)) = mset (r_sq r @ r_kernel r @ map fst (r_cq r))"
    by (rule moved_mset)
  from mset_eq_imp_distinct_iff [OF this] mset_eq_setD [OF this] have ok: "owner_ok sqpoll ?r (RDrive i k rs d)" for d
    using assms(3) ring_enter(2) by auto
  have "owner_ok sqpoll (?r\<lparr>r_owner := RReply i x False\<rparr>) (RReply i x False)" if "length (r_sq ?r) = length rs" "\<not> sqpoll" for x
    using none_consumed [OF ok that(1)] that(2) by simp
  with ok ring_enter(1,2) show ?thesis
    unfolding drive_enter_def Let_def by (auto split: option.splits simp del: owner_ok.simps) auto
next
  case (ring_reap i k rs)
  then show ?thesis using owner_ok_reap [of sqpoll r i k rs] assms(3) by simp
next
  case (ring_done i k rs)
  have "r_sq r = [] \<and> r_kernel r = [] \<and> r_cq r = []" if "reaped rs = length rs"
  proof -
    have "set (r_sq r @ r_kernel r @ map fst (r_cq r)) = {}" using assms(3) ring_done(2) reaped_all [OF that] by auto
    then show ?thesis by simp
  qed
  then show ?thesis using ring_done(1,2) assms(3) by (auto simp: drive_done_def)
next
  case (ring_reply i x h)
  then show ?thesis using assms(3) by (cases h) (auto simp: ring_answer_def)
next
  case (ring_poll e es)
  then show ?thesis using assms(3) by (cases "r_owner r") auto
next
  case (ring_complete es e es' res)
  then show ?thesis using assms(3) by (cases "r_owner r") auto
qed (use assms(3) in auto)

lemma calls_ok_owner: "calls_ok r \<Longrightarrow> serving x = serving (r_owner r) \<Longrightarrow> calls_ok (r\<lparr>r_owner := x\<rparr>)"
  by (simp add: calls_ok_def)

lemma calls_ok_step:
  assumes "ring_step cap sqpoll r r'" and "calls_ok r" and "owner_ok sqpoll r (r_owner r)"
  shows "calls_ok r'"
  using assms(1)
proof (cases rule: ring_step.cases)
  case (ring_call i k)
  then show ?thesis using assms(2) by (auto simp: ring_send_def calls_ok_def)
next
  case (ring_drive i k q)
  have "\<forall>e\<in>set (map fst (r_log r)). fst e \<in> fst ` set (r_replies r) \<and> (fst e, fst (snd e)) \<in> set (r_sent r)"
    using assms(2) ring_drive(2) by (simp add: calls_ok_def)
  then have log: "a \<in> fst ` set (r_replies r) \<and> (a, b) \<in> set (r_sent r)" if "((a, b, c), d) \<in> set (r_log r)" for a b c d
    using that by force
  have i: "i \<notin> fst ` set (r_replies r)" "(i, k) \<in> set (r_sent r)" using assms(2) ring_drive(3) by (auto simp: calls_ok_def)
  have "r_sq r = []" "r_kernel r = []" using assms(3) ring_drive(2) by auto
  moreover have "set (entries i k) \<inter> fst ` set (r_log r) = {}" using log i(1) by (auto simp: entries_simps)
  moreover have "\<forall>e\<in>set (entries i k). fst e = i \<and> fst (snd e) = k" by (auto simp: entries_simps)
  moreover have "\<forall>e\<in>set (r_log r). fst (fst e) \<in> fst ` set (r_replies r) \<and> (fst (fst e), fst (snd (fst e))) \<in> set (r_sent r)"
    using log by auto
  ultimately show ?thesis using assms(2) ring_drive i(2) entries_simps(1) [of i k]
    by (auto simp: drive_push_def calls_ok_def dest: log)
next
  case (ring_enter i k rs n outcome)
  let ?r = "r\<lparr>r_sq := drop n (r_sq r), r_kernel := r_kernel r @ take n (r_sq r)\<rparr>"
  have "mset (drop n (r_sq r) @ (r_kernel r @ take n (r_sq r)) @ map fst (r_log r)) = mset (r_sq r @ r_kernel r @ map fst (r_log r))"
    by (rule moved_mset)
  from mset_eq_imp_distinct_iff [OF this] mset_eq_setD [OF this] have "calls_ok ?r"
    using assms(2) unfolding calls_ok_def by simp
  from calls_ok_owner [OF this] have "calls_ok (?r\<lparr>r_owner := RDrive i k rs True\<rparr>)" "calls_ok (?r\<lparr>r_owner := RReply i x False\<rparr>)" for x
    using ring_enter(2) by simp_all
  with ring_enter(1,2) show ?thesis unfolding drive_enter_def Let_def by (simp split: option.splits)
next
  case (ring_reply i x h)
  then show ?thesis using assms(2) by (cases h) (auto simp: ring_answer_def calls_ok_def comp_def)
next
  case (ring_reap i k rs)
  then show ?thesis using assms(2) by (auto simp: drive_reap_def calls_ok_def split: list.splits)
next
  case (ring_done i k rs)
  then show ?thesis using assms(2) by (auto simp: drive_done_def calls_ok_def)
next
  case ring_close
  then show ?thesis using calls_ok_owner [OF assms(2), of RGone] by simp
qed (use assms(2) in \<open>auto simp: calls_ok_def\<close>)

lemma reply_good_mono: "reply_good log i k x \<Longrightarrow> reply_good (log @ log') i k x"
  by (auto simp: reply_good_def simp del: ring_finish.simps ring_reject.simps)

lemma replies_ok_same:
  assumes "replies_ok r" and "r_sent r' = r_sent r" and "r_replies r' = r_replies r" and "r_log r' = r_log r @ l"
    and "\<And>i k x h. r_owner r' = RReply i x h \<Longrightarrow> (i, k) \<in> set (r_sent r) \<Longrightarrow> r_owner r = r_owner r' \<or> reply_good (r_log r') i k x"
  shows "replies_ok r'"
  unfolding replies_ok_def
proof (intro allI impI)
  fix i k x
  assume h: "(i, k) \<in> set (r_sent r')" "(i, x) \<in> set (r_replies r') \<or> (\<exists>h. r_owner r' = RReply i x h)"
  have old: "reply_good (r_log r) i k x" if "(i, x) \<in> set (r_replies r) \<or> (\<exists>h. r_owner r = RReply i x h)"
    using assms(1,2) h(1) that unfolding replies_ok_def by metis
  from h(2) show "reply_good (r_log r') i k x"
  proof
    assume "(i, x) \<in> set (r_replies r')"
    with old assms(3,4) reply_good_mono show ?thesis by simp
  next
    assume "\<exists>h. r_owner r' = RReply i x h"
    then obtain hh where o: "r_owner r' = RReply i x hh" by blast
    from assms(5) [OF o] h(1) assms(2) have "r_owner r = r_owner r' \<or> reply_good (r_log r') i k x" by simp
    with old o assms(4) reply_good_mono show ?thesis by metis
  qed
qed

lemma reply_good_reject: "reply_good log i k (ring_reject k e)" "reply_good log i RkRegister (RUnit y)" "reply_good log i k ROwnerDead"
  by (auto simp: reply_good_def)

lemma replies_ok_step:
  assumes "ring_step cap sqpoll r r'" and "calls_ok r" and "owner_ok sqpoll r (r_owner r)" and "replies_ok r"
  shows "replies_ok r'"
proof -
  note same = replies_ok_same [OF assms(4)]
  have one: "k' = k" if "(i, k) \<in> set (r_sent r)" "(i, k') \<in> set (r_sent r)" for i k k'
    using assms(2) that by (metis calls_ok_def eq_key_imp_eq_value)
  have old: "reply_good (r_log r) i k x" if "(i, k) \<in> set (r_sent r)" "(i, x) \<in> set (r_replies r) \<or> (\<exists>h. r_owner r = RReply i x h)" for i k x
    using assms(4) that unfolding replies_ok_def by blast
  from assms(1) show ?thesis
  proof (cases rule: ring_step.cases)
    case (ring_call i k)
    have new: "i \<notin> fst ` set (r_replies r)" "r_owner r \<noteq> RReply i x h" for x h
      using assms(2) ring_call(2) by (auto simp: calls_ok_def)
    have eq: "r_log r' = r_log r" "r_owner r' = r_owner r" "set (r_sent r') = insert (i, k) (set (r_sent r))"
      "set (r_replies r') \<subseteq> insert (i, ROwnerDead) (set (r_replies r))"
      using ring_call(1) by (auto simp: ring_send_def)
    show ?thesis unfolding replies_ok_def
    proof (intro allI impI)
      fix j l x
      assume j: "(j, l) \<in> set (r_sent r')" "(j, x) \<in> set (r_replies r') \<or> (\<exists>h. r_owner r' = RReply j x h)"
      show "reply_good (r_log r') j l x"
      proof (cases "j = i")
        case True
        have "(i, x) \<notin> set (r_replies r)" using new(1) by force
        with True j(2) new(2) eq(2,4) have "x = ROwnerDead" by auto
        then show ?thesis by (simp add: reply_good_reject)
      next
        case False
        with j eq show ?thesis using old [of j l x] by auto
      qed
    qed
  next
    case (ring_register i q x)
    have "(i, RkRegister) \<in> set (r_sent r)" using assms(2) ring_register(3) by (auto simp: calls_ok_def)
    with ring_register one show ?thesis by (intro same [where l = "[]"]) (auto simp: reply_good_def)
  next
    case (ring_drive i k q)
    have "(i, k) \<in> set (r_sent r)" using assms(2) ring_drive(3) by (auto simp: calls_ok_def)
    then have "k' = k" if "(i, k') \<in> set (r_sent r)" for k' using one that by blast
    with ring_drive show ?thesis
      by (intro same [where l = "[]"]) (auto simp: drive_push_def reply_good_reject split: if_splits)
  next
    case (ring_enter i k rs n outcome)
    have "(i, k) \<in> set (r_sent r)" using assms(3) ring_enter(2) by simp
    then have "k' = k" if "(i, k') \<in> set (r_sent r)" for k' using one that by blast
    with ring_enter(1,2) show ?thesis
      by (intro same [where l = "[]"]) (auto simp: drive_enter_def Let_def reply_good_reject split: option.splits if_splits)
  next
    case (ring_reap i k rs)
    then show ?thesis by (intro same [where l = "[]"]) (auto simp: drive_reap_def split: list.splits)
  next
    case (ring_done i k rs)
    have k: "(i, k) \<in> set (r_sent r)" "length rs = batch k"
      "\<forall>idx<batch k. \<forall>res. rs ! idx = Some res \<longrightarrow> ((i, k, idx), res) \<in> set (r_log r)"
      using assms(3) ring_done(2) by auto
    have good: "reply_good (r_log r) i k' (ring_finish k (map the rs))" if "reaped rs = length rs" "(i, k') \<in> set (r_sent r)" for k'
    proof -
      have "((i, k, idx), map the rs ! idx) \<in> set (r_log r)" if "idx < batch k" for idx
        using k(2,3) reaped_all [OF \<open>reaped rs = length rs\<close>, of idx] that by auto
      moreover have "k' = k" using one k(1) that(2) by blast
      moreover have "k \<noteq> RkRegister" using assms(3) ring_done(2) by auto
      ultimately show ?thesis using k(2) unfolding reply_good_def by (metis length_map)
    qed
    then show ?thesis using ring_done(1,2)
      by (intro same [where l = "[]"]) (auto simp: drive_done_def simp del: ring_finish.simps split: if_splits)
  next
    case (ring_reply i x h)
    have eq: "r_log r' = r_log r" "r_sent r' = r_sent r" "\<forall>i x h. r_owner r' \<noteq> RReply i x h"
      "set (r_replies r') \<subseteq> insert (i, x) (set (r_replies r)) \<union> {(j, ROwnerDead) |j. True}"
      using ring_reply by (cases h; auto simp: ring_answer_def)+
    show ?thesis unfolding replies_ok_def
    proof (intro allI impI)
      fix j l y
      assume j: "(j, l) \<in> set (r_sent r')" "(j, y) \<in> set (r_replies r') \<or> (\<exists>h. r_owner r' = RReply j y h)"
      then have "(j, y) \<in> set (r_replies r) \<or> (j, y) = (i, x) \<or> y = ROwnerDead" using eq(3,4) by auto
      with j(1) eq(1,2) old [of j l y] ring_reply(2) reply_good_reject(3) show "reply_good (r_log r') j l y" by auto
    qed
  next
    case (ring_complete es e es' res)
    then show ?thesis by (intro same [where l = "[(e, res)]"]) auto
  qed (auto intro!: same [where l = "[]"])
qed

lemma ring_inv_reachable:
  assumes "(ring_step cap sqpoll)\<^sup>*\<^sup>* ring_new r"
  shows "ring_inv sqpoll r"
  using assms
proof (induction rule: rtranclp_induct)
  case base
  show ?case by (auto simp: ring_inv_def ring_new_def calls_ok_def chain_ok_def replies_ok_def)
next
  case (step y z)
  then show ?case
    unfolding ring_inv_def using calls_ok_step owner_ok_step chain_ok_step replies_ok_step by blast
qed

section \<open>Properties\<close>

text \<open>
  C20: A caller gets its buffer back only when the kernel is done with it: in no reachable state does the
  kernel hold an entry of a call that has its reply. An entry of such a call can be left in the
  submission queue only after a refused submission; then the owner has stopped, nothing consumes the
  queue any more, and no step changes that.
\<close>

theorem ring_memory_is_safe:
  assumes "(ring_step cap sqpoll)\<^sup>*\<^sup>* ring_new r" and "(i, x) \<in> set (r_replies r)"
  shows "(\<forall>k idx. (i, k, idx) \<notin> set (r_kernel r)) \<and>
    ((\<exists>k idx. (i, k, idx) \<in> set (r_sq r)) \<longrightarrow> r_owner r = RGone \<and> \<not> sqpoll \<and>
       (\<forall>r'. ring_step cap sqpoll r r' \<longrightarrow> r_owner r' = RGone \<and> r_sq r' = r_sq r \<and> r_kernel r' = []))"
proof -
  have inv: "calls_ok r" "owner_ok sqpoll r (r_owner r)" using ring_inv_reachable [OF assms(1)] by (auto simp: ring_inv_def)
  have "distinct (serving (r_owner r) @ map fst (r_replies r))" using inv(1) by (simp add: calls_ok_def)
  moreover have "i \<in> set (map fst (r_replies r))" using assms(2) by force
  ultimately have i: "i \<notin> set (serving (r_owner r))" by auto
  have mine: "fst e \<in> set (serving (r_owner r))" if "r_owner r = RDrive j k rs d" "e \<in> set (r_sq r) \<union> set (r_kernel r)" for e j k rs d
  proof -
    have "set (r_sq r @ r_kernel r @ map fst (r_cq r)) = {(j, k, idx) |idx. idx < batch k \<and> rs ! idx = None}"
      using inv(2) that(1) by simp
    with that(2) have "e \<in> {(j, k, idx) |idx. idx < batch k \<and> rs ! idx = None}" by auto
    with that(1) show ?thesis by auto
  qed
  have drive: "(i, k, idx) \<notin> set (r_sq r) \<union> set (r_kernel r)" if "r_owner r = RDrive j l rs d" for j l rs d k idx
    using mine [OF that, of "(i, k, idx)"] i by auto
  have ker: "(i, k, idx) \<notin> set (r_kernel r)" for k idx
    using inv(2) drive by (cases "r_owner r") auto
  moreover have gone: "r_owner r = RGone \<and> \<not> sqpoll" if "(i, k, idx) \<in> set (r_sq r)" for k idx
  proof (cases "r_owner r")
    case (RReply j y h)
    with inv(2) that have "i = j" by (metis fst_conv owner_ok.simps(3))
    with i RReply show ?thesis by simp
  qed (use inv(2) drive that in auto)
  moreover have "r_owner r' = RGone \<and> r_sq r' = r_sq r \<and> r_kernel r' = []"
    if "r_owner r = RGone" "\<not> sqpoll" "ring_step cap sqpoll r r'" for r'
    using that(3,1,2) inv(2) by (cases rule: ring_step.cases) (auto simp: ring_send_def)
  ultimately show ?thesis by blast
qed

text \<open>
  C21: What a reply says, the kernel said: a count of bytes is the result of the call's own entry; and when
  the linked write with fsync answers that the fsync ran, the whole buffer was written first and the
  fsync completed after it.
\<close>

theorem ring_replies_are_exact:
  assumes "(ring_step cap sqpoll)\<^sup>*\<^sup>* ring_new r" and "(i, k) \<in> set (r_sent r)"
  shows "((i, RBytes (Inr n)) \<in> set (r_replies r) \<longrightarrow> ((i, k, 0), int n) \<in> set (r_log r)) \<and>
    (k = RkLinked len \<longrightarrow> (i, RChain (Inr (n, True))) \<in> set (r_replies r) \<longrightarrow>
       n = len \<and> (\<exists>a b c f. r_log r = a @ ((i, k, 0), int len) # b @ ((i, k, 1), f) # c \<and> 0 \<le> f))"
proof (intro conjI impI)
  have inv: "calls_ok r" "chain_ok (r_log r)" "replies_ok r" using ring_inv_reachable [OF assms(1)] by (auto simp: ring_inv_def)
  have good: "reply_good (r_log r) i k x" if "(i, x) \<in> set (r_replies r)" for x
    using inv(3) assms(2) that unfolding replies_ok_def by blast
  show "((i, k, 0), int n) \<in> set (r_log r)" if "(i, RBytes (Inr n)) \<in> set (r_replies r)"
    using good [OF that] by (cases k) (auto simp: reply_good_def cqe_bytes_def split: if_splits)
  assume k: "k = RkLinked len" and x: "(i, RChain (Inr (n, True))) \<in> set (r_replies r)"
  obtain rs where rs: "length rs = 2" "RChain (Inr (n, True)) = ring_finish k rs" "\<forall>idx<2. ((i, k, idx), rs ! idx) \<in> set (r_log r)"
    using good [OF x] k by (auto simp: reply_good_def)
  then have w: "0 \<le> rs ! 0" "n = nat (rs ! 0)" "0 \<le> rs ! 1"
    using k by (auto simp: cqe_bytes_def bind_ok_def split: if_splits sum.splits)
  have "((i, k, 1), rs ! 1) \<in> set (r_log r)" using rs(3) by simp
  then obtain a c where ac: "r_log r = a @ ((i, k, 1), rs ! 1) # c" by (meson split_list)
  with inv(2) w(3) k have "((i, k, 0), int len) \<in> set a" by (auto simp: chain_ok_def)
  then obtain a' b where b: "a = a' @ ((i, k, 0), int len) # b" by (meson split_list)
  have "((i, k, 0), rs ! 0) \<in> set (r_log r)" using rs(3) by simp
  moreover have "((i, k, 0), int len) \<in> set (r_log r)" using ac b by simp
  moreover have "distinct (map fst (r_log r))" using inv(1) by (simp add: calls_ok_def)
  ultimately have "rs ! 0 = int len" using eq_key_imp_eq_value by metis
  with w show "n = len" by simp
  show "\<exists>a b c f. r_log r = a @ ((i, k, 0), int len) # b @ ((i, k, 1), f) # c \<and> 0 \<le> f" using ac b w(3) by auto
qed

subsection \<open>Witnesses\<close>

text \<open>A linked write and fsync whose wait is interrupted after the kernel took both entries.\<close>

abbreviation link0 :: entry where
  "link0 \<equiv> (5, RkLinked 2, 0)"

abbreviation link1 :: entry where
  "link1 \<equiv> (5, RkLinked 2, 1)"

definition ring_at :: "(nat \<times> ring_kind) list \<Rightarrow> ring_pc \<Rightarrow> entry list \<Rightarrow> entry list \<Rightarrow> (entry \<times> int) list \<Rightarrow>
    (nat \<times> ring_reply) list \<Rightarrow> (entry \<times> int) list \<Rightarrow> ring" where
  "ring_at q pc es ks cs rs log =
     \<lparr>r_queue = q, r_owner = pc, r_sq = es, r_kernel = ks, r_cq = cs, r_sent = [(5, RkLinked 2)], r_replies = rs, r_log = log\<rparr>"

lemma ring_demo_driven:
  "(ring_step 8 False)\<^sup>*\<^sup>* ring_new
     (ring_at [] (RDrive 5 (RkLinked 2) [None, None] True) [] [] [(link0, 2), (link1, 0)] [] [(link0, 2), (link1, 0)])"
proof -
  let ?run = "(ring_step 8 False)\<^sup>*\<^sup>* ring_new" and ?k = "RkLinked 2"
  have go: "?run b" if "?run a" "ring_step 8 False a b" for a b using that by (rule rtranclp.rtrancl_into_rtrancl)
  have "?run (ring_at [(5, ?k)] RIdle [] [] [] [] [])"
    by (rule go [OF rtranclp.rtrancl_refl]) (use ring_call [of 5 ring_new 8 False ?k] in \<open>simp add: ring_new_def ring_send_def ring_at_def\<close>)
  then have "?run (ring_at [] (RDrive 5 ?k [None, None] False) [link0, link1] [] [] [] [])"
    by (rule go) (use ring_drive [of "ring_at [(5, ?k)] RIdle [] [] [] [] []" 5 ?k "[]" 8 False] in
      \<open>simp add: ring_at_def drive_push_def entries_def numeral_2_eq_2\<close>)
  then have "?run (ring_at [] (RDrive 5 ?k [None, None] True) [] [link0, link1] [] [] [])"
    by (rule go) (use ring_enter [of "ring_at [] (RDrive 5 ?k [None, None] False) [link0, link1] [] [] [] []" 5 ?k "[None, None]" 8 False 2 "Some (True, queue_full)"] in
      \<open>simp add: ring_at_def drive_enter_def reaped_def\<close>)
  then have "?run (ring_at [] (RDrive 5 ?k [None, None] True) [] [link1] [(link0, 2)] [] [(link0, 2)])"
    by (rule go) (use ring_complete [of "ring_at [] (RDrive 5 ?k [None, None] True) [] [link0, link1] [] [] []" "[]" link0 "[link1]" 2 8 False] in
      \<open>simp add: ring_at_def\<close>)
  then show ?thesis
    by (rule go) (use ring_complete [of "ring_at [] (RDrive 5 ?k [None, None] True) [] [link1] [(link0, 2)] [] [(link0, 2)]" "[]" link1 "[]" 0 8 False] in
      \<open>simp add: ring_at_def\<close>)
qed

lemma ring_demo:
  "(ring_step 8 False)\<^sup>*\<^sup>* ring_new (ring_at [] RIdle [] [] [] [(5, RChain (Inr (2, True)))] [(link0, 2), (link1, 0)])"
proof -
  let ?run = "(ring_step 8 False)\<^sup>*\<^sup>* ring_new" and ?k = "RkLinked 2" and ?log = "[(link0, 2), (link1, 0)]"
  have go: "?run b" if "?run a" "ring_step 8 False a b" for a b using that by (rule rtranclp.rtrancl_into_rtrancl)
  have "?run (ring_at [] (RDrive 5 ?k [Some 2, None] True) [] [] [(link1, 0)] [] ?log)"
    by (rule go [OF ring_demo_driven]) (use ring_reap [of "ring_at [] (RDrive 5 ?k [None, None] True) [] [] ?log [] ?log" 5 ?k "[None, None]" 8 False] in
      \<open>simp add: ring_at_def drive_reap_def\<close>)
  then have "?run (ring_at [] (RDrive 5 ?k [Some 2, Some 0] True) [] [] [] [] ?log)"
    by (rule go) (use ring_reap [of "ring_at [] (RDrive 5 ?k [Some 2, None] True) [] [] [(link1, 0)] [] ?log" 5 ?k "[Some 2, None]" 8 False] in
      \<open>simp add: ring_at_def drive_reap_def\<close>)
  then have "?run (ring_at [] (RDrive 5 ?k [Some 2, Some 0] False) [] [] [] [] ?log)"
    by (rule go) (use ring_reap [of "ring_at [] (RDrive 5 ?k [Some 2, Some 0] True) [] [] [] [] ?log" 5 ?k "[Some 2, Some 0]" 8 False] in
      \<open>simp add: ring_at_def drive_reap_def\<close>)
  then have "?run (ring_at [] (RReply 5 (RChain (Inr (2, True))) True) [] [] [] [] ?log)"
    by (rule go) (use ring_done [of "ring_at [] (RDrive 5 ?k [Some 2, Some 0] False) [] [] [] [] ?log" 5 ?k "[Some 2, Some 0]" 8 False] in
      \<open>simp add: ring_at_def drive_done_def reaped_def cqe_bytes_def\<close>)
  then show ?thesis
    by (rule go) (use ring_reply [of "ring_at [] (RReply 5 (RChain (Inr (2, True))) True) [] [] [] [] ?log" 5 "RChain (Inr (2, True))" True 8 False] in
      \<open>simp add: ring_at_def ring_answer_def\<close>)
qed

theorem ring_memory_is_safe_witness:
  "\<exists>r. (ring_step 8 False)\<^sup>*\<^sup>* ring_new r \<and> r_replies r \<noteq> [] \<and> (\<forall>k idx. (5, k, idx) \<notin> set (r_kernel r))"
proof (intro exI conjI)
  let ?r = "ring_at [] RIdle [] [] [] [(5, RChain (Inr (2, True)))] [(link0, 2), (link1, 0)]"
  show "(ring_step 8 False)\<^sup>*\<^sup>* ring_new ?r" by (rule ring_demo)
  show "r_replies ?r \<noteq> []" by (simp add: ring_at_def)
  have "(5, RChain (Inr (2, True))) \<in> set (r_replies ?r)" by (simp add: ring_at_def)
  from ring_memory_is_safe [OF ring_demo this] show "\<forall>k idx. (5, k, idx) \<notin> set (r_kernel ?r)" by blast
qed

theorem ring_replies_are_exact_witness:
  "\<exists>r a b c f. (ring_step 8 False)\<^sup>*\<^sup>* ring_new r \<and> (5, RChain (Inr (2, True))) \<in> set (r_replies r) \<and>
     r_log r = a @ (link0, 2) # b @ (link1, f) # c"
proof -
  let ?r = "ring_at [] RIdle [] [] [] [(5, RChain (Inr (2, True)))] [(link0, 2), (link1, 0)]"
  have s: "(5, RkLinked 2) \<in> set (r_sent ?r)" "(5, RChain (Inr (2, True))) \<in> set (r_replies ?r)" by (simp_all add: ring_at_def)
  from ring_replies_are_exact [OF ring_demo s(1), of 2 2] s(2)
  have "\<exists>a b c f. r_log ?r = a @ (link0, 2) # b @ (link1, f) # c" by auto
  with s(2) ring_demo show ?thesis by (intro exI [of _ ?r]) blast
qed

end
