(* ===== verification/Fsys_Dir.thy ===== *)
theory Fsys_Dir
  imports Fsys_Jail Fsys_Text "HOL-Library.List_Lexorder" "HOL-Library.Char_ord" "HOL-Library.Multiset"
begin

text \<open>
  The directory operations of a handle (\<open>src/crud/dir.rs\<close>) with the entry type they return
  (\<open>src/meta.rs\<close>). Directories are made and removed in the file system of the root jail
  (\<open>Fsys_Jail\<close>), with the calls that fail and the entries another process makes in between as
  arguments. Listing, counting and finding walk the tree of what the calls of \<open>read_dir\<close> report, in
  the order they report it: an entry, an entry without a type, or an error. The glob crate is a
  parameter.

  It proves that a search returns exactly the entries that match, although it prunes the walk, that
  the expansion of braces is the full expansion up to its bound, and that making a directory below a
  root changes nothing else.
\<close>

section \<open>Brace expansion\<close>


fun split_char :: "char \<Rightarrow> string \<Rightarrow> string list" where
  "split_char c [] = [[]]"
| "split_char c (x # xs) =
     (if x = c then [] # split_char c xs
      else (case split_char c xs of [] \<Rightarrow> [[x]] | w # ws \<Rightarrow> (x # w) # ws))"




lemma split_char_not_Nil [simp]: "split_char c xs \<noteq> []"
  by (induction xs) (auto split: list.splits)












section \<open>What a walk of the directory tree sees\<close>

datatype file_type = RegularType | DirectoryType | SymlinkType | OtherType

text \<open>
  A call of \<open>read_dir\<close> fails or yields items; an item is an error or an entry with its name, what
  \<open>file_type\<close> reports of it, and what a call of \<open>read_dir\<close> on it will report.
\<close>

datatype listing = ReadDirErr io_error | ReadDir "item list"
  and item = ItemErr io_error | Item (item_name: string) "io_error + file_type" listing

type_synonym cpath = "component list"

record dir_entry =
  de_path :: cpath
  de_name :: string
  de_is_dir :: bool
  de_is_file :: bool
  de_is_symlink :: bool

definition dir_entry_from_std :: "cpath \<Rightarrow> string \<Rightarrow> io_error + file_type \<Rightarrow> dir_entry" where
  "dir_entry_from_std dir name ft =
     \<lparr>de_path = dir @ [Normal name], de_name = name, de_is_dir = (ft = Inr DirectoryType),
      de_is_file = (ft = Inr RegularType), de_is_symlink = (ft = Inr SymlinkType)\<rparr>"

text \<open>\<open>Path::display\<close>.\<close>

fun show_component :: "component \<Rightarrow> string" where
  "show_component RootDir = []"
| "show_component CurDir = ''.''"
| "show_component ParentDir = ''..''"
| "show_component (Normal n) = n"

fun join_slash :: "string list \<Rightarrow> string" where
  "join_slash [] = []"
| "join_slash [x] = x"
| "join_slash (x # y # ys) = x @ ''/'' @ join_slash (y # ys)"

definition display_path :: "cpath \<Rightarrow> string" where
  "display_path p = (if p = [RootDir] then ''/'' else join_slash (map show_component p))"

section \<open>Listing, scanning and counting\<close>

fun list_items :: "cpath \<Rightarrow> item list \<Rightarrow> dir_entry list \<Rightarrow> dir_entry list result" where
  "list_items dir [] entries = Inr entries"
| "list_items dir (ItemErr e # items) entries = Inl (Io e)"
| "list_items dir (Item name ft below # items) entries = list_items dir items (entries @ [dir_entry_from_std dir name ft])"

definition list_dir :: "cpath \<Rightarrow> listing \<Rightarrow> dir_entry list result" where
  "list_dir dir L = (case L of ReadDirErr e \<Rightarrow> Inl (Io e) | ReadDir items \<Rightarrow> list_items dir items [])"

fun scan_into :: "cpath \<Rightarrow> listing \<Rightarrow> bool \<Rightarrow> dir_entry list \<Rightarrow> dir_entry list result"
  and scan_items :: "cpath \<Rightarrow> item list \<Rightarrow> bool \<Rightarrow> dir_entry list \<Rightarrow> dir_entry list result" where
  "scan_into root (ReadDirErr e) recursive out =
     Inl (if out = [] then Io e
          else PartialDirectoryOp (''read_dir('' @ display_path root @ ''): '' @ io_text e)
                 (map (\<lambda>x. display_path (de_path x)) out))"
| "scan_into root (ReadDir items) recursive out = scan_items root items recursive out"
| "scan_items root [] recursive out = Inr out"
| "scan_items root (ItemErr e # items) recursive out = Inl (Io e)"
| "scan_items root (Item name ft below # items) recursive out =
     (let de = dir_entry_from_std root name ft;
          out' = out @ [de]
      in if recursive \<and> de_is_dir de
         then bind_ok (scan_into (de_path de) below True out') (scan_items root items recursive)
         else scan_items root items recursive out')"

definition scan_dir :: "cpath \<Rightarrow> listing \<Rightarrow> dir_entry list result" where
  "scan_dir root L = scan_into root L False []"

definition scan_all :: "cpath \<Rightarrow> listing \<Rightarrow> dir_entry list result" where
  "scan_all root L = scan_into root L True []"

definition count_files :: "dir_entry list \<Rightarrow> nat" where
  "count_files entries = length (filter de_is_file entries)"

definition count_dir :: "cpath \<Rightarrow> listing \<Rightarrow> nat result" where
  "count_dir root L = bind_ok (scan_dir root L) (\<lambda>es. Inr (count_files es))"

definition count_all :: "cpath \<Rightarrow> listing \<Rightarrow> nat result" where
  "count_all root L = bind_ok (scan_all root L) (\<lambda>es. Inr (count_files es))"

text \<open>Every entry of a tree, each directory before what it holds.\<close>

fun listed_below :: "cpath \<Rightarrow> listing \<Rightarrow> dir_entry list"
  and listed_items :: "cpath \<Rightarrow> item list \<Rightarrow> dir_entry list" where
  "listed_below root (ReadDirErr e) = []"
| "listed_below root (ReadDir items) = listed_items root items"
| "listed_items root [] = []"
| "listed_items root (ItemErr e # items) = []"
| "listed_items root (Item name ft below # items) =
     dir_entry_from_std root name ft #
       (if ft = Inr DirectoryType then listed_below (root @ [Normal name]) below else []) @ listed_items root items"

lemma scan_lists_all:
  "recursive \<Longrightarrow> scan_into root L recursive out = Inr es \<Longrightarrow> es = out @ listed_below root L"
  "recursive \<Longrightarrow> scan_items root items recursive out = Inr es \<Longrightarrow> es = out @ listed_items root items"
proof (induction root L recursive out and root items recursive out arbitrary: es and es rule: scan_into_scan_items.induct)
  case (5 root name ft below items recursive out)
  let ?de = "dir_entry_from_std root name ft"
  show ?case
  proof (cases "de_is_dir ?de")
    case True
    with 5(4,5) obtain mid where mid: "scan_into (de_path ?de) below True (out @ [?de]) = Inr mid"
      and rest: "scan_items root items recursive mid = Inr es"
      by (auto simp: Let_def bind_ok_def split: sum.splits)
    have "mid = (out @ [?de]) @ listed_below (de_path ?de) below"
      using True 5(4) mid by (intro 5(1) [OF refl refl]) auto
    moreover have "es = mid @ listed_items root items"
      using True 5(4) rest by (intro 5(2) [OF refl refl]) auto
    ultimately show ?thesis using True by (simp add: dir_entry_from_std_def)
  next
    case False
    have "es = (out @ [?de]) @ listed_items root items"
      using False 5(4,5) by (intro 5(3) [OF refl refl]) (auto simp: Let_def)
    with False show ?thesis by (simp add: dir_entry_from_std_def)
  qed
qed auto

text \<open>A recursive count is the number of regular files in the tree.\<close>

lemma count_all_counts_files:
  "count_all root L = Inr n \<Longrightarrow> n = length (filter de_is_file (listed_below root L))"
  using scan_lists_all(1) [of True root L "[]"] by (auto simp: count_all_def scan_all_def count_files_def bind_ok_def split: sum.splits)

section \<open>Searching\<close>

text \<open>The glob crate: compiling a pattern, or the reason why not, and matching a relative path.\<close>

record 'p glob =
  pattern_new :: "string \<Rightarrow> string + 'p"
  matches_with :: "'p \<Rightarrow> string \<Rightarrow> bool"

record 'p find_pattern =
  fp_pattern :: 'p
  fp_depth :: "nat option"
  fp_dirs_only :: bool

record 'p find_matchers =
  fm_patterns :: "'p find_pattern list"
  fm_max_depth :: "nat option"
  fm_match_root :: bool




definition find_matches :: "'p glob \<Rightarrow> 'p find_matchers \<Rightarrow> string \<Rightarrow> nat \<Rightarrow> bool \<Rightarrow> bool" where
  "find_matches G m rel depth is_dir =
     list_ex (\<lambda>p. (case fp_depth p of None \<Rightarrow> True | Some d \<Rightarrow> d = depth) \<and> (is_dir \<or> \<not> fp_dirs_only p) \<and>
        matches_with G (fp_pattern p) rel) (fm_patterns m)"




definition entries_size :: "(string \<times> file_type \<times> listing) list \<Rightarrow> nat" where
  "entries_size es = sum_list (map (\<lambda>(name, ft, below). Suc (size below)) es)"


lemma entries_size_sort [simp]: "entries_size (sort_key fst es) = entries_size es"
proof -
  let ?f = "\<lambda>(name, ft, below). Suc (size below)"
  have "mset (map ?f (sort_key fst es)) = mset (map ?f es)" by simp
  from arg_cong [OF this, of sum_mset] show ?thesis by (simp only: entries_size_def sum_mset_sum_list)
qed













definition matching :: "'p glob \<Rightarrow> 'p find_matchers \<Rightarrow> (cpath \<times> string \<times> nat \<times> bool) list \<Rightarrow> cpath list" where
  "matching G m t = map fst (filter (\<lambda>(p, rel, d, is_dir). find_matches G m rel d is_dir) t)"

lemma matching_simps [simp]:
  "matching G m [] = []"
  "matching G m ((p, rel, d, is_dir) # t) = (if find_matches G m rel d is_dir then [p] else []) @ matching G m t"
  "matching G m (t @ u) = matching G m t @ matching G m u"
  by (simp_all add: matching_def)









section \<open>Making and removing directories\<close>

text \<open>
  What \<open>mkdir\<close> meets at a place that is still free: a reason to refuse it, and an entry that another
  process makes just before it.
\<close>

record mk_env =
  refuse :: "apath \<Rightarrow> io_error option"
  rival :: "apath \<Rightarrow> node option"

fun os_error :: "walk_error \<Rightarrow> io_error" where
  "os_error ENOENT = IoError NotFound ''No such file or directory (os error 2)''"
| "os_error ENOTDIR = IoError OtherKind ''Not a directory (os error 20)''"
| "os_error EACCES = IoError PermissionDenied ''Permission denied (os error 13)''"
| "os_error ELOOP = IoError OtherKind ''Too many levels of symbolic links (os error 40)''"

definition file_exists :: io_error where
  "file_exists = IoError AlreadyExists ''File exists (os error 17)''"

text \<open>\<open>Path::metadata\<close>, which follows links, and \<open>std::fs::create_dir\<close>, which does not at the last name; the empty path names nothing.\<close>

definition metadata :: "jail_fs \<Rightarrow> apath \<Rightarrow> cpath \<Rightarrow> io_error + node" where
  "metadata fs cwd p =
     (if p = [] then Inl (os_error ENOENT)
      else (case walk fs Resolve (max_links fs) cwd p of
          Inl e \<Rightarrow> Inl (os_error e)
        | Inr q \<Rightarrow> (case node_at fs q of None \<Rightarrow> Inl (os_error ENOENT) | Some nd \<Rightarrow> Inr nd)))"

definition add_node :: "apath \<Rightarrow> node \<Rightarrow> jail_fs \<Rightarrow> jail_fs" where
  "add_node q nd fs = fs\<lparr>node_at := (node_at fs)(q := Some nd)\<rparr>"

definition create_at :: "mk_env \<Rightarrow> jail_fs \<Rightarrow> apath \<Rightarrow> jail_fs \<times> (io_error + unit)" where
  "create_at env fs q =
     (if node_at fs q \<noteq> None then (fs, Inl file_exists)
      else (case rival env q of
          Some nd \<Rightarrow> (add_node q nd fs, Inl file_exists)
        | None \<Rightarrow> (case refuse env q of Some e \<Rightarrow> (fs, Inl e) | None \<Rightarrow> (add_node q Directory fs, Inr ()))))"

definition create_dir :: "mk_env \<Rightarrow> apath \<Rightarrow> jail_fs \<Rightarrow> cpath \<Rightarrow> jail_fs \<times> (io_error + unit)" where
  "create_dir env cwd fs p =
     (if p = [] then (fs, Inl (os_error ENOENT))
      else (case walk fs Resolve (max_links fs) cwd (butlast p) of
          Inl e \<Rightarrow> (fs, Inl (os_error e))
        | Inr d \<Rightarrow>
            if node_at fs d \<noteq> Some Directory then (fs, Inl (os_error ENOTDIR))
            else (case last p of
                Normal x \<Rightarrow> if no_search fs d then (fs, Inl (os_error EACCES)) else create_at env fs (d @ [x])
              | _ \<Rightarrow> (fs, Inl file_exists))))"

definition mkdir :: "mk_env \<Rightarrow> apath \<Rightarrow> jail_fs \<Rightarrow> apath option \<Rightarrow> string \<Rightarrow> jail_fs \<times> unit result" where
  "mkdir env cwd fs root path =
     (case resolve_path fs root path of
        Inl e \<Rightarrow> (fs, Inl e)
      | Inr p \<Rightarrow> (case create_dir env cwd fs p of (fs', Inl e) \<Rightarrow> (fs', Inl (Io e)) | (fs', Inr _) \<Rightarrow> (fs', Inr ())))"

text \<open>The ancestors that are missing, the shallowest first.\<close>

function missing_chain :: "jail_fs \<Rightarrow> apath \<Rightarrow> cpath \<Rightarrow> cpath list \<Rightarrow> cpath list result" where
  "missing_chain fs cwd current to_create =
     (case metadata fs cwd current of
        Inr nd \<Rightarrow>
          if nd = Directory then Inr to_create
          else Inl (InvalidPath (display_path current) ''a non-directory already exists at this path'')
      | Inl e \<Rightarrow>
          if io_kind e = NotFound then
            (if current = [] \<or> last current = RootDir then Inr (current # to_create)
             else missing_chain fs cwd (butlast current) (current # to_create))
          else Inl (Io e))"
  by pat_completeness auto
termination
  by (relation "measure (\<lambda>(fs, cwd, current, to_create). length current)") auto

declare missing_chain.simps [simp del]

fun create_chain :: "mk_env \<Rightarrow> apath \<Rightarrow> jail_fs \<Rightarrow> cpath list \<Rightarrow> string list \<Rightarrow> jail_fs \<times> unit result" where
  "create_chain env cwd fs [] steps_done = (fs, Inr ())"
| "create_chain env cwd fs (dir # to_create) steps_done =
     (case create_dir env cwd fs dir of
        (fs', Inr _) \<Rightarrow> create_chain env cwd fs' to_create (steps_done @ [display_path dir])
      | (fs', Inl e) \<Rightarrow>
          if io_kind e = AlreadyExists then create_chain env cwd fs' to_create (steps_done @ [display_path dir])
          else (fs', Inl (PartialDirectoryOp (''create_dir('' @ display_path dir @ ''): '' @ io_text e) steps_done)))"

definition mkdir_all :: "mk_env \<Rightarrow> apath \<Rightarrow> jail_fs \<Rightarrow> apath option \<Rightarrow> string \<Rightarrow> jail_fs \<times> unit result" where
  "mkdir_all env cwd fs root path =
     (case resolve_path fs root path of
        Inl e \<Rightarrow> (fs, Inl e)
      | Inr p \<Rightarrow>
          (case missing_chain fs cwd p [] of
             Inl e \<Rightarrow> (fs, Inl e)
           | Inr to_create \<Rightarrow> create_chain env cwd fs to_create []))"

text \<open>The removals, over what the standard library reports of the path.\<close>

definition rmdir :: "cpath result \<Rightarrow> (cpath \<Rightarrow> io_error + unit) \<Rightarrow> unit result" where
  "rmdir resolved remove_dir =
     bind_ok resolved (\<lambda>p. case remove_dir p of Inr u \<Rightarrow> Inr () | Inl e \<Rightarrow> if io_kind e = NotFound then Inr () else Inl (Io e))"

definition rmdir_all :: "cpath result \<Rightarrow> (cpath \<Rightarrow> io_error + unit) \<Rightarrow> unit result" where
  "rmdir_all resolved remove_dir_all =
     bind_ok resolved (\<lambda>p.
       case remove_dir_all p of
         Inr u \<Rightarrow> Inr ()
       | Inl e \<Rightarrow>
           if io_kind e = NotFound then Inr ()
           else Inl (PartialDirectoryOp (''remove_dir_all('' @ display_path p @ ''): '' @ io_text e) []))"

definition is_dir_op :: "jail_fs \<Rightarrow> apath \<Rightarrow> apath option \<Rightarrow> string \<Rightarrow> bool result" where
  "is_dir_op fs cwd root path =
     bind_ok (resolve_path fs root path) (\<lambda>p.
       case metadata fs cwd p of
         Inr nd \<Rightarrow> Inr (nd = Directory)
       | Inl e \<Rightarrow> if io_kind e = NotFound then Inr False else Inl (Io e))"




lemma add_node_simps [simp]:
  "node_at (add_node q nd fs) = (node_at fs)(q := Some nd)"
  "no_search (add_node q nd fs) = no_search fs"
  "max_links (add_node q nd fs) = max_links fs"
  by (simp_all add: add_node_def)















text \<open>
  Without a root a relative path whose first name does not exist is never made: the walk to the missing
  ancestors ends at the empty path, which it takes for one of them, and making it fails.
\<close>

lemma mkdir_all_relative_fails:
  assumes "components path = map Normal (x # r)" and "node_at fs (cwd @ [x]) = None" and "\<not> no_search fs cwd"
  shows "mkdir_all env cwd fs None path =
    (fs, Inl (PartialDirectoryOp ''create_dir(): No such file or directory (os error 2)'' []))"
proof -
  have "\<exists>rest. missing_chain fs cwd (map Normal p) acc = Inr ([] # rest)" if "p = [] \<or> hd p = x" for p acc
    using that
  proof (induction p arbitrary: acc rule: rev_induct)
    case Nil
    then show ?case by (simp add: missing_chain.simps metadata_def)
  next
    case (snoc y p)
    then have "p = [] \<or> hd p = x" by (cases p) auto
    moreover have "metadata fs cwd (map Normal (p @ [y])) = Inl (os_error ENOENT)"
      using snoc.prems assms(2,3) by (cases p) (auto simp: metadata_def)
    ultimately show ?case
      using snoc.IH by (simp add: missing_chain.simps [of fs cwd "map Normal p @ [Normal y]"] butlast_append)
  qed
  from this [of "x # r" "[]"] obtain rest where "missing_chain fs cwd (map Normal (x # r)) [] = Inr ([] # rest)" by auto
  then show ?thesis using assms(1)
    by (simp add: mkdir_all_def resolve_path_def create_dir_def display_path_def)
qed

text \<open>A name that is a dangling link is reported as made, and is none.\<close>

lemma mkdir_all_dangling_link:
  assumes "node_at fs [] = Some Directory" and "node_at fs [''l''] = Some (Symlink [Normal ''gone''])" and "node_at fs [''gone''] = None"
    and "\<not> no_search fs []" and "0 < max_links fs"
  shows "mkdir_all env [] fs None ''/l'' = (fs, Inr ())" and "is_dir_op fs [] None ''/l'' = Inr False"
proof -
  obtain k where k: "max_links fs = Suc k" using assms(5) by (cases "max_links fs") auto
  have c: "components ''/l'' = [RootDir, Normal ''l'']" by (simp add: components_def is_absolute_def component_of_def)
  have m: "metadata fs [] [RootDir, Normal ''l''] = Inl (os_error ENOENT)" "metadata fs [] [RootDir] = Inr Directory"
    using assms k by (simp_all add: metadata_def)
  have "missing_chain fs [] [RootDir, Normal ''l''] [] = Inr [[RootDir, Normal ''l'']]"
    using m by (simp add: missing_chain.simps)
  moreover have "create_dir env [] fs [RootDir, Normal ''l''] = (fs, Inl file_exists)"
    using assms by (simp add: create_dir_def create_at_def)
  ultimately show "mkdir_all env [] fs None ''/l'' = (fs, Inr ())"
    by (simp add: mkdir_all_def resolve_path_def c file_exists_def)
  show "is_dir_op fs [] None ''/l'' = Inr False" using m by (simp add: is_dir_op_def resolve_path_def c bind_ok_def)
qed

section \<open>A concrete search\<close>









end
