(* ===== verification/Spec2Isabelle.thy ===== *)
theory Spec2Isabelle
  imports Fsys_Platform Fsys_Tail Fsys_Poison Fsys_Gate Fsys_LogBuffer Fsys_Open Fsys_Buffered Fsys_Direct
    Fsys_Method Fsys_Replace Fsys_Batch Fsys_Jail Fsys_Reads Fsys_Crud Fsys_Cache Fsys_Driver Fsys_AsyncJournal Fsys_Pool Fsys_Ring Fsys_Dir
begin

text \<open>
  A verification of fsys (\<open>src/\<close>), a Rust crate for durable file IO: handles that write files atomically
  under a chosen durability method, batches of such writes, and a write-ahead journal with group
  commit. The development models the code that decides what survives a crash and proves that it
  keeps its promises. It has one theory per component; this theory imports them all and holds the
  properties that span several of them.

  \<^bold>\<open>How the model is built.\<close> Pure code is a function; code that performs system calls takes the state of
  the system and returns it changed. There are three such states. A \<open>disk\<close> (\<open>Fsys_Platform\<close>) is one
  open file: its bytes and a script of what the next calls will report (an error, or a number of
  bytes, so short and interrupted transfers occur at every call). A \<open>world\<close> (\<open>Fsys_Tail\<close>) adds the
  files a journal's open looks at. A \<open>machine\<close> (\<open>Fsys_Replace\<close>) is a file system with crashes: the
  directory entries, the entries a crash may leave for each name, the bytes and the last synced bytes
  of each file, the fate of the next calls, and every store the system went through. Concurrent code
  is an inductive step relation whose steps are the atomic actions of the code, so a theorem about
  reachable states covers every interleaving. A failure of any call is an outcome of the model, and
  errors are values (\<open>Fsys_Error\<close>). Integers that may wrap are words or have their bounds written out;
  loops are total functions with a measure (the length of the script and what is left to transfer), so
  no fuel is needed anywhere.

  \<^bold>\<open>Foundations.\<close> \<open>Fsys_Prelude\<close> holds the types and list facts that all theories use, \<open>Fsys_Error\<close> the
  error enum with its codes and texts (\<open>src/error.rs\<close>).

  \<^bold>\<open>Platform\<close> (\<open>src/platform/\<close>, the Linux back end): \<open>Fsys_Platform\<close> has sector rounding, aligned buffers,
  positioned writes and the chunked transfers of the ring; \<open>Fsys_Files\<close> whole-file writes and zero fill;
  \<open>Fsys_Reads\<close> whole-file and range reads. The lemmas say exactly which bytes a call leaves in the file,
  or returns, under every sequence of short, interrupted and failing calls.

  \<^bold>\<open>Journal\<close> (\<open>src/journal/\<close>). \<open>Fsys_Format\<close> is the frame format: the four encoders, the decoder and the
  checksum builder, over the checksum crate as a parameter with the laws of a streaming CRC.
  \<open>Fsys_Reader\<close> is the buffered iterator with its zero-run classification, proved equal to an unbuffered
  scan of the file, and random access by LSN. \<open>Fsys_Tail\<close> is the resume scan and the sidecar that saves a
  torn tail; \<open>Fsys_Open\<close> both ways of opening a journal. \<open>Fsys_Poison\<close> is the sticky failure state,
  \<open>Fsys_Gate\<close> the epoch protocol between writers and drains, \<open>Fsys_LogBuffer\<close> the two-slot buffer of the
  Direct-IO mode, \<open>Fsys_Options\<close> the options. \<open>Fsys_GroupCommit\<close> is the leader and follower protocol of
  \<open>sync_through\<close>, proved once in a locale over what a back end promises of its flush; \<open>Fsys_Buffered\<close> and
  \<open>Fsys_Direct\<close> interpret it on the gate and on the log buffer. Below, the promises are composed: what a
  sync acknowledged is what the reader recovers after a crash.

  \<^bold>\<open>Tasks and rings\<close> (\<open>src/async_io/\<close>, \<open>src/platform/linux_iouring.rs\<close>, \<open>src/buffer/\<close>). \<open>Fsys_AsyncJournal\<close> is the
  native append and sync of tasks, with futures dropped at every wait and a driver that may stop, on
  the same journal as the blocking calls; it interprets the group-commit locale a third time.
  \<open>Fsys_Driver\<close> is the completion driver below it: no buffer is released while the kernel may use it,
  every operation is answered once, and the counts are exact. \<open>Fsys_Ring\<close> shows the same of the blocking
  ring and its owner thread. \<open>Fsys_Pool\<close> is the buffer pool: leases are exclusive, and a wake-up can be
  lost.

  \<^bold>\<open>Files\<close> (\<open>src/crud/\<close>, \<open>src/method/\<close>, \<open>src/handle.rs\<close>). \<open>Fsys_Method\<close> has the durability methods, their
  automatic choice and the packed pair a handle keeps. \<open>Fsys_Replace\<close> is the atomic replace: temp names,
  creation, the ways to make the temp file durable (page cache, Direct IO, the ring, the ring with
  NVMe passthrough), rename, cleanup and directory sync; it proves that every run is one of three kinds
  (never created, removed again, published), from which crash atomicity follows. With passthrough a
  flush of the device takes the place of the fsync and commits no metadata: then atomicity needs a file
  system that commits metadata in order, which is a field of the store (\<open>ordered_meta\<close>) and a hypothesis
  of the theorem, and a counterexample shows what happens without it. \<open>Fsys_Crud\<close> has the file operations
  of a handle for every method, including the memory-mapped ones, and proves that they refine
  operations on a map from paths to contents. \<open>Fsys_Jail\<close> is the resolution of paths below a root, over a
  file system with symbolic links and the kernel's walk. \<open>Fsys_Dir\<close> has the directory operations on that
  file system: a search returns exactly what matches, brace expansion is bounded, and making a directory
  with its ancestors changes nothing else.

  \<^bold>\<open>Batches\<close> (\<open>src/pipeline/\<close>, \<open>src/batch.rs\<close>): \<open>Fsys_Batch\<close> has the execution of a job, the grouped
  directory syncs and the dispatcher with its shutdown.

  \<^bold>\<open>Capability cache\<close> (\<open>src/capability/\<close>). \<open>Fsys_Text\<close> has UTF-8 and the text functions of the standard library
  that the code calls, \<open>Fsys_Toml\<close> the serialiser and parser of the cache file, \<open>Fsys_Capability\<close> the snapshot
  and its document, \<open>Fsys_Probe\<close> the probe of the host's files, and \<open>Fsys_Cache\<close> store, load and invalidation:
  a later process reads back the snapshot an earlier one stored, and a crash leaves the old or the
  new file.

  \<^bold>\<open>Bounds.\<close> Where a theorem bounds a length by \<open>2 ^ 62\<close> or a sector size by \<open>2 ^ 62\<close>, it is what keeps the
  padding to a sector from wrapping; the kernel's files are smaller. Process ids have 32 bits and nonces
  64 (\<open>temp_env_ok\<close>). A crash may leave any mixture of what was written since the last sync
  (\<open>crash_image\<close>, \<open>after_crash\<close>).

  \<^bold>\<open>Not modelled.\<close> The back ends for macOS, Windows and other Unixes (\<open>src/platform/macos.rs\<close>,
  \<open>windows.rs\<close>, \<open>windows_nvme.rs\<close>, \<open>unknown.rs\<close>) are system calls of those targets. The hardware and OS
  probes (\<open>src/hardware/\<close>, \<open>src/os/\<close>) read files of the host and end in values that the model takes as
  arguments; so does the discovery of a device with passthrough (\<open>nvme_access\<close>), whose result is an
  argument of the write. The other wrappers of \<open>src/async_io/\<close> hand the blocking operations to a thread
  pool. The group lane is modelled with one dispatcher, without its shards. Metadata, advice, observers
  and path conventions (\<open>src/path/\<close>) do not change contents. The manifest lists every component with its
  status.
\<close>

section \<open>Recovery after a crash\<close>

text \<open>
  A file that agrees, up to some point, with an opened journal followed by frames is read back with
  the old records and every record whose frame lies below that point.
\<close>

lemma synced_prefix_recovered:
  assumes "take g c = take g (D @ frames C ps)" and "list_all record_ok ps" and "scan C D 0 = (rs, length D, st)"
    and "0 < k" and "k \<le> length ps" and "length D + length (frames C (take k ps)) \<le> g" and "reads_ok rd (length c)"
  shows "\<exists>rest it. drain_iter C rd (journal_iter_new (reader_open c)) =
    (rs @ records_at (length D) (take k ps) @ rest, Inr (), it)"
proof -
  let ?P = "D @ frames C (take k ps)"
  have "frames C ps = frames C (take k ps) @ frames C (drop k ps)"
    using frames_simps(3) [of C "take k ps" "drop k ps"] by simp
  then have "take (length ?P) c = ?P" using assms(1,6) by (metis (no_types, lifting) append.assoc append_eq_conv_conj length_append min.absorb1 take_take)
  then obtain T where c: "c = D @ frames C (take k ps) @ T" by (metis append.assoc append_take_drop_id)
  obtain p qs where pq: "take k ps = p # qs" using assms(4,5) by (cases "take k ps") auto
  have ok: "list_all record_ok (take k ps)" using assms(2) by (auto simp: list_all_iff dest: in_set_takeD)
  obtain rs' q' st' where s: "scan C c (length D + length (frames C (take k ps))) = (rs', q', st')" by (metis prod_cases3)
  have "scan C c (length D) = (records_at (length D) (take k ps) @ rs', q', st')"
    using scan_frames [OF ok refl, of C D T] s c by simp
  moreover have "scan C c 0 = (case scan C c (length D) of (rs', q', st') \<Rightarrow> (rs @ rs', q', st'))"
    using scan_resume_step [OF assms(3), of p "frames C qs @ T"] c pq by simp
  ultimately have "scan C c 0 = (rs @ records_at (length D) (take k ps) @ rs', q', st')" by simp
  from reader_open_drain [OF assms(7) this] show ?thesis by blast
qed

text \<open>
  C1: What a buffered journal promises, from the sync to the recovery. Any number of threads append,
  batch, preallocate and sync, and any writes and fsyncs fail; when a sync returns Ok and the machine
  loses power at that moment, the records of the appended frames that lie below the LSN the sync
  covered are read back after the records the journal was opened with, in the order of the log,
  whatever the crash left behind them.
\<close>

theorem buffered_journal_recovers:
  assumes "(buffered_step C)\<^sup>*\<^sup>* (buffered_init n d) st" and "n < 2 ^ 64" and "crc_streaming_ok C"
    and "t < n" and "spcs st ! t = SyncDone l (Inr ())"
    and "crash_image (stable st) (contents (bdisk (backend st))) c"
    and "scan C (contents d) 0 = (rs, length (contents d), end_state)" and "reads_ok rd (length c)"
  shows "\<exists>ps. blog (backend st) = contents d @ frames C ps \<and> list_all record_ok ps \<and>
    (\<forall>k. 0 < k \<longrightarrow> k \<le> length ps \<longrightarrow> length (contents d) + length (frames C (take k ps)) \<le> goals st ! t \<longrightarrow>
      (\<exists>rest it. drain_iter C rd (journal_iter_new (reader_open c)) =
        (rs @ records_at (length (contents d)) (take k ps) @ rest, Inr (), it)))"
proof -
  from buffered_sync_is_durable [OF assms(1-6)] obtain ps where
    ps: "list_all record_ok ps" "blog (backend st) = contents d @ frames C ps"
      "take (goals st ! t) c = take (goals st ! t) (contents d @ frames C ps)" by blast
  with synced_prefix_recovered [OF ps(3,1) assms(7) _ _ _ assms(8)] show ?thesis by blast
qed

lemma frames_single:
  assumes "frames C ps = frame C p" and "list_all record_ok ps" and "record_ok p"
  shows "ps = [p]"
proof -
  have e: "scan C (frame C p) (length (frame C p)) = ([], length (frame C p), CleanEnd)" by (simp add: scan_empty)
  have "scan C (frame C p) 0 = (records_at 0 ps, length (frame C p), CleanEnd)"
    using scan_frames [OF assms(2), of "[]" 0 C "[]"] e by (simp add: assms(1))
  moreover have "scan C (frame C p) 0 = (records_at 0 [p], length (frame C p), CleanEnd)"
    using scan_frames [of "[p]" "[]" 0 C "[]"] e assms(3) by simp
  ultimately have "records_at 0 ps = records_at 0 [p]" by (metis prod.inject)
  from arg_cong [OF this, of "map payload"] show ?thesis by (simp only: map_payload_records_at)
qed

lemma one_record_read_back:
  assumes "\<exists>ps. frame rfc3720 [7] = frames rfc3720 ps \<and> list_all record_ok ps \<and>
      (\<forall>k. 0 < k \<longrightarrow> k \<le> length ps \<longrightarrow> length (frames rfc3720 (take k ps)) \<le> 13 \<longrightarrow>
        (\<exists>rest it. drain_iter rfc3720 full_reads (journal_iter_new (reader_open c)) =
          (records_at 0 (take k ps) @ rest, Inr (), it)))"
  shows "\<exists>rest it. drain_iter rfc3720 full_reads (journal_iter_new (reader_open c)) = (JournalRecord 0 [7] # rest, Inr (), it)"
proof -
  from assms obtain ps where ps: "frame rfc3720 [7] = frames rfc3720 ps" "list_all record_ok ps"
      "\<And>k. 0 < k \<Longrightarrow> k \<le> length ps \<Longrightarrow> length (frames rfc3720 (take k ps)) \<le> 13 \<Longrightarrow>
        \<exists>rest it. drain_iter rfc3720 full_reads (journal_iter_new (reader_open c)) = (records_at 0 (take k ps) @ rest, Inr (), it)"
    by blast
  have "ps = [[7]]" using frames_single [of rfc3720 ps "[7]"] ps(1,2) small_record_ok [of "[7]"] by simp
  with ps(3) [of 1] show ?thesis by (simp add: FRAME_OVERHEAD_def)
qed

theorem buffered_journal_recovers_witness:
  "\<exists>st rest it. (buffered_step rfc3720)\<^sup>*\<^sup>* (buffered_init 1 \<lparr>contents = [], script = [], oom = False\<rparr>) st \<and>
     spcs st ! 0 = SyncDone 13 (Inr ()) \<and>
     crash_image (stable st) (contents (bdisk (backend st))) (frame rfc3720 [7] @ [9]) \<and>
     drain_iter rfc3720 full_reads (journal_iter_new (reader_open (frame rfc3720 [7] @ [9]))) =
       (JournalRecord 0 [7] # rest, Inr (), it)"
proof -
  obtain st where st: "(buffered_step rfc3720)\<^sup>*\<^sup>* (buffered_init 1 \<lparr>contents = [], script = [], oom = False\<rparr>) st"
    "spcs st ! 0 = SyncDone 13 (Inr ())" "goals st ! 0 = 13" "blog (backend st) = frame rfc3720 [7]"
    "crash_image (stable st) (contents (bdisk (backend st))) (frame rfc3720 [7] @ [9])"
    using buffered_sample_run by blast
  have sc: "scan rfc3720 (contents \<lparr>contents = [], script = [], oom = False\<rparr>) 0 =
      ([], length (contents \<lparr>contents = [], script = [], oom = False\<rparr>), CleanEnd)" by (simp add: scan_empty)
  have rd: "reads_ok full_reads (length (frame rfc3720 [7] @ [9]))" by (simp add: full_reads_ok FRAME_OVERHEAD_def)
  from buffered_journal_recovers [OF st(1) _ rfc3720_streaming _ st(2,5) sc rd] st(3,4)
  have "\<exists>rest it. drain_iter rfc3720 full_reads (journal_iter_new (reader_open (frame rfc3720 [7] @ [9]))) =
      (JournalRecord 0 [7] # rest, Inr (), it)" by (intro one_record_read_back) auto
  with st show ?thesis by blast
qed

text \<open>
  C7: The same promise when tasks and threads share the journal: appends and syncs that go through the
  ring, beside blocking ones, with futures that are dropped at any wait, writes and fsyncs that fail
  or come back short, and a driver that stops with work in flight. A sync that returns Ok, of either
  kind, covers every append below its LSN, also those whose caller is gone.
\<close>

theorem async_journal_recovers:
  assumes "(async_step C)\<^sup>*\<^sup>* (async_init n d) st" and "n < 2 ^ 64" and "crc_streaming_ok C"
    and "t < n" and "spcs st ! t = SyncDone l (Inr ())"
    and "crash_image (stable st) (contents (bdisk (jb (backend st)))) c"
    and "scan C (contents d) 0 = (rs, length (contents d), end_state)" and "reads_ok rd (length c)"
  shows "\<exists>ps. blog (jb (backend st)) = contents d @ frames C ps \<and> list_all record_ok ps \<and>
    (\<forall>k. 0 < k \<longrightarrow> k \<le> length ps \<longrightarrow> length (contents d) + length (frames C (take k ps)) \<le> goals st ! t \<longrightarrow>
      (\<exists>rest it. drain_iter C rd (journal_iter_new (reader_open c)) =
        (rs @ records_at (length (contents d)) (take k ps) @ rest, Inr (), it)))"
proof -
  from async_sync_is_durable [OF assms(1-6)] obtain ps where
    ps: "list_all record_ok ps" "blog (jb (backend st)) = contents d @ frames C ps"
      "take (goals st ! t) c = take (goals st ! t) (contents d @ frames C ps)" by blast
  with synced_prefix_recovered [OF ps(3,1) assms(7) _ _ _ assms(8)] show ?thesis by blast
qed

theorem async_journal_recovers_witness:
  "\<exists>st rest it. (async_step rfc3720)\<^sup>*\<^sup>* (async_init 1 \<lparr>contents = [], script = [], oom = False\<rparr>) st \<and>
     spcs st ! 0 = SyncDone 13 (Inr ()) \<and>
     crash_image (stable st) (contents (bdisk (jb (backend st)))) (frame rfc3720 [7] @ [9]) \<and>
     drain_iter rfc3720 full_reads (journal_iter_new (reader_open (frame rfc3720 [7] @ [9]))) =
       (JournalRecord 0 [7] # rest, Inr (), it)"
proof -
  obtain st where st: "(async_step rfc3720)\<^sup>*\<^sup>* (async_init 1 \<lparr>contents = [], script = [], oom = False\<rparr>) st"
    "spcs st ! 0 = SyncDone 13 (Inr ())" "goals st ! 0 = 13" "blog (jb (backend st)) = frame rfc3720 [7]"
    "crash_image (stable st) (contents (bdisk (jb (backend st)))) (frame rfc3720 [7] @ [9])"
    using async_sample_run by blast
  have sc: "scan rfc3720 (contents \<lparr>contents = [], script = [], oom = False\<rparr>) 0 =
      ([], length (contents \<lparr>contents = [], script = [], oom = False\<rparr>), CleanEnd)" by (simp add: scan_empty)
  have rd: "reads_ok full_reads (length (frame rfc3720 [7] @ [9]))" by (simp add: full_reads_ok FRAME_OVERHEAD_def)
  from async_journal_recovers [OF st(1) _ rfc3720_streaming _ st(2,5) sc rd] st(3,4)
  have "\<exists>rest it. drain_iter rfc3720 full_reads (journal_iter_new (reader_open (frame rfc3720 [7] @ [9]))) =
      (JournalRecord 0 [7] # rest, Inr (), it)" by (intro one_record_read_back) auto
  with st show ?thesis by blast
qed

text \<open>
  C6: The Direct-IO journal keeps the same promise: when a sync returns Ok and the machine loses power
  at that moment, every record whose frame lies below the LSN the sync covered is read back, after
  the records the journal was opened with, although the last sector was written in part and is
  written again later.
\<close>

theorem direct_journal_recovers:
  assumes "(direct_step C)\<^sup>*\<^sup>* (direct_init n lb d log) st"
    and "at_rest lb d log" and "take (length log) (contents d) = log"
    and "t < n" and "spcs st ! t = SyncDone l (Inr ())"
    and "crash_image (stable st) (contents (disk_of (backend st))) c"
    and "scan C log 0 = (rs, length log, end_state)" and "reads_ok rd (length c)"
  shows "\<exists>ps. log_of (backend st) = log @ frames C ps \<and> list_all record_ok ps \<and>
    (\<forall>k. 0 < k \<longrightarrow> k \<le> length ps \<longrightarrow> length log + length (frames C (take k ps)) \<le> goals st ! t \<longrightarrow>
      (\<exists>rest it. drain_iter C rd (journal_iter_new (reader_open c)) =
        (rs @ records_at (length log) (take k ps) @ rest, Inr (), it)))"
proof -
  from direct_sync_is_durable [OF assms(1-6)] obtain ps where
    ps: "list_all record_ok ps" "log_of (backend st) = log @ frames C ps"
      "take (goals st ! t) c = take (goals st ! t) (log @ frames C ps)" by blast
  with synced_prefix_recovered [OF ps(3,1) assms(7) _ _ _ assms(8)] show ?thesis by blast
qed

theorem direct_journal_recovers_witness:
  "\<exists>st c rest it. (direct_step rfc3720)\<^sup>*\<^sup>* (direct_init 1 fresh_buffer fresh_disk []) st \<and>
     spcs st ! 0 = SyncDone 13 (Inr ()) \<and> crash_image (stable st) (contents (disk_of (backend st))) c \<and>
     drain_iter rfc3720 full_reads (journal_iter_new (reader_open c)) = (JournalRecord 0 [7] # rest, Inr (), it)"
proof -
  obtain st where st: "(direct_step rfc3720)\<^sup>*\<^sup>* (direct_init 1 fresh_buffer fresh_disk []) st"
    "spcs st ! 0 = SyncDone 13 (Inr ())" "goals st ! 0 = 13" "log_of (backend st) = frame rfc3720 [7]"
    "crash_image (stable st) (contents (disk_of (backend st))) (contents (disk_of (backend st)) @ [9])"
    "length (contents (disk_of (backend st))) \<le> 16"
    using direct_sample_run by blast
  let ?c = "contents (disk_of (backend st)) @ [9]"
  have sc: "scan rfc3720 [] 0 = ([], length ([] :: bytes), CleanEnd)" by (simp add: scan_empty)
  have rd: "reads_ok full_reads (length ?c)" using st(6) by (simp add: full_reads_ok)
  from direct_journal_recovers [OF st(1) fresh_at_rest _ _ st(2,5) sc rd] st(3,4)
  have "\<exists>rest it. drain_iter rfc3720 full_reads (journal_iter_new (reader_open ?c)) = (JournalRecord 0 [7] # rest, Inr (), it)"
    by (intro one_record_read_back) auto
  with st show ?thesis by blast
qed

end
